(* ===== verification/Prelude.thy ===== *)
theory Prelude
  imports Main "HOL-Library.Word" "HOL-Library.Char_ord" "HOL-Library.List_Lexorder"
begin

text \<open>
  What the components share: characters and decimal numbers as the C++ standard library
  writes and reads them, splitting text at a separator, the round-trip interface every
  wire format of the system is proved against, and the collections of rewrite rules the
  component proofs draw on.
\<close>

named_theorems ring_simps \<open>facts about clockwise distances on the identifier ring\<close>
named_theorems wire_simps \<open>round-trip facts of the wire formats\<close>
named_theorems raft_simps \<open>what one Raft helper changes and what it leaves alone\<close>

type_synonym u64 = "64 word"
type_synonym byte = "8 word"

section \<open>Characters and decimal numbers\<close>

text \<open>A decimal digit, \<^verbatim>\<open>c >= '0' && c <= '9'\<close>, and its value \<^verbatim>\<open>c - '0'\<close>.\<close>

definition is_digit :: "char \<Rightarrow> bool" where
  "is_digit c \<longleftrightarrow> 48 \<le> (of_char c :: nat) \<and> (of_char c :: nat) \<le> 57"

definition digit_val :: "char \<Rightarrow> nat" where
  "digit_val c = of_char c - 48"

definition digit_char :: "nat \<Rightarrow> char" where
  "digit_char n = char_of (48 + n)"

text \<open>\<^verbatim>\<open>std::to_string\<close> of an unsigned number.\<close>

fun to_string :: "nat \<Rightarrow> string" where
  "to_string n = (if n < 10 then [digit_char n] else to_string (n div 10) @ [digit_char (n mod 10)])"

declare to_string.simps [simp del]

text \<open>\<^verbatim>\<open>std::to_string\<close> of a signed number.\<close>

definition to_string_int :: "int \<Rightarrow> string" where
  "to_string_int i = (if i < 0 then CHR ''-'' # to_string (nat (- i)) else to_string (nat i))"

text \<open>
  The loop every number parser of the system runs: \<^verbatim>\<open>value = value * 10 + (c - '0')\<close>,
  giving up at the first character that is not a digit.
\<close>

fun digits_from :: "nat \<Rightarrow> string \<Rightarrow> nat option" where
  "digits_from v [] = Some v"
| "digits_from v (c # cs) = (if is_digit c then digits_from (v * 10 + digit_val c) cs else None)"

lemma is_digit_digit_char [simp]: "n < 10 \<Longrightarrow> is_digit (digit_char n)"
  by (simp add: is_digit_def digit_char_def)

lemma digit_val_digit_char [simp]: "n < 10 \<Longrightarrow> digit_val (digit_char n) = n"
  by (simp add: digit_val_def digit_char_def)

lemma digit_char_digit_val: "is_digit c \<Longrightarrow> digit_char (digit_val c) = c"
  by (simp add: is_digit_def digit_val_def digit_char_def)

lemma digit_val_less [simp]: "is_digit c \<Longrightarrow> digit_val c < 10"
  unfolding is_digit_def digit_val_def by linarith

lemma is_digit_zero [simp]: "is_digit CHR ''0''"
  by (simp add: is_digit_def)

lemma is_digit_not_sep [simp]:
  "\<not> is_digit CHR '' ''" "\<not> is_digit (CHR 0x0A)" "\<not> is_digit CHR '':''" "\<not> is_digit CHR ''-''"
  "\<not> is_digit CHR ''.''" "\<not> is_digit CHR '',''" "\<not> is_digit (CHR 0x00)" "\<not> is_digit CHR ''#''"
  by (simp_all add: is_digit_def)

lemma digit_char_eq_zero: "n < 10 \<Longrightarrow> digit_char n = CHR ''0'' \<longleftrightarrow> n = 0"
proof
  assume n: "n < 10" and z: "digit_char n = CHR ''0''"
  have "digit_val (digit_char n) = 0" unfolding z by (simp add: digit_val_def)
  with n show "n = 0" by simp
next
  have "digit_char 0 = CHR ''0''" by code_simp
  then show "n = 0 \<Longrightarrow> digit_char n = CHR ''0''" by simp
qed

lemma digit_chars [simp]:
  "digit_char 0 = CHR ''0''" "digit_char (Suc 0) = CHR ''1''" "digit_char 1 = CHR ''1''" "digit_char 2 = CHR ''2''"
  "digit_char 3 = CHR ''3''" "digit_char 4 = CHR ''4''" "digit_char 5 = CHR ''5''"
  "digit_char 6 = CHR ''6''" "digit_char 7 = CHR ''7''" "digit_char 8 = CHR ''8''"
  "digit_char 9 = CHR ''9''"
  by code_simp+

lemma digits_from_append:
  "digits_from v (xs @ ys) = (case digits_from v xs of None \<Rightarrow> None | Some w \<Rightarrow> digits_from w ys)"
  by (induction xs arbitrary: v) auto

lemma digits_from_to_string [simp]: "digits_from 0 (to_string n) = Some n"
proof (induction n rule: to_string.induct)
  case (1 n)
  then show ?case
    by (cases "n < 10") (simp_all add: to_string.simps [of n] digits_from_append)
qed

lemma digits_from_Some_digits: "digits_from v s = Some n \<Longrightarrow> list_all is_digit s"
  by (induction s arbitrary: v) (auto split: if_splits)

lemma to_string_digits [simp]: "list_all is_digit (to_string n)"
  by (rule digits_from_Some_digits [OF digits_from_to_string])

lemma to_string_nonempty [simp]: "to_string n \<noteq> []" "[] \<noteq> to_string n"
  by (subst to_string.simps, simp)+

lemma to_string_inj [simp]: "to_string m = to_string n \<longleftrightarrow> m = n"
  by (metis digits_from_to_string option.inject)

lemma to_string_hd_zero: "hd (to_string n) = CHR ''0'' \<longleftrightarrow> n = 0"
proof (induction n rule: to_string.induct)
  case (1 n)
  then show ?case
    by (cases "n < 10") (simp_all add: to_string.simps [of n] digit_char_eq_zero)
qed

lemma to_string_length_le: "n < 10 ^ k \<Longrightarrow> 0 < k \<Longrightarrow> length (to_string n) \<le> k"
proof (induction n arbitrary: k rule: to_string.induct)
  case (1 n)
  show ?case
  proof (cases "n < 10")
    case True
    with 1 show ?thesis by (simp add: to_string.simps [of n])
  next
    case False
    with 1 obtain j where j: "k = Suc j" by (cases k) auto
    with False "1.prems" have "0 < j" by (cases j) auto
    moreover have "n div 10 < 10 ^ j" using "1.prems" j by (simp add: less_mult_imp_div_less mult.commute)
    ultimately show ?thesis using "1.IH" False j by (simp add: to_string.simps [of n])
  qed
qed

text \<open>The value of a run of digits, and that it is below ten to the run's length.\<close>

lemma digits_from_bound: "digits_from v s = Some n \<Longrightarrow> n < (v + 1) * 10 ^ length s"
proof (induction s arbitrary: v)
  case Nil
  then show ?case by simp
next
  case (Cons c s)
  then have d: "is_digit c" and "digits_from (v * 10 + digit_val c) s = Some n"
    by (auto split: if_splits)
  with Cons.IH have "n < (v * 10 + digit_val c + 1) * 10 ^ length s" by blast
  also have "\<dots> \<le> ((v + 1) * 10) * 10 ^ length s"
  proof (rule mult_le_mono1)
    show "v * 10 + digit_val c + 1 \<le> (v + 1) * 10" using digit_val_less [OF d] by simp
  qed
  finally show ?case by (simp add: algebra_simps)
qed

lemma digits_from_ge: "digits_from v s = Some n \<Longrightarrow> v * 10 ^ length s \<le> n"
proof (induction s arbitrary: v)
  case (Cons c s)
  then have "digits_from (v * 10 + digit_val c) s = Some n" by (auto split: if_splits)
  with Cons.IH have "(v * 10 + digit_val c) * 10 ^ length s \<le> n" by blast
  then show ?case by (simp add: algebra_simps)
qed simp

text \<open>A run of digits with no superfluous leading zero is the canonical rendering of its value.\<close>

lemma to_string_snoc:
  assumes "0 < v" "is_digit c"
  shows "to_string (v * 10 + digit_val c) = to_string v @ [c]"
proof -
  have "digit_val c < 10" using assms by simp
  then have "(v * 10 + digit_val c) div 10 = v" and "(v * 10 + digit_val c) mod 10 = digit_val c"
    by simp_all
  then show ?thesis
    using assms by (subst to_string.simps) (simp add: digit_char_digit_val)
qed

lemma digits_from_canonical: "digits_from v s = Some n \<Longrightarrow> 0 < v \<Longrightarrow> to_string n = to_string v @ s"
proof (induction s arbitrary: v)
  case (Cons c s)
  then have d: "is_digit c" and r: "digits_from (v * 10 + digit_val c) s = Some n"
    by (auto split: if_splits)
  from Cons.IH [OF r] Cons.prems(2) d show ?case by (simp add: to_string_snoc)
qed simp

lemma to_string_of_digits:
  assumes "digits_from 0 s = Some n" "s \<noteq> []" "length s > 1 \<longrightarrow> hd s \<noteq> CHR ''0''"
  shows "to_string n = s"
proof (cases s)
  case Nil
  with assms show ?thesis by simp
next
  case (Cons c cs)
  with assms have d: "is_digit c" and r: "digits_from (digit_val c) cs = Some n"
    by (auto split: if_splits)
  have one: "to_string (digit_val c) = [c]"
    using d by (subst to_string.simps) (simp add: digit_char_digit_val)
  show ?thesis
  proof (cases "cs = []")
    case True
    with r one Cons show ?thesis by simp
  next
    case False
    with Cons assms have "c \<noteq> CHR ''0''" by simp
    then have "0 < digit_val c" using d digit_char_digit_val digit_char_eq_zero digit_val_less
      by (metis gr0I)
    with digits_from_canonical [OF r] one Cons show ?thesis by simp
  qed
qed

section \<open>Text\<close>

text \<open>
  \<^verbatim>\<open>s.compare(0, n, p) == 0\<close> with \<open>n\<close> the length of \<open>p\<close>: the text starts with \<open>p\<close>.
\<close>

definition starts_with :: "string \<Rightarrow> string \<Rightarrow> bool" where
  "starts_with p s \<longleftrightarrow> take (length p) s = p"

lemma starts_with_append [simp]: "starts_with p (p @ s)"
  by (simp add: starts_with_def)

text \<open>
  Cutting text at every occurrence of a separator. A leading, trailing or doubled
  separator gives an empty piece, and there is always at least one piece.
\<close>

function split_on :: "'a \<Rightarrow> 'a list \<Rightarrow> 'a list list" where
  "split_on c s =
     (case dropWhile (\<lambda>x. x \<noteq> c) s of
        [] \<Rightarrow> [s]
      | _ # rest \<Rightarrow> takeWhile (\<lambda>x. x \<noteq> c) s # split_on c rest)"
  by pat_completeness auto
termination
proof (relation "measure (length \<circ> snd)")
  fix c :: 'a and s x rest
  assume "dropWhile (\<lambda>x. x \<noteq> c) s = x # rest"
  then have "length (x # rest) \<le> length s" by (metis length_dropWhile_le)
  then show "((c, rest), c, s) \<in> measure (length \<circ> snd)" by simp
qed simp

declare split_on.simps [simp del]

lemma split_on_Nil [simp]: "split_on c [] = [[]]"
  by (simp add: split_on.simps)

lemma split_on_Cons [simp]:
  "split_on c (x # s) =
     (if x = c then [] # split_on c s else (x # hd (split_on c s)) # tl (split_on c s))"
proof (cases "x = c")
  case False
  then show ?thesis
    by (cases "dropWhile (\<lambda>x. x \<noteq> c) s")
      (simp_all add: split_on.simps [of c "x # s"] split_on.simps [of c s] del: dropWhile_eq_Nil_conv)
next
  case True
  then show ?thesis by (simp add: split_on.simps [of c "c # s"])
qed

declare split_on_Nil [code] split_on_Cons [code]

lemma split_on_nonempty [simp]: "split_on c s \<noteq> []"
  by (cases s) simp_all

lemma split_on_append_sep:
  "c \<notin> set w \<Longrightarrow> split_on c (w @ c # s) = w # split_on c s"
  by (induction w) auto

lemma split_on_no_sep: "c \<notin> set w \<Longrightarrow> split_on c w = [w]"
  by (induction w) auto

text \<open>Words joined by single separators, the inverse of \<open>split_on\<close>.\<close>

fun join_with :: "'a \<Rightarrow> 'a list list \<Rightarrow> 'a list" where
  "join_with c [] = []"
| "join_with c [w] = w"
| "join_with c (w # ws) = w @ c # join_with c ws"

lemma join_split [simp]: "join_with c (split_on c s) = s"
proof (induction s)
  case (Cons x s)
  obtain w ws where s: "split_on c s = w # ws" by (cases "split_on c s") auto
  with Cons show ?case by (cases ws) auto
qed simp

lemma split_join:
  "ws \<noteq> [] \<Longrightarrow> (\<forall>w\<in>set ws. c \<notin> set w) \<Longrightarrow> split_on c (join_with c ws) = ws"
  by (induction c ws rule: join_with.induct) (auto simp: split_on_append_sep split_on_no_sep)

lemma split_on_words_no_sep: "w \<in> set (split_on c s) \<Longrightarrow> c \<notin> set w"
proof (induction s arbitrary: w)
  case (Cons x s)
  then show ?case
    by (cases "split_on c s") (auto split: if_splits)
qed simp

text \<open>
  \<^verbatim>\<open>std::getline(in, item, delim)\<close> called until it fails: like cutting at the delimiter,
  except that nothing follows a final delimiter and empty text gives no item.
\<close>

definition getlines :: "char \<Rightarrow> string \<Rightarrow> string list" where
  "getlines d s =
     (if s = [] then []
      else let ws = split_on d s in if last ws = [] then butlast ws else ws)"

lemma getlines_single: "s \<noteq> [] \<Longrightarrow> d \<notin> set s \<Longrightarrow> getlines d s = [s]"
  by (simp add: getlines_def split_on_no_sep)

lemma digits_no_sep: "list_all is_digit s \<Longrightarrow> \<not> is_digit c \<Longrightarrow> c \<notin> set s"
  by (auto simp: list_all_iff)

lemma to_string_no_sep [simp]: "\<not> is_digit c \<Longrightarrow> c \<notin> set (to_string n)"
  using digits_no_sep to_string_digits by blast

section \<open>Round trips as an interface\<close>

text \<open>
  A wire or disk format: a writer, a reader that may refuse, and the values the writer is
  used on. \<open>strict_codec\<close> adds that the reader accepts nothing but what the writer writes,
  so that one value has one spelling.
\<close>

locale codec =
  fixes enc :: "'a \<Rightarrow> 'b" and dec :: "'b \<Rightarrow> 'a option" and ok :: "'a \<Rightarrow> bool"
  assumes dec_enc: "ok x \<Longrightarrow> dec (enc x) = Some x"
begin

lemma enc_inj: "ok x \<Longrightarrow> ok y \<Longrightarrow> enc x = enc y \<Longrightarrow> x = y"
  by (metis dec_enc option.inject)

end

locale strict_codec = codec +
  assumes enc_dec: "dec s = Some x \<Longrightarrow> ok x \<and> enc x = s"
begin

lemma dec_inj: "dec s = Some x \<Longrightarrow> dec t = Some x \<Longrightarrow> s = t"
  by (metis enc_dec)

lemma dec_iff: "dec s = Some x \<longleftrightarrow> ok x \<and> s = enc x"
  by (metis dec_enc enc_dec)

end

section \<open>Lists\<close>

lemma list_all_takeWhile: "list_all P xs \<Longrightarrow> takeWhile P xs = xs"
  by (simp add: list_all_iff takeWhile_eq_all_conv)

lemma nth_upd_same_length [simp]: "length (xs[i := x]) = length xs"
  by simp

text \<open>\<^verbatim>\<open>std::count(v.begin(), v.end(), true)\<close>.\<close>

definition count_true :: "bool list \<Rightarrow> nat" where
  "count_true bs = length (filter id bs)"

lemma count_true_card: "count_true bs = card {i. i < length bs \<and> bs ! i}"
  by (simp add: count_true_def length_filter_conv_card)

end
