(* ===== verification/Platform.thy ===== *)
theory Platform
  imports Prelude
begin

text \<open>
  The code the program calls but does not contain: OpenSSL's \<^verbatim>\<open>SHA1\<close> and the C
  library's \<^verbatim>\<open>inet_pton\<close> and \<^verbatim>\<open>inet_ntop\<close>. They are the fields of a record that the
  definitions using them take as an argument; \<open>platform_ok\<close> states what their
  documentation promises. On top of them stand \<^verbatim>\<open>src/sha1.h\<close>'s own \<^verbatim>\<open>to_hex\<close> and \<^verbatim>\<open>sha1\<close>.
\<close>

record platform =
  SHA1 :: "string \<Rightarrow> byte list"
  inet_pton :: "string \<Rightarrow> 32 word option"
  inet_ntop :: "32 word \<Rightarrow> string"

text \<open>
  SHA-1 digests are 20 bytes; a rendered IPv4 address is a non-empty run of digits and dots
  and parses back to the address it renders.
\<close>

definition platform_ok :: "platform \<Rightarrow> bool" where
  "platform_ok P \<longleftrightarrow>
     (\<forall>x. length (SHA1 P x) = 20) \<and>
     (\<forall>a. inet_pton P (inet_ntop P a) = Some a) \<and>
     (\<forall>a. inet_ntop P a \<noteq> [] \<and> list_all (\<lambda>c. is_digit c \<or> c = CHR ''.'') (inet_ntop P a))"

section \<open>Hexadecimal\<close>

text \<open>One lowercase hexadecimal digit, as \<^verbatim>\<open>std::hex\<close> and \<^verbatim>\<open>%x\<close> write it.\<close>

definition hex_char :: "nat \<Rightarrow> char" where
  "hex_char n = (if n < 10 then char_of (48 + n) else char_of (87 + n))"

definition is_lower_hex :: "char \<Rightarrow> bool" where
  "is_lower_hex c \<longleftrightarrow>
     (48 \<le> (of_char c :: nat) \<and> (of_char c :: nat) \<le> 57) \<or>
     (97 \<le> (of_char c :: nat) \<and> (of_char c :: nat) \<le> 102)"

definition to_hex :: "byte list \<Rightarrow> string" where
  "to_hex bs = concat (map (\<lambda>b. [hex_char (unat b div 16), hex_char (unat b mod 16)]) bs)"

definition sha1 :: "platform \<Rightarrow> string \<Rightarrow> string" where
  "sha1 P s = to_hex (SHA1 P s)"

lemma is_lower_hex_hex_char [simp]: "n < 16 \<Longrightarrow> is_lower_hex (hex_char n)"
  by (simp add: is_lower_hex_def hex_char_def)

lemma of_char_hex_char: "n < 16 \<Longrightarrow> of_char (hex_char n) = (if n < 10 then 48 + n else 87 + n)"
  by (simp add: hex_char_def)

lemma to_hex_length: "length (to_hex bs) = 2 * length bs"
  by (induction bs) (simp_all add: to_hex_def)

lemma byte_div_less [simp]: "unat (b :: byte) div 16 < 16"
  using unsigned_less [of b, where ?'a = nat] by (simp add: less_mult_imp_div_less)

lemma to_hex_lower: "list_all is_lower_hex (to_hex bs)"
  by (induction bs) (simp_all add: to_hex_def)

lemma sha1_length: "platform_ok P \<Longrightarrow> length (sha1 P s) = 40"
  by (simp add: sha1_def to_hex_length platform_ok_def)

lemma sha1_lower: "list_all is_lower_hex (sha1 P s)"
  by (simp add: sha1_def to_hex_lower)

lemma lower_hex_no_sep:
  "list_all is_lower_hex s \<Longrightarrow> \<not> is_lower_hex c \<Longrightarrow> c \<notin> set s"
  by (auto simp: list_all_iff)

lemma is_lower_hex_not_sep [simp]:
  "\<not> is_lower_hex CHR '' ''" "\<not> is_lower_hex (CHR 0x0A)"
  by (simp_all add: is_lower_hex_def)

section \<open>IPv4 addresses\<close>

text \<open>\<^verbatim>\<open>s.c_str()\<close> as a C function reads it: up to the first NUL byte.\<close>

definition c_str :: "string \<Rightarrow> string" where
  "c_str s = takeWhile (\<lambda>c. c \<noteq> CHR 0x00) s"

text \<open>
  Parse an address and render it again, as \<^verbatim>\<open>parse_member\<close> and \<^verbatim>\<open>parse_reply_ip\<close> do.
\<close>

definition canonical_ip :: "platform \<Rightarrow> string \<Rightarrow> string option" where
  "canonical_ip P s = map_option (inet_ntop P) (inet_pton P (c_str s))"

text \<open>An address text that is the rendering of an address.\<close>

definition valid_ip :: "platform \<Rightarrow> string \<Rightarrow> bool" where
  "valid_ip P s \<longleftrightarrow> canonical_ip P s = Some s"

lemma ntop_chars:
  "platform_ok P \<Longrightarrow> \<not> is_digit c \<Longrightarrow> c \<noteq> CHR ''.'' \<Longrightarrow> c \<notin> set (inet_ntop P a)"
  by (auto simp: platform_ok_def list_all_iff)

lemma c_str_ntop: "platform_ok P \<Longrightarrow> c_str (inet_ntop P a) = inet_ntop P a"
  using ntop_chars [of P "CHR 0x00" a] by (auto simp: c_str_def takeWhile_eq_all_conv)

lemma canonical_ip_ntop: "platform_ok P \<Longrightarrow> canonical_ip P (inet_ntop P a) = Some (inet_ntop P a)"
  by (simp add: canonical_ip_def c_str_ntop platform_ok_def)

lemma canonical_ip_valid: "platform_ok P \<Longrightarrow> canonical_ip P s = Some t \<Longrightarrow> valid_ip P t"
  by (auto simp: valid_ip_def canonical_ip_def c_str_ntop platform_ok_def)

lemma valid_ip_chars:
  "platform_ok P \<Longrightarrow> valid_ip P s \<Longrightarrow> \<not> is_digit c \<Longrightarrow> c \<noteq> CHR ''.'' \<Longrightarrow> c \<notin> set s"
  by (auto simp: valid_ip_def canonical_ip_def dest: ntop_chars)

lemma valid_ip_no_sep [simp]:
  assumes "platform_ok P" "valid_ip P s"
  shows "CHR '' '' \<notin> set s" "CHR 0x0A \<notin> set s" "CHR '':'' \<notin> set s" "CHR 0x00 \<notin> set s"
  by (rule valid_ip_chars [OF assms], simp_all)+

lemma valid_ip_nonempty: "platform_ok P \<Longrightarrow> valid_ip P s \<Longrightarrow> s \<noteq> []"
  by (auto simp: valid_ip_def canonical_ip_def platform_ok_def)

end
