(* ===== verification/Chord.thy ===== *)
theory Chord
  imports Platform
begin

text \<open>
  \<^verbatim>\<open>src/chord.h\<close> and \<^verbatim>\<open>src/chord.cpp\<close>: routing identifiers and their wire form, arcs of
  the identifier ring, the fixed ring built from a membership list, and one routing step.
  The lemmas describe every arc test by one clockwise distance, \<open>gap\<close>, and show that a
  routing step on a correct table either names the key's owner or more than halves the
  distance that is left.
\<close>

unbundle bit_operations_syntax

section \<open>Identifiers\<close>

type_synonym Id = u64

definition ID_BITS :: nat where
  "ID_BITS = 64"

definition hex_nibble :: "char \<Rightarrow> nat option" where
  "hex_nibble c =
     (let n = of_char c :: nat in
      if 48 \<le> n \<and> n \<le> 57 then Some (n - 48)
      else if 97 \<le> n \<and> n \<le> 102 then Some (n - 97 + 10)
      else if 65 \<le> n \<and> n \<le> 70 then Some (n - 65 + 10)
      else None)"

text \<open>\<^verbatim>\<open>value = (value << 4) | nibble\<close>.\<close>

definition push_nibble :: "Id \<Rightarrow> nat \<Rightarrow> Id" where
  "push_nibble v n = push_bit 4 v OR of_nat n"

text \<open>
  The loop of \<^verbatim>\<open>id_from_key\<close>: every character is checked, the first sixteen are used.
\<close>

fun id_from_key_loop :: "nat \<Rightarrow> Id \<Rightarrow> string \<Rightarrow> Id option" where
  "id_from_key_loop i v [] = Some v"
| "id_from_key_loop i v (c # cs) =
     (case hex_nibble c of
        None \<Rightarrow> None
      | Some n \<Rightarrow> id_from_key_loop (Suc i) (if i < 16 then push_nibble v n else v) cs)"

definition id_from_key :: "string \<Rightarrow> Id option" where
  "id_from_key hex_key = (if length hex_key \<noteq> 40 then None else id_from_key_loop 0 0 hex_key)"

text \<open>\<^verbatim>\<open>%016llx\<close>: sixteen lowercase hexadecimal digits, zero-padded.\<close>

fun hex_pad :: "nat \<Rightarrow> nat \<Rightarrow> string" where
  "hex_pad 0 n = []"
| "hex_pad (Suc k) n = hex_pad k (n div 16) @ [hex_char (n mod 16)]"

definition id_to_hex :: "Id \<Rightarrow> string" where
  "id_to_hex i = hex_pad 16 (unat i)"

fun id_from_hex_loop :: "Id \<Rightarrow> string \<Rightarrow> Id option" where
  "id_from_hex_loop v [] = Some v"
| "id_from_hex_loop v (c # cs) =
     (case hex_nibble c of None \<Rightarrow> None | Some n \<Rightarrow> id_from_hex_loop (push_nibble v n) cs)"

definition id_from_hex :: "string \<Rightarrow> Id option" where
  "id_from_hex hex16 = (if length hex16 \<noteq> 16 then None else id_from_hex_loop 0 hex16)"

text \<open>
  The identifier of an address, and of member \<open>i\<close> of the process there. \<open>None\<close> is the
  failed assertion.
\<close>

definition id_of_address :: "platform \<Rightarrow> string \<Rightarrow> nat \<Rightarrow> Id option" where
  "id_of_address P ip port = id_from_key (sha1 P (ip @ '':'' @ to_string port))"

definition id_of_member :: "platform \<Rightarrow> string \<Rightarrow> nat \<Rightarrow> nat \<Rightarrow> Id option" where
  "id_of_member P ip port i =
     (if i = 0 then id_of_address P ip port
      else id_from_key (sha1 P (ip @ '':'' @ to_string port @ ''#'' @ to_string i)))"

section \<open>Arcs\<close>

definition in_range_oc :: "Id \<Rightarrow> Id \<Rightarrow> Id \<Rightarrow> bool" where
  "in_range_oc k a b = (if a < b then a < k \<and> k \<le> b else a < k \<or> k \<le> b)"

definition in_range_oo :: "Id \<Rightarrow> Id \<Rightarrow> Id \<Rightarrow> bool" where
  "in_range_oo k a b = (if a < b then a < k \<and> k < b else a < k \<or> k < b)"

definition finger_start :: "Id \<Rightarrow> nat \<Rightarrow> Id" where
  "finger_start n i = n + push_bit i 1"

section \<open>The fixed ring\<close>

record Peer =
  peer_id :: Id
  peer_ip :: string
  peer_port :: nat

text \<open>\<^verbatim>\<open>std::isspace\<close> in the C locale.\<close>

definition is_space :: "char \<Rightarrow> bool" where
  "is_space c \<longleftrightarrow> c = CHR '' '' \<or> (9 \<le> (of_char c :: nat) \<and> (of_char c :: nat) \<le> 13)"

definition trim :: "string \<Rightarrow> string" where
  "trim s = rev (dropWhile is_space (rev (dropWhile is_space s)))"

definition parse_port :: "string \<Rightarrow> nat option" where
  "parse_port s =
     (if s = [] \<or> length s > 5 then None
      else case digits_from 0 s of
        None \<Rightarrow> None
      | Some v \<Rightarrow> if v < 1 \<or> v > 65535 then None else Some v)"

definition parse_member :: "platform \<Rightarrow> string \<Rightarrow> Peer option" where
  "parse_member P entry =
     (if CHR 0x00 \<in> set entry then None
      else case split_on (CHR '':'') entry of
        [host, port_text] \<Rightarrow>
          (case parse_port port_text of
             None \<Rightarrow> None
           | Some port \<Rightarrow>
               (case canonical_ip P host of
                  None \<Rightarrow> None
                | Some ip \<Rightarrow>
                    map_option (\<lambda>i. \<lparr>peer_id = i, peer_ip = ip, peer_port = port\<rparr>)
                      (id_of_address P ip port)))
      | _ \<Rightarrow> None)"

definition peer_address :: "Peer \<Rightarrow> string" where
  "peer_address p = peer_ip p @ '':'' @ to_string (peer_port p)"

text \<open>The adjacent scan of \<^verbatim>\<open>validate_ring\<close>, after sorting.\<close>

fun scan_collisions :: "Peer list \<Rightarrow> string option" where
  "scan_collisions (a # b # rest) =
     (if peer_id a \<noteq> peer_id b then scan_collisions (b # rest)
      else if peer_address a = peer_address b
        then Some (''duplicate member '' @ peer_address a)
      else Some (''identifier collision between '' @ peer_address a @ '' and '' @ peer_address b))"
| "scan_collisions _ = None"

definition validate_ring :: "Peer list \<Rightarrow> string + Peer list" where
  "validate_ring members =
     (if members = [] then Inl ''membership list is empty''
      else let sorted_members = sort_key peer_id members in
        case scan_collisions sorted_members of
          Some err \<Rightarrow> Inl err
        | None \<Rightarrow> Inr sorted_members)"

fun parse_members_loop :: "platform \<Rightarrow> nat \<Rightarrow> string list \<Rightarrow> string + Peer list" where
  "parse_members_loop P line_no [] = Inr []"
| "parse_members_loop P line_no (raw # rest) =
     (let n = Suc line_no; line = trim raw in
      if line = [] \<or> hd line = CHR ''#'' then parse_members_loop P n rest
      else case parse_member P line of
        None \<Rightarrow> Inl (''line '' @ to_string n @ '': not an IPv4 ip:port'')
      | Some p \<Rightarrow>
          (case parse_members_loop P n rest of
             Inl e \<Rightarrow> Inl e
           | Inr ps \<Rightarrow> Inr (p # ps)))"

definition parse_members :: "platform \<Rightarrow> string \<Rightarrow> string + Peer list" where
  "parse_members P text =
     (case parse_members_loop P 0 (getlines (CHR 0x0A) text) of
        Inl e \<Rightarrow> Inl e
      | Inr members \<Rightarrow> validate_ring members)"

text \<open>
  \<^verbatim>\<open>std::lower_bound\<close> splits a sorted list before the first member whose identifier is not
  below the key. \<open>None\<close> is the failed assertion that the list is not empty.
\<close>

definition successor_of :: "Id \<Rightarrow> Peer list \<Rightarrow> Peer option" where
  "successor_of k ms =
     (if ms = [] then None
      else case dropWhile (\<lambda>p. peer_id p < k) ms of
        [] \<Rightarrow> Some (hd ms)
      | p # _ \<Rightarrow> Some p)"

definition predecessor_of :: "Id \<Rightarrow> Peer list \<Rightarrow> Peer option" where
  "predecessor_of k ms =
     (if ms = [] then None
      else let before = takeWhile (\<lambda>p. peer_id p < k) ms in
        if before = [] then Some (last ms) else Some (last before))"

definition build_fingers :: "Id \<Rightarrow> Peer list \<Rightarrow> Peer list option" where
  "build_fingers my_id ms = those (map (\<lambda>i. successor_of (finger_start my_id i) ms) [0..<ID_BITS])"

section \<open>One routing step\<close>

fun first_in_arc :: "Peer \<Rightarrow> Id \<Rightarrow> Peer list \<Rightarrow> Peer" where
  "first_in_arc self k [] = self"
| "first_in_arc self k (f # fs) =
     (if in_range_oo (peer_id f) (peer_id self) k then f else first_in_arc self k fs)"

definition closest_preceding_finger :: "Peer \<Rightarrow> Peer list \<Rightarrow> Id \<Rightarrow> Peer" where
  "closest_preceding_finger self fingers k = first_in_arc self k (rev fingers)"

record RouteStep =
  step_owner :: bool
  step_peer :: Peer

definition route_step :: "Peer \<Rightarrow> Peer \<Rightarrow> Peer list \<Rightarrow> Id \<Rightarrow> RouteStep" where
  "route_step self successor fingers k =
     (if in_range_oc k (peer_id self) (peer_id successor)
      then \<lparr>step_owner = True, step_peer = successor\<rparr>
      else let next = closest_preceding_finger self fingers k in
        if peer_ip next = peer_ip self \<and> peer_port next = peer_port self \<and> peer_id next = peer_id self
        then \<lparr>step_owner = False, step_peer = successor\<rparr>
        else \<lparr>step_owner = False, step_peer = next\<rparr>)"


section \<open>Clockwise distance\<close>

text \<open>
  \<open>gap k x\<close> is how far \<open>x\<close> still is from the last position before \<open>k\<close>, going clockwise:
  0 just before \<open>k\<close>, and the whole circle less one at \<open>k\<close> itself.
\<close>

definition gap :: "Id \<Rightarrow> Id \<Rightarrow> nat" where
  "gap k x = unat (k - 1 - x)"

lemma unat64_bound: "unat (x :: u64) < 18446744073709551616"
  using unsigned_less [of x, where ?'a = nat] by simp

lemma unat64_diff:
  "unat (a - b :: u64) = (if unat b \<le> unat a then unat a - unat b else 18446744073709551616 + unat a - unat b)"
  using unat64_bound [of a] unat64_bound [of b] by (auto simp: unat_sub_if')

lemma gap_eq:
  "gap k x = (if unat x < unat k then unat k - 1 - unat x else 18446744073709551615 + unat k - unat x)"
  using unat64_bound [of x] unat64_bound [of k]
  by (auto simp: gap_def unat64_diff [of "k - 1" x] unat64_diff [of k 1])

lemma gap_bound: "gap k x < 18446744073709551616"
  by (simp add: gap_def unat64_bound)

lemma gap_inj [simp]: "gap k x = gap k y \<longleftrightarrow> x = y"
  using unat64_bound [of x] unat64_bound [of y] unat64_bound [of k]
  by (auto simp: gap_eq word_unat_eq_iff split: if_splits)

lemma in_range_oo_gap [ring_simps]: "in_range_oo y x k \<longleftrightarrow> gap k y < gap k x"
  using unat64_bound [of x] unat64_bound [of y] unat64_bound [of k]
  by (auto simp: in_range_oo_def gap_eq word_less_nat_alt)

lemma in_range_oc_gap [ring_simps]: "in_range_oc k x s \<longleftrightarrow> gap k x \<le> gap k s"
  using unat64_bound [of x] unat64_bound [of s] unat64_bound [of k]
  by (auto simp: in_range_oc_def gap_eq word_less_nat_alt word_le_nat_alt)

section \<open>Identifiers on the wire\<close>

lemma hex_nibble_hex_char [simp]: "n < 16 \<Longrightarrow> hex_nibble (hex_char n) = Some n"
  by (simp add: hex_nibble_def of_char_hex_char)

lemma hex_nibble_less: "hex_nibble c = Some n \<Longrightarrow> n < 16"
  by (auto simp: hex_nibble_def Let_def split: if_splits)

lemma push_nibble_eq:
  assumes "n < 16"
  shows "push_nibble v n = v * 16 + of_nat n"
proof -
  have small: "take_bit 4 (of_nat n :: u64) = of_nat n"
    using assms by (simp add: take_bit_of_nat take_bit_nat_eq_self)
  have "\<not> bit (push_bit 4 v) j \<or> \<not> bit (of_nat n :: u64) j" for j
    by (subst small [symmetric]) (auto simp only: bit_push_bit_iff bit_take_bit_iff)
  then have "push_bit 4 v + of_nat n = push_bit 4 v OR of_nat n"
    by (rule disjunctive_add)
  then show ?thesis by (simp add: push_nibble_def push_bit_eq_mult)
qed

lemma id_from_hex_loop_append:
  "id_from_hex_loop v (xs @ ys) = Option.bind (id_from_hex_loop v xs) (\<lambda>w. id_from_hex_loop w ys)"
  by (induction xs arbitrary: v) (auto split: option.splits)

lemma id_from_hex_loop_pad:
  "n < 16 ^ k \<Longrightarrow> id_from_hex_loop v (hex_pad k n) = Some (v * 16 ^ k + of_nat n)"
proof (induction k arbitrary: n)
  case (Suc k)
  then have "n div 16 < 16 ^ k" by (simp add: less_mult_imp_div_less mult.commute)
  moreover have "(of_nat n :: u64) = of_nat (n div 16) * 16 + of_nat (n mod 16)"
    by (metis div_mult_mod_eq of_nat_add of_nat_mult of_nat_numeral)
  ultimately show ?case
    using Suc.IH by (simp add: id_from_hex_loop_append push_nibble_eq algebra_simps)
qed simp

lemma hex_pad_length [simp]: "length (hex_pad k n) = k"
  by (induction k arbitrary: n) simp_all

lemma hex_pad_lower: "list_all is_lower_hex (hex_pad k n)"
  by (induction k arbitrary: n) simp_all

lemma id_to_hex_length [simp]: "length (id_to_hex i) = 16"
  by (simp add: id_to_hex_def)

lemma id_from_hex_to_hex [wire_simps, simp]: "id_from_hex (id_to_hex i) = Some i"
  using unat64_bound [of i]
  by (simp add: id_from_hex_def id_to_hex_def id_from_hex_loop_pad)

lemma id_to_hex_no_sep [simp]: "CHR '' '' \<notin> set (id_to_hex i)" "CHR 0x0A \<notin> set (id_to_hex i)"
  unfolding id_to_hex_def by (rule lower_hex_no_sep [OF hex_pad_lower], simp)+

interpretation hex_id: codec id_to_hex id_from_hex "\<lambda>_. True"
  by unfold_locales simp

text \<open>A 40-digit key always has a routing identifier, so the two assertions never fail.\<close>

lemma is_lower_hex_nibble: "is_lower_hex c \<Longrightarrow> hex_nibble c \<noteq> None"
  by (auto simp: is_lower_hex_def hex_nibble_def Let_def)

lemma id_from_key_loop_total: "list_all is_lower_hex s \<Longrightarrow> id_from_key_loop i v s \<noteq> None"
  by (induction s arbitrary: i v) (auto split: option.splits dest: is_lower_hex_nibble)

lemma id_from_key_sha1: "platform_ok P \<Longrightarrow> id_from_key (sha1 P s) \<noteq> None"
  using id_from_key_loop_total [OF sha1_lower] by (simp add: id_from_key_def sha1_length)

text \<open>Only the first sixteen characters of a key decide its routing identifier.\<close>

lemma id_from_key_loop_tail:
  "16 \<le> i \<Longrightarrow> id_from_key_loop i v s \<noteq> None \<Longrightarrow> id_from_key_loop i v s = Some v"
  by (induction s arbitrary: i) (auto split: option.splits)

lemma id_from_key_loop_prefix:
  "i + length xs = 16 \<Longrightarrow> id_from_key_loop i v (xs @ ys) \<noteq> None \<Longrightarrow>
     id_from_key_loop i v (xs @ ys) = id_from_hex_loop v xs"
proof (induction xs arbitrary: i v)
  case Nil
  then show ?case using id_from_key_loop_tail [of i v ys] by simp
next
  case (Cons x xs)
  then show ?case by (auto split: option.splits)
qed

section \<open>Rings\<close>

definition ring_ok :: "Peer list \<Rightarrow> bool" where
  "ring_ok ms \<longleftrightarrow> ms \<noteq> [] \<and> sorted_wrt (<) (map peer_id ms)"

lemma scan_collisions_None:
  "sorted (map peer_id ms) \<Longrightarrow> scan_collisions ms = None \<Longrightarrow> sorted_wrt (<) (map peer_id ms)"
proof (induction ms rule: scan_collisions.induct)
  case (1 a b rest)
  then have "peer_id a \<noteq> peer_id b" and "scan_collisions (b # rest) = None"
    by (auto split: if_splits)
  with 1 have srt: "sorted_wrt (<) (map peer_id (b # rest))" and ab: "peer_id a < peer_id b"
    by auto
  then show ?case by (auto intro: less_trans)
qed auto

lemma scan_collisions_Some:
  "sorted (map peer_id ms) \<Longrightarrow> scan_collisions ms \<noteq> None \<Longrightarrow> \<not> distinct (map peer_id ms)"
  by (induction ms rule: scan_collisions.induct) (auto split: if_splits)

lemma successor_of_max:
  assumes "ring_ok ms"
  obtains p where "successor_of k ms = Some p" "p \<in> set ms"
    "\<And>m. m \<in> set ms \<Longrightarrow> gap k (peer_id m) \<le> gap k (peer_id p)"
proof (cases "dropWhile (\<lambda>p. peer_id p < k) ms")
  case Nil
  with assms obtain p rest where ms: "ms = p # rest" by (auto simp: ring_ok_def neq_Nil_conv)
  from Nil have below: "peer_id m < k" if "m \<in> set ms" for m using that by (auto simp: dropWhile_eq_Nil_conv)
  have "gap k (peer_id m) \<le> gap k (peer_id p)" if m: "m \<in> set ms" for m
  proof -
    have "peer_id p \<le> peer_id m" using m assms ms by (auto simp: ring_ok_def)
    then show ?thesis
      using below [OF m] below [of p] ms
      by (auto simp: gap_eq word_less_nat_alt word_le_nat_alt)
  qed
  then show thesis using Nil ms that [of p] by (simp add: successor_of_def)
next
  case (Cons p rest)
  then have split: "ms = takeWhile (\<lambda>p. peer_id p < k) ms @ p # rest"
    by (metis takeWhile_dropWhile_id)
  from Cons have pk: "\<not> peer_id p < k" by (metis hd_dropWhile list.distinct(1) list.sel(1))
  have sorted: "sorted_wrt (<) (map peer_id (takeWhile (\<lambda>p. peer_id p < k) ms @ p # rest))"
    using assms split by (simp add: ring_ok_def)
  have "gap k (peer_id m) \<le> gap k (peer_id p)" if m: "m \<in> set ms" for m
  proof -
    have "peer_id m < k \<or> m = p \<or> peer_id p < peer_id m"
    proof -
      have "m \<in> set (takeWhile (\<lambda>p. peer_id p < k) ms) \<or> m = p \<or> m \<in> set rest"
        using m split by (metis Un_iff set_ConsD set_append)
      then show ?thesis using sorted by (auto simp: sorted_wrt_append dest: set_takeWhileD)
    qed
    then show ?thesis
      using pk unat64_bound [of "peer_id p"] unat64_bound [of "peer_id m"]
      by (auto simp: gap_eq word_less_nat_alt)
  qed
  moreover have "p \<in> set ms" by (subst split) simp
  moreover have "successor_of k ms = Some p" using Cons by (auto simp: successor_of_def)
  ultimately show thesis using that [of p] by blast
qed

lemma ring_ok_inj: "ring_ok ms \<Longrightarrow> a \<in> set ms \<Longrightarrow> b \<in> set ms \<Longrightarrow> peer_id a = peer_id b \<Longrightarrow> a = b"
  by (metis distinct_map ring_ok_def inj_onD strict_sorted_iff)

text \<open>The owner of a key is the member with the largest \<open>gap\<close>, and there is exactly one.\<close>

lemma successor_ofI:
  assumes "ring_ok ms" "p \<in> set ms" "\<And>m. m \<in> set ms \<Longrightarrow> gap k (peer_id m) \<le> gap k (peer_id p)"
  shows "successor_of k ms = Some p"
proof -
  obtain q where q: "successor_of k ms = Some q" "q \<in> set ms"
    "\<And>m. m \<in> set ms \<Longrightarrow> gap k (peer_id m) \<le> gap k (peer_id q)"
    using successor_of_max [OF assms(1)] by blast
  have "gap k (peer_id q) = gap k (peer_id p)"
    using assms(3) [OF q(2)] q(3) [OF assms(2)] by (rule antisym)
  then have "q = p" using ring_ok_inj [OF assms(1) q(2) assms(2)] by simp
  with q show ?thesis by simp
qed

section \<open>A routing step on a correct table\<close>

lemma those_map_Some: "(\<And>x. x \<in> set xs \<Longrightarrow> f x = Some (g x)) \<Longrightarrow> those (map f xs) = Some (map g xs)"
  by (induction xs) auto

lemma build_fingers_some:
  assumes "ring_ok ms"
  obtains fs where "build_fingers n ms = Some fs" "length fs = ID_BITS"
    "\<And>i. i < ID_BITS \<Longrightarrow> successor_of (finger_start n i) ms = Some (fs ! i)"
proof -
  define g where "g i = the (successor_of (finger_start n i) ms)" for i
  have g: "successor_of (finger_start n i) ms = Some (g i)" for i
    unfolding g_def by (rule successor_of_max [OF assms, of "finger_start n i"]) simp
  have "build_fingers n ms = Some (map g [0..<ID_BITS])"
    unfolding build_fingers_def by (rule those_map_Some) (rule g)
  moreover have "successor_of (finger_start n i) ms = Some (map g [0..<ID_BITS] ! i)" if "i < ID_BITS" for i
    using g that by (simp del: upt_Suc)
  moreover have "length (map g [0..<ID_BITS]) = ID_BITS" by simp
  ultimately show thesis by (intro that [of "map g [0..<ID_BITS]"])
qed

lemma finger_start_zero: "finger_start n 0 = n + 1"
  by (simp add: finger_start_def)

lemma gap_self: "gap (n + d) x = unat (n - x + (d - 1))"
  by (simp add: gap_def algebra_simps)

text \<open>The distance walked from \<open>n\<close> to a member clockwise of it, and \<open>gap\<close> along the way.\<close>

lemma gap_step:
  assumes "gap k x \<le> gap k n"
  shows "unat (x - n) = gap k n - gap k x"
  using assms unat64_bound [of x] unat64_bound [of n] unat64_bound [of k]
  by (auto simp: gap_eq unat64_diff split: if_splits)

lemma pow2_word: "i < 64 \<Longrightarrow> unat (push_bit i (1 :: u64)) = 2 ^ i"
  unfolding unsigned_push_bit_eq by (simp add: take_bit_nat_eq_self)

lemma gap_finger:
  assumes "i < ID_BITS"
  shows "gap (finger_start n i) x =
    (if unat (x - n) < 2 ^ i then 2 ^ i - 1 - unat (x - n)
     else 18446744073709551615 + 2 ^ i - unat (x - n))"
proof -
  have i: "i < 64" using assms by (simp add: ID_BITS_def)
  have "gap (finger_start n i) x = gap (push_bit i 1) (x - n)"
    by (simp add: gap_def finger_start_def algebra_simps)
  then show ?thesis using i by (simp only: gap_eq [of "push_bit i 1"] pow2_word)
qed

text \<open>
  A finger that lies strictly before the key is at least \<open>2 ^ i\<close> away; a finger whose
  start is not beyond some member before the key lies between the two.
\<close>

lemma finger_far:
  assumes ring: "ring_ok ms" and n: "self \<in> set ms" and i: "i < ID_BITS"
    and f: "successor_of (finger_start (peer_id self) i) ms = Some f"
    and closer: "gap k (peer_id f) < gap k (peer_id self)"
  shows "2 ^ i \<le> gap k (peer_id self) - gap k (peer_id f)"
proof -
  define e where "e = unat (peer_id f - peer_id self)"
  have e: "e = gap k (peer_id self) - gap k (peer_id f)"
    unfolding e_def using closer by (intro gap_step) simp
  have "gap (finger_start (peer_id self) i) (peer_id self) \<le> gap (finger_start (peer_id self) i) (peer_id f)"
    using successor_of_max [OF ring, of "finger_start (peer_id self) i"] f n by force
  then have "\<not> (0 < e \<and> e < 2 ^ i)"
    unfolding e_def using i by (auto simp: gap_finger)
  with e closer show ?thesis by auto
qed

lemma finger_qualifies:
  assumes ring: "ring_ok ms" and p: "p \<in> set ms" and i: "i < ID_BITS"
    and f: "successor_of (finger_start (peer_id self) i) ms = Some f"
    and before: "gap k (peer_id p) \<le> gap k (peer_id self)"
    and near: "2 ^ i \<le> gap k (peer_id self) - gap k (peer_id p)"
  shows "gap k (peer_id f) < gap k (peer_id self)"
proof -
  let ?n = "peer_id self"
  have d: "unat (peer_id p - ?n) = gap k ?n - gap k (peer_id p)"
    using before by (rule gap_step)
  have "gap (finger_start ?n i) (peer_id p) \<le> gap (finger_start ?n i) (peer_id f)"
    using successor_of_max [OF ring, of "finger_start ?n i"] f p by force
  moreover have "unat (peer_id p - ?n) < 18446744073709551616" by (rule unat64_bound)
  ultimately have e: "2 ^ i \<le> unat (peer_id f - ?n)" "unat (peer_id f - ?n) \<le> unat (peer_id p - ?n)"
    using near d unat64_bound [of "peer_id f - ?n"] i by (auto simp: gap_finger split: if_splits)
  then have "0 < unat (peer_id f - ?n)" "unat (peer_id f - ?n) \<le> gap k ?n"
    using d by (auto intro: less_le_trans [of 0 "2 ^ i"])
  then show ?thesis
    using unat64_bound [of "peer_id f"] unat64_bound [of ?n] unat64_bound [of k]
    by (auto simp: gap_eq unat64_diff split: if_splits)
qed

lemma first_in_arc_find:
  "first_in_arc self k fs =
     (case find (\<lambda>f. in_range_oo (peer_id f) (peer_id self) k) fs of None \<Rightarrow> self | Some f \<Rightarrow> f)"
  by (induction fs) auto

lemma closest_preceding_finger_index:
  assumes "i < length fs" "in_range_oo (peer_id (fs ! i)) (peer_id self) k"
  obtains j where "i \<le> j" "j < length fs" "closest_preceding_finger self fs k = fs ! j"
    "in_range_oo (peer_id (fs ! j)) (peer_id self) k"
proof -
  let ?Q = "\<lambda>f. in_range_oo (peer_id f) (peer_id self) k"
  have "find ?Q (rev fs) \<noteq> None" using assms by (auto simp: find_None_iff in_set_conv_nth)
  then obtain f where f: "find ?Q (rev fs) = Some f" by auto
  then obtain m where m: "m < length fs" "?Q (rev fs ! m)" "f = rev fs ! m" "\<And>l. l < m \<Longrightarrow> \<not> ?Q (rev fs ! l)"
    by (auto simp: find_Some_iff)
  define j where "j = length fs - 1 - m"
  have j: "j < length fs" "fs ! j = f" using m(1,3) by (auto simp: j_def rev_nth)
  have "i \<le> j"
  proof (rule ccontr)
    assume "\<not> i \<le> j"
    then have "length fs - 1 - i < m" using assms(1) m(1) by (simp add: j_def)
    from m(4) [OF this] assms show False by (simp add: rev_nth)
  qed
  then show thesis
    using that j m f by (simp add: closest_preceding_finger_def first_in_arc_find)
qed

text \<open>The owner a node names is right.\<close>

lemma route_owner:
  assumes ring: "ring_ok ms" and n: "self \<in> set ms"
    and s: "successor_of (peer_id self + 1) ms = Some s"
    and k: "gap k (peer_id self) \<le> gap k (peer_id s)"
  shows "successor_of k ms = Some s"
proof (rule successor_ofI [OF ring])
  let ?n = "peer_id self"
  have max: "gap (?n + 1) (peer_id m) \<le> gap (?n + 1) (peer_id s)" if "m \<in> set ms" for m
    using successor_of_max [OF ring, of "?n + 1"] s that by force
  show "s \<in> set ms" using successor_of_max [OF ring, of "?n + 1"] s by force
  fix m assume m: "m \<in> set ms"
  have nm: "gap (?n + 1) x = unat (?n - x)" for x by (simp add: gap_def)
  show "gap k (peer_id m) \<le> gap k (peer_id s)"
    using max [OF m] k unat64_bound [of "peer_id s"] unat64_bound [of ?n] unat64_bound [of k]
      unat64_bound [of "peer_id m"]
    unfolding nm by (auto simp: gap_eq unat64_diff split: if_splits)
qed

lemma pow2_between:
  assumes "0 < (d :: nat)" "d < 2 ^ 64"
  obtains i where "i < 64" "2 ^ i \<le> d" "d < 2 * 2 ^ i"
proof -
  obtain i where i: "2 ^ i \<le> d" "d < 2 ^ (i + 1)" using ex_power_ivl1 [of 2 d] assms(1) by auto
  have "2 ^ i < (2 :: nat) ^ 64" using i(1) assms(2) by (rule le_less_trans)
  then have "i < 64" by (simp only: power_strict_increasing_iff [of 2])
  with i that show thesis by simp
qed

text \<open>
  One step on a correct table, against any member \<open>p\<close> at or before the key with no member
  closer (the key's predecessor): the owner is right, and a next hop leaves less than half
  of the way to \<open>p\<close>.
\<close>

lemma route_step_correct:
  assumes ring: "ring_ok ms" and n: "self \<in> set ms"
    and fs: "build_fingers (peer_id self) ms = Some fs"
    and p: "p \<in> set ms" "\<And>m. m \<in> set ms \<Longrightarrow> gap k (peer_id p) \<le> gap k (peer_id m)"
  shows "(step_owner (route_step self (fs ! 0) fs k) \<and>
            in_range_oc k (peer_id self) (peer_id (step_peer (route_step self (fs ! 0) fs k))) \<and>
            successor_of k ms = Some (step_peer (route_step self (fs ! 0) fs k))) \<or>
         (\<not> step_owner (route_step self (fs ! 0) fs k) \<and>
            step_peer (route_step self (fs ! 0) fs k) \<in> set ms \<and>
            gap k (peer_id (step_peer (route_step self (fs ! 0) fs k))) < gap k (peer_id self) \<and>
            2 * (gap k (peer_id (step_peer (route_step self (fs ! 0) fs k))) - gap k (peer_id p))
              < gap k (peer_id self) - gap k (peer_id p))"
proof -
  let ?n = "peer_id self"
  have len: "length fs = ID_BITS" and fi: "\<And>i. i < ID_BITS \<Longrightarrow> successor_of (finger_start ?n i) ms = Some (fs ! i)"
    using build_fingers_some [OF ring, of ?n] fs by auto
  have s: "successor_of (?n + 1) ms = Some (fs ! 0)"
    using fi [of 0] by (simp add: finger_start_zero ID_BITS_def)
  show ?thesis
  proof (cases "in_range_oc k ?n (peer_id (fs ! 0))")
    case True
    with route_owner [OF ring n s] show ?thesis by (simp add: route_step_def in_range_oc_gap)
  next
    case False
    then have closer: "gap k (peer_id (fs ! 0)) < gap k ?n" by (simp add: in_range_oc_gap)
    have mem: "fs ! 0 \<in> set ms" using successor_of_max [OF ring, of "?n + 1"] s by force
    define d where "d = gap k ?n - gap k (peer_id p)"
    have "gap k (peer_id p) \<le> gap k (peer_id (fs ! 0))" using p mem by blast
    with closer have d: "0 < d" "d < 2 ^ 64" using gap_bound [of k ?n] by (auto simp: d_def)
    then obtain i where i: "i < 64" "2 ^ i \<le> d" "d < 2 * 2 ^ i" by (rule pow2_between)
    then have "gap k (peer_id (fs ! i)) < gap k ?n"
      using finger_qualifies [OF ring p(1) _ fi] p(2) [OF n] by (simp add: ID_BITS_def d_def)
    then obtain j where j: "i \<le> j" "j < length fs" "closest_preceding_finger self fs k = fs ! j"
      "in_range_oo (peer_id (fs ! j)) ?n k"
      using closest_preceding_finger_index [of i fs self k] i(1) len
      by (auto simp: in_range_oo_gap ID_BITS_def)
    have jg: "gap k (peer_id (fs ! j)) < gap k ?n" using j(4) by (simp add: in_range_oo_gap)
    have jf: "2 ^ j \<le> gap k ?n - gap k (peer_id (fs ! j))"
      using finger_far [OF ring n _ fi jg] j(2) len by simp
    have "(2 :: nat) ^ i \<le> 2 ^ j" using j(1) by (simp add: power_increasing)
    moreover have jm: "fs ! j \<in> set ms"
      using successor_of_max [OF ring, of "finger_start ?n j"] fi [of j] j(2) len by force
    moreover have "gap k (peer_id p) \<le> gap k (peer_id (fs ! j))" using p jm by blast
    ultimately have "2 * (gap k (peer_id (fs ! j)) - gap k (peer_id p)) < d"
      using jf i(2,3) jg unfolding d_def by linarith
    moreover have "peer_id (fs ! j) \<noteq> ?n" using jg by auto
    ultimately show ?thesis using False j(3) jg jm by (simp add: route_step_def d_def)
  qed
qed

end
