(* ===== verification/Lookup.thy ===== *)
theory Lookup
  imports Chord
begin

text \<open>
  \<^verbatim>\<open>src/lookup.h\<close> and \<^verbatim>\<open>src/lookup.cpp\<close>: the words a peer is written with on the wire, the
  reply parser, and the loop that asks one node after another for the owner of a key. The
  transport is a parameter: it takes and returns a world, so that a call may change what
  later calls see, and nothing is assumed about its answers.
\<close>

section \<open>Deliveries and errors\<close>

datatype Delivery = Ok | Refused | Timeout | Closed | Failed

datatype LookupError =
  NoError | LRefused | LTimeout | LClosed | LUnreachable | LErrReply | LMalformed | LNoProgress
| LTooManyRequests

type_synonym 'w transport = "'w \<Rightarrow> Peer \<Rightarrow> string \<Rightarrow> (Delivery \<times> string) \<times> 'w"

definition delivery_name :: "Delivery \<Rightarrow> string" where
  "delivery_name d =
     (case d of Ok \<Rightarrow> ''ok'' | Refused \<Rightarrow> ''refused'' | Timeout \<Rightarrow> ''timeout'' | Closed \<Rightarrow> ''closed''
      | Failed \<Rightarrow> ''failed'')"

definition lookup_error_name :: "LookupError \<Rightarrow> string" where
  "lookup_error_name e =
     (case e of NoError \<Rightarrow> ''none'' | LRefused \<Rightarrow> ''refused'' | LTimeout \<Rightarrow> ''timeout''
      | LClosed \<Rightarrow> ''closed'' | LUnreachable \<Rightarrow> ''unreachable'' | LErrReply \<Rightarrow> ''err-reply''
      | LMalformed \<Rightarrow> ''malformed'' | LNoProgress \<Rightarrow> ''no-progress''
      | LTooManyRequests \<Rightarrow> ''too-many-requests'')"

definition MAX_REQUESTS :: nat where
  "MAX_REQUESTS = 65"

record LookupResult =
  lr_error :: LookupError
  lr_message :: string
  lr_owner :: Peer
  lr_path :: "Peer list"
  lr_attempts :: nat

definition lr_ok :: "LookupResult \<Rightarrow> bool" where
  "lr_ok r \<longleftrightarrow> lr_error r = NoError"

definition requests :: "LookupResult \<Rightarrow> nat" where
  "requests r = length (lr_path r)"

definition hops :: "LookupResult \<Rightarrow> nat" where
  "hops r = (if lr_path r = [] then 0 else requests r - 1)"

section \<open>Words\<close>

text \<open>\<^verbatim>\<open>split_single_spaces\<close>: cut at every single space.\<close>

definition split_single_spaces :: "string \<Rightarrow> string list" where
  "split_single_spaces s = split_on (CHR '' '') s"

definition describe :: "Peer \<Rightarrow> string" where
  "describe p = peer_ip p @ '':'' @ to_string (peer_port p) @ '' (id '' @ id_to_hex (peer_id p) @ '')''"

definition shown :: "string \<Rightarrow> string" where
  "shown reply =
     [CHR 0x22] @
     map (\<lambda>c. if 32 \<le> (of_char c :: nat) \<and> (of_char c :: nat) < 127 then c else CHR ''?'') (take 80 reply) @
     (if length reply > 80 then ''...'' else []) @ [CHR 0x22]"

definition parse_reply_port :: "string \<Rightarrow> nat option" where
  "parse_reply_port s =
     (if s = [] \<or> length s > 5 \<or> hd s = CHR ''0'' then None
      else case digits_from 0 s of
        None \<Rightarrow> None
      | Some v \<Rightarrow> if v > 65535 then None else Some v)"

definition parse_reply_ip :: "platform \<Rightarrow> string \<Rightarrow> string option" where
  "parse_reply_ip P s =
     (case canonical_ip P s of
        None \<Rightarrow> None
      | Some canonical \<Rightarrow> if s \<noteq> canonical then None else Some canonical)"

definition error_of :: "Delivery \<Rightarrow> LookupError" where
  "error_of d =
     (case d of Refused \<Rightarrow> LRefused | Timeout \<Rightarrow> LTimeout | Closed \<Rightarrow> LClosed | _ \<Rightarrow> LUnreachable)"

definition transport_message :: "Delivery \<Rightarrow> Peer \<Rightarrow> string" where
  "transport_message d node =
     (case d of
        Refused \<Rightarrow> ''connection to '' @ describe node @ '' refused: nothing is listening''
      | Timeout \<Rightarrow> describe node @ '' did not answer in time''
      | Closed \<Rightarrow> describe node @ '' closed the connection before replying''
      | _ \<Rightarrow> ''could not exchange a message with '' @ describe node)"

definition peer_words :: "Peer \<Rightarrow> string" where
  "peer_words p = id_to_hex (peer_id p) @ '' '' @ peer_ip p @ '' '' @ to_string (peer_port p)"

definition parse_peer_words :: "platform \<Rightarrow> string \<Rightarrow> string \<Rightarrow> string \<Rightarrow> string + Peer" where
  "parse_peer_words P i ip port =
     (case id_from_hex i of
        None \<Rightarrow> Inl ''identifier is not 16 hexadecimal characters''
      | Some pid \<Rightarrow>
          (case parse_reply_ip P ip of
             None \<Rightarrow> Inl ''address is not a canonical IPv4 dotted quad''
           | Some pip \<Rightarrow>
               (case parse_reply_port port of
                  None \<Rightarrow> Inl ''port is not a number in 1..65535''
                | Some pp \<Rightarrow> Inr \<lparr>peer_id = pid, peer_ip = pip, peer_port = pp\<rparr>)))"

definition parse_reply :: "platform \<Rightarrow> string \<Rightarrow> string + bool \<times> Peer" where
  "parse_reply P line =
     (case split_single_spaces line of
        [w0, w1, w2, w3] \<Rightarrow>
          if w0 \<noteq> ''OWNER'' \<and> w0 \<noteq> ''NEXT'' then Inl ''first word is neither OWNER nor NEXT''
          else (case parse_peer_words P w1 w2 w3 of
                  Inl why \<Rightarrow> Inl why
                | Inr p \<Rightarrow> Inr (w0 = ''OWNER'', p))
      | ws \<Rightarrow> Inl (''expected 4 words separated by single spaces, got '' @ to_string (length ws)))"

section \<open>Addressing a member of a process\<close>

datatype Target = TargetNone string | TargetMember Id string | TargetMalformed

definition addressed :: "Peer \<Rightarrow> string \<Rightarrow> string" where
  "addressed to request = ''TO '' @ id_to_hex (peer_id to) @ '' '' @ request"

definition split_target :: "string \<Rightarrow> Target" where
  "split_target line =
     (if \<not> starts_with ''TO '' line then TargetNone line
      else if length line < 21 \<or> line ! 19 \<noteq> CHR '' '' then TargetMalformed
      else case id_from_hex (take 16 (drop 3 line)) of
        None \<Rightarrow> TargetMalformed
      | Some i \<Rightarrow> TargetMember i (drop 20 line))"

section \<open>The lookup loop\<close>

definition empty_peer :: Peer where
  "empty_peer = \<lparr>peer_id = 0, peer_ip = [], peer_port = 0\<rparr>"

definition empty_result :: LookupResult where
  "empty_result =
     \<lparr>lr_error = NoError, lr_message = [], lr_owner = empty_peer, lr_path = [], lr_attempts = 1\<rparr>"

definition lookup_fail :: "LookupResult \<Rightarrow> LookupError \<Rightarrow> string \<Rightarrow> LookupResult" where
  "lookup_fail r e message = r\<lparr>lr_error := e, lr_message := message\<rparr>"

text \<open>
  One pass of the loop asks \<open>current\<close>; \<open>left\<close> counts the passes that remain of
  \<open>MAX_REQUESTS\<close>.
\<close>

fun lookup_loop ::
  "platform \<Rightarrow> 'w transport \<Rightarrow> string \<Rightarrow> Id \<Rightarrow> nat \<Rightarrow> Peer \<Rightarrow> LookupResult \<Rightarrow> 'w \<Rightarrow> LookupResult \<times> 'w"
where
  "lookup_loop P transport request k 0 current r w =
     (lookup_fail r LTooManyRequests
        (''no owner after '' @ to_string MAX_REQUESTS @ '' requests; the last NEXT came from '' @
         describe (last (lr_path r))), w)"
| "lookup_loop P transport request k (Suc left) current r w =
     (let r = r\<lparr>lr_path := lr_path r @ [current]\<rparr>;
          ((d, reply), w) = transport w current request
      in if d \<noteq> Ok then (lookup_fail r (error_of d) (transport_message d current), w)
      else if reply = ''ERR'' \<or> starts_with ''ERR '' reply
        then (lookup_fail r LErrReply (describe current @ '' answered '' @ shown reply), w)
      else case parse_reply P reply of
        Inl why \<Rightarrow>
          (lookup_fail r LMalformed
             (describe current @ '' sent a malformed reply ('' @ why @ ''): '' @ shown reply), w)
      | Inr (is_owner, named) \<Rightarrow>
          if is_owner then
            (if \<not> in_range_oc k (peer_id current) (peer_id named)
             then (lookup_fail r LNoProgress
                     (describe current @ '' named '' @ describe named @
                      '' as owner, but the key is not in ('' @ id_to_hex (peer_id current) @ '', '' @
                      id_to_hex (peer_id named) @ '']''), w)
             else (r\<lparr>lr_owner := named\<rparr>, w))
          else if \<not> in_range_oo (peer_id named) (peer_id current) k
            then (lookup_fail r LNoProgress
                    (describe current @ '' sent the lookup to '' @ describe named @
                     '', which is not strictly inside ('' @ id_to_hex (peer_id current) @ '', '' @
                     id_to_hex k @ '')''), w)
          else lookup_loop P transport request k left named r w)"

definition find_successor_request :: "Id \<Rightarrow> string" where
  "find_successor_request k = ''FIND_SUCCESSOR '' @ id_to_hex k"

definition lookup :: "platform \<Rightarrow> 'w transport \<Rightarrow> Peer \<Rightarrow> Id \<Rightarrow> 'w \<Rightarrow> LookupResult \<times> 'w" where
  "lookup P transport start k w =
     lookup_loop P transport (find_successor_request k) k MAX_REQUESTS start empty_result w"

definition suspect_request :: "Peer \<Rightarrow> string" where
  "suspect_request dead = ''SUSPECT '' @ peer_ip dead @ '' '' @ to_string (peer_port dead)"

fun recovery_loop ::
  "platform \<Rightarrow> 'w transport \<Rightarrow> Peer \<Rightarrow> Id \<Rightarrow> nat \<Rightarrow> LookupResult \<Rightarrow> 'w \<Rightarrow> LookupResult \<times> 'w"
where
  "recovery_loop P transport start k 0 r w = (r, w)"
| "recovery_loop P transport start k (Suc left) r w =
     (if lr_ok r then (r, w)
      else let path = lr_path r;
               unreachable = lr_error r = LRefused \<or> lr_error r = LTimeout \<or> lr_error r = LClosed
      in if \<not> unreachable \<or> length path < 2 then (r, w)
      else let dead = path ! (length path - 1);
               namer = path ! (length path - 2);
               (_, w) = transport w namer (suspect_request dead);
               attempts = lr_attempts r + 1;
               (r', w) = lookup P transport start k w
           in recovery_loop P transport start k left (r'\<lparr>lr_attempts := attempts\<rparr>) w)"

definition lookup_with_recovery ::
  "platform \<Rightarrow> 'w transport \<Rightarrow> Peer \<Rightarrow> Id \<Rightarrow> nat \<Rightarrow> 'w \<Rightarrow> LookupResult \<times> 'w"
where
  "lookup_with_recovery P transport start k retries w =
     (let (r, w) = lookup P transport start k w in recovery_loop P transport start k retries r w)"


section \<open>Peers on the wire\<close>

definition valid_peer :: "platform \<Rightarrow> Peer \<Rightarrow> bool" where
  "valid_peer P p \<longleftrightarrow> valid_ip P (peer_ip p) \<and> 1 \<le> peer_port p \<and> peer_port p \<le> 65535"

lemma split_words_append [simp]:
  "CHR '' '' \<notin> set w \<Longrightarrow> split_single_spaces (w @ CHR '' '' # s) = w # split_single_spaces s"
  by (simp add: split_single_spaces_def split_on_append_sep)

lemma split_words_last [simp]: "CHR '' '' \<notin> set w \<Longrightarrow> split_single_spaces w = [w]"
  by (simp add: split_single_spaces_def split_on_no_sep)

lemma split_words_Cons [simp]:
  "split_single_spaces (c # s) =
     (if c = CHR '' '' then [] # split_single_spaces s
      else (c # hd (split_single_spaces s)) # tl (split_single_spaces s))"
  by (simp add: split_single_spaces_def)

lemma parse_reply_port_to_string [wire_simps]:
  "1 \<le> n \<Longrightarrow> n \<le> 65535 \<Longrightarrow> parse_reply_port (to_string n) = Some n"
  using to_string_length_le [of n 5] by (simp add: parse_reply_port_def to_string_hd_zero)

lemma parse_reply_port_Some: "parse_reply_port s = Some n \<Longrightarrow> 1 \<le> n \<and> n \<le> 65535 \<and> s = to_string n"
proof -
  assume a: "parse_reply_port s = Some n"
  then have s: "s \<noteq> []" "hd s \<noteq> CHR ''0''" "digits_from 0 s = Some n" "n \<le> 65535"
    by (auto simp: parse_reply_port_def split: if_splits option.splits)
  then have "to_string n = s" by (intro to_string_of_digits) auto
  moreover from this s(2) have "n \<noteq> 0" by (metis to_string_hd_zero)
  ultimately show ?thesis using s by auto
qed

lemma parse_reply_ip_valid [wire_simps]: "valid_ip P s \<Longrightarrow> parse_reply_ip P s = Some s"
  by (simp add: parse_reply_ip_def valid_ip_def)

lemma parse_reply_ip_Some: "parse_reply_ip P s = Some t \<Longrightarrow> t = s \<and> valid_ip P s"
  by (auto simp: parse_reply_ip_def valid_ip_def split: option.splits if_splits)

lemma parse_peer_words_of [wire_simps]:
  "valid_peer P p \<Longrightarrow>
     parse_peer_words P (id_to_hex (peer_id p)) (peer_ip p) (to_string (peer_port p)) = Inr p"
  by (simp add: parse_peer_words_def valid_peer_def wire_simps)

lemma parse_peer_words_valid: "parse_peer_words P a b c = Inr p \<Longrightarrow> valid_peer P p"
  by (auto simp: parse_peer_words_def valid_peer_def
      split: option.splits dest!: parse_reply_ip_Some parse_reply_port_Some)

lemma split_peer_words:
  "platform_ok P \<Longrightarrow> valid_peer P p \<Longrightarrow>
     split_single_spaces (peer_words p) = [id_to_hex (peer_id p), peer_ip p, to_string (peer_port p)]"
  by (simp add: peer_words_def valid_peer_def)

definition reply_line :: "RouteStep \<Rightarrow> string" where
  "reply_line step = (if step_owner step then ''OWNER '' else ''NEXT '') @ peer_words (step_peer step)"

lemma parse_reply_line [wire_simps]:
  assumes "platform_ok P" "valid_peer P (step_peer step)"
  shows "parse_reply P (reply_line step) = Inr (step_owner step, step_peer step)"
proof -
  have "split_single_spaces (verb @ CHR '' '' # peer_words (step_peer step)) =
      [verb, id_to_hex (peer_id (step_peer step)), peer_ip (step_peer step), to_string (peer_port (step_peer step))]"
    if "CHR '' '' \<notin> set verb" for verb
    using that by (simp add: split_peer_words [OF assms])
  from this [of "''OWNER''"] this [of "''NEXT''"] show ?thesis
    by (auto simp: parse_reply_def reply_line_def parse_peer_words_of [OF assms(2)])
qed

lemma reply_line_not_err:
  "reply_line step \<noteq> ''ERR'' \<and> \<not> starts_with ''ERR '' (reply_line step)"
  by (simp add: reply_line_def starts_with_def)

lemma parse_reply_valid: "parse_reply P line = Inr (b, p) \<Longrightarrow> valid_peer P p"
  by (auto simp: parse_reply_def split: list.splits if_splits sum.splits dest: parse_peer_words_valid)

section \<open>The loop against any transport\<close>

lemma lookup_loop_next:
  assumes "transport w current req = ((Ok, reply), w1)"
    and "reply \<noteq> ''ERR'' \<and> \<not> starts_with ''ERR '' reply"
    and "parse_reply P reply = Inr (False, named)" "in_range_oo (peer_id named) (peer_id current) k"
  shows "lookup_loop P transport req k (Suc left) current r w =
    lookup_loop P transport req k left named (r\<lparr>lr_path := lr_path r @ [current]\<rparr>) w1"
  using assms by simp

lemma lookup_loop_owner:
  assumes "transport w current req = ((Ok, reply), w1)"
    and "reply \<noteq> ''ERR'' \<and> \<not> starts_with ''ERR '' reply"
    and "parse_reply P reply = Inr (True, named)" "in_range_oc k (peer_id current) (peer_id named)"
  shows "lookup_loop P transport req k (Suc left) current r w =
    (r\<lparr>lr_path := lr_path r @ [current], lr_owner := named\<rparr>, w1)"
  using assms by simp

text \<open>
  What the loop keeps, whatever the nodes answer: the path grows by nodes that are strictly
  closer to the key each time, and an accepted owner covers the key.
\<close>

definition closing :: "Id \<Rightarrow> Peer list \<Rightarrow> bool" where
  "closing k path \<longleftrightarrow> sorted_wrt (\<lambda>a b. gap k (peer_id b) < gap k (peer_id a)) path"

lemma lookup_loop_path:
  assumes "lookup_loop P transport req k left current r w = (r', w')"
    and "closing k (lr_path r @ [current])" and "lr_error r = NoError"
  shows "closing k (lr_path r') \<and> length (lr_path r') \<le> length (lr_path r) + left \<and>
    (lr_ok r' \<longrightarrow> lr_path r' \<noteq> [] \<and> in_range_oc k (peer_id (last (lr_path r'))) (peer_id (lr_owner r')))"
  using assms
proof (induction left arbitrary: current r w)
  case 0
  then show ?case by (auto simp: lookup_fail_def lr_ok_def closing_def sorted_wrt_append)
next
  case (Suc left)
  obtain d reply w1 where t: "transport w current req = ((d, reply), w1)" by (metis surj_pair)
  define r1 where "r1 = r\<lparr>lr_path := lr_path r @ [current]\<rparr>"
  show ?case
  proof (cases "d = Ok \<and> reply \<noteq> ''ERR'' \<and> \<not> starts_with ''ERR '' reply \<and>
      (\<exists>named. parse_reply P reply = Inr (False, named) \<and> in_range_oo (peer_id named) (peer_id current) k)")
    case True
    then obtain named where named: "parse_reply P reply = Inr (False, named)" "in_range_oo (peer_id named) (peer_id current) k"
      by blast
    with True t Suc.prems(1) have "lookup_loop P transport req k left named r1 w1 = (r', w')"
      by (simp add: r1_def)
    moreover have "closing k (lr_path r1 @ [named])"
      using named(2) Suc.prems(2)
      by (auto simp: r1_def closing_def sorted_wrt_append in_range_oo_gap intro: less_trans)
    ultimately show ?thesis using Suc.IH [of named r1 w1] Suc.prems(3) by (simp add: r1_def)
  next
    case False
    have path: "lr_path r' = lr_path r @ [current]"
      using False t Suc.prems(1) by (auto simp: Let_def lookup_fail_def split: if_splits sum.splits prod.splits)
    have "in_range_oc k (peer_id current) (peer_id (lr_owner r'))" if "lr_ok r'"
      using False t Suc.prems(1) that
      by (auto simp: Let_def lookup_fail_def lr_ok_def error_of_def split: if_splits sum.splits prod.splits Delivery.splits)
    then show ?thesis using path Suc.prems(2) by auto
  qed
qed

declare lookup_loop.simps(2) [simp del]

lemma closing_distinct: "closing k path \<Longrightarrow> distinct (map peer_id path)"
  unfolding closing_def by (induction path) auto

end
