(* ===== verification/Sample_Platform.thy ===== *)
theory Sample_Platform
  imports Platform
begin

text \<open>
  A concrete platform, for evaluating the model on concrete inputs: dotted quads as the C
  library reads and writes them, and a digest function of the right shape. It satisfies
  \<open>platform_ok\<close>, so the hypotheses on the platform can hold.
\<close>

definition dotted :: "32 word \<Rightarrow> string" where
  "dotted a =
     (let n = unat a; q1 = n div 256; q2 = q1 div 256; q3 = q2 div 256 in
      to_string q3 @ ''.'' @ to_string (q2 mod 256) @ ''.'' @ to_string (q1 mod 256) @ ''.'' @
      to_string (n mod 256))"

definition octet :: "string \<Rightarrow> nat option" where
  "octet s =
     (if s = [] \<or> length s > 3 \<or> (length s > 1 \<and> hd s = CHR ''0'') then None
      else case digits_from 0 s of None \<Rightarrow> None | Some v \<Rightarrow> if v > 255 then None else Some v)"

definition undotted :: "string \<Rightarrow> 32 word option" where
  "undotted s =
     (case split_on (CHR ''.'') s of
        [a, b, c, d] \<Rightarrow>
          (case (octet a, octet b, octet c, octet d) of
             (Some a, Some b, Some c, Some d) \<Rightarrow>
               Some (of_nat (((a * 256 + b) * 256 + c) * 256 + d))
           | _ \<Rightarrow> None)
      | _ \<Rightarrow> None)"

definition sample_platform :: platform where
  "sample_platform =
     \<lparr>SHA1 = (\<lambda>s. take 20 (map (\<lambda>c. of_nat (of_char c)) s @ replicate 20 0)),
      inet_pton = undotted, inet_ntop = dotted\<rparr>"

lemma octet_to_string: "n < 256 \<Longrightarrow> octet (to_string n) = Some n"
  using to_string_length_le [of n 3] to_string_hd_zero [of n]
  by (cases "n = 0") (auto simp: octet_def to_string.simps [of 0] digit_val_def)

lemma dotted_split:
  "split_on (CHR ''.'') (dotted a) =
     (let n = unat a; q1 = n div 256; q2 = q1 div 256; q3 = q2 div 256 in
      [to_string q3, to_string (q2 mod 256), to_string (q1 mod 256), to_string (n mod 256)])"
  by (simp add: dotted_def Let_def split_on_append_sep split_on_no_sep)

lemma undotted_dotted: "undotted (dotted a) = Some a"
proof -
  have "unat a < 4294967296" using unsigned_less [of a, where ?'a = nat] by simp
  then have "unat a div 256 div 256 div 256 < 256" by (simp add: div_mult2_eq [symmetric] less_mult_imp_div_less)
  moreover have "((q div 256 * 256 + q mod 256) :: nat) = q" for q by simp
  ultimately show ?thesis by (simp add: undotted_def dotted_split Let_def octet_to_string)
qed

lemma sample_platform_ok: "platform_ok sample_platform"
proof -
  have "list_all (\<lambda>c. is_digit c \<or> c = CHR ''.'') (dotted a)" for a
  proof -
    have "list_all (\<lambda>c. is_digit c \<or> c = CHR ''.'') (to_string n)" for n
      using to_string_digits [of n] by (simp add: list_all_iff)
    then show ?thesis by (simp add: dotted_def Let_def)
  qed
  then show ?thesis
    by (auto simp: platform_ok_def sample_platform_def undotted_dotted) (simp add: dotted_def Let_def)
qed

lemma valid_loopback: "valid_ip sample_platform ''127.0.0.1''"
proof -
  have "dotted 2130706433 = ''127.0.0.1''"
    by (simp add: dotted_def Let_def to_string.simps)
  then show ?thesis
    using canonical_ip_ntop [OF sample_platform_ok, of 2130706433]
    by (simp add: valid_ip_def sample_platform_def)
qed

end
