(* ===== verification/Fixed_Ring.thy ===== *)
theory Fixed_Ring
  imports Lookup Sample_Platform
begin

text \<open>
  Lookups on a ring whose tables are correct: the simulator's transport
  (\<^verbatim>\<open>src/sim_hops.cpp\<close>), the interface between the lookup loop and a ring that routes by
  correct tables, and the theorem that every lookup then ends at the key's owner within
  \<^verbatim>\<open>MAX_REQUESTS\<close>.
\<close>

section \<open>A ring in one process\<close>

text \<open>
  \<^verbatim>\<open>answer\<close> of \<^verbatim>\<open>src/sim_hops.cpp\<close>: one member of a fixed ring answering, its fingers built
  when it is asked.
\<close>

definition ring_member :: "Peer list \<Rightarrow> Peer \<Rightarrow> Peer option" where
  "ring_member members to =
     (case dropWhile (\<lambda>p. peer_id p < peer_id to) members of
        [] \<Rightarrow> None
      | p # _ \<Rightarrow> if peer_id p \<noteq> peer_id to \<or> peer_ip p \<noteq> peer_ip to \<or> peer_port p \<noteq> peer_port to
                then None else Some p)"

definition answer :: "platform \<Rightarrow> Peer list \<Rightarrow> 'w transport" where
  "answer P members w to request =
     (case ring_member members to of
        None \<Rightarrow> ((Refused, []), w)
      | Some self \<Rightarrow>
          (if \<not> starts_with ''FIND_SUCCESSOR '' request then ((Ok, ''ERR unknown request''), w)
           else case id_from_hex (drop 15 request) of
             None \<Rightarrow> ((Ok, ''ERR unknown request''), w)
           | Some k \<Rightarrow>
               (case build_fingers (peer_id self) members of
                  None \<Rightarrow> ((Failed, []), w)
                | Some fingers \<Rightarrow>
                    ((Ok, reply_line (route_step self (fingers ! 0) fingers k)), w))))"

definition good_ring :: "platform \<Rightarrow> Peer list \<Rightarrow> bool" where
  "good_ring P ms \<longleftrightarrow> platform_ok P \<and> ring_ok ms \<and> (\<forall>m\<in>set ms. valid_peer P m)"

definition sample_peer :: "Id \<Rightarrow> nat \<Rightarrow> Peer" where
  "sample_peer i port = \<lparr>peer_id = i, peer_ip = ''127.0.0.1'', peer_port = port\<rparr>"

text \<open>
  The interface between the lookup loop and a ring: every member answers a FIND\_SUCCESSOR by
  the routing step of its correct table. Whoever provides that is looked up correctly.
\<close>

locale ring_router =
  fixes transport :: "platform \<Rightarrow> Peer list \<Rightarrow> 'w transport"
    and good :: "platform \<Rightarrow> Peer list \<Rightarrow> 'w \<Rightarrow> bool"
  assumes good_ring: "good P ms w \<Longrightarrow> good_ring P ms"
    and answers: "good P ms w \<Longrightarrow> self \<in> set ms \<Longrightarrow> build_fingers (peer_id self) ms = Some fs \<Longrightarrow>
      transport P ms w self (find_successor_request k) =
        ((Ok, reply_line (route_step self (fs ! 0) fs k)), w)"
begin

lemma loop_finds_owner:
  assumes good: "good P ms w"
    and p: "p \<in> set ms" "\<And>m. m \<in> set ms \<Longrightarrow> gap k (peer_id p) \<le> gap k (peer_id m)"
  shows "self \<in> set ms \<Longrightarrow> lr_error r = NoError \<Longrightarrow>
    gap k (peer_id self) - gap k (peer_id p) < 2 ^ left \<Longrightarrow>
    \<exists>r'. lookup_loop P (transport P ms) (find_successor_request k) k (Suc left) self r w = (r', w) \<and>
      lr_ok r' \<and> successor_of k ms = Some (lr_owner r')"
proof (induction left arbitrary: self r rule: less_induct)
  case (less left)
  have ring: "platform_ok P" "ring_ok ms" and valid: "\<And>m. m \<in> set ms \<Longrightarrow> valid_peer P m"
    using good_ring [OF good] by (auto simp: good_ring_def)
  obtain fs where fs: "build_fingers (peer_id self) ms = Some fs"
    using build_fingers_some [OF ring(2)] by metis
  define st where "st = route_step self (fs ! 0) fs k"
  note asked = answers [OF good less.prems(1) fs, of k, folded st_def]
  note step = route_step_correct [OF ring(2) less.prems(1) fs p, folded st_def]
  show ?case
  proof (cases "step_owner st")
    case True
    with step have own: "in_range_oc k (peer_id self) (peer_id (step_peer st))"
        "successor_of k ms = Some (step_peer st)"
      by auto
    have "step_peer st \<in> set ms" using successor_of_max [OF ring(2), of k] own(2) by force
    from lookup_loop_owner [where transport = "transport P ms", OF asked reply_line_not_err _ own(1)]
      parse_reply_line [OF ring(1) valid [OF this]] True own(2) less.prems(2)
    show ?thesis by (simp add: lr_ok_def)
  next
    case False
    with step have nxt: "step_peer st \<in> set ms" "gap k (peer_id (step_peer st)) < gap k (peer_id self)"
      "2 * (gap k (peer_id (step_peer st)) - gap k (peer_id p)) < gap k (peer_id self) - gap k (peer_id p)"
      by auto
    obtain l where l: "left = Suc l" using nxt(3) less.prems(3) by (cases left) auto
    have half: "gap k (peer_id (step_peer st)) - gap k (peer_id p) < 2 ^ l"
      using less.prems(3) nxt(3) l by simp
    have "parse_reply P (reply_line st) = Inr (False, step_peer st)"
      using parse_reply_line [OF ring(1) valid [OF nxt(1)]] False by simp
    from lookup_loop_next [where transport = "transport P ms", OF asked reply_line_not_err this, of k left] nxt(2)
      less.IH [OF _ nxt(1) _ half, of "r\<lparr>lr_path := lr_path r @ [self]\<rparr>"] less.prems(2) l
    show ?thesis by (simp add: in_range_oo_gap)
  qed
qed

lemma lookup_finds_owner:
  assumes "good P ms w" "start \<in> set ms"
  shows "\<exists>r. lookup P (transport P ms) start k w = (r, w) \<and> lr_ok r \<and> successor_of k ms = Some (lr_owner r) \<and>
    requests r \<le> MAX_REQUESTS"
proof -
  define p where "p = arg_min_on (\<lambda>m. gap k (peer_id m)) (set ms)"
  have ne: "set ms \<noteq> {}" using assms(2) by auto
  have p: "p \<in> set ms" "\<And>m. m \<in> set ms \<Longrightarrow> gap k (peer_id p) \<le> gap k (peer_id m)"
    unfolding p_def using arg_min_if_finite(1) [OF _ ne] arg_min_least [OF _ ne] by auto
  have "gap k (peer_id start) - gap k (peer_id p) < 2 ^ 64"
    using gap_bound [of k "peer_id start"] by simp
  from loop_finds_owner [OF assms(1) p assms(2) _ this, of empty_result]
  obtain r where r: "lookup P (transport P ms) start k w = (r, w)" "lr_ok r" "successor_of k ms = Some (lr_owner r)"
    by (auto simp: lookup_def MAX_REQUESTS_def empty_result_def)
  moreover have "requests r \<le> MAX_REQUESTS"
    using lookup_loop_path [OF r(1) [unfolded lookup_def]]
    by (simp add: requests_def empty_result_def closing_def)
  ultimately show ?thesis by blast
qed

end

lemma ring_member_self: "ring_ok ms \<Longrightarrow> self \<in> set ms \<Longrightarrow> ring_member ms self = Some self"
proof -
  assume ring: "ring_ok ms" and self: "self \<in> set ms"
  then obtain xs ys where ms: "ms = xs @ self # ys" by (meson split_list)
  have "\<forall>p\<in>set xs. peer_id p < peer_id self" using ring ms by (auto simp: ring_ok_def sorted_wrt_append)
  then show ?thesis using ms by (simp add: ring_member_def dropWhile_append2)
qed

interpretation sim: ring_router answer "\<lambda>P ms _. good_ring P ms"
proof
  fix P ms w self fs k
  assume "good_ring P ms" "self \<in> set ms" "build_fingers (peer_id self) ms = Some fs"
  then show "answer P ms w self (find_successor_request k) = ((Ok, reply_line (route_step self (fs ! 0) fs k)), w)"
    by (simp add: answer_def ring_member_self good_ring_def find_successor_request_def starts_with_def)
qed

lemma last_max_id: "sorted_wrt (<) (map peer_id xs) \<Longrightarrow> m \<in> set xs \<Longrightarrow> peer_id m \<le> peer_id (last xs)"
  by (induction xs) (auto split: if_splits dest!: bspec [OF _ last_in_set] intro: less_imp_le)

lemma predecessor_of_min:
  assumes "ring_ok ms"
  obtains p where "predecessor_of k ms = Some p" "p \<in> set ms"
    "\<And>m. m \<in> set ms \<Longrightarrow> gap k (peer_id p) \<le> gap k (peer_id m)"
proof -
  define before where "before = takeWhile (\<lambda>p. peer_id p < k) ms"
  define after where "after = dropWhile (\<lambda>p. peer_id p < k) ms"
  have ms: "ms = before @ after" by (simp add: before_def after_def)
  have srt: "sorted_wrt (<) (map peer_id (before @ after))" using assms ms by (simp add: ring_ok_def)
  have low: "peer_id m < k" if "m \<in> set before" for m using that by (auto simp: before_def dest: set_takeWhileD)
  have high: "\<not> peer_id m < k" if m: "m \<in> set after" for m
  proof -
    obtain a as where "after = a # as" using m by (cases after) auto
    moreover from this have "\<not> peer_id a < k" by (metis after_def hd_dropWhile list.distinct(1) list.sel(1))
    ultimately show ?thesis using m srt by (auto simp: sorted_wrt_append)
  qed
  define p where "p = (if before = [] then last ms else last before)"
  have "predecessor_of k ms = Some p"
    using assms by (auto simp: predecessor_of_def ring_ok_def Let_def p_def before_def [symmetric])
  moreover have p: "p \<in> set ms" using assms ms by (auto simp: p_def ring_ok_def)
  moreover have "gap k (peer_id p) \<le> gap k (peer_id m)" if m: "m \<in> set ms" for m
  proof (cases "before = []")
    case True
    then have "peer_id m \<le> peer_id p" using m assms last_max_id [of ms m] by (simp add: p_def ring_ok_def)
    moreover have "\<not> peer_id m < k" and "\<not> peer_id p < k"
      using True m ms p high by simp_all
    ultimately show ?thesis by (auto simp: gap_eq word_less_nat_alt word_le_nat_alt)
  next
    case False
    then have pb: "p \<in> set before" by (simp add: p_def)
    show ?thesis
    proof (cases "m \<in> set before")
      case True
      have "peer_id m \<le> peer_id p"
        using last_max_id [OF _ True] srt False by (simp add: p_def sorted_wrt_append)
      then show ?thesis using low [OF True] low [OF pb] by (auto simp: gap_eq word_less_nat_alt word_le_nat_alt)
    next
      case False
      then have "\<not> peer_id m < k" using m ms high by auto
      then show ?thesis
        using low [OF pb] unat64_bound [of "peer_id m"] by (auto simp: gap_eq word_less_nat_alt)
    qed
  qed
  ultimately show thesis using that by blast
qed

lemma arc_between:
  assumes "gap p q \<le> gap p m" "gap k q \<le> gap k p"
  shows "gap k m \<le> gap k p"
  using assms unat64_bound [of p] unat64_bound [of q] unat64_bound [of m] unat64_bound [of k]
  by (auto simp: gap_eq split: if_splits)

section \<open>Properties\<close>

text \<open>
  \<^verbatim>\<open>validate_ring\<close> accepts exactly the non-empty membership lists in which no two members
  share an identifier, and gives back the same members in strictly increasing order.
\<close>

theorem validate_ring_iff:
  "validate_ring ms = Inr rs \<longleftrightarrow>
     ms \<noteq> [] \<and> distinct (map peer_id ms) \<and> rs = sort_key peer_id ms \<and> ring_ok rs \<and> set rs = set ms"
proof -
  have srt: "sorted (map peer_id (sort_key peer_id ms))" by simp
  have "distinct (map peer_id (sort_key peer_id ms)) \<longleftrightarrow> distinct (map peer_id ms)"
    by (metis distinct_map distinct_sort set_sort)
  moreover have "sort_key peer_id ms = [] \<longleftrightarrow> ms = []" by (metis set_empty set_sort)
  ultimately show ?thesis
    using scan_collisions_None [OF srt] scan_collisions_Some [OF srt]
    by (cases "scan_collisions (sort_key peer_id ms)")
      (auto simp: validate_ring_def ring_ok_def Let_def strict_sorted_iff)
qed

text \<open>
  Every key has exactly one owner: a member owns a key, in the sense of the arc from the
  member's predecessor to itself, just when \<^verbatim>\<open>successor_of\<close> names that member.
\<close>

theorem owner_arc:
  assumes "ring_ok ms" "p \<in> set ms" "predecessor_of (peer_id p) ms = Some q"
  shows "in_range_oc k (peer_id q) (peer_id p) \<longleftrightarrow> successor_of k ms = Some p"
proof
  assume "in_range_oc k (peer_id q) (peer_id p)"
  then have "gap k (peer_id q) \<le> gap k (peer_id p)" by (simp add: in_range_oc_gap)
  moreover have "gap (peer_id p) (peer_id q) \<le> gap (peer_id p) (peer_id m)" if "m \<in> set ms" for m
    using predecessor_of_min [OF assms(1), of "peer_id p"] assms(3) that by force
  ultimately show "successor_of k ms = Some p"
    by (intro successor_ofI [OF assms(1,2)]) (blast intro: arc_between)
next
  assume "successor_of k ms = Some p"
  moreover have "q \<in> set ms" using predecessor_of_min [OF assms(1), of "peer_id p"] assms(3) by force
  ultimately show "in_range_oc k (peer_id q) (peer_id p)"
    using successor_of_max [OF assms(1), of k] by (force simp: in_range_oc_gap)
qed

theorem owner_arc_witness:
  "in_range_oc 7 3 9 \<longleftrightarrow> successor_of 7 [sample_peer 3 9001, sample_peer 9 9002] = Some (sample_peer 9 9002)"
proof -
  have "ring_ok [sample_peer 3 9001, sample_peer 9 9002]" by (simp add: ring_ok_def sample_peer_def)
  moreover have "predecessor_of (peer_id (sample_peer 9 9002)) [sample_peer 3 9001, sample_peer 9 9002] =
      Some (sample_peer 3 9001)"
    by (simp add: predecessor_of_def sample_peer_def)
  ultimately show ?thesis
    using owner_arc [of "[sample_peer 3 9001, sample_peer 9 9002]" "sample_peer 9 9002" "sample_peer 3 9001" 7]
    by (simp add: sample_peer_def)
qed

text \<open>
  One routing step on a correct table: either the node names the key's true owner, or it
  names another member that lies strictly before the key and from which less than half of
  the clockwise distance to the key's predecessor is left.
\<close>

theorem route_step_halves:
  assumes "ring_ok ms" "self \<in> set ms" "build_fingers (peer_id self) ms = Some fs"
    and "predecessor_of k ms = Some p"
  shows "let step = route_step self (fs ! 0) fs k; next = step_peer step in
    (step_owner step \<and> successor_of k ms = Some next) \<or>
    (\<not> step_owner step \<and> next \<in> set ms \<and> in_range_oo (peer_id next) (peer_id self) k \<and>
     2 * unat (peer_id p - peer_id next) < unat (peer_id p - peer_id self))"
proof -
  have p: "p \<in> set ms" "\<And>m. m \<in> set ms \<Longrightarrow> gap k (peer_id p) \<le> gap k (peer_id m)"
    using predecessor_of_min [OF assms(1), of k] assms(4) by force+
  show ?thesis
    using route_step_correct [OF assms(1-3) p] gap_step [OF p(2)] assms(2)
    by (auto simp: Let_def in_range_oo_gap)
qed

theorem route_step_halves_witness:
  "\<exists>fs. build_fingers 3 [sample_peer 3 9001, sample_peer 9 9002] = Some fs \<and>
     successor_of 7 [sample_peer 3 9001, sample_peer 9 9002] =
       Some (step_peer (route_step (sample_peer 3 9001) (fs ! 0) fs 7))"
proof -
  let ?ms = "[sample_peer 3 9001, sample_peer 9 9002]"
  have ring: "ring_ok ?ms" by (simp add: ring_ok_def sample_peer_def)
  obtain fs where fs: "build_fingers (peer_id (sample_peer 3 9001)) ?ms = Some fs"
    using build_fingers_some [OF ring] by metis
  have "predecessor_of 7 ?ms = Some (sample_peer 3 9001)" by (simp add: predecessor_of_def sample_peer_def)
  from route_step_halves [OF ring _ fs this] fs show ?thesis
    by (auto simp: Let_def sample_peer_def)
qed

text \<open>
  C7. Against any transport, even one that lies, a lookup sends at most \<^verbatim>\<open>MAX_REQUESTS\<close> requests,
  never asks the same identifier twice, each node asked is strictly closer to the key than the
  one before, and an owner it returns covers the key from the last node asked.
\<close>

theorem lookup_safe:
  assumes "lookup P transport start k w = (r, w')"
  shows "requests r \<le> MAX_REQUESTS \<and> distinct (map peer_id (lr_path r)) \<and>
    sorted_wrt (\<lambda>a b. in_range_oo (peer_id b) (peer_id a) k) (lr_path r) \<and>
    (lr_ok r \<longrightarrow> lr_path r \<noteq> [] \<and> in_range_oc k (peer_id (last (lr_path r))) (peer_id (lr_owner r)))"
proof -
  have "closing k (lr_path r) \<and> length (lr_path r) \<le> MAX_REQUESTS \<and>
    (lr_ok r \<longrightarrow> lr_path r \<noteq> [] \<and> in_range_oc k (peer_id (last (lr_path r))) (peer_id (lr_owner r)))"
    using lookup_loop_path [OF assms [unfolded lookup_def]] by (simp add: empty_result_def closing_def)
  then show ?thesis
    using closing_distinct [of k "lr_path r"] by (simp add: requests_def closing_def in_range_oo_gap)
qed

theorem lookup_safe_witness:
  "requests (fst (lookup sample_platform (\<lambda>w _ _. ((Refused, []), w)) (sample_peer 3 9001) 7 ())) \<le> MAX_REQUESTS"
  using lookup_safe [of sample_platform "\<lambda>w _ _. ((Refused, []), w)" "sample_peer 3 9001" 7 "()"]
  by (metis prod.collapse)

text \<open>
  C2. On a fixed ring with correct tables every lookup, from any member and for any key, ends
  at the key's true owner within \<^verbatim>\<open>MAX_REQUESTS\<close> requests.
\<close>

theorem lookup_correct:
  assumes "good_ring P ms" "start \<in> set ms"
  shows "\<exists>r. lookup P (answer P ms) start k w = (r, w) \<and> lr_ok r \<and>
    successor_of k ms = Some (lr_owner r) \<and> requests r \<le> MAX_REQUESTS"
  by (rule sim.lookup_finds_owner [OF assms])

theorem lookup_correct_witness:
  "\<exists>r. lookup sample_platform (answer sample_platform [sample_peer 3 9001, sample_peer 9 9002])
       (sample_peer 9 9002) 7 () = (r, ()) \<and> lr_owner r = sample_peer 9 9002"
proof -
  let ?ms = "[sample_peer 3 9001, sample_peer 9 9002]"
  have "good_ring sample_platform ?ms"
    by (simp add: good_ring_def sample_platform_ok ring_ok_def valid_peer_def sample_peer_def valid_loopback)
  moreover have "successor_of 7 ?ms = Some (sample_peer 9 9002)" by (simp add: successor_of_def sample_peer_def)
  ultimately show ?thesis using lookup_correct [of sample_platform ?ms "sample_peer 9 9002" 7 "()"] by fastforce
qed

end
