(* ===== verification/Raft.thy ===== *)
theory Raft
  imports Prelude
begin

text \<open>
  \<^verbatim>\<open>src/raft.h\<close> and \<^verbatim>\<open>src/raft.cpp\<close>: the Raft core, a deterministic state machine. Every input
  method of the class is a function from the replica's state to the new state, with the
  outputs in the state as the class keeps them. Terms, indexes and call numbers are natural
  numbers: they start at zero and only ever grow by one or are taken from another replica, and
  a wire number has at most 18 digits (\<^verbatim>\<open>parse_u64\<close>). Times are integers.
  What the class holds by reference is in the configuration: the virtual \<^verbatim>\<open>save\<close> of its
  \<^verbatim>\<open>Storage\<close> and the sequence of values the seeded generator draws. The calls made to the
  apply function are recorded in order in \<open>rf_applies\<close>.
\<close>

section \<open>Messages and state\<close>

type_synonym Term = nat
type_synonym Index = nat
type_synonym Millis = int

record Entry =
  e_term :: Term
  e_command :: string

record VoteRequest =
  vq_term :: Term
  vq_candidate :: nat
  vq_last_index :: Index
  vq_last_term :: Term

record VoteReply =
  vr_term :: Term
  vr_granted :: bool

record AppendRequest =
  aq_term :: Term
  aq_leader :: nat
  aq_prev_index :: Index
  aq_prev_term :: Term
  aq_entries :: "Entry list"
  aq_commit :: Index
  aq_seq :: nat

record AppendReply =
  ar_term :: Term
  ar_success :: bool
  ar_index :: Index

datatype Outgoing = VoteCall (o_to: nat) VoteRequest | AppendCall (o_to: nat) AppendRequest

record Durable =
  d_term :: Term
  d_voted_for :: "nat option"
  d_log :: "Entry list"

datatype Role = Follower | Candidate | Leader

record PendingRead =
  pr_id :: nat
  pr_seq :: nat
  pr_index :: Index
  pr_acks :: "bool list"

record ReadResult =
  rr_id :: nat
  rr_ok :: bool

record 's RaftConfig =
  cfg_id :: nat
  cfg_size :: nat
  cfg_election :: Millis
  cfg_max_append_bytes :: nat
  cfg_spread :: "nat \<Rightarrow> Millis"
  cfg_save :: "'s \<Rightarrow> Term \<Rightarrow> nat option \<Rightarrow> Index \<Rightarrow> Entry list \<Rightarrow> bool \<times> 's"

record 's Raft =
  rf_term :: Term
  rf_voted_for :: "nat option"
  rf_log :: "Entry list"
  rf_dirty :: bool
  rf_dirty_from :: Index
  rf_role :: Role
  rf_leader :: "nat option"
  rf_commit :: Index
  rf_applied :: Index
  rf_election_deadline :: Millis
  rf_rng :: nat
  rf_stopped :: bool
  rf_votes :: "bool list"
  rf_next :: "Index list"
  rf_match :: "Index list"
  rf_inflight :: "bool list"
  rf_inflight_seq :: "nat list"
  rf_inflight_until :: "Millis list"
  rf_heartbeat_due :: "Millis list"
  rf_retry_after :: "Millis list"
  rf_heard :: "Millis list"
  rf_seq :: nat
  rf_reads :: "PendingRead list"
  rf_read_results :: "ReadResult list"
  rf_out :: "Outgoing list"
  rf_storage :: 's
  rf_applies :: "(Index \<times> Entry) list"

definition last_index :: "'s Raft \<Rightarrow> Index" where
  "last_index s = length (rf_log s)"

definition entry_term_at :: "Entry list \<Rightarrow> Index \<Rightarrow> Term" where
  "entry_term_at log i = (if i = 0 \<or> i > length log then 0 else e_term (log ! (i - 1)))"

definition term_at :: "'s Raft \<Rightarrow> Index \<Rightarrow> Term" where
  "term_at s i = entry_term_at (rf_log s) i"

definition majority :: "'s RaftConfig \<Rightarrow> nat \<Rightarrow> bool" where
  "majority c count \<longleftrightarrow> 2 * count > cfg_size c"

definition changed_meta :: "'s Raft \<Rightarrow> 's Raft" where
  "changed_meta s = s\<lparr>rf_dirty := True\<rparr>"

definition changed_from :: "Index \<Rightarrow> 's Raft \<Rightarrow> 's Raft" where
  "changed_from i s =
     s\<lparr>rf_dirty := True,
       rf_dirty_from := (if rf_dirty_from s = 0 \<or> i < rf_dirty_from s then i else rf_dirty_from s)\<rparr>"

text \<open>The other members of the group, in the order every loop visits them.\<close>

definition peers :: "'s RaftConfig \<Rightarrow> nat list" where
  "peers c = filter (\<lambda>p. p \<noteq> cfg_id c) [0..<cfg_size c]"

section \<open>Timers and reads\<close>

definition reset_election_timer :: "'s RaftConfig \<Rightarrow> Millis \<Rightarrow> 's Raft \<Rightarrow> 's Raft" where
  "reset_election_timer c now s =
     s\<lparr>rf_election_deadline := now + cfg_election c + cfg_spread c (rf_rng s), rf_rng := Suc (rf_rng s)\<rparr>"

definition fail_reads :: "'s Raft \<Rightarrow> 's Raft" where
  "fail_reads s =
     s\<lparr>rf_read_results := rf_read_results s @ map (\<lambda>r. \<lparr>rr_id = pr_id r, rr_ok = False\<rparr>) (rf_reads s),
       rf_reads := []\<rparr>"

section \<open>Sending\<close>

text \<open>The loop that fills an APPEND: at least one entry, then up to the byte budget.\<close>

fun take_entries :: "nat \<Rightarrow> nat \<Rightarrow> bool \<Rightarrow> Entry list \<Rightarrow> Entry list" where
  "take_entries max_bytes bytes none_yet [] = []"
| "take_entries max_bytes bytes none_yet (e # es) =
     (let cost = length (e_command e) + 22 in
      if \<not> none_yet \<and> bytes + cost > max_bytes then []
      else e # take_entries max_bytes (bytes + cost) False es)"

definition heartbeat :: "'s RaftConfig \<Rightarrow> Millis" where
  "heartbeat c = max (cfg_election c div 5) 1"

definition send_append :: "'s RaftConfig \<Rightarrow> Millis \<Rightarrow> nat \<Rightarrow> 's Raft \<Rightarrow> 's Raft" where
  "send_append c now peer s =
     (let prev = rf_next s ! peer - 1;
          seq = Suc (rf_seq s);
          r = \<lparr>aq_term = rf_term s, aq_leader = cfg_id c, aq_prev_index = prev,
               aq_prev_term = term_at s prev,
               aq_entries = take_entries (cfg_max_append_bytes c) 0 True (drop prev (rf_log s)),
               aq_commit = rf_commit s, aq_seq = seq\<rparr>
      in s\<lparr>rf_seq := seq,
           rf_out := rf_out s @ [AppendCall peer r],
           rf_inflight := (rf_inflight s)[peer := True],
           rf_inflight_seq := (rf_inflight_seq s)[peer := seq],
           rf_inflight_until := (rf_inflight_until s)[peer := now + cfg_election c],
           rf_heartbeat_due := (rf_heartbeat_due s)[peer := now + heartbeat c]\<rparr>)"

definition send_if_due :: "'s RaftConfig \<Rightarrow> Millis \<Rightarrow> bool \<Rightarrow> nat \<Rightarrow> 's Raft \<Rightarrow> 's Raft" where
  "send_if_due c now force peer s =
     (if rf_role s \<noteq> Leader \<or> rf_inflight s ! peer \<or> now < rf_retry_after s ! peer
      then (if force then s\<lparr>rf_heartbeat_due := (rf_heartbeat_due s)[peer := now]\<rparr> else s)
      else if force \<or> now \<ge> rf_heartbeat_due s ! peer \<or> rf_next s ! peer \<le> last_index s
        then send_append c now peer s
      else s)"

section \<open>The end of every step\<close>

fun advance_scan :: "'s RaftConfig \<Rightarrow> 's Raft \<Rightarrow> Index \<Rightarrow> Index" where
  "advance_scan c s 0 = rf_commit s"
| "advance_scan c s (Suc n) =
     (if Suc n \<le> rf_commit s then rf_commit s
      else if term_at s (Suc n) \<noteq> rf_term s then rf_commit s
      else if majority c (1 + length (filter (\<lambda>p. rf_match s ! p \<ge> Suc n) (peers c))) then Suc n
      else advance_scan c s n)"

definition advance_commit :: "'s RaftConfig \<Rightarrow> 's Raft \<Rightarrow> 's Raft" where
  "advance_commit c s = s\<lparr>rf_commit := advance_scan c s (last_index s)\<rparr>"

definition apply_committed :: "'s Raft \<Rightarrow> 's Raft" where
  "apply_committed s =
     s\<lparr>rf_applies := rf_applies s @ map (\<lambda>i. (i, rf_log s ! (i - 1))) [Suc (rf_applied s)..<Suc (rf_commit s)],
       rf_applied := max (rf_applied s) (rf_commit s)\<rparr>"

definition set_read_index :: "'s Raft \<Rightarrow> PendingRead \<Rightarrow> PendingRead" where
  "set_read_index s r =
     (if pr_index r = 0 \<and> term_at s (rf_commit s) = rf_term s then r\<lparr>pr_index := rf_commit s\<rparr> else r)"

definition read_ready :: "'s RaftConfig \<Rightarrow> 's Raft \<Rightarrow> PendingRead \<Rightarrow> bool" where
  "read_ready c s r \<longleftrightarrow>
     pr_index r \<noteq> 0 \<and> majority c (count_true (pr_acks r)) \<and> rf_applied s \<ge> pr_index r"

definition resolve_reads :: "'s RaftConfig \<Rightarrow> 's Raft \<Rightarrow> 's Raft" where
  "resolve_reads c s =
     (if rf_reads s = [] then s
      else if rf_role s \<noteq> Leader then fail_reads s
      else let rs = map (set_read_index s) (rf_reads s) in
        s\<lparr>rf_read_results := rf_read_results s @
             map (\<lambda>r. \<lparr>rr_id = pr_id r, rr_ok = True\<rparr>) (filter (read_ready c s) rs),
          rf_reads := filter (\<lambda>r. \<not> read_ready c s r) rs\<rparr>)"

text \<open>Step 1 of \<^verbatim>\<open>finish\<close>: make durable what changed, or stop.\<close>

definition persist :: "'s RaftConfig \<Rightarrow> 's Raft \<Rightarrow> 's Raft" where
  "persist c s =
     (if \<not> rf_dirty s then s
      else let from = (if rf_dirty_from s = 0 then last_index s + 1 else rf_dirty_from s);
               (ok, storage) = cfg_save c (rf_storage s) (rf_term s) (rf_voted_for s) from (rf_log s);
               s = s\<lparr>rf_storage := storage, rf_dirty := False, rf_dirty_from := 0\<rparr>
           in if ok then s else s\<lparr>rf_stopped := True\<rparr>)"

definition drop_outputs :: "'s Raft \<Rightarrow> 's Raft" where
  "drop_outputs s = s\<lparr>rf_out := [], rf_read_results := []\<rparr>"

definition finish :: "'s RaftConfig \<Rightarrow> 's Raft \<Rightarrow> 's Raft" where
  "finish c s =
     (if rf_stopped s then drop_outputs s
      else let s = persist c s in
        if rf_stopped s then drop_outputs s
        else let s = (if rf_role s = Leader then advance_commit c s else s)
             in resolve_reads c (apply_committed s))"

section \<open>Transitions\<close>

definition become_follower :: "'s RaftConfig \<Rightarrow> Term \<Rightarrow> nat option \<Rightarrow> Millis \<Rightarrow> 's Raft \<Rightarrow> 's Raft" where
  "become_follower c t leader now s =
     (let s = (if t > rf_term s then changed_meta (s\<lparr>rf_term := t, rf_voted_for := None\<rparr>) else s);
          s = (if rf_role s \<noteq> Follower
               then reset_election_timer c now (fail_reads (s\<lparr>rf_role := Follower\<rparr>))
               else s)
      in s\<lparr>rf_leader := leader\<rparr>)"

definition become_leader :: "'s RaftConfig \<Rightarrow> Millis \<Rightarrow> 's Raft \<Rightarrow> 's Raft" where
  "become_leader c now s =
     (let n = cfg_size c;
          s = s\<lparr>rf_role := Leader, rf_leader := Some (cfg_id c),
                rf_next := replicate n (last_index s + 1), rf_match := replicate n 0,
                rf_inflight := replicate n False, rf_heartbeat_due := replicate n now,
                rf_retry_after := replicate n now, rf_heard := replicate n now\<rparr>;
          s = s\<lparr>rf_log := rf_log s @ [\<lparr>e_term = rf_term s, e_command = ''NOOP''\<rparr>]\<rparr>;
          s = changed_from (last_index s) s
      in fold (send_append c now) (peers c) s)"

definition vote_call :: "'s RaftConfig \<Rightarrow> 's Raft \<Rightarrow> nat \<Rightarrow> Outgoing" where
  "vote_call c s p =
     VoteCall p \<lparr>vq_term = rf_term s, vq_candidate = cfg_id c, vq_last_index = last_index s,
                 vq_last_term = term_at s (last_index s)\<rparr>"

definition start_election :: "'s RaftConfig \<Rightarrow> Millis \<Rightarrow> 's Raft \<Rightarrow> 's Raft" where
  "start_election c now s =
     (let s = changed_meta (s\<lparr>rf_term := Suc (rf_term s), rf_voted_for := Some (cfg_id c)\<rparr>);
          s = reset_election_timer c now (fail_reads (s\<lparr>rf_role := Candidate, rf_leader := None\<rparr>));
          s = s\<lparr>rf_votes := (replicate (length (rf_votes s)) False)[cfg_id c := True]\<rparr>
      in if majority c 1 then become_leader c now s
         else s\<lparr>rf_out := rf_out s @ map (vote_call c s) (peers c)\<rparr>)"

text \<open>The constructor: the members' initial values, then its body.\<close>

definition raft_boot :: "'s RaftConfig \<Rightarrow> 's \<Rightarrow> Durable \<Rightarrow> 's Raft" where
  "raft_boot c storage recovered =
     (let n = cfg_size c in
      \<lparr>rf_term = d_term recovered, rf_voted_for = d_voted_for recovered, rf_log = d_log recovered,
       rf_dirty = False, rf_dirty_from = 0, rf_role = Follower, rf_leader = None,
       rf_commit = 0, rf_applied = 0, rf_election_deadline = 0, rf_rng = 0, rf_stopped = False,
       rf_votes = replicate n False, rf_next = replicate n 1, rf_match = replicate n 0,
       rf_inflight = replicate n False, rf_inflight_seq = replicate n 0,
       rf_inflight_until = replicate n 0, rf_heartbeat_due = replicate n 0,
       rf_retry_after = replicate n 0, rf_heard = replicate n 0, rf_seq = 0,
       rf_reads = [], rf_read_results = [], rf_out = [], rf_storage = storage, rf_applies = []\<rparr>)"

definition raft_init :: "'s RaftConfig \<Rightarrow> 's \<Rightarrow> Durable \<Rightarrow> Millis \<Rightarrow> 's Raft" where
  "raft_init c storage recovered now =
     (let s = reset_election_timer c now (raft_boot c storage recovered);
          s = (if cfg_size c = 1 then start_election c now s else s)
      in finish c s)"

section \<open>Inputs\<close>

text \<open>Check-quorum: the leader itself and the peers heard within two election timeouts.\<close>

definition recent_count :: "'s RaftConfig \<Rightarrow> Millis \<Rightarrow> 's Raft \<Rightarrow> nat" where
  "recent_count c now s =
     1 + length (filter (\<lambda>p. now - rf_heard s ! p < 2 * cfg_election c) (peers c))"

definition tick_peer :: "'s RaftConfig \<Rightarrow> Millis \<Rightarrow> nat \<Rightarrow> 's Raft \<Rightarrow> 's Raft" where
  "tick_peer c now p s =
     (let s = (if rf_inflight s ! p \<and> now \<ge> rf_inflight_until s ! p
               then s\<lparr>rf_inflight := (rf_inflight s)[p := False]\<rparr> else s)
      in send_if_due c now False p s)"

definition tick :: "'s RaftConfig \<Rightarrow> Millis \<Rightarrow> 's Raft \<Rightarrow> 's Raft" where
  "tick c now s =
     (if rf_stopped s then s
      else if rf_role s \<noteq> Leader
        then finish c (if now \<ge> rf_election_deadline s then start_election c now s else s)
      else if \<not> majority c (recent_count c now s)
        then finish c (become_follower c (rf_term s) None now s)
      else finish c (fold (tick_peer c now) (peers c) s))"

definition log_at_least_as_up_to_date :: "'s Raft \<Rightarrow> Term \<Rightarrow> Index \<Rightarrow> bool" where
  "log_at_least_as_up_to_date s last_term last_idx \<longleftrightarrow>
     (let mine = term_at s (last_index s) in
      last_term > mine \<or> (last_term = mine \<and> last_idx \<ge> last_index s))"

definition handle_vote :: "'s RaftConfig \<Rightarrow> VoteRequest \<Rightarrow> Millis \<Rightarrow> 's Raft \<Rightarrow> VoteReply \<times> 's Raft" where
  "handle_vote c req now s =
     (if rf_stopped s then (\<lparr>vr_term = rf_term s, vr_granted = False\<rparr>, s)
      else let s = (if vq_term req > rf_term s then become_follower c (vq_term req) None now s else s);
               grant = (vq_term req = rf_term s \<and>
                        (rf_voted_for s = None \<or> rf_voted_for s = Some (vq_candidate req)) \<and>
                        log_at_least_as_up_to_date s (vq_last_term req) (vq_last_index req));
               s = (if grant
                    then reset_election_timer c now (changed_meta (s\<lparr>rf_voted_for := Some (vq_candidate req)\<rparr>))
                    else s);
               s = finish c s
           in (\<lparr>vr_term = rf_term s, vr_granted = grant \<and> \<not> rf_stopped s\<rparr>, s))"

definition handle_vote_reply ::
  "'s RaftConfig \<Rightarrow> nat \<Rightarrow> VoteRequest \<Rightarrow> VoteReply \<Rightarrow> Millis \<Rightarrow> 's Raft \<Rightarrow> 's Raft"
where
  "handle_vote_reply c from sent reply now s =
     (if rf_stopped s then s
      else finish c
        (if vr_term reply > rf_term s then become_follower c (vr_term reply) None now s
         else if rf_role s = Candidate \<and> vq_term sent = rf_term s \<and> vr_term reply = rf_term s \<and> vr_granted reply
           then let s = s\<lparr>rf_votes := (rf_votes s)[from := True]\<rparr>
                in if majority c (count_true (rf_votes s)) then become_leader c now s else s
         else s))"

fun conflict_start :: "Entry list \<Rightarrow> Term \<Rightarrow> Index \<Rightarrow> Index" where
  "conflict_start log conflict 0 = 0"
| "conflict_start log conflict (Suc i) =
     (if Suc i > 1 \<and> entry_term_at log i = conflict then conflict_start log conflict i else Suc i)"

text \<open>
  The loop over the entries of an APPEND. It stops the replica, and stops itself, where an
  entry conflicts with a committed one.
\<close>

fun append_entries :: "Index \<Rightarrow> Entry list \<Rightarrow> 's Raft \<Rightarrow> 's Raft" where
  "append_entries i [] s = s"
| "append_entries i (e # es) s =
     (if Suc i \<le> last_index s
      then if term_at s (Suc i) = e_term e then append_entries (Suc i) es s
           else if Suc i \<le> rf_commit s then s\<lparr>rf_stopped := True\<rparr>
           else let s = changed_from (Suc i) (s\<lparr>rf_log := take i (rf_log s)\<rparr>)
                in append_entries (Suc i) es (changed_from (Suc i) (s\<lparr>rf_log := rf_log s @ [e]\<rparr>))
      else append_entries (Suc i) es (changed_from (Suc i) (s\<lparr>rf_log := rf_log s @ [e]\<rparr>)))"

definition handle_append :: "'s RaftConfig \<Rightarrow> AppendRequest \<Rightarrow> Millis \<Rightarrow> 's Raft \<Rightarrow> AppendReply \<times> 's Raft" where
  "handle_append c req now s =
     (let failed = (\<lambda>s. (\<lparr>ar_term = rf_term s, ar_success = False, ar_index = 0\<rparr>, s)) in
      if rf_stopped s then failed s
      else if aq_term req < rf_term s then failed (finish c s)
      else let s = reset_election_timer c now (become_follower c (aq_term req) (Some (aq_leader req)) now s)
      in if aq_prev_index req > last_index s
        then let t = rf_term s; i = last_index s + 1; s = finish c s in
             if rf_stopped s then failed s else (\<lparr>ar_term = t, ar_success = False, ar_index = i\<rparr>, s)
      else if term_at s (aq_prev_index req) \<noteq> aq_prev_term req
        then let t = rf_term s;
                 i = conflict_start (rf_log s) (term_at s (aq_prev_index req)) (aq_prev_index req);
                 s = finish c s in
             if rf_stopped s then failed s else (\<lparr>ar_term = t, ar_success = False, ar_index = i\<rparr>, s)
      else let s = append_entries (aq_prev_index req) (aq_entries req) s in
        if rf_stopped s then failed s
        else let t = rf_term s;
                 last_new = aq_prev_index req + length (aq_entries req);
                 s = (if aq_commit req > rf_commit s then s\<lparr>rf_commit := min (aq_commit req) last_new\<rparr> else s);
                 s = finish c s
             in if rf_stopped s then failed s
                else (\<lparr>ar_term = t, ar_success = True, ar_index = last_new\<rparr>, s))"

text \<open>The reply of a peer, in this leader's books: what it holds, or where to send from next.\<close>

definition record_reply :: "nat \<Rightarrow> AppendRequest \<Rightarrow> AppendReply \<Rightarrow> Millis \<Rightarrow> 's Raft \<Rightarrow> 's Raft" where
  "record_reply from sent reply now s =
     (let s = s\<lparr>rf_heard := (rf_heard s)[from := now]\<rparr>;
          s = (if rf_inflight s ! from \<and> aq_seq sent = rf_inflight_seq s ! from
               then s\<lparr>rf_inflight := (rf_inflight s)[from := False]\<rparr> else s);
          s = (if ar_success reply
               then let matched = aq_prev_index sent + length (aq_entries sent);
                        s = (if matched > rf_match s ! from
                             then s\<lparr>rf_match := (rf_match s)[from := matched]\<rparr> else s)
                    in if rf_next s ! from < matched + 1
                       then s\<lparr>rf_next := (rf_next s)[from := matched + 1]\<rparr> else s
               else let hint = min (max (ar_index reply) 1) (aq_prev_index sent);
                        back = max (rf_match s ! from + 1) hint;
                        s = (if back < rf_next s ! from
                             then s\<lparr>rf_next := (rf_next s)[from := back]\<rparr> else s)
                    in s\<lparr>rf_retry_after := (rf_retry_after s)[from := now]\<rparr>)
      in s\<lparr>rf_reads := map (\<lambda>r. if aq_seq sent \<ge> pr_seq r
                               then r\<lparr>pr_acks := (pr_acks r)[from := True]\<rparr> else r) (rf_reads s)\<rparr>)"

definition handle_append_reply ::
  "'s RaftConfig \<Rightarrow> nat \<Rightarrow> AppendRequest \<Rightarrow> AppendReply \<Rightarrow> Millis \<Rightarrow> 's Raft \<Rightarrow> 's Raft"
where
  "handle_append_reply c from sent reply now s =
     (if rf_stopped s then s
      else if ar_term reply > rf_term s then finish c (become_follower c (ar_term reply) None now s)
      else if rf_role s \<noteq> Leader \<or> aq_term sent \<noteq> rf_term s \<or> ar_term reply \<noteq> rf_term s then finish c s
      else finish c (send_if_due c now False from (record_reply from sent reply now s)))"

definition call_failed :: "'s RaftConfig \<Rightarrow> nat \<Rightarrow> Outgoing \<Rightarrow> Millis \<Rightarrow> 's Raft \<Rightarrow> 's Raft" where
  "call_failed c to sent now s =
     (case sent of
        VoteCall _ _ \<Rightarrow> s
      | AppendCall _ a \<Rightarrow>
          if rf_stopped s \<or> rf_role s \<noteq> Leader then s
          else let s = (if rf_inflight s ! to \<and> aq_seq a = rf_inflight_seq s ! to
                        then s\<lparr>rf_inflight := (rf_inflight s)[to := False]\<rparr> else s)
               in s\<lparr>rf_retry_after := (rf_retry_after s)[to := now + heartbeat c]\<rparr>)"

text \<open>A client's command: the index and term it was appended at, or nothing.\<close>

definition propose :: "'s RaftConfig \<Rightarrow> string \<Rightarrow> Millis \<Rightarrow> 's Raft \<Rightarrow> (Index \<times> Term) option \<times> 's Raft" where
  "propose c command now s =
     (if rf_stopped s \<or> rf_role s \<noteq> Leader then (None, s)
      else let s = s\<lparr>rf_log := rf_log s @ [\<lparr>e_term = rf_term s, e_command = command\<rparr>]\<rparr>;
               s = changed_from (last_index s) s;
               index = last_index s;
               t = rf_term s;
               s = finish c (fold (send_if_due c now False) (peers c) s)
           in (if rf_stopped s then None else Some (index, t), s))"

definition read :: "'s RaftConfig \<Rightarrow> nat \<Rightarrow> Millis \<Rightarrow> 's Raft \<Rightarrow> bool \<times> 's Raft" where
  "read c i now s =
     (if rf_stopped s \<or> rf_role s \<noteq> Leader then (False, s)
      else let r = \<lparr>pr_id = i, pr_seq = Suc (rf_seq s),
                    pr_index = (if term_at s (rf_commit s) = rf_term s then rf_commit s else 0),
                    pr_acks = (replicate (cfg_size c) False)[cfg_id c := True]\<rparr>;
               s = s\<lparr>rf_reads := rf_reads s @ [r]\<rparr>
           in (True, finish c (fold (send_if_due c now True) (peers c) s)))"

definition take_outgoing :: "'s Raft \<Rightarrow> Outgoing list \<times> 's Raft" where
  "take_outgoing s = (rf_out s, s\<lparr>rf_out := []\<rparr>)"

definition take_reads :: "'s Raft \<Rightarrow> ReadResult list \<times> 's Raft" where
  "take_reads s = (rf_read_results s, s\<lparr>rf_read_results := []\<rparr>)"

definition role_name :: "Role \<Rightarrow> string" where
  "role_name role = (case role of Follower \<Rightarrow> ''follower'' | Candidate \<Rightarrow> ''candidate'' | Leader \<Rightarrow> ''leader'')"

end
