(* ===== verification/Raft_Frames.thy ===== *)
theory Raft_Frames
  imports Raft
begin

text \<open>
  For every helper of \<^verbatim>\<open>src/raft.cpp\<close>, the fields of the replica it leaves alone and what it
  does to the others. The proofs about whole inputs rest on these equations.
\<close>

section \<open>Frames\<close>

lemma fold_preserves: "(\<And>x s. f (g x s) = f s) \<Longrightarrow> f (fold g xs s) = f s"
  by (induction xs arbitrary: s) simp_all

lemma reset_election_timer_simps [raft_simps, simp]:
  "rf_term (reset_election_timer c now s) = rf_term s"
  "rf_voted_for (reset_election_timer c now s) = rf_voted_for s"
  "rf_log (reset_election_timer c now s) = rf_log s"
  "rf_dirty (reset_election_timer c now s) = rf_dirty s"
  "rf_dirty_from (reset_election_timer c now s) = rf_dirty_from s"
  "rf_role (reset_election_timer c now s) = rf_role s"
  "rf_leader (reset_election_timer c now s) = rf_leader s"
  "rf_commit (reset_election_timer c now s) = rf_commit s"
  "rf_applied (reset_election_timer c now s) = rf_applied s"
  "rf_stopped (reset_election_timer c now s) = rf_stopped s"
  "rf_votes (reset_election_timer c now s) = rf_votes s"
  "rf_next (reset_election_timer c now s) = rf_next s"
  "rf_match (reset_election_timer c now s) = rf_match s"
  "rf_storage (reset_election_timer c now s) = rf_storage s"
  "rf_applies (reset_election_timer c now s) = rf_applies s"
  by (simp_all add: reset_election_timer_def)

lemma fail_reads_simps [raft_simps, simp]:
  "rf_term (fail_reads s) = rf_term s"
  "rf_voted_for (fail_reads s) = rf_voted_for s"
  "rf_log (fail_reads s) = rf_log s"
  "rf_dirty (fail_reads s) = rf_dirty s"
  "rf_dirty_from (fail_reads s) = rf_dirty_from s"
  "rf_role (fail_reads s) = rf_role s"
  "rf_leader (fail_reads s) = rf_leader s"
  "rf_commit (fail_reads s) = rf_commit s"
  "rf_applied (fail_reads s) = rf_applied s"
  "rf_stopped (fail_reads s) = rf_stopped s"
  "rf_votes (fail_reads s) = rf_votes s"
  "rf_next (fail_reads s) = rf_next s"
  "rf_match (fail_reads s) = rf_match s"
  "rf_storage (fail_reads s) = rf_storage s"
  "rf_applies (fail_reads s) = rf_applies s"
  by (simp_all add: fail_reads_def)

lemma changed_meta_simps [raft_simps, simp]:
  "rf_term (changed_meta s) = rf_term s"
  "rf_voted_for (changed_meta s) = rf_voted_for s"
  "rf_log (changed_meta s) = rf_log s"
  "rf_dirty_from (changed_meta s) = rf_dirty_from s"
  "rf_role (changed_meta s) = rf_role s"
  "rf_leader (changed_meta s) = rf_leader s"
  "rf_commit (changed_meta s) = rf_commit s"
  "rf_applied (changed_meta s) = rf_applied s"
  "rf_stopped (changed_meta s) = rf_stopped s"
  "rf_votes (changed_meta s) = rf_votes s"
  "rf_next (changed_meta s) = rf_next s"
  "rf_match (changed_meta s) = rf_match s"
  "rf_storage (changed_meta s) = rf_storage s"
  "rf_applies (changed_meta s) = rf_applies s"
  by (simp_all add: changed_meta_def)

lemma changed_from_simps [raft_simps, simp]:
  "rf_term (changed_from i s) = rf_term s"
  "rf_voted_for (changed_from i s) = rf_voted_for s"
  "rf_log (changed_from i s) = rf_log s"
  "rf_role (changed_from i s) = rf_role s"
  "rf_leader (changed_from i s) = rf_leader s"
  "rf_commit (changed_from i s) = rf_commit s"
  "rf_applied (changed_from i s) = rf_applied s"
  "rf_stopped (changed_from i s) = rf_stopped s"
  "rf_votes (changed_from i s) = rf_votes s"
  "rf_next (changed_from i s) = rf_next s"
  "rf_match (changed_from i s) = rf_match s"
  "rf_storage (changed_from i s) = rf_storage s"
  "rf_applies (changed_from i s) = rf_applies s"
  by (simp_all add: changed_from_def)

lemma send_append_simps [raft_simps, simp]:
  "rf_term (send_append c now p s) = rf_term s"
  "rf_voted_for (send_append c now p s) = rf_voted_for s"
  "rf_log (send_append c now p s) = rf_log s"
  "rf_dirty (send_append c now p s) = rf_dirty s"
  "rf_dirty_from (send_append c now p s) = rf_dirty_from s"
  "rf_role (send_append c now p s) = rf_role s"
  "rf_leader (send_append c now p s) = rf_leader s"
  "rf_commit (send_append c now p s) = rf_commit s"
  "rf_applied (send_append c now p s) = rf_applied s"
  "rf_stopped (send_append c now p s) = rf_stopped s"
  "rf_votes (send_append c now p s) = rf_votes s"
  "rf_next (send_append c now p s) = rf_next s"
  "rf_match (send_append c now p s) = rf_match s"
  "rf_storage (send_append c now p s) = rf_storage s"
  "rf_applies (send_append c now p s) = rf_applies s"
  by (simp_all add: send_append_def Let_def)

lemma send_if_due_simps [raft_simps, simp]:
  "rf_term (send_if_due c now force p s) = rf_term s"
  "rf_voted_for (send_if_due c now force p s) = rf_voted_for s"
  "rf_log (send_if_due c now force p s) = rf_log s"
  "rf_dirty (send_if_due c now force p s) = rf_dirty s"
  "rf_dirty_from (send_if_due c now force p s) = rf_dirty_from s"
  "rf_role (send_if_due c now force p s) = rf_role s"
  "rf_leader (send_if_due c now force p s) = rf_leader s"
  "rf_commit (send_if_due c now force p s) = rf_commit s"
  "rf_applied (send_if_due c now force p s) = rf_applied s"
  "rf_stopped (send_if_due c now force p s) = rf_stopped s"
  "rf_votes (send_if_due c now force p s) = rf_votes s"
  "rf_next (send_if_due c now force p s) = rf_next s"
  "rf_match (send_if_due c now force p s) = rf_match s"
  "rf_storage (send_if_due c now force p s) = rf_storage s"
  "rf_applies (send_if_due c now force p s) = rf_applies s"
  by (simp_all add: send_if_due_def)

lemma tick_peer_simps [raft_simps, simp]:
  "rf_term (tick_peer c now p s) = rf_term s"
  "rf_voted_for (tick_peer c now p s) = rf_voted_for s"
  "rf_log (tick_peer c now p s) = rf_log s"
  "rf_dirty (tick_peer c now p s) = rf_dirty s"
  "rf_dirty_from (tick_peer c now p s) = rf_dirty_from s"
  "rf_role (tick_peer c now p s) = rf_role s"
  "rf_leader (tick_peer c now p s) = rf_leader s"
  "rf_commit (tick_peer c now p s) = rf_commit s"
  "rf_applied (tick_peer c now p s) = rf_applied s"
  "rf_stopped (tick_peer c now p s) = rf_stopped s"
  "rf_votes (tick_peer c now p s) = rf_votes s"
  "rf_next (tick_peer c now p s) = rf_next s"
  "rf_match (tick_peer c now p s) = rf_match s"
  "rf_storage (tick_peer c now p s) = rf_storage s"
  "rf_applies (tick_peer c now p s) = rf_applies s"
  by (simp_all add: tick_peer_def Let_def)

lemma fold_send_append_simps [raft_simps, simp]:
  "rf_term (fold (send_append c now) ps s) = rf_term s"
  "rf_voted_for (fold (send_append c now) ps s) = rf_voted_for s"
  "rf_log (fold (send_append c now) ps s) = rf_log s"
  "rf_dirty (fold (send_append c now) ps s) = rf_dirty s"
  "rf_dirty_from (fold (send_append c now) ps s) = rf_dirty_from s"
  "rf_role (fold (send_append c now) ps s) = rf_role s"
  "rf_leader (fold (send_append c now) ps s) = rf_leader s"
  "rf_commit (fold (send_append c now) ps s) = rf_commit s"
  "rf_applied (fold (send_append c now) ps s) = rf_applied s"
  "rf_stopped (fold (send_append c now) ps s) = rf_stopped s"
  "rf_votes (fold (send_append c now) ps s) = rf_votes s"
  "rf_next (fold (send_append c now) ps s) = rf_next s"
  "rf_match (fold (send_append c now) ps s) = rf_match s"
  "rf_storage (fold (send_append c now) ps s) = rf_storage s"
  "rf_applies (fold (send_append c now) ps s) = rf_applies s"
  by (simp_all add: fold_preserves)

lemma fold_send_if_due_simps [raft_simps, simp]:
  "rf_term (fold (send_if_due c now force) ps s) = rf_term s"
  "rf_voted_for (fold (send_if_due c now force) ps s) = rf_voted_for s"
  "rf_log (fold (send_if_due c now force) ps s) = rf_log s"
  "rf_dirty (fold (send_if_due c now force) ps s) = rf_dirty s"
  "rf_dirty_from (fold (send_if_due c now force) ps s) = rf_dirty_from s"
  "rf_role (fold (send_if_due c now force) ps s) = rf_role s"
  "rf_leader (fold (send_if_due c now force) ps s) = rf_leader s"
  "rf_commit (fold (send_if_due c now force) ps s) = rf_commit s"
  "rf_applied (fold (send_if_due c now force) ps s) = rf_applied s"
  "rf_stopped (fold (send_if_due c now force) ps s) = rf_stopped s"
  "rf_votes (fold (send_if_due c now force) ps s) = rf_votes s"
  "rf_next (fold (send_if_due c now force) ps s) = rf_next s"
  "rf_match (fold (send_if_due c now force) ps s) = rf_match s"
  "rf_storage (fold (send_if_due c now force) ps s) = rf_storage s"
  "rf_applies (fold (send_if_due c now force) ps s) = rf_applies s"
  by (simp_all add: fold_preserves)

lemma fold_tick_peer_simps [raft_simps, simp]:
  "rf_term (fold (tick_peer c now) ps s) = rf_term s"
  "rf_voted_for (fold (tick_peer c now) ps s) = rf_voted_for s"
  "rf_log (fold (tick_peer c now) ps s) = rf_log s"
  "rf_dirty (fold (tick_peer c now) ps s) = rf_dirty s"
  "rf_dirty_from (fold (tick_peer c now) ps s) = rf_dirty_from s"
  "rf_role (fold (tick_peer c now) ps s) = rf_role s"
  "rf_leader (fold (tick_peer c now) ps s) = rf_leader s"
  "rf_commit (fold (tick_peer c now) ps s) = rf_commit s"
  "rf_applied (fold (tick_peer c now) ps s) = rf_applied s"
  "rf_stopped (fold (tick_peer c now) ps s) = rf_stopped s"
  "rf_votes (fold (tick_peer c now) ps s) = rf_votes s"
  "rf_next (fold (tick_peer c now) ps s) = rf_next s"
  "rf_match (fold (tick_peer c now) ps s) = rf_match s"
  "rf_storage (fold (tick_peer c now) ps s) = rf_storage s"
  "rf_applies (fold (tick_peer c now) ps s) = rf_applies s"
  by (simp_all add: fold_preserves)

lemma record_reply_simps [raft_simps, simp]:
  "rf_term (record_reply from sent reply now s) = rf_term s"
  "rf_voted_for (record_reply from sent reply now s) = rf_voted_for s"
  "rf_log (record_reply from sent reply now s) = rf_log s"
  "rf_dirty (record_reply from sent reply now s) = rf_dirty s"
  "rf_dirty_from (record_reply from sent reply now s) = rf_dirty_from s"
  "rf_role (record_reply from sent reply now s) = rf_role s"
  "rf_leader (record_reply from sent reply now s) = rf_leader s"
  "rf_commit (record_reply from sent reply now s) = rf_commit s"
  "rf_applied (record_reply from sent reply now s) = rf_applied s"
  "rf_stopped (record_reply from sent reply now s) = rf_stopped s"
  "rf_votes (record_reply from sent reply now s) = rf_votes s"
  "rf_storage (record_reply from sent reply now s) = rf_storage s"
  "rf_applies (record_reply from sent reply now s) = rf_applies s"
  by (simp_all add: record_reply_def Let_def)

lemma record_reply_vectors:
  "length (rf_match (record_reply from sent reply now s)) = length (rf_match s)"
  "length (rf_next (record_reply from sent reply now s)) = length (rf_next s)"
  "\<forall>n\<in>set (rf_next s). 1 \<le> n \<Longrightarrow> \<forall>n\<in>set (rf_next (record_reply from sent reply now s)). 1 \<le> n"
  by (auto simp: record_reply_def Let_def dest!: set_update_subset_insert [THEN subsetD])

lemma resolve_reads_simps [raft_simps, simp]:
  "rf_term (resolve_reads c s) = rf_term s"
  "rf_voted_for (resolve_reads c s) = rf_voted_for s"
  "rf_log (resolve_reads c s) = rf_log s"
  "rf_dirty (resolve_reads c s) = rf_dirty s"
  "rf_dirty_from (resolve_reads c s) = rf_dirty_from s"
  "rf_role (resolve_reads c s) = rf_role s"
  "rf_leader (resolve_reads c s) = rf_leader s"
  "rf_commit (resolve_reads c s) = rf_commit s"
  "rf_applied (resolve_reads c s) = rf_applied s"
  "rf_stopped (resolve_reads c s) = rf_stopped s"
  "rf_votes (resolve_reads c s) = rf_votes s"
  "rf_next (resolve_reads c s) = rf_next s"
  "rf_match (resolve_reads c s) = rf_match s"
  "rf_storage (resolve_reads c s) = rf_storage s"
  "rf_applies (resolve_reads c s) = rf_applies s"
  by (simp_all add: resolve_reads_def Let_def)

lemma apply_committed_simps [raft_simps, simp]:
  "rf_term (apply_committed s) = rf_term s"
  "rf_voted_for (apply_committed s) = rf_voted_for s"
  "rf_log (apply_committed s) = rf_log s"
  "rf_dirty (apply_committed s) = rf_dirty s"
  "rf_dirty_from (apply_committed s) = rf_dirty_from s"
  "rf_role (apply_committed s) = rf_role s"
  "rf_leader (apply_committed s) = rf_leader s"
  "rf_commit (apply_committed s) = rf_commit s"
  "rf_stopped (apply_committed s) = rf_stopped s"
  "rf_votes (apply_committed s) = rf_votes s"
  "rf_next (apply_committed s) = rf_next s"
  "rf_match (apply_committed s) = rf_match s"
  "rf_storage (apply_committed s) = rf_storage s"
  by (simp_all add: apply_committed_def)

lemma advance_commit_simps [raft_simps, simp]:
  "rf_term (advance_commit c s) = rf_term s"
  "rf_voted_for (advance_commit c s) = rf_voted_for s"
  "rf_log (advance_commit c s) = rf_log s"
  "rf_dirty (advance_commit c s) = rf_dirty s"
  "rf_dirty_from (advance_commit c s) = rf_dirty_from s"
  "rf_role (advance_commit c s) = rf_role s"
  "rf_leader (advance_commit c s) = rf_leader s"
  "rf_applied (advance_commit c s) = rf_applied s"
  "rf_stopped (advance_commit c s) = rf_stopped s"
  "rf_votes (advance_commit c s) = rf_votes s"
  "rf_next (advance_commit c s) = rf_next s"
  "rf_match (advance_commit c s) = rf_match s"
  "rf_storage (advance_commit c s) = rf_storage s"
  "rf_applies (advance_commit c s) = rf_applies s"
  by (simp_all add: advance_commit_def)

lemma drop_outputs_simps [raft_simps, simp]:
  "rf_term (drop_outputs s) = rf_term s"
  "rf_voted_for (drop_outputs s) = rf_voted_for s"
  "rf_log (drop_outputs s) = rf_log s"
  "rf_dirty (drop_outputs s) = rf_dirty s"
  "rf_dirty_from (drop_outputs s) = rf_dirty_from s"
  "rf_role (drop_outputs s) = rf_role s"
  "rf_leader (drop_outputs s) = rf_leader s"
  "rf_commit (drop_outputs s) = rf_commit s"
  "rf_applied (drop_outputs s) = rf_applied s"
  "rf_stopped (drop_outputs s) = rf_stopped s"
  "rf_votes (drop_outputs s) = rf_votes s"
  "rf_next (drop_outputs s) = rf_next s"
  "rf_match (drop_outputs s) = rf_match s"
  "rf_storage (drop_outputs s) = rf_storage s"
  "rf_applies (drop_outputs s) = rf_applies s"
  by (simp_all add: drop_outputs_def)

lemma persist_simps [raft_simps, simp]:
  "rf_term (persist c s) = rf_term s"
  "rf_voted_for (persist c s) = rf_voted_for s"
  "rf_log (persist c s) = rf_log s"
  "rf_role (persist c s) = rf_role s"
  "rf_leader (persist c s) = rf_leader s"
  "rf_commit (persist c s) = rf_commit s"
  "rf_applied (persist c s) = rf_applied s"
  "rf_votes (persist c s) = rf_votes s"
  "rf_next (persist c s) = rf_next s"
  "rf_match (persist c s) = rf_match s"
  "rf_applies (persist c s) = rf_applies s"
  by (simp_all add: persist_def Let_def split: prod.splits)

lemma finish_simps [raft_simps, simp]:
  "rf_term (finish c s) = rf_term s"
  "rf_voted_for (finish c s) = rf_voted_for s"
  "rf_log (finish c s) = rf_log s"
  "rf_role (finish c s) = rf_role s"
  "rf_leader (finish c s) = rf_leader s"
  "rf_votes (finish c s) = rf_votes s"
  "rf_next (finish c s) = rf_next s"
  "rf_match (finish c s) = rf_match s"
  by (simp_all add: finish_def Let_def)

lemma last_index_cong [raft_simps, simp]:
  "last_index (finish c s) = last_index s"
  "last_index (reset_election_timer c now s) = last_index s"
  "last_index (changed_meta s) = last_index s"
  "last_index (changed_from i s) = last_index s"
  "last_index (fail_reads s) = last_index s"
  by (simp_all add: last_index_def)

lemma term_at_cong [raft_simps, simp]:
  "term_at (finish c s) i = term_at s i"
  "term_at (reset_election_timer c now s) i = term_at s i"
  "term_at (changed_meta s) i = term_at s i"
  "term_at (changed_from j s) i = term_at s i"
  "term_at (fail_reads s) i = term_at s i"
  by (simp_all add: term_at_def)

text \<open>The three transitions, field by field.\<close>

lemma become_follower_simps [raft_simps, simp]:
  "rf_term (become_follower c t l now s) = max t (rf_term s)"
  "rf_voted_for (become_follower c t l now s) = (if t > rf_term s then None else rf_voted_for s)"
  "rf_log (become_follower c t l now s) = rf_log s"
  "rf_dirty (become_follower c t l now s) = (t > rf_term s \<or> rf_dirty s)"
  "rf_dirty_from (become_follower c t l now s) = rf_dirty_from s"
  "rf_role (become_follower c t l now s) = Follower"
  "rf_leader (become_follower c t l now s) = l"
  "rf_commit (become_follower c t l now s) = rf_commit s"
  "rf_applied (become_follower c t l now s) = rf_applied s"
  "rf_stopped (become_follower c t l now s) = rf_stopped s"
  "rf_votes (become_follower c t l now s) = rf_votes s"
  "rf_next (become_follower c t l now s) = rf_next s"
  "rf_match (become_follower c t l now s) = rf_match s"
  "rf_storage (become_follower c t l now s) = rf_storage s"
  "rf_applies (become_follower c t l now s) = rf_applies s"
  by (auto simp: become_follower_def Let_def changed_meta_def)

lemma become_leader_simps [raft_simps, simp]:
  "rf_term (become_leader c now s) = rf_term s"
  "rf_voted_for (become_leader c now s) = rf_voted_for s"
  "rf_log (become_leader c now s) = rf_log s @ [\<lparr>e_term = rf_term s, e_command = ''NOOP''\<rparr>]"
  "rf_dirty (become_leader c now s)"
  "rf_dirty_from (become_leader c now s) =
     (if rf_dirty_from s = 0 \<or> Suc (last_index s) < rf_dirty_from s then Suc (last_index s) else rf_dirty_from s)"
  "rf_role (become_leader c now s) = Leader"
  "rf_leader (become_leader c now s) = Some (cfg_id c)"
  "rf_commit (become_leader c now s) = rf_commit s"
  "rf_applied (become_leader c now s) = rf_applied s"
  "rf_stopped (become_leader c now s) = rf_stopped s"
  "rf_votes (become_leader c now s) = rf_votes s"
  "rf_next (become_leader c now s) = replicate (cfg_size c) (last_index s + 1)"
  "rf_match (become_leader c now s) = replicate (cfg_size c) 0"
  "rf_storage (become_leader c now s) = rf_storage s"
  "rf_applies (become_leader c now s) = rf_applies s"
  by (simp_all add: become_leader_def Let_def last_index_def) (simp_all add: changed_from_def)

definition noop_log :: "'s RaftConfig \<Rightarrow> 's Raft \<Rightarrow> Entry list" where
  "noop_log c s =
     (if majority c 1 then rf_log s @ [\<lparr>e_term = Suc (rf_term s), e_command = ''NOOP''\<rparr>] else rf_log s)"

lemma start_election_simps [raft_simps, simp]:
  "rf_term (start_election c now s) = Suc (rf_term s)"
  "rf_voted_for (start_election c now s) = Some (cfg_id c)"
  "rf_log (start_election c now s) = noop_log c s"
  "rf_dirty (start_election c now s)"
  "rf_dirty_from (start_election c now s) =
     (if majority c 1 \<and> (rf_dirty_from s = 0 \<or> Suc (last_index s) < rf_dirty_from s)
      then Suc (last_index s) else rf_dirty_from s)"
  "rf_role (start_election c now s) = (if majority c 1 then Leader else Candidate)"
  "rf_commit (start_election c now s) = rf_commit s"
  "rf_applied (start_election c now s) = rf_applied s"
  "rf_stopped (start_election c now s) = rf_stopped s"
  "rf_votes (start_election c now s) = (replicate (length (rf_votes s)) False)[cfg_id c := True]"
  "rf_next (start_election c now s) = (if majority c 1 then replicate (cfg_size c) (last_index s + 1) else rf_next s)"
  "rf_match (start_election c now s) = (if majority c 1 then replicate (cfg_size c) 0 else rf_match s)"
  "rf_storage (start_election c now s) = rf_storage s"
  "rf_applies (start_election c now s) = rf_applies s"
  by (simp_all add: start_election_def Let_def noop_log_def last_index_def) (simp_all add: changed_meta_def)

end
