(* ===== verification/Raft_Inv.thy ===== *)
theory Raft_Inv
  imports Raft_Frames
begin

text \<open>
  What one replica keeps, whatever it is told: the shape of its state, the order of its log
  and the entries it applies.
\<close>

section \<open>Inputs as one type\<close>

text \<open>
  Everything that can happen to a replica. An APPEND that reaches the core has passed
  \<^verbatim>\<open>parse_append\<close>: its terms do not fall, and none is newer than the leader's.
\<close>

datatype Input =
  Tick Millis
| Vote VoteRequest Millis
| Append AppendRequest Millis
| VoteReplied nat VoteRequest VoteReply Millis
| AppendReplied nat AppendRequest AppendReply Millis
| CallFailed nat Outgoing Millis
| Propose string Millis
| Read nat Millis

fun raft_step :: "'s RaftConfig \<Rightarrow> Input \<Rightarrow> 's Raft \<Rightarrow> 's Raft" where
  "raft_step c (Tick now) s = tick c now s"
| "raft_step c (Vote req now) s = snd (handle_vote c req now s)"
| "raft_step c (Append req now) s = snd (handle_append c req now s)"
| "raft_step c (VoteReplied from sent reply now) s = handle_vote_reply c from sent reply now s"
| "raft_step c (AppendReplied from sent reply now) s = handle_append_reply c from sent reply now s"
| "raft_step c (CallFailed to sent now) s = call_failed c to sent now s"
| "raft_step c (Propose command now) s = snd (propose c command now s)"
| "raft_step c (Read i now) s = snd (read c i now s)"

definition append_ok :: "AppendRequest \<Rightarrow> bool" where
  "append_ok req \<longleftrightarrow>
     sorted (aq_prev_term req # map e_term (aq_entries req)) \<and>
     (\<forall>e\<in>set (aq_entries req). e_term e \<le> aq_term req)"

fun input_ok :: "Input \<Rightarrow> bool" where
  "input_ok (Append req _) = append_ok req"
| "input_ok _ = True"

section \<open>Merging an APPEND into a log\<close>

text \<open>What the loop over the entries does to the log when it does not stop.\<close>

fun merge_log :: "Index \<Rightarrow> Entry list \<Rightarrow> Entry list \<Rightarrow> Entry list" where
  "merge_log i [] log = log"
| "merge_log i (e # es) log =
     (if Suc i \<le> length log
      then if e_term (log ! i) = e_term e then merge_log (Suc i) es log else take i log @ e # es
      else log @ e # es)"

lemma append_entries_simps [raft_simps, simp]:
  "rf_term (append_entries i es s) = rf_term s"
  "rf_voted_for (append_entries i es s) = rf_voted_for s"
  "rf_role (append_entries i es s) = rf_role s"
  "rf_leader (append_entries i es s) = rf_leader s"
  "rf_commit (append_entries i es s) = rf_commit s"
  "rf_applied (append_entries i es s) = rf_applied s"
  "rf_votes (append_entries i es s) = rf_votes s"
  "rf_next (append_entries i es s) = rf_next s"
  "rf_match (append_entries i es s) = rf_match s"
  "rf_storage (append_entries i es s) = rf_storage s"
  "rf_applies (append_entries i es s) = rf_applies s"
  by (induction i es s rule: append_entries.induct) (auto simp: Let_def)

lemma append_entries_push:
  "last_index s = i \<Longrightarrow>
     rf_log (append_entries i es s) = rf_log s @ es \<and> rf_stopped (append_entries i es s) = rf_stopped s"
  by (induction i es s rule: append_entries.induct) (auto simp: last_index_def)

lemma append_entries_log:
  assumes "i \<le> last_index s" "\<not> rf_stopped s"
  shows "rf_log (append_entries i es s) =
      (if rf_stopped (append_entries i es s) then rf_log s else merge_log i es (rf_log s)) \<and>
    (\<not> rf_stopped (append_entries i es s) \<longrightarrow>
       take (rf_commit s) (merge_log i es (rf_log s)) = take (rf_commit s) (rf_log s) \<or>
       last_index s < rf_commit s)"
  using assms
proof (induction i es s rule: append_entries.induct)
  case (2 i e es s)
  consider (same) "Suc i \<le> last_index s" "term_at s (Suc i) = e_term e"
    | (bad) "Suc i \<le> last_index s" "term_at s (Suc i) \<noteq> e_term e" "Suc i \<le> rf_commit s"
    | (cut) "Suc i \<le> last_index s" "term_at s (Suc i) \<noteq> e_term e" "\<not> Suc i \<le> rf_commit s"
    | (push) "\<not> Suc i \<le> last_index s" by blast
  then show ?case
  proof cases
    case same
    then show ?thesis using "2.IH"(1) "2.prems" by (simp add: last_index_def term_at_def entry_term_at_def)
  next
    case bad
    then show ?thesis by simp
  next
    case cut
    define s1 where "s1 = changed_from (Suc i) (s\<lparr>rf_log := take i (rf_log s)\<rparr>)"
    define s2 where "s2 = changed_from (Suc i) (s1\<lparr>rf_log := rf_log s1 @ [e]\<rparr>)"
    have "append_entries i (e # es) s = append_entries (Suc i) es s2"
      using cut by (simp add: s1_def s2_def Let_def)
    moreover have "last_index s2 = Suc i" "rf_log s2 = take i (rf_log s) @ [e]" "\<not> rf_stopped s2"
      using cut 2 by (auto simp: s1_def s2_def last_index_def)
    ultimately show ?thesis
      using append_entries_push [of s2 "Suc i" es] cut
      by (auto simp: last_index_def term_at_def entry_term_at_def)
  next
    case push
    then show ?thesis
      using append_entries_push [of "changed_from (Suc i) (s\<lparr>rf_log := rf_log s @ [e]\<rparr>)" "Suc i" es] 2
      by (auto simp: last_index_def)
  qed
qed auto

lemma merge_log_length: "i \<le> length log \<Longrightarrow> i + length es \<le> length (merge_log i es log)"
  by (induction i es log rule: merge_log.induct) auto

definition log_sorted :: "Entry list \<Rightarrow> Term \<Rightarrow> bool" where
  "log_sorted log t \<longleftrightarrow> sorted (map e_term log) \<and> (\<forall>e\<in>set log. e_term e \<le> t)"

lemma sorted_take_append:
  assumes "sorted (map e_term log)" "sorted (map e_term es)" "i \<le> length log"
    and "\<And>e. e \<in> set es \<Longrightarrow> entry_term_at log i \<le> e_term e"
  shows "sorted (map e_term (take i log @ es))"
proof -
  have "e_term a \<le> e_term b" if a: "a \<in> set (take i log)" and b: "b \<in> set es" for a b
  proof -
    obtain j where j: "j < i" "j < length log" "a = log ! j" using a by (auto simp: in_set_conv_nth)
    then have "e_term a \<le> e_term (log ! (i - 1))"
      using assms(1,3) sorted_nth_mono [of "map e_term log" j "i - 1"] by simp
    also have "\<dots> \<le> e_term b" using assms(4) [OF b] j assms(3) by (simp add: entry_term_at_def)
    finally show ?thesis .
  qed
  moreover have "sorted (map e_term (take i log))" using assms(1) by (metis sorted_wrt_take take_map)
  ultimately show ?thesis using assms(2) by (auto simp: sorted_append)
qed

lemma merge_log_sorted:
  assumes "log_sorted log t" "i \<le> length log" "sorted (entry_term_at log i # map e_term es)"
    "\<forall>e\<in>set es. e_term e \<le> t"
  shows "log_sorted (merge_log i es log) t"
  using assms
proof (induction i es log rule: merge_log.induct)
  case (2 i e es log)
  show ?case
  proof (cases "Suc i \<le> length log \<and> e_term (log ! i) = e_term e")
    case True
    with 2 show ?thesis by (simp add: entry_term_at_def)
  next
    case False
    then have "merge_log i (e # es) log = take i log @ e # es" using 2 by auto
    moreover have "sorted (map e_term (take i log @ e # es))"
      using 2 by (intro sorted_take_append) (auto simp: log_sorted_def)
    ultimately show ?thesis using 2 by (auto simp: log_sorted_def dest: in_set_takeD)
  qed
qed simp

section \<open>The replica's invariant\<close>

definition vectors_ok :: "'s RaftConfig \<Rightarrow> 's Raft \<Rightarrow> bool" where
  "vectors_ok c s \<longleftrightarrow>
     cfg_id c < cfg_size c \<and> length (rf_votes s) = cfg_size c \<and> length (rf_next s) = cfg_size c \<and>
     length (rf_match s) = cfg_size c \<and> (\<forall>n\<in>set (rf_next s). 1 \<le> n)"

text \<open>
  What has been applied is the start of the log. This part is separate because
  \<open>handle_append\<close> can move the commit index back (see \<open>commit_can_fall\<close>), and an index
  between the two is then no longer guarded.
\<close>

definition applied_ok :: "'s Raft \<Rightarrow> bool" where
  "applied_ok s \<longleftrightarrow>
     rf_applied s \<le> rf_commit s \<and>
     rf_applies s = map (\<lambda>i. (i, rf_log s ! (i - 1))) [1..<Suc (rf_applied s)]"

definition raft_inv :: "bool \<Rightarrow> 's RaftConfig \<Rightarrow> 's Raft \<Rightarrow> bool" where
  "raft_inv b c s \<longleftrightarrow>
     vectors_ok c s \<and> rf_commit s \<le> last_index s \<and> log_sorted (rf_log s) (rf_term s) \<and>
     map fst (rf_applies s) = [1..<Suc (rf_applied s)] \<and> (b \<longrightarrow> applied_ok s)"

abbreviation raft_ok :: "'s RaftConfig \<Rightarrow> 's Raft \<Rightarrow> bool" where
  "raft_ok \<equiv> raft_inv False"

lemma advance_scan_bounds: "n \<le> last_index s \<Longrightarrow> rf_commit s \<le> last_index s \<Longrightarrow>
  rf_commit s \<le> advance_scan c s n \<and> advance_scan c s n \<le> last_index s"
  by (induction n) auto

lemma upt_split: "i \<le> j \<Longrightarrow> [1..<Suc j] = [1..<Suc i] @ [Suc i..<Suc j]"
  using upt_add_eq_append [of 1 "Suc i" "j - i"] by simp

lemma apply_committed_ok:
  assumes "raft_inv b c s"
  shows "raft_inv b c (apply_committed s)"
  using assms upt_split [of "rf_applied s" "rf_commit s"]
  by (cases "rf_applied s \<le> rf_commit s")
    (auto simp: raft_inv_def vectors_ok_def last_index_def applied_ok_def apply_committed_def comp_def
      max_def simp del: upt_Suc)

lemma finish_raft_ok:
  assumes "raft_inv b c s"
  shows "raft_inv b c (finish c s) \<and> rf_commit s \<le> rf_commit (finish c s)"
proof (cases "rf_stopped s \<or> rf_stopped (persist c s)")
  case True
  then show ?thesis
    using assms by (auto simp: finish_def Let_def raft_inv_def vectors_ok_def last_index_def applied_ok_def)
next
  case False
  define s1 where "s1 = (if rf_role s = Leader then advance_commit c (persist c s) else persist c s)"
  have f: "finish c s = resolve_reads c (apply_committed s1)"
    using False by (simp add: finish_def Let_def s1_def)
  have commit: "rf_commit s \<le> rf_commit s1" "rf_commit s1 \<le> length (rf_log s)"
    using assms advance_scan_bounds [of "last_index s" "persist c s" c]
    by (auto simp: s1_def raft_inv_def last_index_def advance_commit_def)
  have "raft_inv b c s1"
    using assms commit by (auto simp: s1_def raft_inv_def vectors_ok_def last_index_def applied_ok_def)
  from apply_committed_ok [OF this] show ?thesis
    using commit by (auto simp: f raft_inv_def vectors_ok_def last_index_def applied_ok_def)
qed

text \<open>A step that keeps the committed part of the log keeps what has been applied.\<close>

lemma raft_ok_relog:
  assumes "raft_inv b c s" "b \<Longrightarrow> take (rf_commit s) (rf_log s') = take (rf_commit s) (rf_log s)"
    and "b \<Longrightarrow> rf_commit s \<le> rf_commit s'" "rf_commit s' \<le> last_index s'" "rf_applied s' = rf_applied s"
    and "rf_applies s' = rf_applies s" "vectors_ok c s'" "log_sorted (rf_log s') (rf_term s')"
  shows "raft_inv b c s'"
proof -
  have "applied_ok s'" if b
  proof -
    have ok: "applied_ok s" using assms(1) that by (simp add: raft_inv_def)
    have "rf_log s' ! (i - 1) = rf_log s ! (i - 1)" if "i \<in> set [1..<Suc (rf_applied s)]" for i
    proof -
      have "i - 1 < rf_commit s" using that ok by (auto simp: applied_ok_def)
      then show ?thesis using assms(2) \<open>b\<close> by (metis nth_take)
    qed
    then show ?thesis using ok assms(3,5,6) that by (auto simp: applied_ok_def simp del: upt_Suc)
  qed
  then show ?thesis using assms by (auto simp: raft_inv_def simp del: upt_Suc)
qed

lemma log_sorted_mono: "log_sorted log t \<Longrightarrow> t \<le> t' \<Longrightarrow> log_sorted log t'"
  by (auto simp: log_sorted_def)

lemma log_sorted_push: "log_sorted log t \<Longrightarrow> log_sorted (log @ [\<lparr>e_term = t, e_command = x\<rparr>]) t"
  by (auto simp: log_sorted_def sorted_append)

lemmas raft_ok_simps = raft_inv_def vectors_ok_def last_index_def applied_ok_def

lemma finish_ok: "raft_inv b c s \<Longrightarrow> raft_inv b c (finish c s)"
  using finish_raft_ok by blast

lemma become_follower_ok:
  assumes "raft_inv b c s"
  shows "raft_inv b c (become_follower c t l now s)"
  by (rule raft_ok_relog [OF assms]) (use assms in \<open>auto simp: raft_ok_simps elim: log_sorted_mono\<close>)

lemma become_leader_ok:
  assumes "raft_inv b c s"
  shows "raft_inv b c (become_leader c now s)"
  by (rule raft_ok_relog [OF assms]) (use assms in \<open>auto simp: raft_ok_simps log_sorted_push\<close>)

lemma start_election_ok:
  assumes "raft_inv b c s"
  shows "raft_inv b c (start_election c now s)"
proof (rule raft_ok_relog [OF assms])
  have "log_sorted (rf_log s) (Suc (rf_term s))"
    using assms by (auto simp: raft_inv_def elim: log_sorted_mono)
  then show "log_sorted (rf_log (start_election c now s)) (rf_term (start_election c now s))"
    by (simp add: noop_log_def log_sorted_push)
qed (use assms in \<open>auto simp: raft_ok_simps noop_log_def\<close>)

lemma quiet_ok:
  assumes "raft_inv b c s"
    and "rf_log s' = rf_log s" "rf_term s' = rf_term s" "rf_commit s' = rf_commit s"
    "rf_applied s' = rf_applied s" "rf_applies s' = rf_applies s" "rf_votes s' = rf_votes s"
    "rf_next s' = rf_next s" "rf_match s' = rf_match s"
  shows "raft_inv b c s'"
  using assms by (simp add: raft_ok_simps)

lemma raft_ok_updates:
  "raft_inv b c s \<Longrightarrow> raft_inv b c (s\<lparr>rf_heard := h\<rparr>)"
  "raft_inv b c s \<Longrightarrow> raft_inv b c (s\<lparr>rf_inflight := f\<rparr>)"
  "raft_inv b c s \<Longrightarrow> raft_inv b c (s\<lparr>rf_retry_after := r\<rparr>)"
  "raft_inv b c s \<Longrightarrow> raft_inv b c (s\<lparr>rf_reads := rs\<rparr>)"
  "raft_inv b c s \<Longrightarrow> raft_inv b c (s\<lparr>rf_votes := (rf_votes s)[p := v']\<rparr>)"
  "raft_inv b c s \<Longrightarrow> raft_inv b c (s\<lparr>rf_voted_for := v\<rparr>)"
  "raft_inv b c s \<Longrightarrow> raft_inv b c (s\<lparr>rf_match := (rf_match s)[p := m]\<rparr>)"
  "raft_inv b c s \<Longrightarrow> 1 \<le> n \<Longrightarrow> raft_inv b c (s\<lparr>rf_next := (rf_next s)[p := n]\<rparr>)"
  "raft_inv b c s \<Longrightarrow> raft_inv b c (reset_election_timer c now s)"
  "raft_inv b c s \<Longrightarrow> raft_inv b c (changed_meta s)"
  "raft_inv b c s \<Longrightarrow> raft_inv b c (send_if_due c now force p s)"
  "raft_inv b c s \<Longrightarrow> raft_inv b c (fold (send_if_due c now force) ps s)"
  "raft_inv b c s \<Longrightarrow> raft_inv b c (fold (tick_peer c now) ps s)"
  by (auto simp: raft_ok_simps dest!: set_update_subset_insert [THEN subsetD])

lemma record_reply_ok: "raft_inv b c s \<Longrightarrow> raft_inv b c (record_reply p sent reply now s)"
  using record_reply_vectors(3) [of s p sent reply now]
  by (simp add: raft_ok_simps record_reply_vectors(1,2))

lemmas step_intros = finish_ok become_follower_ok become_leader_ok start_election_ok record_reply_ok raft_ok_updates

lemma handle_append_reply_ok: "raft_inv b c s \<Longrightarrow> raft_inv b c (handle_append_reply c from sent reply now s)"
  unfolding handle_append_reply_def by (auto intro!: step_intros simp del: finish_simps)

lemma handle_vote_ok: "raft_inv b c s \<Longrightarrow> raft_inv b c (snd (handle_vote c req now s))"
  unfolding handle_vote_def Let_def by (auto intro!: step_intros simp del: finish_simps)

lemma handle_vote_reply_ok: "raft_inv b c s \<Longrightarrow> raft_inv b c (handle_vote_reply c from sent reply now s)"
  unfolding handle_vote_reply_def Let_def by (auto intro!: step_intros simp del: finish_simps)

lemma tick_ok: "raft_inv b c s \<Longrightarrow> raft_inv b c (tick c now s)"
  unfolding tick_def by (auto intro!: step_intros simp del: finish_simps)

lemma propose_log_ok:
  assumes "raft_inv b c s"
  shows "raft_inv b c (changed_from i (s\<lparr>rf_log := rf_log s @ [\<lparr>e_term = rf_term s, e_command = x\<rparr>]\<rparr>))"
  by (rule raft_ok_relog [OF assms]) (use assms in \<open>auto simp: raft_ok_simps log_sorted_push\<close>)

lemma propose_ok: "raft_inv b c s \<Longrightarrow> raft_inv b c (snd (propose c command now s))"
  unfolding propose_def Let_def by (auto intro!: step_intros propose_log_ok simp del: finish_simps)

lemma read_ok: "raft_inv b c s \<Longrightarrow> raft_inv b c (snd (read c i now s))"
  unfolding read_def Let_def by (auto intro!: step_intros simp del: finish_simps)

lemma call_failed_ok: "raft_inv b c s \<Longrightarrow> raft_inv b c (call_failed c to sent now s)"
  unfolding call_failed_def Let_def by (auto intro!: step_intros split: Outgoing.splits)

text \<open>The APPENDs after which the commit index has not moved back.\<close>

definition keeps_commit :: "AppendRequest \<Rightarrow> 's Raft \<Rightarrow> bool" where
  "keeps_commit req s \<longleftrightarrow>
     aq_commit req \<le> rf_commit s \<or> rf_commit s \<le> aq_prev_index req + length (aq_entries req)"

lemma handle_append_ok:
  assumes "raft_inv b c s" "append_ok req" "b \<longrightarrow> keeps_commit req s"
  shows "raft_inv b c (snd (handle_append c req now s))"
proof -
  define s1 where "s1 = reset_election_timer c now (become_follower c (aq_term req) (Some (aq_leader req)) now s)"
  have s1: "raft_inv b c s1" unfolding s1_def by (intro step_intros assms)
  define s2 where "s2 = append_entries (aq_prev_index req) (aq_entries req) s1"
  define last_new where "last_new = aq_prev_index req + length (aq_entries req)"
  define s3 where "s3 = (if aq_commit req > rf_commit s2
    then s2\<lparr>rf_commit := min (aq_commit req) last_new\<rparr> else s2)"
  have s2: "raft_inv b c s2" "\<not> rf_stopped s2 \<longrightarrow> raft_inv b c s3"
    if ok: "\<not> rf_stopped s" "\<not> aq_term req < rf_term s" "aq_prev_index req \<le> last_index s1"
      "term_at s1 (aq_prev_index req) = aq_prev_term req"
  proof -
    let ?merged = "merge_log (aq_prev_index req) (aq_entries req) (rf_log s1)"
    have run: "\<not> rf_stopped s1" and tm: "rf_term s1 = aq_term req" and cm: "rf_commit s1 = rf_commit s"
      using ok by (simp_all add: s1_def)
    note log = append_entries_log [OF ok(3) run, of "aq_entries req", folded s2_def]
    have ms: "log_sorted ?merged (rf_term s1)"
      using s1 ok(3,4) assms(2) tm
      by (intro merge_log_sorted) (auto simp: raft_inv_def last_index_def term_at_def append_ok_def)
    have c1: "rf_commit s1 \<le> last_index s1" using s1 by (simp add: raft_inv_def)
    have len: "last_new \<le> length ?merged"
      using ok(3) unfolding last_new_def by (intro merge_log_length) (simp add: last_index_def)
    have lenc: "rf_commit s1 \<le> length ?merged" if "\<not> rf_stopped s2"
      using log c1 that by (metis length_take min.absorb_iff2 min.absorb2 last_index_def leD nat_le_linear)
    show s2ok: "raft_inv b c s2"
      using s1 ms log c1 lenc
      by (intro raft_ok_relog [OF s1]) (auto simp: raft_ok_simps s2_def)
    show "\<not> rf_stopped s2 \<longrightarrow> raft_inv b c s3"
      using s2ok log len assms(3) cm
      by (auto intro!: raft_ok_relog [OF s2ok] simp: s3_def s2_def keeps_commit_def last_new_def)
        (auto simp: raft_ok_simps)
  qed
  show ?thesis
    unfolding handle_append_def Let_def
    using s1 s2 [unfolded s3_def] assms(1) finish_ok
    by (auto simp: s1_def [symmetric] s2_def [symmetric] last_new_def [symmetric] simp del: finish_simps)
qed

fun input_keeps_commit :: "Input \<Rightarrow> 's Raft \<Rightarrow> bool" where
  "input_keeps_commit (Append req _) s = keeps_commit req s"
| "input_keeps_commit _ s = True"

lemma raft_step_ok:
  "raft_inv b c s \<Longrightarrow> input_ok i \<Longrightarrow> b \<longrightarrow> input_keeps_commit i s \<Longrightarrow> raft_inv b c (raft_step c i s)"
  by (cases i) (simp_all add: tick_ok handle_vote_ok handle_append_ok handle_vote_reply_ok
      handle_append_reply_ok call_failed_ok propose_ok read_ok)

lemma raft_boot_ok: "cfg_id c < cfg_size c \<Longrightarrow> log_sorted (d_log d) (d_term d) \<Longrightarrow> raft_inv b c (raft_boot c st d)"
  by (simp add: raft_boot_def Let_def raft_ok_simps)

lemma raft_init_ok:
  "cfg_id c < cfg_size c \<Longrightarrow> log_sorted (d_log d) (d_term d) \<Longrightarrow> raft_inv b c (raft_init c st d now)"
  using raft_boot_ok [of c d b st] by (auto simp: raft_init_def Let_def intro!: step_intros simp del: finish_simps)

lemma raft_run_ok:
  "raft_ok c s \<Longrightarrow> \<forall>i\<in>set is. input_ok i \<Longrightarrow> raft_ok c (fold (raft_step c) is s)"
  by (induction "is" arbitrary: s) (auto intro: raft_step_ok)

end
