(* ===== verification/Raft_Wire.thy ===== *)
theory Raft_Wire
  imports Lookup Raft_Inv
begin

text \<open>
  \<^verbatim>\<open>src/raft_wire.h\<close> and \<^verbatim>\<open>src/raft_wire.cpp\<close>: the messages between replicas as text. Every
  message written is read back as it was, and an APPEND that is accepted has the shape the
  core relies on.
\<close>

section \<open>Words\<close>

definition group_fingerprint :: "platform \<Rightarrow> string list \<Rightarrow> string" where
  "group_fingerprint P members = take 8 (sha1 P (join_with (CHR '','') members))"

definition parse_u64 :: "string \<Rightarrow> nat option" where
  "parse_u64 s =
     (if s = [] \<or> length s > 18 then None
      else if length s > 1 \<and> hd s = CHR ''0'' then None
      else digits_from 0 s)"

definition parse_id :: "string \<Rightarrow> nat option" where
  "parse_id s = (case parse_u64 s of None \<Rightarrow> None | Some v \<Rightarrow> if v > 1000 then None else Some v)"

definition parse_flag :: "string \<Rightarrow> bool option" where
  "parse_flag s = (if s \<noteq> ''0'' \<and> s \<noteq> ''1'' then None else Some (s = ''1''))"

section \<open>Messages\<close>

definition encode_vote :: "string \<Rightarrow> VoteRequest \<Rightarrow> string" where
  "encode_vote grp req =
     ''VOTE '' @ grp @ '' '' @ to_string (vq_term req) @ '' '' @ to_string (vq_candidate req) @ '' '' @
     to_string (vq_last_index req) @ '' '' @ to_string (vq_last_term req)"

definition encode_vote_reply :: "VoteReply \<Rightarrow> string" where
  "encode_vote_reply reply = ''VOTED '' @ to_string (vr_term reply) @ (if vr_granted reply then '' 1'' else '' 0'')"

definition entry_line :: "Entry \<Rightarrow> string" where
  "entry_line e = to_string (e_term e) @ '' '' @ e_command e @ [CHR 0x0A]"

text \<open>The line and the body of an APPEND.\<close>

definition encode_append :: "string \<Rightarrow> AppendRequest \<Rightarrow> string \<times> string" where
  "encode_append grp req =
     (let body = concat (map entry_line (aq_entries req)) in
      (''APPEND '' @ grp @ '' '' @ to_string (aq_term req) @ '' '' @ to_string (aq_leader req) @ '' '' @
       to_string (aq_prev_index req) @ '' '' @ to_string (aq_prev_term req) @ '' '' @ to_string (aq_commit req) @ '' '' @
       to_string (aq_seq req) @ '' '' @ to_string (length (aq_entries req)) @ '' '' @ to_string (length body), body))"

definition encode_append_reply :: "AppendReply \<Rightarrow> string" where
  "encode_append_reply reply =
     ''APPENDED '' @ to_string (ar_term reply) @ (if ar_success reply then '' 1 '' else '' 0 '') @ to_string (ar_index reply)"

definition parse_vote :: "string list \<Rightarrow> (string \<times> VoteRequest) option" where
  "parse_vote w =
     (case w of
        [w0, grp, w2, w3, w4, w5] \<Rightarrow>
          if w0 \<noteq> ''VOTE'' then None
          else (case (parse_u64 w2, parse_id w3, parse_u64 w4, parse_u64 w5) of
                  (Some t, Some c, Some i, Some lt) \<Rightarrow>
                    Some (grp, \<lparr>vq_term = t, vq_candidate = c, vq_last_index = i, vq_last_term = lt\<rparr>)
                | _ \<Rightarrow> None)
      | _ \<Rightarrow> None)"

text \<open>
  The loop over the body of an APPEND. The pieces are the body cut at its newlines, so the
  last piece is what follows the last newline, and must be empty. \<open>floor\<close> is the term of the
  entry before, and \<open>room\<close> how many more entries the line announced.
\<close>

fun parse_entries :: "(string \<Rightarrow> bool) \<Rightarrow> Term \<Rightarrow> Term \<Rightarrow> nat \<Rightarrow> string list \<Rightarrow> Entry list option" where
  "parse_entries valid_command leader_term floor room [] = None"
| "parse_entries valid_command leader_term floor room [rest] = (if rest = [] \<and> room = 0 then Some [] else None)"
| "parse_entries valid_command leader_term floor room (line # lines) =
     (if CHR '' '' \<notin> set line then None
      else case parse_u64 (takeWhile (\<lambda>c. c \<noteq> CHR '' '') line) of
        None \<Rightarrow> None
      | Some t \<Rightarrow>
          let command = tl (dropWhile (\<lambda>c. c \<noteq> CHR '' '') line) in
          if \<not> valid_command command then None
          else if t < floor \<or> t > leader_term then None
          else case room of
            0 \<Rightarrow> None
          | Suc room \<Rightarrow>
              map_option ((#) \<lparr>e_term = t, e_command = command\<rparr>) (parse_entries valid_command leader_term t room lines))"

definition parse_append ::
  "string list \<Rightarrow> string \<Rightarrow> (string \<Rightarrow> bool) \<Rightarrow> (string \<times> AppendRequest) option"
where
  "parse_append w body valid_command =
     (case w of
        [w0, grp, w2, w3, w4, w5, w6, w7, w8, w9] \<Rightarrow>
          if w0 \<noteq> ''APPEND'' then None
          else (case (parse_u64 w2, parse_id w3, parse_u64 w4, parse_u64 w5, parse_u64 w6, parse_u64 w7, parse_u64 w8, parse_u64 w9) of
                  (Some t, Some l, Some pi, Some pt, Some c, Some q, Some n, Some len) \<Rightarrow>
                    if len \<noteq> length body then None
                    else map_option
                      (\<lambda>es. (grp, \<lparr>aq_term = t, aq_leader = l, aq_prev_index = pi, aq_prev_term = pt,
                                     aq_entries = es, aq_commit = c, aq_seq = q\<rparr>))
                      (parse_entries valid_command t pt n (split_on (CHR 0x0A) body))
                | _ \<Rightarrow> None)
      | _ \<Rightarrow> None)"

definition parse_vote_reply :: "string \<Rightarrow> VoteReply option" where
  "parse_vote_reply line =
     (case split_single_spaces line of
        [w0, w1, w2] \<Rightarrow>
          if w0 \<noteq> ''VOTED'' then None
          else (case (parse_u64 w1, parse_flag w2) of
                  (Some t, Some g) \<Rightarrow> Some \<lparr>vr_term = t, vr_granted = g\<rparr>
                | _ \<Rightarrow> None)
      | _ \<Rightarrow> None)"

definition parse_append_reply :: "string \<Rightarrow> AppendReply option" where
  "parse_append_reply line =
     (case split_single_spaces line of
        [w0, w1, w2, w3] \<Rightarrow>
          if w0 \<noteq> ''APPENDED'' then None
          else (case (parse_u64 w1, parse_flag w2, parse_u64 w3) of
                  (Some t, Some s, Some i) \<Rightarrow> Some \<lparr>ar_term = t, ar_success = s, ar_index = i\<rparr>
                | _ \<Rightarrow> None)
      | _ \<Rightarrow> None)"

section \<open>Round trips\<close>

abbreviation wire_max :: nat where
  "wire_max \<equiv> 10 ^ 18"

lemma to_string_zero: "to_string 0 = ''0''"
  by (simp add: to_string.simps)

lemma parse_u64_to_string [wire_simps]: "n < wire_max \<Longrightarrow> parse_u64 (to_string n) = Some n"
  using to_string_length_le [of n 18] to_string_hd_zero [of n]
  by (cases "n = 0") (auto simp: parse_u64_def to_string_zero digit_val_def)

lemma parse_u64_Some: "parse_u64 s = Some n \<Longrightarrow> n < wire_max \<and> to_string n = s"
proof -
  assume p: "parse_u64 s = Some n"
  then have s: "s \<noteq> []" "length s \<le> 18" "length s > 1 \<longrightarrow> hd s \<noteq> CHR ''0''" "digits_from 0 s = Some n"
    by (auto simp: parse_u64_def split: if_splits)
  have "n < 10 ^ length s" using digits_from_bound [OF s(4)] by simp
  also have "\<dots> \<le> wire_max" using s(2) by (intro power_increasing) auto
  finally show ?thesis using to_string_of_digits [OF s(4,1,3)] by simp
qed

interpretation u64: strict_codec to_string parse_u64 "\<lambda>n. n < wire_max"
  by unfold_locales (use parse_u64_to_string parse_u64_Some in blast)+

lemma parse_id_to_string [wire_simps]: "n \<le> 1000 \<Longrightarrow> parse_id (to_string n) = Some n"
  by (simp add: parse_id_def parse_u64_to_string)

lemma parse_id_Some: "parse_id s = Some n \<Longrightarrow> n \<le> 1000 \<and> to_string n = s"
  by (auto simp: parse_id_def u64.dec_iff split: option.splits if_splits)

interpretation member_id: strict_codec to_string parse_id "\<lambda>n. n \<le> 1000"
  by unfold_locales (use parse_id_to_string parse_id_Some in blast)+

definition vote_fits :: "string \<times> VoteRequest \<Rightarrow> bool" where
  "vote_fits m \<longleftrightarrow> (case m of (grp, req) \<Rightarrow>
     CHR '' '' \<notin> set grp \<and> vq_term req < wire_max \<and> vq_candidate req \<le> 1000 \<and>
     vq_last_index req < wire_max \<and> vq_last_term req < wire_max)"

definition vote_reply_fits :: "VoteReply \<Rightarrow> bool" where
  "vote_reply_fits r \<longleftrightarrow> vr_term r < wire_max"

definition append_reply_fits :: "AppendReply \<Rightarrow> bool" where
  "append_reply_fits r \<longleftrightarrow> ar_term r < wire_max \<and> ar_index r < wire_max"

definition append_fits :: "(string \<Rightarrow> bool) \<Rightarrow> string \<times> AppendRequest \<Rightarrow> bool" where
  "append_fits valid m \<longleftrightarrow> (case m of (grp, req) \<Rightarrow>
     CHR '' '' \<notin> set grp \<and> aq_term req < wire_max \<and> aq_leader req \<le> 1000 \<and>
     aq_prev_index req < wire_max \<and> aq_prev_term req < wire_max \<and> aq_commit req < wire_max \<and>
     aq_seq req < wire_max \<and> length (aq_entries req) < wire_max \<and>
     length (concat (map entry_line (aq_entries req))) < wire_max \<and> append_ok req \<and>
     (\<forall>e\<in>set (aq_entries req). valid (e_command e) \<and> CHR 0x0A \<notin> set (e_command e)))"

lemma join_words: "split_single_spaces line = ws \<Longrightarrow> line = join_with (CHR '' '') ws"
  by (metis join_split split_single_spaces_def)

lemma parse_vote_Some:
  "parse_vote w = Some (grp, req) \<Longrightarrow>
     w = [''VOTE'', grp, to_string (vq_term req), to_string (vq_candidate req), to_string (vq_last_index req),
          to_string (vq_last_term req)] \<and>
     vq_term req < wire_max \<and> vq_candidate req \<le> 1000 \<and> vq_last_index req < wire_max \<and> vq_last_term req < wire_max"
  by (auto simp: parse_vote_def split: list.splits if_splits option.splits dest!: parse_u64_Some parse_id_Some)

lemma parse_vote_reply_Some:
  "parse_vote_reply line = Some r \<Longrightarrow>
     split_single_spaces line = [''VOTED'', to_string (vr_term r), if vr_granted r then ''1'' else ''0''] \<and> vr_term r < wire_max"
  by (auto simp: parse_vote_reply_def parse_flag_def split: list.splits if_splits option.splits dest!: parse_u64_Some)

lemma parse_append_reply_Some:
  "parse_append_reply line = Some r \<Longrightarrow>
     split_single_spaces line =
       [''APPENDED'', to_string (ar_term r), if ar_success r then ''1'' else ''0'', to_string (ar_index r)] \<and>
     ar_term r < wire_max \<and> ar_index r < wire_max"
  by (auto simp: parse_append_reply_def parse_flag_def split: list.splits if_splits option.splits dest!: parse_u64_Some)

interpretation vote_wire: strict_codec
  "\<lambda>(grp, req). encode_vote grp req" "\<lambda>line. parse_vote (split_single_spaces line)" vote_fits
proof unfold_locales
  fix m assume "vote_fits m"
  then show "parse_vote (split_single_spaces (case m of (grp, req) \<Rightarrow> encode_vote grp req)) = Some m"
    by (cases m) (simp add: encode_vote_def parse_vote_def vote_fits_def wire_simps)
next
  fix line m assume p: "parse_vote (split_single_spaces line) = Some m"
  obtain grp req where m: "m = (grp, req)" by (cases m)
  note w = parse_vote_Some [OF p [unfolded m]]
  have "CHR '' '' \<notin> set grp"
    by (rule split_on_words_no_sep [of _ _ line]) (use w in \<open>simp add: split_single_spaces_def\<close>)
  then show "vote_fits m \<and> (case m of (grp, req) \<Rightarrow> encode_vote grp req) = line"
    using w join_words [OF conjunct1 [OF w]] by (simp add: m encode_vote_def vote_fits_def)
qed

interpretation vote_reply_wire: strict_codec encode_vote_reply parse_vote_reply vote_reply_fits
proof unfold_locales
  fix r assume "vote_reply_fits r"
  then show "parse_vote_reply (encode_vote_reply r) = Some r"
    by (simp add: encode_vote_reply_def parse_vote_reply_def parse_flag_def vote_reply_fits_def wire_simps)
next
  fix line r assume "parse_vote_reply line = Some r"
  note w = parse_vote_reply_Some [OF this]
  then show "vote_reply_fits r \<and> encode_vote_reply r = line"
    using join_words [OF conjunct1 [OF w]] by (simp add: encode_vote_reply_def vote_reply_fits_def)
qed

interpretation append_reply_wire: strict_codec encode_append_reply parse_append_reply append_reply_fits
proof unfold_locales
  fix r assume "append_reply_fits r"
  then show "parse_append_reply (encode_append_reply r) = Some r"
    by (simp add: encode_append_reply_def parse_append_reply_def parse_flag_def append_reply_fits_def wire_simps)
next
  fix line r assume "parse_append_reply line = Some r"
  note w = parse_append_reply_Some [OF this]
  then show "append_reply_fits r \<and> encode_append_reply r = line"
    using join_words [OF conjunct1 [OF w]] by (simp add: encode_append_reply_def append_reply_fits_def)
qed

lemma parse_entries_lines:
  assumes "sorted (floor # map e_term es)" "\<forall>e\<in>set es. e_term e \<le> t" "t < wire_max"
    and "\<forall>e\<in>set es. valid (e_command e) \<and> CHR 0x0A \<notin> set (e_command e)"
  shows "parse_entries valid t floor (length es) (split_on (CHR 0x0A) (concat (map entry_line es))) = Some es"
  using assms
proof (induction es arbitrary: floor)
  case (Cons e es)
  have lt: "e_term e < wire_max" using Cons.prems by auto
  have cut: "split_on (CHR 0x0A) (entry_line e @ rest) =
      (to_string (e_term e) @ CHR '' '' # e_command e) # split_on (CHR 0x0A) rest" for rest
    using split_on_append_sep [of "CHR 0x0A" "to_string (e_term e) @ CHR '' '' # e_command e" rest] Cons.prems(4)
    by (simp add: entry_line_def)
  obtain l ls where ls: "split_on (CHR 0x0A) (concat (map entry_line es)) = l # ls"
    by (cases "split_on (CHR 0x0A) (concat (map entry_line es))") auto
  have tw: "takeWhile (\<lambda>c. c \<noteq> CHR '' '') (to_string (e_term e) @ CHR '' '' # e_command e) = to_string (e_term e)"
    "dropWhile (\<lambda>c. c \<noteq> CHR '' '') (to_string (e_term e) @ CHR '' '' # e_command e) = CHR '' '' # e_command e"
    using to_string_no_sep [of "CHR '' ''" "e_term e"]
    by (auto simp: takeWhile_append2 dropWhile_append2 takeWhile_tail intro!: takeWhile_append2 [THEN trans] dropWhile_append2 [THEN trans])
  show ?case
    using Cons cut ls tw parse_u64_to_string [OF lt] by (simp add: Let_def)
qed simp

lemma parse_entries_Some:
  "parse_entries valid t floor n ls = Some es \<Longrightarrow>
     sorted (floor # map e_term es) \<and> (\<forall>e\<in>set es. e_term e \<le> t \<and> valid (e_command e)) \<and> length es = n"
proof (induction valid t floor n ls arbitrary: es rule: parse_entries.induct)
  case (3 valid t floor room line l ls)
  then show ?case
    by (auto simp: Let_def split: if_splits option.splits nat.splits) fastforce+
qed (auto split: if_splits)

interpretation append_wire: codec
  "\<lambda>(grp, req). encode_append grp req"
  "\<lambda>(line, body). parse_append (split_single_spaces line) body valid" "append_fits valid" for valid
proof unfold_locales
  fix m assume "append_fits valid m"
  then show "(case case m of (grp, req) \<Rightarrow> encode_append grp req of
      (line, body) \<Rightarrow> parse_append (split_single_spaces line) body valid) = Some m"
    using parse_entries_lines
    by (cases m) (simp add: encode_append_def parse_append_def append_fits_def append_ok_def Let_def wire_simps)
qed

section \<open>What the wire promises\<close>

text \<open>
  Every APPEND a correct leader sends arrives as it was sent: encoding a call whose numbers
  fit the wire and whose commands are valid and hold no newline, then splitting the line and
  parsing it with its body, gives back the group and the call.
\<close>

theorem append_message_roundtrip:
  assumes "append_fits valid (grp, req)" "encode_append grp req = (line, body)"
  shows "parse_append (split_single_spaces line) body valid = Some (grp, req)"
  using append_wire.dec_enc [OF assms(1)] assms(2) by simp

definition sample_call :: AppendRequest where
  "sample_call =
     \<lparr>aq_term = 3, aq_leader = 1, aq_prev_index = 7, aq_prev_term = 2,
      aq_entries = [\<lparr>e_term = 2, e_command = ''NOOP''\<rparr>, \<lparr>e_term = 3, e_command = ''SET a b''\<rparr>], aq_commit = 6, aq_seq = 41\<rparr>"

lemma sample_call_fits: "append_fits (\<lambda>_. True) (''00ff00ff'', sample_call)"
  by (simp add: append_fits_def sample_call_def append_ok_def entry_line_def to_string.simps)

theorem append_message_roundtrip_witness:
  "parse_append (split_single_spaces (fst (encode_append ''00ff00ff'' sample_call)))
     (snd (encode_append ''00ff00ff'' sample_call)) (\<lambda>_. True) = Some (''00ff00ff'', sample_call)"
  using append_message_roundtrip [OF sample_call_fits] by (simp add: prod_eq_iff)

text \<open>
  A vote request has exactly one spelling: a line is read as a vote request exactly when it
  is the encoding of one whose numbers fit, so no two different lines mean the same request.
\<close>

theorem vote_message_exact:
  "parse_vote (split_single_spaces line) = Some (grp, req) \<longleftrightarrow> vote_fits (grp, req) \<and> line = encode_vote grp req"
  using vote_wire.dec_iff [of line "(grp, req)"] by simp

lemma parse_append_facts:
  assumes "parse_append w body valid = Some (grp, req)"
  shows "append_ok req \<and> (\<forall>e\<in>set (aq_entries req). valid (e_command e)) \<and> aq_leader req \<le> 1000 \<and>
    aq_term req < wire_max \<and> aq_prev_index req < wire_max \<and> aq_commit req < wire_max \<and>
    length w = 10 \<and> w ! 8 = to_string (length (aq_entries req)) \<and> w ! 9 = to_string (length body)"
  using assms
  by (auto simp: parse_append_def append_ok_def u64.dec_iff member_id.dec_iff
      split: list.splits if_splits option.splits dest!: parse_entries_Some)

text \<open>
  C39. What the replica accepts as an APPEND is well formed: the entries' terms never fall from
  the previous entry's on, none is newer than the leader's term, every command passed the
  validity check, the ids and numbers are in range, and the body has the announced length.
\<close>

theorem parse_append_checked:
  assumes "parse_append w body valid = Some (grp, req)"
  shows "append_ok req \<and> (\<forall>e\<in>set (aq_entries req). valid (e_command e)) \<and> aq_leader req \<le> 1000 \<and>
    aq_term req < wire_max \<and> aq_prev_index req < wire_max \<and> aq_commit req < wire_max \<and>
    length w = 10 \<and> w ! 8 = to_string (length (aq_entries req)) \<and> w ! 9 = to_string (length body)"
  by (rule parse_append_facts [OF assms])

theorem parse_append_checked_witness:
  "append_ok sample_call \<and> aq_leader sample_call \<le> 1000"
  using parse_append_checked [OF append_wire.dec_enc [OF sample_call_fits, simplified case_prod_beta fst_conv snd_conv]]
  by simp

end
