(* ===== verification/Raft_Storage.thy ===== *)
theory Raft_Storage
  imports Raft_Inv
begin

text \<open>
  The contract between the core and its \<^verbatim>\<open>Storage\<close> (\<^verbatim>\<open>src/raft.h\<close>): a save that is legal after
  what the storage holds, and that reports success, leaves the storage holding exactly the
  term, vote and log it was given. From this contract alone: after every input a replica that
  has not stopped has on disk what it answers from.
\<close>

section \<open>What the core saves\<close>

definition durable_of :: "'s Raft \<Rightarrow> Durable" where
  "durable_of s = \<lparr>d_term = rf_term s, d_voted_for = rf_voted_for s, d_log = rf_log s\<rparr>"

text \<open>
  A legal save: the term does not fall, a vote in the same term is not changed, and the log is
  the old one up to the first index written.
\<close>

definition legal_save :: "Durable \<Rightarrow> Term \<Rightarrow> nat option \<Rightarrow> Index \<Rightarrow> Entry list \<Rightarrow> bool" where
  "legal_save d t v from log \<longleftrightarrow>
     d_term d \<le> t \<and> (d_term d = t \<longrightarrow> d_voted_for d = None \<or> d_voted_for d = v) \<and>
     1 \<le> from \<and> from \<le> Suc (length log) \<and> from \<le> Suc (length (d_log d)) \<and>
     take (from - 1) log = take (from - 1) (d_log d) \<and> log_sorted log t"

definition save_from :: "'s Raft \<Rightarrow> Index" where
  "save_from s = (if rf_dirty_from s = 0 then Suc (last_index s) else rf_dirty_from s)"

text \<open>
  Between the start of a step and its \<open>finish\<close>, with \<open>d\<close> on disk: what is in memory could be
  saved, and if nothing is marked dirty it is what is on disk.
\<close>

definition pending :: "Durable \<Rightarrow> 's Raft \<Rightarrow> bool" where
  "pending d s \<longleftrightarrow>
     d_term d \<le> rf_term s \<and>
     (d_term d = rf_term s \<longrightarrow> d_voted_for d = None \<or> d_voted_for d = rf_voted_for s) \<and>
     (rf_dirty_from s = 0 \<longrightarrow> rf_log s = d_log d) \<and>
     rf_dirty_from s \<le> Suc (length (rf_log s)) \<and> rf_dirty_from s \<le> Suc (length (d_log d)) \<and>
     take (rf_dirty_from s - 1) (rf_log s) = take (rf_dirty_from s - 1) (d_log d) \<and>
     (\<not> rf_dirty s \<longrightarrow> rf_dirty_from s = 0 \<and> durable_of s = d)"

lemma pending_refl: "\<not> rf_dirty s \<Longrightarrow> rf_dirty_from s = 0 \<Longrightarrow> pending (durable_of s) s"
  by (simp add: pending_def durable_of_def)

lemma pending_legal:
  "pending d s \<Longrightarrow> log_sorted (rf_log s) (rf_term s) \<Longrightarrow>
     legal_save d (rf_term s) (rf_voted_for s) (save_from s) (rf_log s)"
  by (auto simp: pending_def legal_save_def save_from_def last_index_def)

lemma pending_quiet:
  assumes "pending d s" "rf_term s' = rf_term s" "rf_voted_for s' = rf_voted_for s" "rf_log s' = rf_log s"
    "rf_dirty s' = rf_dirty s" "rf_dirty_from s' = rf_dirty_from s"
  shows "pending d s'"
  using assms by (auto simp: pending_def durable_of_def)

lemma pending_follower: "pending d s \<Longrightarrow> pending d (become_follower c t l now s)"
  by (auto simp: pending_def durable_of_def max_def)

lemma pending_splice:
  assumes p: "pending d s" and i: "i \<le> length (rf_log s)"
    and s': "rf_term s' = rf_term s" "rf_voted_for s' = rf_voted_for s" "rf_log s' = take i (rf_log s) @ es"
      "rf_dirty s'"
      "rf_dirty_from s' = (if rf_dirty_from s = 0 \<or> Suc i < rf_dirty_from s then Suc i else rf_dirty_from s)"
  shows "pending d s'"
proof -
  let ?n = "rf_dirty_from s - 1"
  have eq: "take i (rf_log s) = take i (d_log d) \<and> i \<le> length (d_log d)" if "rf_dirty_from s = 0 \<or> Suc i < rf_dirty_from s"
  proof (cases "rf_dirty_from s = 0")
    case False
    then have "take i (take ?n (rf_log s)) = take i (take ?n (d_log d))" "i \<le> ?n"
      using p that by (auto simp: pending_def)
    then show ?thesis using p False that by (auto simp: pending_def min_absorb1)
  qed (use p i in \<open>auto simp: pending_def\<close>)
  then show ?thesis using p i s' by (auto simp: pending_def)
qed

lemma pending_leader:
  assumes "pending d s"
  shows "pending d (become_leader c now s)"
  by (rule pending_splice [OF assms, of "length (rf_log s)"]) (auto simp: last_index_def)

lemma pending_election:
  assumes "pending d s"
  shows "pending d (start_election c now s)"
proof -
  have p: "pending d (s\<lparr>rf_term := Suc (rf_term s), rf_voted_for := Some (cfg_id c), rf_dirty := True\<rparr>)"
    using assms by (auto simp: pending_def)
  show ?thesis
  proof (cases "majority c 1")
    case True
    show ?thesis by (rule pending_splice [OF p, of "length (rf_log s)"]) (use True in \<open>auto simp: noop_log_def last_index_def\<close>)
  next
    case False
    show ?thesis by (rule pending_quiet [OF p]) (use False in \<open>auto simp: noop_log_def\<close>)
  qed
qed

lemma pending_entries:
  assumes "pending d s" "i \<le> last_index s"
  shows "pending d (append_entries i es s)"
  using assms
proof (induction i es s rule: append_entries.induct)
  case (2 i e es s)
  have push: "pending d (changed_from (Suc i) (s'\<lparr>rf_log := rf_log s' @ [e]\<rparr>))"
    if "pending d s'" "last_index s' = i" for s'
    by (rule pending_splice [OF that(1), of i _ "[e]"]) (use that(2) in \<open>auto simp: last_index_def changed_from_def\<close>)
  have cut: "pending d (changed_from (Suc i) (s\<lparr>rf_log := take i (rf_log s)\<rparr>))"
    by (rule pending_splice [OF 2(4), of i _ "[]"]) (use 2(5) in \<open>auto simp: last_index_def changed_from_def\<close>)
  have stop: "pending d (s\<lparr>rf_stopped := True\<rparr>)"
    by (rule pending_quiet [OF 2(4)]) simp_all
  show ?case
    using 2 push [OF 2(4)] push [OF cut] stop
    by (auto simp: last_index_def Let_def)
qed simp

lemma pending_updates:
  "pending d s \<Longrightarrow> pending d (s\<lparr>rf_heard := h\<rparr>)"
  "pending d s \<Longrightarrow> pending d (s\<lparr>rf_inflight := f\<rparr>)"
  "pending d s \<Longrightarrow> pending d (s\<lparr>rf_retry_after := r\<rparr>)"
  "pending d s \<Longrightarrow> pending d (s\<lparr>rf_reads := rs\<rparr>)"
  "pending d s \<Longrightarrow> pending d (s\<lparr>rf_votes := vs\<rparr>)"
  "pending d s \<Longrightarrow> pending d (s\<lparr>rf_commit := k\<rparr>)"
  "pending d s \<Longrightarrow> pending d (s\<lparr>rf_match := m\<rparr>)"
  "pending d s \<Longrightarrow> pending d (s\<lparr>rf_next := n\<rparr>)"
  "pending d s \<Longrightarrow> pending d (reset_election_timer c now s)"
  "pending d s \<Longrightarrow> pending d (record_reply p sent reply now s)"
  "pending d s \<Longrightarrow> pending d (send_if_due c now force p s)"
  "pending d s \<Longrightarrow> pending d (fold (send_if_due c now force) ps s)"
  "pending d s \<Longrightarrow> pending d (fold (tick_peer c now) ps s)"
  by (erule pending_quiet; simp)+

lemma pending_grant:
  "pending d s \<Longrightarrow> rf_voted_for s = None \<or> rf_voted_for s = Some v \<Longrightarrow>
     pending d (changed_meta (s\<lparr>rf_voted_for := Some v\<rparr>))"
  by (auto simp: pending_def changed_meta_def)

lemma pending_propose:
  assumes "pending d s"
  shows "pending d (changed_from (last_index (s\<lparr>rf_log := rf_log s @ [e]\<rparr>)) (s\<lparr>rf_log := rf_log s @ [e]\<rparr>))"
  by (rule pending_splice [OF assms, of "length (rf_log s)" _ "[e]"]) (auto simp: last_index_def changed_from_def)

lemmas pending_intros =
  pending_follower pending_leader pending_election pending_updates pending_grant pending_propose

section \<open>Every input ends in one \<open>finish\<close>\<close>

text \<open>
  The state an input hands to its \<open>finish\<close>, for the inputs that reach one. It keeps the storage,
  and with what was durable before as \<open>d\<close> it is pending.
\<close>

definition finishes :: "'s RaftConfig \<Rightarrow> 's Raft \<Rightarrow> 's Raft \<Rightarrow> bool" where
  "finishes c s s' \<longleftrightarrow>
     (\<exists>s1. s' = finish c s1 \<and> pending (durable_of s) s1 \<and> rf_storage s1 = rf_storage s)"

lemma finishesI:
  "pending (durable_of s) s1 \<Longrightarrow> rf_storage s1 = rf_storage s \<Longrightarrow> finishes c s (finish c s1)"
  by (auto simp: finishes_def)

definition settled :: "'s Raft \<Rightarrow> bool" where
  "settled s \<longleftrightarrow> \<not> rf_dirty s \<and> rf_dirty_from s = 0"

lemma settled_pending: "settled s \<Longrightarrow> pending (durable_of s) s"
  by (simp add: settled_def pending_refl)

lemmas finishing = finishesI pending_intros settled_pending

lemma tick_finishes: "settled s \<Longrightarrow> \<not> rf_stopped s \<Longrightarrow> finishes c s (tick c now s)"
  by (auto simp: tick_def intro!: finishing simp del: finish_simps)

lemma handle_vote_finishes: "settled s \<Longrightarrow> \<not> rf_stopped s \<Longrightarrow> finishes c s (snd (handle_vote c req now s))"
  by (auto simp: handle_vote_def Let_def intro!: finishing simp del: finish_simps)

lemma handle_vote_reply_finishes:
  "settled s \<Longrightarrow> \<not> rf_stopped s \<Longrightarrow> finishes c s (handle_vote_reply c from sent reply now s)"
  by (auto simp: handle_vote_reply_def Let_def intro!: finishing simp del: finish_simps)

lemma handle_append_finishes:
  assumes "settled s" "\<not> rf_stopped s"
  shows "finishes c s (snd (handle_append c req now s)) \<or> rf_stopped (snd (handle_append c req now s))"
proof -
  define s1 where "s1 = reset_election_timer c now (become_follower c (aq_term req) (Some (aq_leader req)) now s)"
  define s2 where "s2 = append_entries (aq_prev_index req) (aq_entries req) s1"
  have p1: "pending (durable_of s) s1" "rf_storage s1 = rf_storage s"
    using assms(1) by (auto simp: s1_def intro!: finishing)
  have p2: "pending (durable_of s) s2" "rf_storage s2 = rf_storage s" if "\<not> last_index s1 < aq_prev_index req"
    using pending_entries [OF p1(1)] that p1(2) by (auto simp: s2_def)
  show ?thesis
    unfolding handle_append_def Let_def s1_def [symmetric] s2_def [symmetric]
    using assms p1 p2 by (auto intro!: finishesI pending_updates settled_pending simp del: finish_simps)
qed

lemma handle_append_reply_finishes:
  "settled s \<Longrightarrow> \<not> rf_stopped s \<Longrightarrow> finishes c s (handle_append_reply c from sent reply now s)"
  unfolding handle_append_reply_def by (auto intro!: finishing simp del: finish_simps)

lemma propose_finishes:
  "settled s \<Longrightarrow> \<not> rf_stopped s \<Longrightarrow>
     finishes c s (snd (propose c command now s)) \<or> snd (propose c command now s) = s"
  by (auto simp: propose_def Let_def intro!: finishing simp del: finish_simps)

lemma read_finishes:
  "settled s \<Longrightarrow> \<not> rf_stopped s \<Longrightarrow> finishes c s (snd (read c i now s)) \<or> snd (read c i now s) = s"
  by (auto simp: read_def Let_def intro!: finishing simp del: finish_simps)

definition same_durable :: "'s Raft \<Rightarrow> 's Raft \<Rightarrow> bool" where
  "same_durable s s' \<longleftrightarrow>
     durable_of s' = durable_of s \<and> rf_storage s' = rf_storage s \<and> (settled s \<longrightarrow> settled s')"

lemma call_failed_same: "same_durable s (call_failed c to sent now s)"
  by (auto simp: call_failed_def same_durable_def durable_of_def settled_def Let_def split: Outgoing.splits)

lemma raft_step_finishes:
  assumes "settled s" "\<not> rf_stopped s" "\<not> rf_stopped (raft_step c i s)"
  shows "finishes c s (raft_step c i s) \<or> same_durable s (raft_step c i s)"
proof -
  have refl: "same_durable s s" by (simp add: same_durable_def)
  show ?thesis
    using assms refl call_failed_same handle_append_finishes propose_finishes read_finishes
    by (cases i) (fastforce simp: tick_finishes handle_vote_finishes handle_vote_reply_finishes
        handle_append_reply_finishes)+
qed

lemma raft_step_stopped: "rf_stopped s \<Longrightarrow> rf_stopped (raft_step c i s)"
  by (cases i) (simp_all add: tick_def handle_vote_def handle_append_def handle_vote_reply_def
      handle_append_reply_def call_failed_def propose_def read_def Let_def split: Outgoing.splits)

section \<open>The contract\<close>

locale durable_storage =
  fixes save :: "'s \<Rightarrow> Term \<Rightarrow> nat option \<Rightarrow> Index \<Rightarrow> Entry list \<Rightarrow> bool \<times> 's"
    and holds :: "'s \<Rightarrow> Durable \<Rightarrow> bool"
    and fits :: "Durable \<Rightarrow> bool"
  assumes save_holds:
    "holds st d \<Longrightarrow> legal_save d t v from log \<Longrightarrow>
     fits \<lparr>d_term = t, d_voted_for = v, d_log = log\<rparr> \<Longrightarrow> save st t v from log = (True, st') \<Longrightarrow>
     holds st' \<lparr>d_term = t, d_voted_for = v, d_log = log\<rparr>"
begin

definition durable :: "'s Raft \<Rightarrow> bool" where
  "durable s \<longleftrightarrow> settled s \<and> holds (rf_storage s) (durable_of s)"

lemma finish_durable:
  assumes c: "cfg_save c = save" and h: "holds (rf_storage s) d" and p: "pending d s"
    and ls: "log_sorted (rf_log s) (rf_term s)"
    and fits: "fits (durable_of s)" and run: "\<not> rf_stopped (finish c s)"
  shows "durable (finish c s)"
proof -
  obtain ok st where sv: "save (rf_storage s) (rf_term s) (rf_voted_for s) (save_from s) (rf_log s) = (ok, st)"
    by (cases "save (rf_storage s) (rf_term s) (rf_voted_for s) (save_from s) (rf_log s)")
  have st: "holds st (durable_of s)" if ok
    using save_holds [OF h pending_legal [OF p ls]] fits sv that by (simp add: durable_of_def)
  show ?thesis
  proof (cases "rf_dirty s")
    case True
    then show ?thesis
      using st sv run c
      by (auto simp: durable_def settled_def durable_of_def finish_def persist_def Let_def save_from_def split: if_splits)
  next
    case False
    then have "durable_of s = d" "rf_dirty_from s = 0" using p by (auto simp: pending_def)
    then show ?thesis
      using False h run
      by (auto simp: durable_def settled_def durable_of_def finish_def persist_def Let_def split: if_splits)
  qed
qed

lemma step_durable:
  assumes c: "cfg_save c = save" and d: "durable s" and ok: "raft_ok c s" "input_ok i"
    and fits: "fits (durable_of (raft_step c i s))" and run: "\<not> rf_stopped (raft_step c i s)"
  shows "durable (raft_step c i s)"
proof -
  have "\<not> rf_stopped s" using run raft_step_stopped by blast
  then consider "finishes c s (raft_step c i s)" | "same_durable s (raft_step c i s)"
    using raft_step_finishes d run unfolding durable_def by blast
  then show ?thesis
  proof cases
    case 1
    then obtain s1 where s1: "raft_step c i s = finish c s1" "pending (durable_of s) s1" "rf_storage s1 = rf_storage s"
      by (auto simp: finishes_def)
    have "log_sorted (rf_log s1) (rf_term s1)"
      using raft_step_ok [OF ok(1,2)] s1(1) by (simp add: raft_inv_def)
    then show ?thesis
      using finish_durable [OF c _ s1(2)] s1 d fits run by (simp add: durable_def durable_of_def)
  next
    case 2
    then show ?thesis using d by (simp add: same_durable_def durable_def)
  qed
qed

text \<open>The whole life of a process: started on what the storage held, then any inputs.\<close>

lemma run_durable:
  assumes "cfg_save c = save" "durable s" "raft_ok c s" "\<forall>i\<in>set is. input_ok i"
    and "\<forall>n\<le>length is. fits (durable_of (fold (raft_step c) (take n is) s))"
    and "\<not> rf_stopped (fold (raft_step c) is s)"
  shows "durable (fold (raft_step c) is s)"
  using assms
proof (induction "is" rule: rev_induct)
  case (snoc i js)
  have "\<not> rf_stopped (fold (raft_step c) js s)" using snoc.prems(6) raft_step_stopped by auto
  moreover have "fits (durable_of (fold (raft_step c) (take n js) s))" if "n \<le> length js" for n
    using snoc.prems(5) [rule_format, of n] that by simp
  moreover have "raft_ok c (fold (raft_step c) js s)" using snoc.prems(3,4)
    by (induction js rule: rev_induct) (auto intro: raft_step_ok)
  ultimately show ?case
    using snoc step_durable [of c "fold (raft_step c) js s" i] snoc.prems(5) [rule_format, of "Suc (length js)"]
    by auto
qed simp

lemma init_durable:
  assumes c: "cfg_save c = save" "cfg_id c < cfg_size c" and h: "holds st d" and ls: "log_sorted (d_log d) (d_term d)"
    and fits: "fits (durable_of (raft_init c st d now))" and run: "\<not> rf_stopped (raft_init c st d now)"
  shows "durable (raft_init c st d now)"
proof -
  let ?s = "reset_election_timer c now (raft_boot c st d)"
  let ?s1 = "if cfg_size c = 1 then start_election c now ?s else ?s"
  have "settled ?s" "durable_of ?s = d" "rf_storage ?s = st" "raft_ok c ?s"
    using c(2) ls by (simp_all add: raft_boot_def Let_def settled_def durable_of_def raft_ok_simps)
  then have "pending d ?s1" "raft_ok c ?s1" "rf_storage ?s1 = st"
    using settled_pending [of ?s] by (auto intro: start_election_ok pending_election)
  moreover have "raft_init c st d now = finish c ?s1" by (simp add: raft_init_def)
  ultimately show ?thesis
    using finish_durable [OF c(1), of ?s1 d] h fits run by (simp add: raft_inv_def durable_of_def)
qed

end

section \<open>The storage in memory\<close>

text \<open>\<^verbatim>\<open>MemoryStorage\<close> of \<^verbatim>\<open>src/raft.h\<close>, the other implementation of the contract.\<close>

record MemoryStorage =
  ms_durable :: Durable
  ms_saves :: nat
  ms_fail :: bool

definition memory_save ::
  "MemoryStorage \<Rightarrow> Term \<Rightarrow> nat option \<Rightarrow> Index \<Rightarrow> Entry list \<Rightarrow> bool \<times> MemoryStorage"
where
  "memory_save st t v from log =
     (let st = st\<lparr>ms_saves := Suc (ms_saves st)\<rparr>;
          old = d_log (ms_durable st)
      in if ms_fail st then (False, st)
         else (True, st\<lparr>ms_durable :=
           \<lparr>d_term = t, d_voted_for = v,
            d_log = take (if from - 1 < length old then from - 1 else length old) old @ drop (from - 1) log\<rparr>\<rparr>))"

interpretation memory: durable_storage memory_save "\<lambda>st d. ms_durable st = d" "\<lambda>_. True"
proof unfold_locales
  fix st d t v "from" log st'
  assume d: "ms_durable st = d" and legal: "legal_save d t v from log" and save: "memory_save st t v from log = (True, st')"
  have "\<not> ms_fail st" using save by (auto simp: memory_save_def Let_def)
  with save d have "d_log (ms_durable st') = take (from - 1) (d_log d) @ drop (from - 1) log"
    "d_term (ms_durable st') = t" "d_voted_for (ms_durable st') = v"
    by (auto simp: memory_save_def Let_def)
  moreover have "take (from - 1) (d_log d) @ drop (from - 1) log = log"
    using legal by (metis append_take_drop_id legal_save_def)
  ultimately show "ms_durable st' = \<lparr>d_term = t, d_voted_for = v, d_log = log\<rparr>"
    by (cases "ms_durable st'") simp
qed

end
