(* ===== verification/Raft_Log.thy ===== *)
theory Raft_Log
  imports Raft_Wire Raft_Storage Sample_Platform
begin

text \<open>
  \<^verbatim>\<open>src/raft_log.h\<close> and \<^verbatim>\<open>src/raft_log.cpp\<close>: a replica's durable state as one append-only file of
  TERM, ENTRY and CUT records, its replay at start, and its implementation of the storage
  contract. What the operating system answers is given: the text of the file, whether opening
  and cutting it succeeds, and for the n-th batch whether it was written and flushed whole or
  how many of its bytes reached the file before the failure.
\<close>

section \<open>Records\<close>

definition LOG_TAIL_LIMIT :: nat where
  "LOG_TAIL_LIMIT = 256 * 1024"

definition check_of :: "platform \<Rightarrow> string \<Rightarrow> string" where
  "check_of P body = take 8 (sha1 P body)"

definition log_record :: "platform \<Rightarrow> string \<Rightarrow> string" where
  "log_record P body = body @ '' '' @ check_of P body"

text \<open>The text after the last space is the check (\<^verbatim>\<open>rfind(' ')\<close>).\<close>

definition parse_log_record :: "platform \<Rightarrow> string \<Rightarrow> string option" where
  "parse_log_record P line =
     (let check = rev (takeWhile (\<lambda>c. c \<noteq> CHR '' '') (rev line)) in
      if CHR '' '' \<notin> set line \<or> length check \<noteq> 8 then None
      else let body = take (length line - length check - 1) line in
        if check = check_of P body then Some body else None)"

definition vote_word :: "nat option \<Rightarrow> string" where
  "vote_word v = (case v of None \<Rightarrow> ''-'' | Some n \<Rightarrow> to_string n)"

definition parse_vote_word :: "string \<Rightarrow> nat option option" where
  "parse_vote_word w =
     (if w = ''-'' then Some None
      else case parse_u64 w of None \<Rightarrow> None | Some v \<Rightarrow> if v > 1000 then None else Some (Some v))"

text \<open>The three branches of \<^verbatim>\<open>replay_one\<close>, then the function.\<close>

definition replay_TERM :: "string list \<Rightarrow> Durable \<Rightarrow> Durable option" where
  "replay_TERM w d =
     (case (parse_u64 (w ! 1), parse_vote_word (w ! 2)) of
        (Some t, Some vote) \<Rightarrow>
          if t < d_term d then None
          else if t = d_term d \<and> d_voted_for d \<noteq> None \<and> d_voted_for d \<noteq> vote then None
          else Some (d\<lparr>d_term := t, d_voted_for := vote\<rparr>)
      | _ \<Rightarrow> None)"

definition replay_ENTRY :: "string list \<Rightarrow> string \<Rightarrow> Durable \<Rightarrow> Durable option" where
  "replay_ENTRY w body d =
     (case (parse_u64 (w ! 1), parse_u64 (w ! 2)) of
        (Some i, Some t) \<Rightarrow>
          if i \<noteq> length (d_log d) + 1 \<or> t > d_term d then None
          else if d_log d \<noteq> [] \<and> t < e_term (last (d_log d)) then None
          else let at = length (w ! 0) + length (w ! 1) + length (w ! 2) + 3 in
            Some (d\<lparr>d_log := d_log d @ [\<lparr>e_term = t, e_command = drop at body\<rparr>]\<rparr>)
      | _ \<Rightarrow> None)"

definition replay_CUT :: "string list \<Rightarrow> Durable \<Rightarrow> Durable option" where
  "replay_CUT w d =
     (case parse_u64 (w ! 1) of
        Some i \<Rightarrow> if i = 0 \<or> i > length (d_log d) then None else Some (d\<lparr>d_log := take (i - 1) (d_log d)\<rparr>)
      | None \<Rightarrow> None)"

definition replay_one :: "string \<Rightarrow> Durable \<Rightarrow> Durable option" where
  "replay_one body d =
     (let w = split_single_spaces body in
      if [] \<in> set w then None
      else if hd w = ''TERM'' \<and> length w = 3 then replay_TERM w d
      else if hd w = ''ENTRY'' \<and> length w \<ge> 4 then replay_ENTRY w body d
      else if hd w = ''CUT'' \<and> length w = 2 then replay_CUT w d
      else None)"

lemmas replay_branches = replay_TERM_def replay_ENTRY_def replay_CUT_def

section \<open>Replay\<close>

datatype Damage = Torn | FailsCheck | OutOfSequence

record Replay =
  rp_durable :: Durable
  rp_good :: nat
  rp_records :: nat
  rp_damage :: "Damage option"

text \<open>
  The replay loop over the pieces of the text between newlines; the last piece is what
  follows the last newline, a torn record unless it is empty. \<open>good\<close> is the offset just past
  the last good record.
\<close>

fun replay_loop :: "platform \<Rightarrow> string list \<Rightarrow> Durable \<Rightarrow> nat \<Rightarrow> nat \<Rightarrow> Replay" where
  "replay_loop P [] d good records = \<lparr>rp_durable = d, rp_good = good, rp_records = records, rp_damage = None\<rparr>"
| "replay_loop P [rest] d good records =
     \<lparr>rp_durable = d, rp_good = good, rp_records = records, rp_damage = (if rest = [] then None else Some Torn)\<rparr>"
| "replay_loop P (line # lines) d good records =
     (let stop = (\<lambda>why. \<lparr>rp_durable = d, rp_good = good, rp_records = records, rp_damage = Some why\<rparr>) in
      case parse_log_record P line of
        None \<Rightarrow> stop FailsCheck
      | Some body \<Rightarrow>
          (case replay_one body d of
             None \<Rightarrow> stop OutOfSequence
           | Some d' \<Rightarrow> replay_loop P lines d' (good + length line + 1) (Suc records)))"

definition empty_durable :: Durable where
  "empty_durable = \<lparr>d_term = 0, d_voted_for = None, d_log = []\<rparr>"

definition replay :: "platform \<Rightarrow> string \<Rightarrow> Replay" where
  "replay P text = replay_loop P (split_on (CHR 0x0A) text) empty_durable 0 0"

text \<open>The whole lines after the damaged one that look intact, for the report.\<close>

definition intact_after :: "platform \<Rightarrow> string \<Rightarrow> nat \<Rightarrow> nat" where
  "intact_after P text good =
     length (filter (\<lambda>l. parse_log_record P l \<noteq> None) (butlast (tl (split_on (CHR 0x0A) (drop good text)))))"

section \<open>The file\<close>

record FileStorage =
  fs_fd :: bool
  fs_term :: Term
  fs_voted_for :: "nat option"
  fs_last :: Index
  fs_batches :: nat
  fs_file :: string
  fs_writes :: nat
  fs_disk :: "nat \<Rightarrow> nat option"

text \<open>
  What the system calls of \<^verbatim>\<open>open\<close> answer: the text read (an absent file reads as empty text;
  \<open>None\<close> where it cannot be read), and whether opening for appending, cutting the tail and
  flushing the directory succeed.
\<close>

record OpenIo =
  io_text :: "string option"
  io_append :: bool
  io_cut :: bool
  io_dir :: bool

datatype OpenError = CannotRead | DamagedBack Damage nat nat | CannotAppend | CannotCut

definition damage_text :: "Damage \<Rightarrow> string" where
  "damage_text w = (case w of Torn \<Rightarrow> ''a torn final record'' | FailsCheck \<Rightarrow> ''a record that fails its check''
     | OutOfSequence \<Rightarrow> ''a record out of sequence'')"

definition open_report :: "platform \<Rightarrow> string \<Rightarrow> string \<Rightarrow> Replay \<Rightarrow> bool \<Rightarrow> string" where
  "open_report P path text r dir_synced =
     (let d = rp_durable r; after = intact_after P text (rp_good r) in
      to_string (rp_records r) @ '' records replayed from '' @ path @ '': term '' @ to_string (d_term d) @ '', '' @
      to_string (length (d_log d)) @ '' entries'' @
      (case rp_damage r of
         None \<Rightarrow> []
       | Some why \<Rightarrow> ''; '' @ damage_text why @ '' and the '' @ to_string (length text - rp_good r) @
           '' bytes after it cut off'' @
           (if after \<noteq> 0 then '' ('' @ to_string after @ '' intact-looking records among them)'' else [])) @
      (if dir_synced then [] else '' (warning: the log's directory could not be flushed)''))"

definition open_log ::
  "platform \<Rightarrow> string \<Rightarrow> OpenIo \<Rightarrow> (nat \<Rightarrow> nat option) \<Rightarrow> OpenError + FileStorage \<times> Durable \<times> string"
where
  "open_log P path io disk =
     (case io_text io of
        None \<Rightarrow> Inl CannotRead
      | Some text \<Rightarrow>
          let r = replay P text; d = rp_durable r; good = rp_good r; tail = length text - good in
          if rp_damage r \<noteq> None \<and> tail > LOG_TAIL_LIMIT then Inl (DamagedBack (the (rp_damage r)) good tail)
          else if \<not> io_append io then Inl CannotAppend
          else if rp_damage r \<noteq> None \<and> \<not> io_cut io then Inl CannotCut
          else Inr (\<lparr>fs_fd = True, fs_term = d_term d, fs_voted_for = d_voted_for d, fs_last = length (d_log d),
                     fs_batches = 0, fs_file = (if rp_damage r \<noteq> None then take good text else text),
                     fs_writes = 0, fs_disk = disk\<rparr>, d, open_report P path text r (io_dir io)))"

definition term_body :: "Term \<Rightarrow> nat option \<Rightarrow> string" where
  "term_body t v = ''TERM '' @ to_string t @ '' '' @ vote_word v"

definition cut_body :: "Index \<Rightarrow> string" where
  "cut_body from = ''CUT '' @ to_string from"

definition entry_body :: "Entry list \<Rightarrow> Index \<Rightarrow> string" where
  "entry_body log i =
     ''ENTRY '' @ to_string i @ '' '' @ to_string (e_term (log ! (i - 1))) @ '' '' @ e_command (log ! (i - 1))"

text \<open>The bodies of the records of one batch, in order.\<close>

definition save_bodies :: "FileStorage \<Rightarrow> Term \<Rightarrow> nat option \<Rightarrow> Index \<Rightarrow> Entry list \<Rightarrow> string list" where
  "save_bodies st t v from log =
     (if t \<noteq> fs_term st \<or> v \<noteq> fs_voted_for st then [term_body t v] else []) @
     (if from \<le> fs_last st then [cut_body from] else []) @
     map (entry_body log) [from..<Suc (length log)]"

definition batch_text :: "platform \<Rightarrow> string list \<Rightarrow> string" where
  "batch_text P bodies = concat (map (\<lambda>b. log_record P b @ [CHR 0x0A]) bodies)"

definition file_save ::
  "platform \<Rightarrow> FileStorage \<Rightarrow> Term \<Rightarrow> nat option \<Rightarrow> Index \<Rightarrow> Entry list \<Rightarrow> bool \<times> FileStorage"
where
  "file_save P st t v from log =
     (if \<not> fs_fd st then (False, st)
      else let batch = batch_text P (save_bodies st t v from log) in
        if batch = [] then (True, st)
        else case fs_disk st (fs_writes st) of
          Some n \<Rightarrow> (False, st\<lparr>fs_file := fs_file st @ take n batch, fs_writes := Suc (fs_writes st)\<rparr>)
        | None \<Rightarrow>
            (True, st\<lparr>fs_file := fs_file st @ batch, fs_writes := Suc (fs_writes st), fs_term := t, fs_voted_for := v,
                      fs_last := length log, fs_batches := Suc (fs_batches st)\<rparr>))"

section \<open>Records read back\<close>

lemma check_of_shape:
  assumes "platform_ok P"
  shows "length (check_of P b) = 8" "CHR '' '' \<notin> set (check_of P b)" "CHR 0x0A \<notin> set (check_of P b)"
proof -
  show "length (check_of P b) = 8" by (simp add: check_of_def sha1_length [OF assms])
  have "list_all is_lower_hex (check_of P b)"
    using sha1_lower [of P b] by (auto simp: check_of_def list_all_iff dest: in_set_takeD)
  then show "CHR '' '' \<notin> set (check_of P b)" "CHR 0x0A \<notin> set (check_of P b)"
    using lower_hex_no_sep is_lower_hex_not_sep by blast+
qed

lemma parse_log_record_of:
  assumes "platform_ok P"
  shows "parse_log_record P (log_record P b) = Some b"
proof -
  have "takeWhile (\<lambda>c. c \<noteq> CHR '' '') (rev (check_of P b) @ CHR '' '' # rev b) = rev (check_of P b)"
    using check_of_shape(2) [OF assms, of b] by (subst takeWhile_append2) auto
  then show ?thesis
    using check_of_shape [OF assms, of b] by (simp add: parse_log_record_def log_record_def Let_def)
qed

interpretation log_records: codec "log_record P" "parse_log_record P" "\<lambda>_. platform_ok P" for P
  by unfold_locales (rule parse_log_record_of)

definition command_fits :: "string \<Rightarrow> bool" where
  "command_fits x \<longleftrightarrow> CHR 0x0A \<notin> set x \<and> [] \<notin> set (split_single_spaces x)"

definition durable_fits :: "Durable \<Rightarrow> bool" where
  "durable_fits d \<longleftrightarrow>
     d_term d < wire_max \<and> (\<forall>v. d_voted_for d = Some v \<longrightarrow> v \<le> 1000) \<and> Suc (length (d_log d)) < wire_max \<and>
     (\<forall>e\<in>set (d_log d). command_fits (e_command e))"

lemma vote_word_shape [simp]: "CHR '' '' \<notin> set (vote_word v)" "CHR 0x0A \<notin> set (vote_word v)" "vote_word v \<noteq> []" "[] \<noteq> vote_word v"
  by (auto simp: vote_word_def split: option.splits)

lemma to_string_not_dash: "to_string n \<noteq> ''-''"
proof
  assume a: "to_string n = ''-''"
  have "list_all is_digit (to_string n)" by simp
  then show False unfolding a by simp
qed

lemma parse_vote_word_of: "(\<forall>n. v = Some n \<longrightarrow> n \<le> 1000) \<Longrightarrow> parse_vote_word (vote_word v) = Some v"
  by (cases v) (simp_all add: parse_vote_word_def vote_word_def to_string_not_dash parse_u64_to_string)

lemma replay_term:
  assumes "t < wire_max" "\<forall>n. v = Some n \<longrightarrow> n \<le> 1000" "d_term d \<le> t"
    "d_term d = t \<longrightarrow> d_voted_for d = None \<or> d_voted_for d = v"
  shows "replay_one (term_body t v) d = Some (d\<lparr>d_term := t, d_voted_for := v\<rparr>)"
  using assms parse_vote_word_of [OF assms(2)]
  by (auto simp: replay_one_def replay_branches term_body_def Let_def parse_u64_to_string)

lemma replay_cut:
  assumes "from < wire_max" "1 \<le> from" "from \<le> length (d_log d)"
  shows "replay_one (cut_body from) d = Some (d\<lparr>d_log := take (from - 1) (d_log d)\<rparr>)"
  using assms by (simp add: replay_one_def replay_branches cut_body_def Let_def parse_u64_to_string)

lemma drop_append_length: "drop (length xs) (xs @ ys) = ys"
  by simp

lemma entry_eta [simp]: "\<lparr>e_term = e_term x, e_command = e_command x\<rparr> = x"
  by (cases x) simp

lemma replay_entry:
  assumes "i = Suc (length (d_log d))" "i < wire_max" "e_term (log ! (i - 1)) \<le> d_term d" "d_term d < wire_max"
    and "d_log d \<noteq> [] \<longrightarrow> e_term (last (d_log d)) \<le> e_term (log ! (i - 1))"
    and "command_fits (e_command (log ! (i - 1)))"
  shows "replay_one (entry_body log i) d = Some (d\<lparr>d_log := d_log d @ [log ! (i - 1)]\<rparr>)"
proof -
  let ?pre = "''ENTRY '' @ to_string i @ '' '' @ to_string (e_term (log ! (i - 1))) @ '' ''"
  have body: "entry_body log i = ?pre @ e_command (log ! (i - 1))" by (simp add: entry_body_def)
  have len: "length ''ENTRY'' + length (to_string i) + length (to_string (e_term (log ! (i - 1)))) + 3 = length ?pre"
    by simp
  obtain w ws where w: "split_single_spaces (e_command (log ! (i - 1))) = w # ws"
    using split_on_nonempty [of "CHR '' ''" "e_command (log ! (i - 1))"]
    by (cases "split_single_spaces (e_command (log ! (i - 1)))") (auto simp: split_single_spaces_def)
  have "parse_u64 (to_string i) = Some i" "parse_u64 (to_string (e_term (log ! (i - 1)))) = Some (e_term (log ! (i - 1)))"
    using assms by (simp_all add: parse_u64_to_string)
  moreover have "[] \<notin> set (split_single_spaces (entry_body log i)) \<and>
      split_single_spaces (entry_body log i) = [''ENTRY'', to_string i, to_string (e_term (log ! (i - 1))), w] @ ws"
    using assms(6) w by (auto simp: entry_body_def command_fits_def)
  moreover have "drop (length ''ENTRY'' + length (to_string i) + length (to_string (e_term (log ! (i - 1)))) + 3)
      (entry_body log i) = e_command (log ! (i - 1))"
    by (simp only: body len drop_append_length)
  ultimately show ?thesis
    using assms by (auto simp: replay_one_def replay_branches Let_def)
qed

fun replay_all :: "string list \<Rightarrow> Durable \<Rightarrow> Durable option" where
  "replay_all [] d = Some d"
| "replay_all (b # bs) d = (case replay_one b d of None \<Rightarrow> None | Some d' \<Rightarrow> replay_all bs d')"

lemma replay_all_append:
  "replay_all (bs @ cs) d = (case replay_all bs d of None \<Rightarrow> None | Some d' \<Rightarrow> replay_all cs d')"
  by (induction bs arbitrary: d) (auto split: option.splits)

lemma replay_entries:
  assumes "log_sorted log t" "t < wire_max" "Suc (length log) < wire_max"
    and "\<forall>e\<in>set log. command_fits (e_command e)" "n \<le> length log"
  shows "replay_all (map (entry_body log) [Suc n..<Suc (length log)]) \<lparr>d_term = t, d_voted_for = v, d_log = take n log\<rparr>
    = Some \<lparr>d_term = t, d_voted_for = v, d_log = log\<rparr>"
  using assms(5)
proof (induction "length log - n" arbitrary: n)
  case (Suc k)
  then have n: "n < length log" by simp
  have le: "e_term (last (take n log)) \<le> e_term (log ! n)" if "take n log \<noteq> []"
  proof -
    have "last (take n log) = log ! (n - 1)" using that n by (simp add: last_conv_nth)
    then show ?thesis
      using assms(1) n sorted_nth_mono [of "map e_term log" "n - 1" n] by (auto simp: log_sorted_def)
  qed
  have "replay_one (entry_body log (Suc n)) \<lparr>d_term = t, d_voted_for = v, d_log = take n log\<rparr> =
      Some \<lparr>d_term = t, d_voted_for = v, d_log = take (Suc n) log\<rparr>"
    using assms n le by (subst replay_entry) (auto simp: log_sorted_def take_Suc_conv_app_nth)
  moreover have "[Suc n..<Suc (length log)] = Suc n # [Suc (Suc n)..<Suc (length log)]"
    using n by (simp add: upt_rec)
  ultimately show ?case using Suc.hyps(1) [of "Suc n"] Suc.hyps(2) n by simp
qed simp

text \<open>A legal save, replayed after what the storage holds, gives exactly what was saved.\<close>

lemma save_replays:
  assumes st: "fs_term st = d_term d" "fs_voted_for st = d_voted_for d" "fs_last st = length (d_log d)"
    and legal: "legal_save d t v from log" and fits: "durable_fits \<lparr>d_term = t, d_voted_for = v, d_log = log\<rparr>"
  shows "replay_all (save_bodies st t v from log) d = Some \<lparr>d_term = t, d_voted_for = v, d_log = log\<rparr>"
proof -
  define d1 where "d1 = \<lparr>d_term = t, d_voted_for = v, d_log = d_log d\<rparr>"
  define d2 where "d2 = \<lparr>d_term = t, d_voted_for = v, d_log = take (from - 1) log\<rparr>"
  note l = legal [unfolded legal_save_def] and f = fits [unfolded durable_fits_def, simplified]
  have 1: "replay_all (if t \<noteq> fs_term st \<or> v \<noteq> fs_voted_for st then [term_body t v] else []) d = Some d1"
    using l f st by (cases d) (auto simp: d1_def replay_term)
  have 2: "replay_all (if from \<le> fs_last st then [cut_body from] else []) d1 = Some d2"
    using l f st by (auto simp: d1_def d2_def replay_cut)
  have 3: "replay_all (map (entry_body log) [from..<Suc (length log)]) d2 =
      Some \<lparr>d_term = t, d_voted_for = v, d_log = log\<rparr>"
    using replay_entries [of log t "from - 1" v] l f by (cases "from") (auto simp: d2_def simp del: upt_Suc)
  show ?thesis unfolding save_bodies_def replay_all_append 1 option.case 2 3 ..
qed

section \<open>The text of the file\<close>

lemma split_on_append:
  "last (split_on c s) = [] \<Longrightarrow> split_on c (s @ t) = butlast (split_on c s) @ split_on c t"
proof (induction s)
  case (Cons x s)
  then show ?case
    by (cases "split_on c s") (auto split: if_splits)
qed simp

lemma replay_loop_append:
  assumes "rp_damage (replay_loop P ps d g n) = None" "ps \<noteq> []" "qs \<noteq> []"
  shows "last ps = [] \<and> replay_loop P (butlast ps @ qs) d g n =
    (let r = replay_loop P ps d g n in replay_loop P qs (rp_durable r) (rp_good r) (rp_records r))"
  using assms(1,2)
proof (induction ps arbitrary: d g n)
  case (Cons line ps)
  show ?case
  proof (cases ps)
    case Nil
    with Cons.prems show ?thesis by (simp split: if_splits)
  next
    case ps: (Cons l ls)
    obtain body d1 where d1: "parse_log_record P line = Some body" "replay_one body d = Some d1"
      using Cons.prems(1) by (auto simp: ps Let_def split: option.splits)
    obtain q qs' where q: "butlast ps @ qs = q # qs'" using assms(3) by (cases "butlast ps @ qs") auto
    show ?thesis
      using Cons.IH [of d1 "g + length line + 1" "Suc n"] Cons.prems(1) d1 q by (simp add: ps)
  qed
qed simp

lemma replay_append:
  assumes "rp_damage (replay P text) = None"
  shows "replay P (text @ further) =
    replay_loop P (split_on (CHR 0x0A) further) (rp_durable (replay P text)) (rp_good (replay P text)) (rp_records (replay P text))"
  using replay_loop_append [of P "split_on (CHR 0x0A) text" empty_durable 0 0 "split_on (CHR 0x0A) further"] assms
  by (simp add: replay_def split_on_append Let_def)

lemma batch_text_simps [simp]:
  "batch_text P [] = []" "batch_text P (b # bs) = log_record P b @ CHR 0x0A # batch_text P bs"
  by (simp_all add: batch_text_def)

lemma replay_batch:
  assumes "platform_ok P" "replay_all bs d = Some d'" "\<forall>b\<in>set bs. CHR 0x0A \<notin> set b"
  shows "replay_loop P (split_on (CHR 0x0A) (batch_text P bs @ further)) d g n =
    replay_loop P (split_on (CHR 0x0A) further) d' (g + length (batch_text P bs)) (n + length bs)"
  using assms(2,3)
proof (induction bs arbitrary: d g n)
  case (Cons b bs)
  then obtain d1 where d1: "replay_one b d = Some d1" "replay_all bs d1 = Some d'" by (auto split: option.splits)
  have "CHR 0x0A \<notin> set (log_record P b)"
    using Cons.prems check_of_shape(3) [OF assms(1), of b] by (simp add: log_record_def)
  then have cut: "split_on (CHR 0x0A) (batch_text P (b # bs) @ further) =
      log_record P b # split_on (CHR 0x0A) (batch_text P bs @ further)"
    by (simp add: split_on_append_sep)
  obtain l ls where "split_on (CHR 0x0A) (batch_text P bs @ further) = l # ls"
    by (cases "split_on (CHR 0x0A) (batch_text P bs @ further)") auto
  then show ?case
    using Cons.IH [OF d1(2)] Cons.prems(2) cut d1(1) by (simp add: parse_log_record_of [OF assms(1)] add_ac)
qed simp

lemma save_bodies_lines:
  assumes "durable_fits \<lparr>d_term = t, d_voted_for = v, d_log = log\<rparr>" "1 \<le> from"
  shows "\<forall>b\<in>set (save_bodies st t v from log). CHR 0x0A \<notin> set b"
proof -
  have "CHR 0x0A \<notin> set (entry_body log i)" if "i \<in> set [from..<Suc (length log)]" for i
  proof -
    have "log ! (i - 1) \<in> set log" using that assms(2) by (intro nth_mem) auto
    then show ?thesis using assms(1) by (auto simp: entry_body_def durable_fits_def command_fits_def)
  qed
  then show ?thesis
    by (auto simp: save_bodies_def term_body_def cut_body_def simp del: upt_Suc)
qed

section \<open>The storage contract\<close>

definition file_holds :: "platform \<Rightarrow> FileStorage \<Rightarrow> Durable \<Rightarrow> bool" where
  "file_holds P st d \<longleftrightarrow>
     platform_ok P \<and> fs_fd st \<and> fs_term st = d_term d \<and> fs_voted_for st = d_voted_for d \<and>
     fs_last st = length (d_log d) \<and>
     rp_durable (replay P (fs_file st)) = d \<and> rp_damage (replay P (fs_file st)) = None \<and>
     rp_good (replay P (fs_file st)) = length (fs_file st)"

lemma replay_saved:
  assumes h: "file_holds P st d" and legal: "legal_save d t v from log"
    and fits: "durable_fits \<lparr>d_term = t, d_voted_for = v, d_log = log\<rparr>"
    and bs: "bs = save_bodies st t v from log"
  shows "replay P (fs_file st @ batch_text P (take k bs) @ rest) =
    replay_loop P (split_on (CHR 0x0A) rest) (the (replay_all (take k bs) d))
      (length (fs_file st) + length (batch_text P (take k bs))) (rp_records (replay P (fs_file st)) + length (take k bs))
    \<and> replay_all (take k bs) d \<noteq> None"
proof -
  have "replay_all (take k bs @ drop k bs) d \<noteq> None"
    using save_replays [OF _ _ _ legal fits, of st] h bs by (simp add: file_holds_def)
  then obtain dk where dk: "replay_all (take k bs) d = Some dk"
    unfolding replay_all_append by (auto split: option.splits)
  have "\<forall>b\<in>set (take k bs). CHR 0x0A \<notin> set b"
    using save_bodies_lines [OF fits] legal bs by (auto simp: legal_save_def dest: in_set_takeD)
  with replay_batch [OF _ dk this] h show ?thesis
    by (simp add: replay_append file_holds_def dk)
qed

lemma batch_text_Nil_iff [simp]: "batch_text P bs = [] \<longleftrightarrow> bs = []"
  by (cases bs) simp_all

lemma file_save_holds:
  assumes h: "file_holds P st d" and legal: "legal_save d t v from log"
    and fits: "durable_fits \<lparr>d_term = t, d_voted_for = v, d_log = log\<rparr>"
    and save: "file_save P st t v from log = (True, st')"
  shows "file_holds P st' \<lparr>d_term = t, d_voted_for = v, d_log = log\<rparr>"
proof -
  let ?bs = "save_bodies st t v from log"
  have all: "replay_all ?bs d = Some \<lparr>d_term = t, d_voted_for = v, d_log = log\<rparr>"
    using save_replays [OF _ _ _ legal fits, of st] h by (simp add: file_holds_def)
  show ?thesis
  proof (cases "?bs = []")
    case True
    then have "st' = st" using save h by (simp add: file_save_def file_holds_def)
    moreover have "d = \<lparr>d_term = t, d_voted_for = v, d_log = log\<rparr>" using all True by simp
    ultimately show ?thesis using h by simp
  next
    case False
    then have st': "fs_fd st'" "fs_term st' = t" "fs_voted_for st' = v" "fs_last st' = length log"
      "fs_file st' = fs_file st @ batch_text P ?bs"
      using save h by (auto simp: file_save_def file_holds_def Let_def split: option.splits)
    then show ?thesis
      using replay_saved [OF h legal fits refl, of "length ?bs" "[]"] all h by (simp add: file_holds_def)
  qed
qed

interpretation raft_file: durable_storage "file_save P" "file_holds P" durable_fits for P
  by unfold_locales (rule file_save_holds)

section \<open>Crashes\<close>

text \<open>Any prefix of a batch is some whole records and a part of the next one.\<close>

lemma take_batch:
  assumes "platform_ok P" "\<forall>b\<in>set bs. CHR 0x0A \<notin> set b"
  shows "\<exists>k rest. take n (batch_text P bs) = batch_text P (take k bs) @ rest \<and> CHR 0x0A \<notin> set rest \<and>
    length rest \<le> length (batch_text P bs)"
  using assms(2)
proof (induction bs arbitrary: n)
  case (Cons b bs)
  show ?case
  proof (cases "n \<le> length (log_record P b)")
    case True
    then have "take n (batch_text P (b # bs)) = batch_text P (take 0 (b # bs)) @ take n (log_record P b)" by simp
    moreover have "CHR 0x0A \<notin> set (take n (log_record P b))"
      using Cons.prems check_of_shape(3) [OF assms(1), of b] by (auto simp: log_record_def dest!: in_set_takeD)
    ultimately show ?thesis using True by (intro exI [of _ 0] exI) auto
  next
    case False
    then obtain m where m: "n = Suc (length (log_record P b)) + m" by (metis not_less_eq_eq le_Suc_ex)
    obtain k rest where "take m (batch_text P bs) = batch_text P (take k bs) @ rest" "CHR 0x0A \<notin> set rest"
      "length rest \<le> length (batch_text P bs)"
      using Cons.IH [of m] Cons.prems by auto
    then show ?thesis by (intro exI [of _ "Suc k"] exI [of _ rest]) (simp add: m)
  qed
qed simp

definition remembers :: "Durable \<Rightarrow> Durable \<Rightarrow> bool" where
  "remembers d d' \<longleftrightarrow>
     d_term d \<le> d_term d' \<and> (d_term d = d_term d' \<longrightarrow> d_voted_for d = None \<or> d_voted_for d = d_voted_for d')"

lemma replay_TERM_cases: "replay_TERM w d = Some d' \<Longrightarrow> remembers d d' \<and> d_log d' = d_log d"
  by (auto simp: replay_TERM_def remembers_def split: option.splits if_splits)

lemma replay_ENTRY_cases:
  assumes "replay_ENTRY w b d = Some d'"
  shows "remembers d d' \<and> (\<exists>e. d_log d' = d_log d @ [e])"
proof -
  obtain i t where "parse_u64 (w ! 1) = Some i" "parse_u64 (w ! 2) = Some t"
    using assms by (cases "parse_u64 (w ! 1)"; cases "parse_u64 (w ! 2)") (simp_all add: replay_ENTRY_def)
  then have "d' = d\<lparr>d_log := d_log d @ [\<lparr>e_term = t, e_command = drop (length (w ! 0) + length (w ! 1) + length (w ! 2) + 3) b\<rparr>]\<rparr>"
    using assms unfolding replay_ENTRY_def by (simp add: Let_def split: if_split_asm)
  then show ?thesis by (simp add: remembers_def)
qed

lemma replay_CUT_cases:
  assumes "replay_CUT w d = Some d'"
  shows "remembers d d' \<and> (\<exists>i. parse_u64 (w ! 1) = Some i \<and> i \<noteq> 0 \<and>
     i \<le> length (d_log d) \<and> d_log d' = take (i - 1) (d_log d))"
proof -
  obtain i where i: "parse_u64 (w ! 1) = Some i"
    using assms by (cases "parse_u64 (w ! 1)") (simp_all add: replay_CUT_def)
  then have "i \<noteq> 0" "i \<le> length (d_log d)" "d' = d\<lparr>d_log := take (i - 1) (d_log d)\<rparr>"
    using assms unfolding replay_CUT_def by (simp_all split: if_split_asm)
  then show ?thesis by (simp add: remembers_def i [simplified])
qed

lemma replay_one_cases:
  assumes "replay_one b d = Some d'"
  shows "remembers d d' \<and>
    (d_log d' = d_log d \<or> (\<exists>e. d_log d' = d_log d @ [e]) \<or>
     (\<exists>i. hd (split_single_spaces b) = ''CUT'' \<and> parse_u64 (split_single_spaces b ! 1) = Some i \<and>
        i \<noteq> 0 \<and> i \<le> length (d_log d) \<and> d_log d' = take (i - 1) (d_log d)))"
proof -
  let ?w = "split_single_spaces b"
  consider "replay_TERM ?w d = Some d'" | "replay_ENTRY ?w b d = Some d'"
    | "hd ?w = ''CUT''" "replay_CUT ?w d = Some d'"
    using assms unfolding replay_one_def Let_def by (simp only: split: if_splits) simp_all
  then show ?thesis
    by cases (use replay_TERM_cases replay_ENTRY_cases replay_CUT_cases in blast)+
qed

lemma replay_all_remembers:
  "replay_all bs d = Some d' \<Longrightarrow> remembers d d'"
proof (induction bs arbitrary: d)
  case (Cons b bs)
  then obtain d1 where "replay_one b d = Some d1" "replay_all bs d1 = Some d'" by (auto split: option.splits)
  with Cons.IH [of d1] replay_one_cases [of b d d1] show ?case by (auto simp: remembers_def)
qed (simp add: remembers_def)

lemma body_not_cut:
  "hd (split_single_spaces (term_body t v)) \<noteq> ''CUT''" "hd (split_single_spaces (entry_body log i)) \<noteq> ''CUT''"
  by (simp_all add: term_body_def entry_body_def)

lemma replay_all_keeps_log:
  assumes "replay_all bs d = Some d'" "set bs \<subseteq> set (save_bodies st t v from log)" "from < wire_max"
    and "from - 1 \<le> length (d_log d)"
  shows "take (from - 1) (d_log d') = take (from - 1) (d_log d) \<and> from - 1 \<le> length (d_log d')"
  using assms(1,2,4)
proof (induction bs arbitrary: d)
  case (Cons b bs)
  then obtain d1 where d1: "replay_one b d = Some d1" "replay_all bs d1 = Some d'" by (auto split: option.splits)
  have b: "b = cut_body from \<or> hd (split_single_spaces b) \<noteq> ''CUT''"
    using Cons.prems(2) body_not_cut by (auto simp: save_bodies_def simp del: upt_Suc split: if_splits)
  have "i = from" if "b = cut_body from" "parse_u64 (split_single_spaces b ! 1) = Some i" for i
    using that assms(3) by (auto simp: cut_body_def parse_u64_to_string)
  then have "take (from - 1) (d_log d1) = take (from - 1) (d_log d) \<and> from - 1 \<le> length (d_log d1)"
    using replay_one_cases [OF d1(1)] b Cons.prems(3) by auto
  with Cons.IH [OF d1(2)] Cons.prems show ?case by simp
qed simp

lemma replay_loop_rest:
  "CHR 0x0A \<notin> set rest \<Longrightarrow> replay_loop P (split_on (CHR 0x0A) rest) d g n =
     \<lparr>rp_durable = d, rp_good = g, rp_records = n, rp_damage = (if rest = [] then None else Some Torn)\<rparr>"
  by (simp add: split_on_no_sep)

lemma crash_reopens:
  assumes h: "file_holds P st d" and legal: "legal_save d t v from log"
    and fits: "durable_fits \<lparr>d_term = t, d_voted_for = v, d_log = log\<rparr>"
    and bs: "bs = save_bodies st t v from log"
    and limit: "length (batch_text P bs) \<le> LOG_TAIL_LIMIT"
    and io: "io_text io = Some (fs_file st @ take n (batch_text P bs))" "io_append io" "io_cut io"
  shows "\<exists>st' d' report k. open_log P path io disk = Inr (st', d', report) \<and> file_holds P st' d' \<and>
    replay_all (take k bs) d = Some d'"
proof -
  have P: "platform_ok P" using h by (simp add: file_holds_def)
  have nl: "\<forall>b\<in>set bs. CHR 0x0A \<notin> set b"
    using save_bodies_lines [OF fits] legal bs by (auto simp: legal_save_def)
  obtain k rest where k: "take n (batch_text P bs) = batch_text P (take k bs) @ rest" "CHR 0x0A \<notin> set rest"
    "length rest \<le> length (batch_text P bs)"
    using take_batch [OF P nl] by blast
  note run = replay_saved [OF h legal fits bs, of k]
  then obtain d' where d': "replay_all (take k bs) d = Some d'" by auto
  let ?good = "fs_file st @ batch_text P (take k bs)"
  have rep: "replay P (?good @ rest) = \<lparr>rp_durable = d', rp_good = length ?good,
      rp_records = rp_records (replay P (fs_file st)) + length (take k bs),
      rp_damage = (if rest = [] then None else Some Torn)\<rparr>"
    using run [of rest] d' replay_loop_rest [OF k(2)] by simp
  have good: "replay P ?good = \<lparr>rp_durable = d', rp_good = length ?good,
      rp_records = rp_records (replay P (fs_file st)) + length (take k bs), rp_damage = None\<rparr>"
    using run [of "[]"] d' by simp
  have "length rest \<le> LOG_TAIL_LIMIT" using k(3) limit by simp
  then show ?thesis
    using io rep good d' P k(1)
    by (intro exI [of _ "fst (projr (open_log P path io disk))"] exI [of _ d']
        exI [of _ "snd (snd (projr (open_log P path io disk)))"] exI [of _ k])
      (auto simp: open_log_def file_holds_def Let_def)
qed

lemma replay_one_sorted:
  assumes "replay_one b d = Some d'" "log_sorted (d_log d) (d_term d)"
  shows "log_sorted (d_log d') (d_term d')"
proof -
  let ?w = "split_single_spaces b"
  consider (tm) "replay_TERM ?w d = Some d'" | (entry) "replay_ENTRY ?w b d = Some d'" | (cut) "replay_CUT ?w d = Some d'"
    using assms(1) unfolding replay_one_def Let_def by (simp only: split: if_splits) simp_all
  then show ?thesis
  proof cases
    case tm
    then show ?thesis
      using replay_TERM_cases [OF tm] assms(2) by (auto simp: remembers_def elim: log_sorted_mono)
  next
    case entry
    obtain i t where it: "parse_u64 (?w ! 1) = Some i" "parse_u64 (?w ! 2) = Some t"
      using entry by (cases "parse_u64 (?w ! 1)"; cases "parse_u64 (?w ! 2)") (simp_all add: replay_ENTRY_def)
    then obtain x where d': "d_log d' = d_log d @ [\<lparr>e_term = t, e_command = x\<rparr>]" "d_term d' = d_term d"
      "t \<le> d_term d" "d_log d \<noteq> [] \<longrightarrow> e_term (last (d_log d)) \<le> t"
      using entry unfolding replay_ENTRY_def by (auto simp add: Let_def split: if_split_asm)
    have "e_term e \<le> t" if e: "e \<in> set (d_log d)" for e
    proof -
      obtain j where j: "j < length (d_log d)" "e = d_log d ! j" using e by (auto simp: in_set_conv_nth)
      have ne: "d_log d \<noteq> []" using e by auto
      from j have "e_term e \<le> e_term (last (d_log d))"
        using assms(2) sorted_nth_mono [of "map e_term (d_log d)" j "length (d_log d) - 1"]
        by (auto simp: log_sorted_def last_conv_nth [OF ne])
      then show ?thesis using d'(4) e by (cases "d_log d") auto
    qed
    then show ?thesis using assms(2) d' by (auto simp: log_sorted_def sorted_append)
  next
    case cut
    then show ?thesis
      using replay_CUT_cases [OF cut] assms(2)
      by (auto simp: log_sorted_def remembers_def take_map [symmetric] sorted_wrt_take dest!: in_set_takeD intro: order_trans)
  qed
qed

lemma replay_loop_sorted:
  "log_sorted (d_log d) (d_term d) \<Longrightarrow>
     log_sorted (d_log (rp_durable (replay_loop P ls d g n))) (d_term (rp_durable (replay_loop P ls d g n)))"
proof (induction P ls d g n rule: replay_loop.induct)
  case (3 P line l ls d g n)
  then show ?case
    by (cases "parse_log_record P line") (auto simp: Let_def dest: replay_one_sorted split: option.split)
qed simp_all

lemma file_holds_sorted: "file_holds P st d \<Longrightarrow> log_sorted (d_log d) (d_term d)"
  using replay_loop_sorted [of empty_durable P "split_on (CHR 0x0A) (fs_file st)" 0 0]
  by (auto simp: file_holds_def replay_def empty_durable_def log_sorted_def)

lemma file_reopens:
  assumes "file_holds P st d" "io_text io = Some (fs_file st)" "io_append io"
  shows "\<exists>st' report. open_log P path io disk = Inr (st', d, report) \<and> file_holds P st' d"
  using assms by (auto simp: open_log_def file_holds_def Let_def)

end
