(* ===== verification/Raft_Replica.thy ===== *)
theory Raft_Replica
  imports Raft_Log
begin

text \<open>
  What one replica promises over its whole life, with its log on the file of
  \<^verbatim>\<open>src/raft_log.cpp\<close>: what it answers from is on disk, a restart finds it again, a crash loses
  at most the batch being written, one vote per term, and commands applied in log order.
\<close>

section \<open>Runs\<close>

definition raft_run :: "'s RaftConfig \<Rightarrow> 's \<Rightarrow> Durable \<Rightarrow> Millis \<Rightarrow> Input list \<Rightarrow> 's Raft" where
  "raft_run c st d now is = fold (raft_step c) is (raft_init c st d now)"

lemma raft_run_inv:
  assumes "cfg_id c < cfg_size c" "log_sorted (d_log d) (d_term d)" "\<forall>i\<in>set is. input_ok i"
  shows "raft_ok c (raft_run c st d now is)"
  unfolding raft_run_def using raft_run_ok [OF raft_init_ok [OF assms(1,2)] assms(3)] .

text \<open>A configuration and a fresh file, for concrete runs.\<close>

definition sample_config :: "nat \<Rightarrow> nat \<Rightarrow> FileStorage RaftConfig" where
  "sample_config i n =
     \<lparr>cfg_id = i, cfg_size = n, cfg_election = 1000, cfg_max_append_bytes = 65536, cfg_spread = (\<lambda>_. 0),
      cfg_save = file_save sample_platform\<rparr>"

definition fresh_file :: FileStorage where
  "fresh_file =
     \<lparr>fs_fd = True, fs_term = 0, fs_voted_for = None, fs_last = 0, fs_batches = 0, fs_file = [], fs_writes = 0,
      fs_disk = (\<lambda>_. None)\<rparr>"

lemma fresh_file_holds: "file_holds sample_platform fresh_file empty_durable"
  by (simp add: file_holds_def fresh_file_def replay_def empty_durable_def sample_platform_ok)

lemmas run_defs =
  raft_run_def raft_init_def raft_boot_def sample_config_def fresh_file_def empty_durable_def Let_def
  reset_election_timer_def start_election_def become_leader_def become_follower_def changed_meta_def changed_from_def
  fail_reads_def majority_def peers_def finish_def persist_def file_save_def save_bodies_def
  last_index_def term_at_def entry_term_at_def advance_commit_def apply_committed_def resolve_reads_def
  propose_def handle_vote_def log_at_least_as_up_to_date_def durable_of_def

section \<open>Durability\<close>

text \<open>
  C12. Durable before answered, and restart: a replica started on an intact log file, given any
  inputs with every save succeeding, holds on disk exactly the term, the vote and the log it
  has in memory, and opening the file again returns exactly these.
\<close>

theorem raft_restart_recovers:
  assumes "cfg_save c = file_save P" "cfg_id c < cfg_size c" "file_holds P st d" "\<forall>i\<in>set is. input_ok i"
    and "\<forall>n\<le>length is. durable_fits (durable_of (raft_run c st d now (take n is)))"
    and "s = raft_run c st d now is" "\<not> rf_stopped s"
    and "io_text io = Some (fs_file (rf_storage s))" "io_append io"
  shows "file_holds P (rf_storage s) (durable_of s) \<and>
    (\<exists>st' report. open_log P path io disk = Inr (st', durable_of s, report) \<and> file_holds P st' (durable_of s))"
proof -
  note ls = file_holds_sorted [OF assms(3)]
  have run0: "\<not> rf_stopped (raft_init c st d now)"
    using assms(6,7) raft_step_stopped unfolding raft_run_def
    by (induction "is" arbitrary: s rule: rev_induct) auto
  have d0: "raft_file.durable P (raft_init c st d now)"
    using raft_file.init_durable [OF assms(1-3) ls _ run0] assms(5) [rule_format, of 0] by (simp add: raft_run_def)
  have "raft_file.durable P s"
    using raft_file.run_durable [OF assms(1) d0 raft_init_ok [OF assms(2) ls] assms(4)] assms(5-7)
    by (simp add: raft_run_def)
  then have h: "file_holds P (rf_storage s) (durable_of s)" by (simp add: raft_file.durable_def)
  with file_reopens [OF h assms(8,9)] show ?thesis by blast
qed

definition sample_run :: "nat \<Rightarrow> FileStorage Raft" where
  "sample_run n = raft_run (sample_config 0 1) fresh_file empty_durable 0 (take n [Propose ''x y'' 5])"

definition sample_io :: OpenIo where
  "sample_io =
     \<lparr>io_text = Some (fs_file (rf_storage (sample_run 1))), io_append = True, io_cut = True, io_dir = True\<rparr>"

lemma sample_run_states:
  "durable_of (sample_run 0) = \<lparr>d_term = 1, d_voted_for = Some 0, d_log = [\<lparr>e_term = 1, e_command = ''NOOP''\<rparr>]\<rparr>"
  "durable_of (sample_run (Suc 0)) =
     \<lparr>d_term = 1, d_voted_for = Some 0,
      d_log = [\<lparr>e_term = 1, e_command = ''NOOP''\<rparr>, \<lparr>e_term = 1, e_command = ''x y''\<rparr>]\<rparr>"
  "\<not> rf_stopped (sample_run (Suc 0))"
  by (simp_all add: sample_run_def run_defs)

lemma sample_run_fits: "n \<le> 1 \<Longrightarrow> durable_fits (durable_of (sample_run n))"
  by (cases n) (simp_all add: sample_run_states durable_fits_def command_fits_def)

theorem raft_restart_recovers_witness:
  "file_holds sample_platform (rf_storage (sample_run 1)) (durable_of (sample_run 1)) \<and>
   length (d_log (durable_of (sample_run 1))) = 2 \<and>
   (\<exists>st' report. open_log sample_platform ''raft.log'' sample_io (\<lambda>_. None) = Inr (st', durable_of (sample_run 1), report))"
proof -
  have "cfg_save (sample_config 0 1) = file_save sample_platform" "cfg_id (sample_config 0 1) < cfg_size (sample_config 0 1)"
    "\<forall>i\<in>set [Propose ''x y'' 5]. input_ok i"
    "\<forall>n\<le>length [Propose ''x y'' 5]. durable_fits (durable_of (raft_run (sample_config 0 1) fresh_file empty_durable 0
        (take n [Propose ''x y'' 5])))"
    using sample_run_fits by (simp_all add: sample_config_def sample_run_def)
  from raft_restart_recovers [OF this(1,2) fresh_file_holds this(3,4), of "sample_run 1" sample_io "''raft.log''" "\<lambda>_. None"]
  show ?thesis using sample_run_states by (auto simp: sample_run_def sample_io_def)
qed

section \<open>Crashes\<close>

text \<open>
  Crash safety: whatever part of a batch reached the file when the process died, opening
  the file succeeds (for a batch within \<^verbatim>\<open>LOG_TAIL_LIMIT\<close>), and the state it recovers has forgotten
  nothing: the term has not fallen, a vote of the same term is kept, and every log entry below
  the first index the batch rewrites is kept.
\<close>

theorem crash_safe:
  assumes "file_holds P st d" "legal_save d t v from log"
    and "durable_fits \<lparr>d_term = t, d_voted_for = v, d_log = log\<rparr>"
    and "batch = batch_text P (save_bodies st t v from log)" "length batch \<le> LOG_TAIL_LIMIT"
    and "io_text io = Some (fs_file st @ take n batch)" "io_append io" "io_cut io"
  shows "\<exists>st' d' report. open_log P path io disk = Inr (st', d', report) \<and> file_holds P st' d' \<and>
    remembers d d' \<and> take (from - 1) (d_log d') = take (from - 1) (d_log d) \<and> from - 1 \<le> length (d_log d')"
proof -
  obtain st' d' report k where k: "open_log P path io disk = Inr (st', d', report)" "file_holds P st' d'"
    "replay_all (take k (save_bodies st t v from log)) d = Some d'"
    using crash_reopens [OF assms(1-3) refl _ _ assms(7,8), of n path disk] assms(4-6) by blast
  have "from < wire_max" "from - 1 \<le> length (d_log d)"
    using assms(2,3) by (auto simp: legal_save_def durable_fits_def)
  from replay_all_keeps_log [OF k(3) set_take_subset this] replay_all_remembers [OF k(3)] k
  show ?thesis by blast
qed

definition sample_batch :: string where
  "sample_batch =
     batch_text sample_platform (save_bodies fresh_file 1 (Some 0) 1 [\<lparr>e_term = 1, e_command = ''NOOP''\<rparr>])"

definition torn_io :: OpenIo where
  "torn_io = \<lparr>io_text = Some (take 20 sample_batch), io_append = True, io_cut = True, io_dir = True\<rparr>"

lemma sample_batch_length: "length sample_batch = 42"
  by (simp add: sample_batch_def save_bodies_def fresh_file_def term_body_def entry_body_def vote_word_def
      log_record_def check_of_shape(1) [OF sample_platform_ok] to_string.simps)

theorem crash_safe_witness:
  "length sample_batch = 42 \<and>
   (\<exists>st' d' report. open_log sample_platform ''raft.log'' torn_io (\<lambda>_. None) = Inr (st', d', report) \<and>
      file_holds sample_platform st' d' \<and> remembers empty_durable d')"
proof -
  have "legal_save empty_durable 1 (Some 0) 1 [\<lparr>e_term = 1, e_command = ''NOOP''\<rparr>]"
    by (simp add: legal_save_def empty_durable_def log_sorted_def)
  moreover have "durable_fits \<lparr>d_term = 1, d_voted_for = Some 0, d_log = [\<lparr>e_term = 1, e_command = ''NOOP''\<rparr>]\<rparr>"
    by (simp add: durable_fits_def command_fits_def)
  moreover note sample_batch_length
  ultimately show ?thesis
    using crash_safe [OF fresh_file_holds, of 1 "Some 0" 1 "[\<lparr>e_term = 1, e_command = ''NOOP''\<rparr>]" sample_batch torn_io 20
        "''raft.log''" "\<lambda>_. None"]
    by (auto simp: LOG_TAIL_LIMIT_def torn_io_def sample_batch_def fresh_file_def)
qed

section \<open>Votes\<close>

lemma remembers_refl [simp]: "remembers d d"
  by (simp add: remembers_def)

lemma remembers_trans: "remembers a b \<Longrightarrow> remembers b c \<Longrightarrow> remembers a c"
  by (auto simp: remembers_def)

text \<open>The term and the vote, over one input.\<close>

lemma raft_step_remembers: "remembers (durable_of s) (durable_of (raft_step c i s))"
proof (cases i)
  case (Vote req now)
  then show ?thesis
    by (auto simp: handle_vote_def Let_def remembers_def durable_of_def)
next
  case (Append req now)
  then show ?thesis
    by (auto simp: handle_append_def Let_def remembers_def durable_of_def max_def)
next
  case (VoteReplied p sent reply now)
  then show ?thesis
    by (auto simp: handle_vote_reply_def Let_def remembers_def durable_of_def)
next
  case (CallFailed to sent now)
  then show ?thesis
    by (auto simp: call_failed_def Let_def remembers_def durable_of_def split: Outgoing.splits)
qed (auto simp: tick_def handle_append_reply_def propose_def read_def Let_def remembers_def durable_of_def)

lemma raft_run_remembers: "remembers (durable_of s) (durable_of (fold (raft_step c) is s))"
  by (induction "is" arbitrary: s) (auto intro: remembers_trans raft_step_remembers)

lemma handle_vote_granted:
  "vr_granted (fst (handle_vote c req now s)) \<Longrightarrow>
     rf_voted_for (snd (handle_vote c req now s)) = Some (vq_candidate req) \<and>
     rf_term (snd (handle_vote c req now s)) = vq_term req \<and>
     vr_term (fst (handle_vote c req now s)) = vq_term req \<and> \<not> rf_stopped (snd (handle_vote c req now s))"
  by (auto simp: handle_vote_def Let_def split: if_splits)

text \<open>
  One vote per term: if a replica grants a vote and, any number of inputs later, grants a
  vote again in the same term, it is to the same candidate.
\<close>

theorem one_vote_per_term:
  assumes "vr_granted (fst (handle_vote c req now s))"
    and "s' = fold (raft_step c) is (snd (handle_vote c req now s))"
    and "vr_granted (fst (handle_vote c req' now' s'))" "vq_term req' = vq_term req"
  shows "vq_candidate req' = vq_candidate req"
proof -
  note g = handle_vote_granted [OF assms(1)] and g' = handle_vote_granted [OF assms(3)]
  have "remembers (durable_of (snd (handle_vote c req now s))) (durable_of (snd (handle_vote c req' now' s')))"
    using raft_run_remembers [of "snd (handle_vote c req now s)" c "is"] raft_step_remembers [of s' c "Vote req' now'"] assms(2)
    by (auto intro: remembers_trans)
  with g g' assms(4) show ?thesis by (simp add: remembers_def durable_of_def)
qed

definition sample_vote :: "nat \<Rightarrow> Index \<Rightarrow> VoteRequest" where
  "sample_vote i li = \<lparr>vq_term = 5, vq_candidate = i, vq_last_index = li, vq_last_term = 0\<rparr>"

definition sample_voter :: "FileStorage Raft" where
  "sample_voter = raft_run (sample_config 0 3) fresh_file empty_durable 0 []"

definition sample_voted :: "FileStorage Raft" where
  "sample_voted =
     fold (raft_step (sample_config 0 3)) [Vote (sample_vote 2 0) 15]
       (snd (handle_vote (sample_config 0 3) (sample_vote 1 0) 10 sample_voter))"

lemma sample_votes:
  "vr_granted (fst (handle_vote (sample_config 0 3) (sample_vote 1 0) 10 sample_voter))"
  "vr_granted (fst (handle_vote (sample_config 0 3) (sample_vote 1 4) 20 sample_voted))"
  by (simp_all add: sample_voted_def sample_voter_def sample_vote_def run_defs)

theorem one_vote_per_term_witness:
  "vr_granted (fst (handle_vote (sample_config 0 3) (sample_vote 1 0) 10 sample_voter)) \<and>
   vr_granted (fst (handle_vote (sample_config 0 3) (sample_vote 1 4) 20 sample_voted)) \<and>
   vq_candidate (sample_vote 1 4) = vq_candidate (sample_vote 1 0)"
proof -
  have "vq_term (sample_vote 1 4) = vq_term (sample_vote 1 0)" by (simp add: sample_vote_def)
  from one_vote_per_term [OF sample_votes(1) sample_voted_def sample_votes(2) this] sample_votes
  show ?thesis by simp
qed

section \<open>Applying\<close>

text \<open>
  C14. Commands are applied in log order: after any inputs in which no APPEND moves the commit
  index back, what has been applied is exactly the log up to the applied index, at its own
  indexes and in order, and all of it is committed.
\<close>

theorem applied_in_order:
  assumes "cfg_id c < cfg_size c" "log_sorted (d_log d) (d_term d)" "\<forall>i\<in>set is. input_ok i"
    and "\<forall>n<length is. input_keeps_commit (is ! n) (raft_run c st d now (take n is))"
    and "s = raft_run c st d now is"
  shows "rf_applied s \<le> rf_commit s \<and> rf_commit s \<le> length (rf_log s) \<and>
    rf_applies s = map (\<lambda>i. (i, rf_log s ! (i - 1))) [1..<Suc (rf_applied s)]"
proof -
  have "raft_inv True c (raft_run c st d now (take n is))" if "n \<le> length is" for n
    using that
  proof (induction n)
    case 0
    show ?case using raft_init_ok [OF assms(1,2)] by (simp add: raft_run_def)
  next
    case (Suc n)
    then have "raft_run c st d now (take (Suc n) is) = raft_step c (is ! n) (raft_run c st d now (take n is))"
      by (simp add: raft_run_def take_Suc_conv_app_nth)
    with Suc assms(3,4) show ?case by (auto intro!: raft_step_ok)
  qed
  from this [of "length is"] assms(5) show ?thesis
    by (simp add: raft_inv_def applied_ok_def last_index_def del: upt_Suc)
qed

text \<open>An APPEND with a prefix of the log, for the follower 0 of three.\<close>

definition sample_append :: "Term \<Rightarrow> Index \<Rightarrow> Term \<Rightarrow> string list \<Rightarrow> Index \<Rightarrow> AppendRequest" where
  "sample_append t prev pt cmds k =
     \<lparr>aq_term = t, aq_leader = 1, aq_prev_index = prev, aq_prev_term = pt,
      aq_entries = map (\<lambda>x. \<lparr>e_term = t, e_command = x\<rparr>) cmds, aq_commit = k, aq_seq = 1\<rparr>"

lemmas append_defs = handle_append_def sample_append_def append_entries.simps

theorem applied_in_order_witness:
  "rf_applies (raft_run (sample_config 0 3) fresh_file empty_durable 0 [Append (sample_append 1 0 0 [''a'', ''b''] 2) 5]) =
     [(1, \<lparr>e_term = 1, e_command = ''a''\<rparr>), (2, \<lparr>e_term = 1, e_command = ''b''\<rparr>)]"
proof -
  let ?s = "raft_run (sample_config 0 3) fresh_file empty_durable 0 [Append (sample_append 1 0 0 [''a'', ''b''] 2) 5]"
  have a: "rf_applied ?s = 2" "rf_log ?s = [\<lparr>e_term = 1, e_command = ''a''\<rparr>, \<lparr>e_term = 1, e_command = ''b''\<rparr>]"
    by (simp_all add: run_defs append_defs)
  have "rf_applies ?s = map (\<lambda>i. (i, rf_log ?s ! (i - 1))) [1..<Suc (rf_applied ?s)]"
    using applied_in_order [of "sample_config 0 3" empty_durable "[Append (sample_append 1 0 0 [''a'', ''b''] 2) 5]" fresh_file 0 ?s]
    by (simp add: sample_config_def empty_durable_def log_sorted_def append_ok_def keeps_commit_def run_defs sample_append_def
        del: upt_Suc)
  then show ?thesis unfolding a by (simp add: numeral_2_eq_2)
qed

text \<open>
  The commit index can move back: a follower that has committed and applied three entries
  accepts a shorter APPEND from a newer leader whose commit index is ahead, and its commit
  index falls below what it has already applied.
\<close>

theorem commit_can_fall:
  "\<exists>(c :: FileStorage RaftConfig) s req.
     cfg_id c < cfg_size c \<and> raft_inv True c s \<and> append_ok req \<and> \<not> rf_stopped s \<and>
     ar_success (fst (handle_append c req 50 s)) \<and>
     rf_commit (snd (handle_append c req 50 s)) < rf_commit s \<and>
     rf_commit (snd (handle_append c req 50 s)) < rf_applied (snd (handle_append c req 50 s))"
proof -
  let ?c = "sample_config 0 3"
  let ?is = "[Append (sample_append 1 0 0 [''a'', ''b'', ''c''] 3) 5]"
  let ?s = "raft_run ?c fresh_file empty_durable 0 ?is"
  let ?req = "(sample_append 1 0 0 [''a''] 5)\<lparr>aq_term := 2\<rparr>"
  have "raft_inv True ?c ?s"
    using raft_step_ok [OF raft_init_ok [of ?c empty_durable True fresh_file 0], of "hd ?is"]
    by (simp add: raft_run_def) (simp add: sample_config_def empty_durable_def log_sorted_def append_ok_def sample_append_def keeps_commit_def run_defs)
  moreover have "append_ok ?req" by (simp add: append_ok_def sample_append_def)
  moreover have "\<not> rf_stopped ?s" "ar_success (fst (handle_append ?c ?req 50 ?s))"
    "rf_commit (snd (handle_append ?c ?req 50 ?s)) < rf_commit ?s"
    "rf_commit (snd (handle_append ?c ?req 50 ?s)) < rf_applied (snd (handle_append ?c ?req 50 ?s))"
    by (simp_all add: run_defs append_defs)
  moreover have "cfg_id ?c < cfg_size ?c" by (simp add: sample_config_def)
  ultimately show ?thesis by blast
qed

end
