(* ===== verification/Raft_Group.thy ===== *)
theory Raft_Group
  imports Raft_Replica
begin

text \<open>
  A whole group of replicas: every replica runs the core of \<^verbatim>\<open>src/raft.cpp\<close>, the network loses,
  delays, repeats and reorders what they send, and processes crash and start again on what their disk
  kept. Shown: no two replicas ever lead in one term.
\<close>

section \<open>The votes a replica asks for\<close>

text \<open>The vote calls waiting to be sent.\<close>

definition vote_calls :: "'s Raft \<Rightarrow> (nat \<times> VoteRequest) set" where
  "vote_calls s = {(p, r). VoteCall p r \<in> set (rf_out s)}"

definition own_calls :: "'s RaftConfig \<Rightarrow> 's Raft \<Rightarrow> bool" where
  "own_calls c s \<longleftrightarrow> (\<forall>(p, r)\<in>vote_calls s. vq_candidate r = cfg_id c)"

lemma vote_calls_quiet [simp]:
  "vote_calls (reset_election_timer c now s) = vote_calls s"
  "vote_calls (fail_reads s) = vote_calls s"
  "vote_calls (changed_meta s) = vote_calls s"
  "vote_calls (changed_from i s) = vote_calls s"
  "vote_calls (send_append c now p s) = vote_calls s"
  "vote_calls (record_reply from sent reply now s) = vote_calls s"
  "vote_calls (apply_committed s) = vote_calls s"
  "vote_calls (advance_commit c s) = vote_calls s"
  "vote_calls (resolve_reads c s) = vote_calls s"
  "vote_calls (drop_outputs s) = {}"
  by (simp_all add: vote_calls_def reset_election_timer_def fail_reads_def changed_meta_def changed_from_def send_append_def
      record_reply_def apply_committed_def advance_commit_def resolve_reads_def drop_outputs_def Let_def)

lemma vote_calls_update [simp]:
  "vote_calls (rf_role_update f s) = vote_calls s" "vote_calls (rf_leader_update g s) = vote_calls s"
  "vote_calls (rf_log_update h s) = vote_calls s" "vote_calls (rf_voted_for_update k s) = vote_calls s"
  "vote_calls (rf_votes_update l s) = vote_calls s" "vote_calls (rf_commit_update m s) = vote_calls s"
  "vote_calls (rf_reads_update q s) = vote_calls s" "vote_calls (rf_stopped_update b s) = vote_calls s"
  "vote_calls (rf_term_update t s) = vote_calls s" "vote_calls (rf_heartbeat_due_update d s) = vote_calls s"
  "vote_calls (rf_inflight_update i s) = vote_calls s" "vote_calls (rf_retry_after_update a s) = vote_calls s"
  "vote_calls (rf_next_update n s) = vote_calls s" "vote_calls (rf_match_update m' s) = vote_calls s" "vote_calls (rf_heard_update h' s) = vote_calls s"
  by (simp_all add: vote_calls_def)

lemma vote_calls_send [simp]: "vote_calls (send_if_due c now force p s) = vote_calls s" "vote_calls (tick_peer c now p s) = vote_calls s"
  by (simp_all add: send_if_due_def tick_peer_def Let_def)

lemma vote_calls_fold [simp]:
  "vote_calls (fold (send_append c now) ps s) = vote_calls s"
  "vote_calls (fold (send_if_due c now force) ps s) = vote_calls s"
  "vote_calls (fold (tick_peer c now) ps s) = vote_calls s"
  by (simp_all add: fold_preserves)

lemma vote_calls_follower [simp]: "vote_calls (become_follower c t l now s) = vote_calls s"
  by (simp add: become_follower_def Let_def)

lemma vote_calls_leader [simp]: "vote_calls (become_leader c now s) = vote_calls s"
  by (simp add: become_leader_def Let_def)

lemma vote_calls_entries [simp]: "vote_calls (append_entries i es s) = vote_calls s"
  by (induction i es s rule: append_entries.induct) (auto simp: Let_def)

lemma vote_calls_finish: "vote_calls (finish c s) \<subseteq> vote_calls s"
proof -
  have "vote_calls (persist c s) = vote_calls s" by (simp add: persist_def vote_calls_def Let_def split: prod.splits)
  then show ?thesis by (simp add: finish_def Let_def)
qed

lemma own_calls_finish: "own_calls c s \<Longrightarrow> own_calls c (finish c s)"
  using vote_calls_finish by (fastforce simp: own_calls_def)

lemma own_calls_election: "own_calls c s \<Longrightarrow> own_calls c (start_election c now s)"
  by (auto simp: own_calls_def start_election_def Let_def) (auto simp: vote_calls_def vote_call_def changed_meta_def reset_election_timer_def fail_reads_def)

lemma own_calls_quiet [simp]:
  "own_calls c (reset_election_timer c' now s) = own_calls c s"
  "own_calls c (changed_meta s) = own_calls c s"
  "own_calls c (changed_from i s) = own_calls c s"
  "own_calls c (become_follower c' t l now s) = own_calls c s"
  "own_calls c (become_leader c' now s) = own_calls c s"
  "own_calls c (append_entries i es s) = own_calls c s"
  "own_calls c (fold (tick_peer c' now) ps s) = own_calls c s"
  "own_calls c (fold (send_if_due c' now force) ps s) = own_calls c s"
  "own_calls c (send_if_due c' now force p s) = own_calls c s"
  "own_calls c (record_reply from sent reply now s) = own_calls c s"
  "own_calls c (rf_voted_for_update k s) = own_calls c s" "own_calls c (rf_votes_update v s) = own_calls c s"
  "own_calls c (rf_commit_update m s) = own_calls c s" "own_calls c (rf_log_update h s) = own_calls c s"
  "own_calls c (rf_reads_update q s) = own_calls c s" "own_calls c (rf_inflight_update f s) = own_calls c s"
  "own_calls c (rf_retry_after_update a s) = own_calls c s"
  by (simp_all add: own_calls_def)

lemma own_calls_step: "own_calls c s \<Longrightarrow> own_calls c (raft_step c i s)"
  by (cases i) (auto simp: tick_def handle_vote_def handle_append_def handle_vote_reply_def handle_append_reply_def call_failed_def
      propose_def read_def Let_def split: Outgoing.splits intro!: own_calls_finish own_calls_election)

lemma own_calls_init: "own_calls c (raft_init c st d now)"
proof -
  have "own_calls c (raft_boot c st d)" by (simp add: own_calls_def vote_calls_def raft_boot_def Let_def)
  then show ?thesis by (auto simp: raft_init_def Let_def intro!: own_calls_finish own_calls_election)
qed

section \<open>Candidates and leaders\<close>

text \<open>
  What a candidate or a leader has to show for it: its own vote, and for every other vote it counts,
  that vote among those \<open>V\<close> the voters made durable; a leader has a majority.
\<close>

definition campaign :: "'s RaftConfig \<Rightarrow> (nat \<times> Term \<times> nat) set \<Rightarrow> 's Raft \<Rightarrow> bool" where
  "campaign c V s \<longleftrightarrow>
     length (rf_votes s) = cfg_size c \<and>
     (rf_role s \<noteq> Follower \<longrightarrow>
        rf_voted_for s = Some (cfg_id c) \<and>
        (\<forall>p<cfg_size c. rf_votes s ! p \<longrightarrow> p = cfg_id c \<or> (p, rf_term s, cfg_id c) \<in> V)) \<and>
     (rf_role s = Leader \<longrightarrow> majority c (count_true (rf_votes s)))"

lemma campaign_mono: "campaign c V s \<Longrightarrow> V \<subseteq> V' \<Longrightarrow> campaign c V' s"
  by (auto simp: campaign_def)

lemma count_one: "i < n \<Longrightarrow> count_true ((replicate n False)[i := True]) = 1"
proof -
  assume "i < n"
  then have "{j. j < n \<and> (replicate n False)[i := True] ! j} = {i}" by (auto simp: nth_list_update)
  then show ?thesis by (simp add: count_true_card)
qed

lemma update_true: "bs[p := True] ! q \<Longrightarrow> q = p \<or> bs ! q"
  by (cases "q = p") simp_all

lemma campaign_election:
  assumes "campaign c V s" "cfg_id c < cfg_size c"
  shows "campaign c V (start_election c now s)"
  using assms count_one [of "cfg_id c" "cfg_size c"] by (auto simp: campaign_def nth_list_update split: if_splits)

lemma campaign_finish [simp]: "campaign c V (finish c' s) = campaign c V s"
  by (simp add: campaign_def)

lemma campaign_step:
  assumes "campaign c V s" "cfg_id c < cfg_size c"
    and "\<And>p sent reply now. i = VoteReplied p sent reply now \<Longrightarrow> vr_granted reply \<Longrightarrow> (p, vq_term sent, cfg_id c) \<in> V"
  shows "campaign c V (raft_step c i s)"
proof (cases i)
  case (VoteReplied p sent reply now)
  then show ?thesis using assms by (auto simp: handle_vote_reply_def Let_def campaign_def dest!: update_true)
next
  case (Tick now)
  then show ?thesis using assms(1) campaign_election [OF assms(1,2)] by (auto simp: tick_def campaign_def)
qed (use assms(1) in \<open>auto simp: handle_vote_def handle_append_def handle_append_reply_def call_failed_def propose_def read_def
    Let_def campaign_def split: Outgoing.splits\<close>)

lemma campaign_init:
  assumes "cfg_id c < cfg_size c"
  shows "campaign c V (raft_init c st d now)"
proof -
  have "campaign c V (reset_election_timer c now (raft_boot c st d))" by (simp add: campaign_def raft_boot_def Let_def)
  then show ?thesis using campaign_election assms by (auto simp: raft_init_def Let_def)
qed

section \<open>The group\<close>

text \<open>
  The replicas; what each has made durable; the calls sent and the replies to vote requests sent so far,
  each of which may be delivered late, twice or never; and two records of the past: the votes that
  were ever durable, as voter, term and candidate, and the replicas that ever led, with their term.
\<close>

record 's RaftGroup =
  gr_replicas :: "nat \<Rightarrow> 's Raft"
  gr_disks :: "nat \<Rightarrow> Durable"
  gr_calls :: "(nat \<times> Outgoing) set"
  gr_replies :: "(nat \<times> VoteRequest \<times> VoteReply) set"
  gr_votes :: "(nat \<times> Term \<times> nat) set"
  gr_leaders :: "(Term \<times> nat) set"

text \<open>A replica has a new state. A stopped one has failed to save it, and its disk is as before.\<close>

definition set_replica :: "nat \<Rightarrow> 's Raft \<Rightarrow> 's RaftGroup \<Rightarrow> 's RaftGroup" where
  "set_replica i s g =
     (let g = g\<lparr>gr_replicas := (gr_replicas g)(i := s)\<rparr> in
      if rf_stopped s then g
      else g\<lparr>gr_disks := (gr_disks g)(i := durable_of s),
             gr_votes := gr_votes g \<union> (case rf_voted_for s of None \<Rightarrow> {} | Some v \<Rightarrow> {(i, rf_term s, v)}),
             gr_leaders := gr_leaders g \<union> (if rf_role s = Leader then {(rf_term s, i)} else {})\<rparr>)"

text \<open>No process has been started yet.\<close>

definition group_start :: "(nat \<Rightarrow> 's RaftConfig) \<Rightarrow> (nat \<Rightarrow> 's) \<Rightarrow> 's RaftGroup" where
  "group_start cfg st =
     \<lparr>gr_replicas = (\<lambda>i. raft_boot (cfg i) (st i) empty_durable), gr_disks = (\<lambda>_. empty_durable),
      gr_calls = {}, gr_replies = {}, gr_votes = {}, gr_leaders = {}\<rparr>"

text \<open>
  The steps. A process starts on anything its disk may hold after a crash (\<open>crash_safe\<close>: the term and
  the vote of the last completed step are not forgotten). A vote request may be anything, even one
  nobody sent; a reply to one reaches the replica that sent that call, and is one the replica called
  has given. All other inputs are arbitrary.
\<close>

inductive group_step :: "(nat \<Rightarrow> 's RaftConfig) \<Rightarrow> nat \<Rightarrow> 's RaftGroup \<Rightarrow> 's RaftGroup \<Rightarrow> bool" for cfg n where
  starts: "i < n \<Longrightarrow> remembers (gr_disks g i) d \<Longrightarrow> group_step cfg n g (set_replica i (raft_init (cfg i) st d now) g)"
| sends: "i < n \<Longrightarrow> take_outgoing (gr_replicas g i) = (out, s) \<Longrightarrow>
    group_step cfg n g (g\<lparr>gr_replicas := (gr_replicas g)(i := s), gr_calls := gr_calls g \<union> Pair i ` set out\<rparr>)"
| votes: "i < n \<Longrightarrow> handle_vote (cfg i) req now (gr_replicas g i) = (reply, s) \<Longrightarrow>
    group_step cfg n g ((set_replica i s g)\<lparr>gr_replies := insert (i, req, reply) (gr_replies g)\<rparr>)"
| voted: "i < n \<Longrightarrow> (i, VoteCall p sent) \<in> gr_calls g \<Longrightarrow> (p, sent, reply) \<in> gr_replies g \<Longrightarrow>
    group_step cfg n g (set_replica i (handle_vote_reply (cfg i) p sent reply now (gr_replicas g i)) g)"
| other: "i < n \<Longrightarrow> (\<forall>p sent reply now. x \<noteq> VoteReplied p sent reply now) \<Longrightarrow>
    group_step cfg n g (set_replica i (raft_step (cfg i) x (gr_replicas g i)) g)"

text \<open>What every reachable state of the group satisfies.\<close>

definition quorum_of :: "nat \<Rightarrow> (nat \<times> Term \<times> nat) set \<Rightarrow> Term \<Rightarrow> nat \<Rightarrow> bool" where
  "quorum_of n V t i \<longleftrightarrow> 2 * card {p. p < n \<and> (p, t, i) \<in> V} > n"

definition vote_kept :: "Durable \<Rightarrow> Term \<Rightarrow> nat \<Rightarrow> bool" where
  "vote_kept d t i \<longleftrightarrow> t < d_term d \<or> d_term d = t \<and> d_voted_for d = Some i"

definition group_inv :: "(nat \<Rightarrow> 's RaftConfig) \<Rightarrow> nat \<Rightarrow> 's RaftGroup \<Rightarrow> bool" where
  "group_inv cfg n g \<longleftrightarrow>
     (\<forall>i<n. campaign (cfg i) (gr_votes g) (gr_replicas g i) \<and> own_calls (cfg i) (gr_replicas g i)) \<and>
     (\<forall>i<n. \<not> rf_stopped (gr_replicas g i) \<longrightarrow> gr_disks g i = durable_of (gr_replicas g i)) \<and>
     (\<forall>(p, t, i)\<in>gr_votes g. vote_kept (gr_disks g p) t i) \<and>
     (\<forall>p t i j. (p, t, i) \<in> gr_votes g \<longrightarrow> (p, t, j) \<in> gr_votes g \<longrightarrow> i = j) \<and>
     (\<forall>(i, x)\<in>gr_calls g. \<forall>p req. x = VoteCall p req \<longrightarrow> vq_candidate req = i) \<and>
     (\<forall>(p, req, reply)\<in>gr_replies g. vr_granted reply \<longrightarrow> (p, vq_term req, vq_candidate req) \<in> gr_votes g) \<and>
     (\<forall>(t, i)\<in>gr_leaders g. quorum_of n (gr_votes g) t i)"

lemma vote_kept_remembers: "vote_kept d t i \<Longrightarrow> remembers d d' \<Longrightarrow> vote_kept d' t i"
  by (auto simp: vote_kept_def remembers_def)

lemma quorum_mono: "quorum_of n V t i \<Longrightarrow> V \<subseteq> V' \<Longrightarrow> quorum_of n V' t i"
proof -
  assume q: "quorum_of n V t i" and sub: "V \<subseteq> V'"
  have "card {p. p < n \<and> (p, t, i) \<in> V} \<le> card {p. p < n \<and> (p, t, i) \<in> V'}" using sub by (intro card_mono) auto
  then show ?thesis using q by (simp add: quorum_of_def)
qed

lemma leader_quorum:
  assumes "campaign c V s" "rf_role s = Leader" "(cfg_id c, rf_term s, cfg_id c) \<in> V"
  shows "quorum_of (cfg_size c) V (rf_term s) (cfg_id c)"
proof -
  have "{p. p < cfg_size c \<and> rf_votes s ! p} \<subseteq> {p. p < cfg_size c \<and> (p, rf_term s, cfg_id c) \<in> V}"
    using assms by (auto simp: campaign_def)
  then have "card {p. p < cfg_size c \<and> rf_votes s ! p} \<le> card {p. p < cfg_size c \<and> (p, rf_term s, cfg_id c) \<in> V}"
    by (intro card_mono) auto
  moreover have "2 * card {p. p < cfg_size c \<and> rf_votes s ! p} > cfg_size c"
    using assms(1,2) by (auto simp: campaign_def majority_def count_true_card)
  ultimately show ?thesis by (simp add: quorum_of_def)
qed

lemma set_replica_inv:
  assumes inv: "group_inv cfg n g" and i: "i < n" "cfg_id (cfg i) = i" "cfg_size (cfg i) = n"
    and s: "campaign (cfg i) (gr_votes g) s" "own_calls (cfg i) s"
    and old: "\<not> rf_stopped s \<Longrightarrow> remembers (gr_disks g i) (durable_of s)"
  shows "group_inv cfg n (set_replica i s g)"
proof (cases "rf_stopped s")
  case True
  then show ?thesis using inv s by (auto simp: group_inv_def set_replica_def)
next
  case False
  define V where "V = gr_votes g \<union> (case rf_voted_for s of None \<Rightarrow> {} | Some v \<Rightarrow> {(i, rf_term s, v)})"
  define g' where "g' = set_replica i s g"
  have g': "gr_votes g' = V" "gr_replicas g' = (gr_replicas g)(i := s)" "gr_disks g' = (gr_disks g)(i := durable_of s)"
    "gr_calls g' = gr_calls g" "gr_replies g' = gr_replies g"
    "gr_leaders g' = gr_leaders g \<union> (if rf_role s = Leader then {(rf_term s, i)} else {})"
    using False by (simp_all add: g'_def set_replica_def V_def)
  have V: "gr_votes g \<subseteq> V" by (simp add: V_def)
  have kept: "vote_kept (gr_disks g' p) t v" if "(p, t, v) \<in> V" for p t v
  proof (cases "(p, t, v) \<in> gr_votes g")
    case True
    then have "vote_kept (gr_disks g p) t v" using inv by (auto simp: group_inv_def)
    then show ?thesis using old [OF False] vote_kept_remembers by (auto simp: g'(3))
  next
    case new: False
    then have "p = i" "t = rf_term s" "rf_voted_for s = Some v" using that by (auto simp: V_def split: option.splits)
    then show ?thesis by (simp add: g'(3) vote_kept_def durable_of_def)
  qed
  have once: "v = u" if "(p, t, v) \<in> V" "(p, t, u) \<in> V" for p t v u
  proof (cases "(p, t, v) \<in> gr_votes g \<and> (p, t, u) \<in> gr_votes g")
    case True
    then show ?thesis using inv unfolding group_inv_def by blast
  next
    case new: False
    then have "p = i" "t = rf_term s" using that by (auto simp: V_def split: option.splits)
    then show ?thesis using kept [OF that(1)] kept [OF that(2)] by (auto simp: g'(3) vote_kept_def durable_of_def)
  qed
  have lead: "quorum_of n V (rf_term s) i" if "rf_role s = Leader"
  proof -
    have "rf_voted_for s = Some i" using s(1) that i(2) by (simp add: campaign_def)
    then show ?thesis using leader_quorum [OF campaign_mono [OF s(1) V] that] i by (simp add: V_def)
  qed
  have "\<forall>j<n. campaign (cfg j) V (gr_replicas g' j) \<and> own_calls (cfg j) (gr_replicas g' j)"
    using inv s campaign_mono V by (auto simp: group_inv_def g'(2))
  moreover have "\<forall>j<n. \<not> rf_stopped (gr_replicas g' j) \<longrightarrow> gr_disks g' j = durable_of (gr_replicas g' j)"
    using inv by (auto simp: group_inv_def g'(2,3))
  moreover have "\<forall>(p, req, reply)\<in>gr_replies g. vr_granted reply \<longrightarrow> (p, vq_term req, vq_candidate req) \<in> V"
    using inv V by (fastforce simp: group_inv_def)
  moreover have "\<forall>(t, j)\<in>gr_leaders g'. quorum_of n V t j"
    using inv lead quorum_mono V by (auto simp: group_inv_def g'(6))
  moreover have "\<forall>(j, x)\<in>gr_calls g. \<forall>p req. x = VoteCall p req \<longrightarrow> vq_candidate req = j" using inv by (simp add: group_inv_def)
  ultimately show ?thesis unfolding g'_def [symmetric] group_inv_def g'(1,4,5) using kept once by blast
qed

lemma group_start_inv:
  assumes "\<forall>i<n. cfg_id (cfg i) = i \<and> cfg_size (cfg i) = n"
  shows "group_inv cfg n (group_start cfg st)"
  using assms by (auto simp: group_inv_def group_start_def campaign_def own_calls_def vote_calls_def raft_boot_def Let_def durable_of_def
      empty_durable_def)

text \<open>An input leaves what was durable durable, unless the replica stops.\<close>

lemma step_remembers:
  assumes "group_inv cfg n g" "i < n" "\<not> rf_stopped (raft_step c x (gr_replicas g i))"
  shows "remembers (gr_disks g i) (durable_of (raft_step c x (gr_replicas g i)))"
proof -
  have "\<not> rf_stopped (gr_replicas g i)" using assms(3) raft_step_stopped by blast
  then have "gr_disks g i = durable_of (gr_replicas g i)" using assms(1,2) by (simp add: group_inv_def)
  then show ?thesis using raft_step_remembers by simp
qed

lemma init_remembers: "remembers d (durable_of (raft_init c st d now))"
  by (auto simp: raft_init_def Let_def remembers_def durable_of_def raft_boot_def)

lemma step_input_inv:
  assumes inv: "group_inv cfg n g" and i: "i < n" "cfg_id (cfg i) = i" "cfg_size (cfg i) = n"
    and x: "\<And>p sent reply now. x = VoteReplied p sent reply now \<Longrightarrow> vr_granted reply \<Longrightarrow> (p, vq_term sent, i) \<in> gr_votes g"
  shows "group_inv cfg n (set_replica i (raft_step (cfg i) x (gr_replicas g i)) g)"
proof (rule set_replica_inv [OF inv i])
  have r: "campaign (cfg i) (gr_votes g) (gr_replicas g i)" "own_calls (cfg i) (gr_replicas g i)" using inv i(1) by (auto simp: group_inv_def)
  show "campaign (cfg i) (gr_votes g) (raft_step (cfg i) x (gr_replicas g i))" using campaign_step [OF r(1)] i x by simp
  show "own_calls (cfg i) (raft_step (cfg i) x (gr_replicas g i))" by (rule own_calls_step [OF r(2)])
qed (rule step_remembers [OF inv i(1)])

lemma sends_inv:
  assumes "group_inv cfg n g" "i < n" and "\<And>p req. VoteCall p req \<in> set out \<Longrightarrow> vq_candidate req = i"
    and "\<And>V. campaign (cfg i) V s = campaign (cfg i) V (gr_replicas g i)" "own_calls (cfg i) s"
    and "rf_stopped s = rf_stopped (gr_replicas g i)" "durable_of s = durable_of (gr_replicas g i)"
  shows "group_inv cfg n (g\<lparr>gr_replicas := (gr_replicas g)(i := s), gr_calls := gr_calls g \<union> Pair i ` set out\<rparr>)"
proof -
  have "\<forall>j<n. campaign (cfg j) (gr_votes g) (((gr_replicas g)(i := s)) j) \<and> own_calls (cfg j) (((gr_replicas g)(i := s)) j)"
    using assms(1,4,5) by (simp add: group_inv_def)
  moreover have "\<forall>j<n. \<not> rf_stopped (((gr_replicas g)(i := s)) j) \<longrightarrow> gr_disks g j = durable_of (((gr_replicas g)(i := s)) j)"
    using assms(1,6,7) by (simp add: group_inv_def)
  moreover have "\<forall>(j, x)\<in>gr_calls g \<union> Pair i ` set out. \<forall>p req. x = VoteCall p req \<longrightarrow> vq_candidate req = j"
    using assms(1,3) by (auto simp: group_inv_def)
  ultimately show ?thesis using assms(1) by (simp add: group_inv_def)
qed

lemma add_reply_inv:
  assumes "group_inv cfg n g" "vr_granted reply \<Longrightarrow> (i, vq_term req, vq_candidate req) \<in> gr_votes g" "gr_replies g = R"
  shows "group_inv cfg n (g\<lparr>gr_replies := insert (i, req, reply) R\<rparr>)"
  using assms by (simp add: group_inv_def)

lemma group_inv_net:
  assumes "group_inv cfg n g" "(i, VoteCall p sent) \<in> gr_calls g" "(p, sent, reply) \<in> gr_replies g"
  shows "vq_candidate sent = i" "vr_granted reply \<longrightarrow> (p, vq_term sent, vq_candidate sent) \<in> gr_votes g"
  using assms unfolding group_inv_def by fastforce+

lemma group_step_inv:
  assumes "group_step cfg n g g'" and inv: "group_inv cfg n g" and cfg: "\<forall>i<n. cfg_id (cfg i) = i \<and> cfg_size (cfg i) = n"
  shows "group_inv cfg n g'"
  using assms(1)
proof cases
  case (starts i d st now)
  have i: "i < n" "cfg_id (cfg i) = i" "cfg_size (cfg i) = n" using cfg starts(2) by simp_all
  have "remembers (gr_disks g i) (durable_of (raft_init (cfg i) st d now))" by (rule remembers_trans [OF starts(3) init_remembers])
  moreover have "campaign (cfg i) (gr_votes g) (raft_init (cfg i) st d now)" using i by (intro campaign_init) simp
  ultimately show ?thesis unfolding starts(1) by (intro set_replica_inv [OF inv i _ own_calls_init])
next
  case (sends i out s)
  have s: "s = (gr_replicas g i)\<lparr>rf_out := []\<rparr>" "out = rf_out (gr_replicas g i)" using sends(3) by (simp_all add: take_outgoing_def)
  have "own_calls (cfg i) (gr_replicas g i)" using inv sends(2) by (simp add: group_inv_def)
  then have "vq_candidate req = i" if "VoteCall p req \<in> set out" for p req
    using that cfg sends(2) by (auto simp: own_calls_def vote_calls_def s)
  moreover have "campaign (cfg i) V s = campaign (cfg i) V (gr_replicas g i)" "own_calls (cfg i) s"
    "rf_stopped s = rf_stopped (gr_replicas g i)" "durable_of s = durable_of (gr_replicas g i)" for V
    by (simp_all add: s campaign_def own_calls_def vote_calls_def durable_of_def)
  ultimately show ?thesis unfolding sends(1) by (rule sends_inv [OF inv sends(2)])
next
  case (votes i req now reply s)
  have i: "i < n" "cfg_id (cfg i) = i" "cfg_size (cfg i) = n" using cfg votes(2) by simp_all
  have s: "s = raft_step (cfg i) (Vote req now) (gr_replicas g i)" using votes(3) by simp
  have inv': "group_inv cfg n (set_replica i s g)" unfolding s by (rule step_input_inv [OF inv i]) simp
  have "(i, vq_term req, vq_candidate req) \<in> gr_votes (set_replica i s g)" if "vr_granted reply"
    using handle_vote_granted [of "cfg i" req now "gr_replicas g i"] that votes(3) by (simp add: set_replica_def)
  moreover have "gr_replies (set_replica i s g) = gr_replies g" by (simp add: set_replica_def Let_def)
  ultimately show ?thesis unfolding votes(1) by (rule add_reply_inv [OF inv'])
next
  case (voted i p sent reply now)
  have i: "i < n" "cfg_id (cfg i) = i" "cfg_size (cfg i) = n" using cfg voted(2) by simp_all
  note group_inv_net [OF inv voted(3,4)]
  then show ?thesis unfolding voted(1) using step_input_inv [OF inv i, of "VoteReplied p sent reply now"] by simp
next
  case (other i x)
  have "cfg_id (cfg i) = i" "cfg_size (cfg i) = n" using cfg other(2) by simp_all
  then show ?thesis unfolding other(1) using other(3) by (intro step_input_inv [OF inv other(2)]) simp_all
qed

lemma group_reachable_inv:
  assumes "(group_step cfg n)\<^sup>*\<^sup>* (group_start cfg st) g" "\<forall>i<n. cfg_id (cfg i) = i \<and> cfg_size (cfg i) = n"
  shows "group_inv cfg n g"
  using assms(1) by (induction rule: rtranclp_induct) (blast intro: group_start_inv [OF assms(2)] group_step_inv [OF _ _ assms(2)])+

text \<open>Two majorities have a voter in common, and it has one vote in a term.\<close>

lemma quorums_agree:
  assumes "quorum_of n V t i" "quorum_of n V t j" and "\<forall>p i j. (p, t, i) \<in> V \<longrightarrow> (p, t, j) \<in> V \<longrightarrow> i = j"
  shows "i = j"
proof (rule ccontr)
  assume "i \<noteq> j"
  let ?A = "{p. p < n \<and> (p, t, i) \<in> V}" and ?B = "{p. p < n \<and> (p, t, j) \<in> V}"
  have "?A \<inter> ?B = {}" using assms(3) \<open>i \<noteq> j\<close> by blast
  then have "card ?A + card ?B = card (?A \<union> ?B)" by (simp add: card_Un_disjoint)
  also have "\<dots> \<le> card {..<n}" by (intro card_mono) auto
  finally show False using assms(1,2) by (simp add: quorum_of_def)
qed

text \<open>
  C5. At most one leader per term: in every run of a group of replicas, with any loss, delay, repetition
  and reordering of messages, and with crashes and restarts of any replica at any time, two
  replicas that ever led in the same term are the same replica.
\<close>

theorem one_leader_per_term:
  assumes "\<forall>i<n. cfg_id (cfg i) = i \<and> cfg_size (cfg i) = n"
    and "(group_step cfg n)\<^sup>*\<^sup>* (group_start cfg st) g"
    and "(t, i) \<in> gr_leaders g" "(t, j) \<in> gr_leaders g"
  shows "i = j"
proof -
  have inv: "group_inv cfg n g" by (rule group_reachable_inv [OF assms(2,1)])
  then have "quorum_of n (gr_votes g) t i" "quorum_of n (gr_votes g) t j" using assms(3,4) by (auto simp: group_inv_def)
  moreover have "\<forall>p i j. (p, t, i) \<in> gr_votes g \<longrightarrow> (p, t, j) \<in> gr_votes g \<longrightarrow> i = j" using inv by (auto simp: group_inv_def)
  ultimately show ?thesis by (rule quorums_agree)
qed

text \<open>Three replicas: the first and the second start, the first asks for votes, the second grants its own.\<close>

definition trio :: "nat \<Rightarrow> FileStorage RaftConfig" where
  "trio i = sample_config i 3"

definition first_call :: VoteRequest where
  "first_call = \<lparr>vq_term = 1, vq_candidate = 0, vq_last_index = 0, vq_last_term = 0\<rparr>"

definition trio_asked :: "FileStorage Raft" where
  "trio_asked = tick (trio 0) 5000 (raft_init (trio 0) fresh_file empty_durable 0)"

definition trio_voter :: "FileStorage Raft" where
  "trio_voter = raft_init (trio 1) fresh_file empty_durable 0"

lemma trio_facts:
  "VoteCall 1 first_call \<in> set (rf_out trio_asked)"
  "fst (handle_vote (trio 1) first_call 5001 trio_voter) = \<lparr>vr_term = 1, vr_granted = True\<rparr>"
  "rf_role (handle_vote_reply (trio 0) 1 first_call \<lparr>vr_term = 1, vr_granted = True\<rparr> 5002 (snd (take_outgoing trio_asked))) = Leader"
  "rf_term (handle_vote_reply (trio 0) 1 first_call \<lparr>vr_term = 1, vr_granted = True\<rparr> 5002 (snd (take_outgoing trio_asked))) = 1"
  "\<not> rf_stopped (handle_vote_reply (trio 0) 1 first_call \<lparr>vr_term = 1, vr_granted = True\<rparr> 5002 (snd (take_outgoing trio_asked)))"
  by (simp_all add: trio_asked_def trio_voter_def trio_def first_call_def run_defs tick_def handle_vote_reply_def vote_call_def
      take_outgoing_def count_true_def) (simp add: numeral_3_eq_3)

abbreviation granted :: VoteReply where
  "granted \<equiv> \<lparr>vr_term = 1, vr_granted = True\<rparr>"

definition trio_started :: "FileStorage RaftGroup" where
  "trio_started = set_replica 1 trio_voter (set_replica 0 (raft_init (trio 0) fresh_file empty_durable 0) (group_start trio (\<lambda>_. fresh_file)))"

definition trio_sent :: "FileStorage RaftGroup" where
  "trio_sent = (set_replica 0 trio_asked trio_started)
     \<lparr>gr_replicas := (gr_replicas (set_replica 0 trio_asked trio_started))(0 := snd (take_outgoing trio_asked)),
      gr_calls := gr_calls (set_replica 0 trio_asked trio_started) \<union> Pair 0 ` set (rf_out trio_asked)\<rparr>"

definition trio_voted :: "FileStorage RaftGroup" where
  "trio_voted = (set_replica 1 (snd (handle_vote (trio 1) first_call 5001 trio_voter)) trio_sent)
     \<lparr>gr_replies := insert (1, first_call, granted) (gr_replies trio_sent)\<rparr>"

definition trio_led :: "FileStorage RaftGroup" where
  "trio_led = set_replica 0 (handle_vote_reply (trio 0) 1 first_call granted 5002 (snd (take_outgoing trio_asked))) trio_voted"

lemma set_replica_fields [simp]:
  "gr_replicas (set_replica i s g) = (gr_replicas g)(i := s)" "gr_calls (set_replica i s g) = gr_calls g"
  "gr_replies (set_replica i s g) = gr_replies g"
  by (simp_all add: set_replica_def Let_def)

lemma trio_states:
  "gr_replicas trio_started 0 = raft_init (trio 0) fresh_file empty_durable 0"
  "gr_replicas trio_sent 1 = trio_voter" "gr_replicas trio_voted 0 = snd (take_outgoing trio_asked)"
  "gr_calls trio_voted = Pair 0 ` set (rf_out trio_asked)" "gr_replies trio_voted = {(1, first_call, granted)}"
  by (simp_all add: trio_started_def trio_sent_def trio_voted_def group_start_def)

lemma trio_starts: "(group_step trio 3)\<^sup>*\<^sup>* (group_start trio (\<lambda>_. fresh_file)) trio_started"
proof -
  let ?g = "group_start trio (\<lambda>_. fresh_file)"
  let ?g1 = "set_replica 0 (raft_init (trio 0) fresh_file empty_durable 0) ?g"
  have "group_step trio 3 ?g ?g1" by (rule starts) (simp_all add: group_start_def)
  moreover have "group_step trio 3 ?g1 trio_started" unfolding trio_started_def trio_voter_def
    by (rule starts) (simp_all add: group_start_def set_replica_def Let_def)
  ultimately show ?thesis by simp
qed

lemma trio_runs: "(group_step trio 3)\<^sup>*\<^sup>* trio_started trio_led"
proof -
  have "group_step trio 3 trio_started (set_replica 0 (raft_step (trio 0) (Tick 5000) (gr_replicas trio_started 0)) trio_started)"
    by (rule other) simp_all
  then have 1: "group_step trio 3 trio_started (set_replica 0 trio_asked trio_started)" by (simp add: trio_states trio_asked_def)
  have 2: "group_step trio 3 (set_replica 0 trio_asked trio_started) trio_sent" unfolding trio_sent_def
    by (rule sends) (simp_all add: take_outgoing_def)
  have "handle_vote (trio 1) first_call 5001 (gr_replicas trio_sent 1) = (granted, snd (handle_vote (trio 1) first_call 5001 trio_voter))"
    using trio_facts(2) unfolding trio_states(2) by (simp add: prod_eq_iff)
  then have 3: "group_step trio 3 trio_sent trio_voted" unfolding trio_voted_def by (intro votes) simp_all
  have "group_step trio 3 trio_voted (set_replica 0 (handle_vote_reply (trio 0) 1 first_call granted 5002 (gr_replicas trio_voted 0)) trio_voted)"
    by (rule voted) (use trio_facts(1) in \<open>simp_all add: trio_states\<close>)
  then have "group_step trio 3 trio_voted trio_led" by (simp add: trio_led_def trio_states)
  with 1 2 3 show ?thesis by (meson converse_rtranclp_into_rtranclp rtranclp.rtrancl_refl)
qed

theorem one_leader_per_term_witness:
  "(group_step trio 3)\<^sup>*\<^sup>* (group_start trio (\<lambda>_. fresh_file)) trio_led \<and> (1, 0) \<in> gr_leaders trio_led \<and> (1, 2) \<notin> gr_leaders trio_led"
proof -
  have run: "(group_step trio 3)\<^sup>*\<^sup>* (group_start trio (\<lambda>_. fresh_file)) trio_led" using trio_starts trio_runs by (rule rtranclp_trans)
  moreover have led: "(1, 0) \<in> gr_leaders trio_led" using trio_facts(3-5) by (simp add: trio_led_def set_replica_def)
  moreover have "\<forall>i<3. cfg_id (trio i) = i \<and> cfg_size (trio i) = 3" by (simp add: trio_def sample_config_def)
  then have "(1, 2) \<notin> gr_leaders trio_led" using one_leader_per_term [OF _ run led, of 2] by auto
  ultimately show ?thesis by blast
qed

end
