(* ===== verification/Raft_History.thy ===== *)
theory Raft_History
  imports Raft_Group "HOL-Library.Sublist"
begin

text \<open>
  What has happened in a group of replicas, as the proof that their logs agree needs it: the votes, the
  candidates and the logs they stood with, the leaders and the log each leads with, and the
  acknowledgements of followers. From what every history satisfies (\<open>history_ok\<close>) it follows that the
  log of every later leader holds every committed entry.
\<close>

section \<open>Histories\<close>

text \<open>
  \<open>hy_early\<close> has the votes that were given before the term had a leader, with the voter's log.
  \<open>hy_acks\<close> has \<open>(p, t, m)\<close> when replica \<open>p\<close> has acknowledged the first \<open>m\<close> entries of the log of term \<open>t\<close>.
\<close>

record History =
  hy_votes :: "(nat \<times> Term \<times> nat) set"
  hy_early :: "(nat \<times> Term \<times> nat \<times> Entry list) set"
  hy_cands :: "(Term \<times> nat \<times> Entry list) set"
  hy_led :: "(Term \<times> nat) set"
  hy_logs :: "Term \<Rightarrow> Entry list"
  hy_acks :: "(nat \<times> Term \<times> nat) set"

definition led :: "History \<Rightarrow> Term \<Rightarrow> bool" where
  "led h t \<longleftrightarrow> (\<exists>i. (t, i) \<in> hy_led h)"

definition acked :: "History \<Rightarrow> nat \<Rightarrow> Term \<Rightarrow> nat \<Rightarrow> bool" where
  "acked h p t m \<longleftrightarrow> (\<exists>m'\<ge>m. (p, t, m') \<in> hy_acks h)"

text \<open>The first \<open>m\<close> entries of the log of term \<open>t\<close>.\<close>

abbreviation first_of :: "History \<Rightarrow> Term \<Rightarrow> nat \<Rightarrow> Entry list" where
  "first_of h t m \<equiv> take m (hy_logs h t)"

text \<open>Every entry of a log is in the log of the leader of its term, with all that comes before it.\<close>

definition consistent :: "History \<Rightarrow> Entry list \<Rightarrow> bool" where
  "consistent h l \<longleftrightarrow> (\<forall>k<length l. prefix (take (Suc k) l) (hy_logs h (e_term (l ! k))))"

definition last_term :: "Entry list \<Rightarrow> Term" where
  "last_term l = entry_term_at l (length l)"

definition up_to_date :: "Entry list \<Rightarrow> Entry list \<Rightarrow> bool" where
  "up_to_date cl vl \<longleftrightarrow> last_term vl < last_term cl \<or> last_term vl = last_term cl \<and> length vl \<le> length cl"

text \<open>
  A log of replica \<open>p\<close> has what \<open>p\<close> acknowledged before term \<open>T\<close>, unless the log of a leader in between
  does not have it.
\<close>

definition retains :: "History \<Rightarrow> nat \<Rightarrow> Term \<Rightarrow> Entry list \<Rightarrow> bool" where
  "retains h p T l \<longleftrightarrow>
     (\<forall>t m. acked h p t m \<longrightarrow> t < T \<longrightarrow>
        (\<forall>u. t < u \<longrightarrow> u < T \<longrightarrow> led h u \<longrightarrow> prefix (first_of h t m) (hy_logs h u)) \<longrightarrow> prefix (first_of h t m) l)"

definition votes_ok :: "History \<Rightarrow> bool" where
  "votes_ok h \<longleftrightarrow>
     (\<forall>p t i j. (p, t, i) \<in> hy_votes h \<longrightarrow> (p, t, j) \<in> hy_votes h \<longrightarrow> i = j) \<and>
     (\<forall>p t i l. (p, t, i, l) \<in> hy_early h \<longrightarrow> (p, t, i) \<in> hy_votes h) \<and>
     (\<forall>p t i. (p, t, i) \<in> hy_votes h \<longrightarrow> \<not> led h t \<longrightarrow> (\<exists>l. (p, t, i, l) \<in> hy_early h))"

definition early_ok :: "History \<Rightarrow> bool" where
  "early_ok h \<longleftrightarrow>
     (\<forall>p t i l. (p, t, i, l) \<in> hy_early h \<longrightarrow>
        sorted (map e_term l) \<and> retains h p t l \<and> (\<exists>cl. (t, i, cl) \<in> hy_cands h \<and> up_to_date cl l))"

definition cands_ok :: "History \<Rightarrow> bool" where
  "cands_ok h \<longleftrightarrow>
     (\<forall>t i cl. (t, i, cl) \<in> hy_cands h \<longrightarrow> consistent h cl \<and> sorted (map e_term cl) \<and> (\<forall>e\<in>set cl. e_term e < t)) \<and>
     (\<forall>t i cl cl'. (t, i, cl) \<in> hy_cands h \<longrightarrow> (t, i, cl') \<in> hy_cands h \<longrightarrow> cl = cl')"

definition led_ok :: "nat \<Rightarrow> History \<Rightarrow> bool" where
  "led_ok n h \<longleftrightarrow>
     (\<forall>t i. (t, i) \<in> hy_led h \<longrightarrow>
        2 * card {p. p < n \<and> (\<exists>l. (p, t, i, l) \<in> hy_early h)} > n \<and> (\<exists>cl. (t, i, cl) \<in> hy_cands h \<and> prefix cl (hy_logs h t))) \<and>
     (\<forall>t. log_sorted (hy_logs h t) t \<and> consistent h (hy_logs h t) \<and> (hy_logs h t \<noteq> [] \<longrightarrow> led h t)) \<and>
     (\<forall>p t m. (p, t, m) \<in> hy_acks h \<longrightarrow> m \<le> length (hy_logs h t))"

definition history_ok :: "nat \<Rightarrow> History \<Rightarrow> bool" where
  "history_ok n h \<longleftrightarrow> votes_ok h \<and> early_ok h \<and> cands_ok h \<and> led_ok n h"

lemma acked_length: "history_ok n h \<Longrightarrow> acked h p t m \<Longrightarrow> m \<le> length (hy_logs h t)"
  by (fastforce simp: acked_def history_ok_def led_ok_def)

lemma acked_less: "acked h p t m \<Longrightarrow> k \<le> m \<Longrightarrow> acked h p t k"
  unfolding acked_def by (meson le_trans)

lemma logs_sorted: "history_ok n h \<Longrightarrow> log_sorted (hy_logs h t) t"
  by (simp add: history_ok_def led_ok_def)

lemma logs_consistent: "history_ok n h \<Longrightarrow> consistent h (hy_logs h t)"
  by (simp add: history_ok_def led_ok_def)

lemma first_of_terms: "history_ok n h \<Longrightarrow> e \<in> set (first_of h t m) \<Longrightarrow> e_term e \<le> t"
  using logs_sorted [of n h t] by (auto simp: log_sorted_def dest: in_set_takeD)

lemma led_majority: "history_ok n h \<Longrightarrow> (t, i) \<in> hy_led h \<Longrightarrow> 2 * card {p. p < n \<and> (\<exists>l. (p, t, i, l) \<in> hy_early h)} > n"
  by (simp add: history_ok_def led_ok_def)

lemma led_candidate: "history_ok n h \<Longrightarrow> (t, i) \<in> hy_led h \<Longrightarrow> \<exists>cl. (t, i, cl) \<in> hy_cands h \<and> prefix cl (hy_logs h t)"
  unfolding history_ok_def led_ok_def by blast

section \<open>Committed entries\<close>

text \<open>The first \<open>m\<close> entries of the log of term \<open>t\<close> are committed: the last is of that term, and a majority has them.\<close>

definition committed :: "nat \<Rightarrow> History \<Rightarrow> Term \<Rightarrow> nat \<Rightarrow> bool" where
  "committed n h t m \<longleftrightarrow>
     1 \<le> m \<and> m \<le> length (hy_logs h t) \<and> e_term (hy_logs h t ! (m - 1)) = t \<and> 2 * card {p. p < n \<and> acked h p t m} > n"

definition agreed :: "nat \<Rightarrow> History \<Rightarrow> Entry list \<Rightarrow> bool" where
  "agreed n h l \<longleftrightarrow> l = [] \<or> (\<exists>t m. committed n h t m \<and> length l \<le> m \<and> prefix l (hy_logs h t))"

lemma majorities_meet:
  assumes "2 * card {p. p < n \<and> A p} > n" "2 * card {p. p < n \<and> B p} > (n :: nat)"
  obtains p where "p < n" "A p" "B p"
proof -
  let ?A = "{p. p < n \<and> A p}" and ?B = "{p. p < n \<and> B p}"
  have "?A \<inter> ?B \<noteq> {}"
  proof
    assume "?A \<inter> ?B = {}"
    then have "card ?A + card ?B = card (?A \<union> ?B)" by (simp add: card_Un_disjoint)
    also have "\<dots> \<le> card {..<n}" by (intro card_mono) auto
    finally show False using assms by simp
  qed
  then show thesis using that by blast
qed

lemma last_term_ge:
  assumes "sorted (map e_term l)" "prefix q l" "q \<noteq> []"
  shows "e_term (last q) \<le> last_term l"
proof -
  have len: "length q \<le> length l" "0 < length q" using assms(2,3) by (auto dest: prefix_length_le)
  have "last q = l ! (length q - 1)" using assms(2,3) by (metis last_conv_nth len(2) prefix_def nth_append diff_less zero_less_one)
  moreover have "length q - 1 \<le> length l - 1" "length l - 1 < length l" using len by linarith+
  then have "e_term (l ! (length q - 1)) \<le> e_term (l ! (length l - 1))"
    using sorted_nth_mono [OF assms(1), of "length q - 1" "length l - 1"] by simp
  moreover have "last_term l = e_term (l ! (length l - 1))" using len by (auto simp: last_term_def entry_term_at_def)
  ultimately show ?thesis by simp
qed

lemma consistent_last:
  assumes "consistent h l" "l \<noteq> []"
  shows "prefix l (hy_logs h (last_term l))"
proof -
  have "length l - 1 < length l" "take (Suc (length l - 1)) l = l" using assms(2) by simp_all
  then have "prefix l (hy_logs h (e_term (l ! (length l - 1))))" using assms(1) unfolding consistent_def by metis
  moreover have "last_term l = e_term (l ! (length l - 1))" using assms(2) by (simp add: last_term_def entry_term_at_def)
  ultimately show ?thesis by (simp only:)
qed

text \<open>Leader completeness.\<close>

lemma leader_has_committed:
  assumes h: "history_ok n h" and com: "committed n h t m"
  shows "led h t' \<Longrightarrow> t < t' \<Longrightarrow> prefix (first_of h t m) (hy_logs h t')"
proof (induction t' rule: less_induct)
  case (less t')
  let ?q = "first_of h t m"
  have q: "?q \<noteq> []" "length ?q = m" using com by (auto simp: committed_def)
  then have "last ?q = hy_logs h t ! (m - 1)" using com by (simp add: last_conv_nth committed_def)
  then have qt: "e_term (last ?q) = t" using com by (simp add: committed_def)
  obtain i where "(t', i) \<in> hy_led h" using less.prems(1) by (auto simp: led_def)
  then obtain cl where i: "2 * card {p. p < n \<and> (\<exists>l. (p, t', i, l) \<in> hy_early h)} > n" and cl: "(t', i, cl) \<in> hy_cands h" "prefix cl (hy_logs h t')"
    using h by (fastforce simp: history_ok_def led_ok_def)
  obtain p where p: "acked h p t m" "\<exists>l. (p, t', i, l) \<in> hy_early h"
    using majorities_meet [OF _ i, of "\<lambda>p. acked h p t m"] com unfolding committed_def by blast
  then obtain l where l: "(p, t', i, l) \<in> hy_early h" by blast
  then obtain cl' where v: "sorted (map e_term l)" "retains h p t' l" "(t', i, cl') \<in> hy_cands h" "up_to_date cl' l"
    using h by (fastforce simp: history_ok_def early_ok_def)
  have "cl' = cl" using h cl(1) v(3) unfolding history_ok_def cands_ok_def by blast
  then have up: "up_to_date cl l" using v(4) by simp
  have "prefix ?q (hy_logs h u)" if "t < u" "u < t'" "led h u" for u using less.IH that by blast
  then have ql: "prefix ?q l" using v(2) p(1) less.prems(2) by (auto simp: retains_def)
  then have lt: "t \<le> last_term l" using last_term_ge [OF v(1) ql q(1)] qt by simp
  have c: "consistent h cl" "sorted (map e_term cl)" "\<forall>e\<in>set cl. e_term e < t'" using h cl(1) by (auto simp: history_ok_def cands_ok_def)
  have "prefix ?q cl"
  proof (cases "cl = []")
    case True
    then have "last_term l = 0" "length l = 0 \<or> 0 < last_term cl" using up by (auto simp: up_to_date_def last_term_def entry_term_at_def)
    then show ?thesis using ql True by (auto simp: last_term_def entry_term_at_def)
  next
    case False
    let ?w = "last_term cl"
    have w: "prefix cl (hy_logs h ?w)" "t \<le> ?w" using consistent_last [OF c(1) False] up lt by (auto simp: up_to_date_def)
    have "last_term cl = e_term (last cl)" using False by (simp add: last_term_def entry_term_at_def last_conv_nth)
    then have "?w < t'" using c(3) False by simp
    have wlogs: "prefix ?q (hy_logs h ?w)"
    proof (cases "?w = t")
      case True
      then show ?thesis by (simp add: take_is_prefix)
    next
      case False
      moreover have "hy_logs h ?w \<noteq> []" using w(1) \<open>cl \<noteq> []\<close> by auto
      then have "led h ?w" using h by (auto simp: history_ok_def led_ok_def)
      ultimately show ?thesis using less.IH [of ?w] w(2) \<open>?w < t'\<close> by simp
    qed
    show ?thesis
    proof (cases "m \<le> length cl")
      case True
      then show ?thesis using prefix_length_prefix [OF wlogs w(1)] q(2) by simp
    next
      case short: False
      have "?w = t"
      proof (rule ccontr)
        assume "?w \<noteq> t"
        have "prefix cl ?q" using prefix_length_prefix [OF w(1) wlogs] short q(2) by simp
        then have "last cl \<in> set ?q" using False by (metis last_in_set set_mono_prefix subsetD)
        then show False using first_of_terms [OF h] w(2) \<open>?w \<noteq> t\<close> \<open>last_term cl = e_term (last cl)\<close> by fastforce
      qed
      then have "length l \<le> length cl" using up lt by (auto simp: up_to_date_def)
      then show ?thesis using short ql q(2) prefix_length_le by fastforce
    qed
  qed
  then show ?case using cl(2) prefix_order.trans by blast
qed

text \<open>Agreed logs differ in length only.\<close>

lemma committed_ordered:
  assumes "history_ok n h" "committed n h t m" "committed n h t' m'" "t \<le> t'"
  shows "prefix (first_of h t m) (hy_logs h t')"
proof (cases "t = t'")
  case True
  then show ?thesis by (simp add: take_is_prefix)
next
  case False
  have "hy_logs h t' \<noteq> []" using assms(3) by (auto simp: committed_def)
  then have "led h t'" using assms(1) by (auto simp: history_ok_def led_ok_def)
  then show ?thesis using leader_has_committed [OF assms(1,2)] False assms(4) by simp
qed

lemma agreed_nth:
  assumes "history_ok n h" "agreed n h l" "agreed n h l'" "k < length l" "k < length l'"
  shows "l ! k = l' ! k"
proof -
  have main: "a ! k = b ! k"
    if "committed n h t m" "length a \<le> m" "prefix a (hy_logs h t)" "committed n h t' m'" "prefix b (hy_logs h t')" "t \<le> t'"
      "k < length a" "k < length b" for a b t m t' m'
  proof -
    have "prefix a (first_of h t m)" using that(2,3) by (metis prefix_length_prefix take_is_prefix length_take min.absorb2 prefix_length_le min.cobounded2 min_def)
    then have "prefix a (hy_logs h t')" using committed_ordered [OF assms(1) that(1,4,6)] prefix_order.trans by blast
    then show ?thesis using that(5,7,8) by (metis prefix_def nth_append)
  qed
  obtain t m where 1: "committed n h t m" "length l \<le> m" "prefix l (hy_logs h t)" using assms(2,4) by (auto simp: agreed_def)
  obtain t' m' where 2: "committed n h t' m'" "length l' \<le> m'" "prefix l' (hy_logs h t')" using assms(3,5) by (auto simp: agreed_def)
  show ?thesis
  proof (cases "t \<le> t'")
    case True
    then show ?thesis using main [OF 1 2(1,3)] assms(4,5) by simp
  next
    case False
    then show ?thesis using main [OF 2 1(1,3)] assms(4,5) by simp
  qed
qed

lemma one_leader:
  assumes "history_ok n h" "(t, i) \<in> hy_led h" "(t, j) \<in> hy_led h"
  shows "i = j"
proof -
  have q: "2 * card {p. p < n \<and> (\<exists>l. (p, t, k, l) \<in> hy_early h)} > n" if "(t, k) \<in> hy_led h" for k
    using assms(1) that by (simp add: history_ok_def led_ok_def)
  obtain p where "\<exists>l. (p, t, i, l) \<in> hy_early h" "\<exists>l. (p, t, j, l) \<in> hy_early h"
    using majorities_meet [OF q [OF assms(2)] q [OF assms(3)]] by blast
  then show ?thesis using assms(1) unfolding history_ok_def votes_ok_def by blast
qed

section \<open>Histories that grow\<close>

text \<open>What one step of replica \<open>i\<close> may add.\<close>

definition grows :: "nat \<Rightarrow> History \<Rightarrow> History \<Rightarrow> bool" where
  "grows i h h' \<longleftrightarrow>
     hy_votes h \<subseteq> hy_votes h' \<and> hy_early h \<subseteq> hy_early h' \<and> hy_cands h \<subseteq> hy_cands h' \<and> hy_led h \<subseteq> hy_led h' \<and> hy_acks h \<subseteq> hy_acks h' \<and>
     (\<forall>t. \<exists>es. hy_logs h' t = hy_logs h t @ es \<and> (led h t \<longrightarrow> (\<forall>e\<in>set es. e_term e = t))) \<and>
     (\<forall>p t v. (p, t, v) \<in> hy_votes h' \<longrightarrow> p \<noteq> i \<longrightarrow> (p, t, v) \<in> hy_votes h) \<and>
     (\<forall>t j cl. (t, j, cl) \<in> hy_cands h' \<longrightarrow> j \<noteq> i \<longrightarrow> (t, j, cl) \<in> hy_cands h) \<and>
     (\<forall>t j. (t, j) \<in> hy_led h' \<longrightarrow> j \<noteq> i \<longrightarrow> (t, j) \<in> hy_led h) \<and>
     (\<forall>p t m. (p, t, m) \<in> hy_acks h' \<longrightarrow> p \<noteq> i \<longrightarrow> (p, t, m) \<in> hy_acks h) \<and>
     (\<forall>t. hy_logs h' t \<noteq> hy_logs h t \<longrightarrow> (t, i) \<in> hy_led h')"

lemma grows_refl [simp]: "grows i h h"
  by (simp add: grows_def)

lemma grows_log: "grows i h h' \<Longrightarrow> \<exists>es. hy_logs h' t = hy_logs h t @ es \<and> (led h t \<longrightarrow> (\<forall>e\<in>set es. e_term e = t))"
  by (simp add: grows_def)

lemma grows_sets:
  assumes "grows i h h'"
  shows "hy_votes h \<subseteq> hy_votes h'" "hy_early h \<subseteq> hy_early h'" "hy_cands h \<subseteq> hy_cands h'" "hy_led h \<subseteq> hy_led h'" "hy_acks h \<subseteq> hy_acks h'"
  using assms by (simp_all add: grows_def)

lemma grows_others:
  assumes "grows i h h'"
  shows "(p, t, v) \<in> hy_votes h' \<Longrightarrow> p \<noteq> i \<Longrightarrow> (p, t, v) \<in> hy_votes h"
    and "(t, p, cl) \<in> hy_cands h' \<Longrightarrow> p \<noteq> i \<Longrightarrow> (t, p, cl) \<in> hy_cands h"
    and "(t, p) \<in> hy_led h' \<Longrightarrow> p \<noteq> i \<Longrightarrow> (t, p) \<in> hy_led h"
    and "(p, t, m) \<in> hy_acks h' \<Longrightarrow> p \<noteq> i \<Longrightarrow> (p, t, m) \<in> hy_acks h"
    and "hy_logs h' t \<noteq> hy_logs h t \<Longrightarrow> (t, i) \<in> hy_led h'"
  using assms by (simp_all add: grows_def)

lemma grows_led: "grows i h h' \<Longrightarrow> led h t \<Longrightarrow> led h' t"
  by (auto simp: grows_def led_def)

lemma grows_trans:
  assumes "grows i h h'" "grows i h' h''"
  shows "grows i h h''"
proof -
  have logs: "\<exists>es. hy_logs h'' t = hy_logs h t @ es \<and> (led h t \<longrightarrow> (\<forall>e\<in>set es. e_term e = t))" for t
  proof -
    obtain es1 es2 where "hy_logs h' t = hy_logs h t @ es1" "led h t \<longrightarrow> (\<forall>e\<in>set es1. e_term e = t)"
      "hy_logs h'' t = hy_logs h' t @ es2" "led h' t \<longrightarrow> (\<forall>e\<in>set es2. e_term e = t)"
      using grows_log [OF assms(1), of t] grows_log [OF assms(2), of t] by blast
    then show ?thesis using grows_led [OF assms(1), of t] by (intro exI [of _ "es1 @ es2"]) auto
  qed
  note sub = grows_sets [OF assms(1)] grows_sets [OF assms(2)] and new = grows_others [OF assms(1)] grows_others [OF assms(2)]
  have "(t, i) \<in> hy_led h''" if "hy_logs h'' t \<noteq> hy_logs h t" for t
    using new(5,10) [of t] sub(9) that by (cases "hy_logs h'' t = hy_logs h' t") auto
  moreover have "hy_votes h \<subseteq> hy_votes h''" "hy_early h \<subseteq> hy_early h''" "hy_cands h \<subseteq> hy_cands h''" "hy_led h \<subseteq> hy_led h''" "hy_acks h \<subseteq> hy_acks h''"
    using sub by blast+
  ultimately show ?thesis unfolding grows_def using logs new by simp
qed

lemma consistent_grows:
  assumes "grows i h h'" "consistent h l"
  shows "consistent h' l"
  unfolding consistent_def
proof (intro allI impI)
  fix k assume "k < length l"
  then have "prefix (take (Suc k) l) (hy_logs h (e_term (l ! k)))" using assms(2) by (simp add: consistent_def)
  moreover obtain es where "hy_logs h' (e_term (l ! k)) = hy_logs h (e_term (l ! k)) @ es" using grows_log [OF assms(1)] by blast
  ultimately show "prefix (take (Suc k) l) (hy_logs h' (e_term (l ! k)))" by (simp add: prefix_append)
qed

lemma acked_grows: "grows i h h' \<Longrightarrow> acked h p t m \<Longrightarrow> acked h' p t m"
  by (auto simp: acked_def grows_def)

lemma acked_others: "grows i h h' \<Longrightarrow> p \<noteq> i \<Longrightarrow> acked h' p t m = acked h p t m"
  unfolding acked_def grows_def by blast

lemma first_of_grows: "grows i h h' \<Longrightarrow> m \<le> length (hy_logs h t) \<Longrightarrow> first_of h' t m = first_of h t m"
  using grows_log [of i h h' t] by auto

lemma committed_grows:
  assumes "grows i h h'" "committed n h t m"
  shows "committed n h' t m"
proof -
  obtain es where es: "hy_logs h' t = hy_logs h t @ es" using grows_log [OF assms(1)] by blast
  have "card {p. p < n \<and> acked h p t m} \<le> card {p. p < n \<and> acked h' p t m}" using acked_grows [OF assms(1)] by (intro card_mono) auto
  moreover have "m - 1 < length (hy_logs h t)" using assms(2) by (auto simp: committed_def)
  ultimately show ?thesis using assms(2) es by (auto simp: committed_def nth_append)
qed

lemma agreed_grows:
  assumes "grows i h h'" "agreed n h l"
  shows "agreed n h' l"
proof (cases "l = []")
  case False
  then obtain t m where "committed n h t m" "length l \<le> m" "prefix l (hy_logs h t)" using assms(2) by (auto simp: agreed_def)
  moreover obtain es where "hy_logs h' t = hy_logs h t @ es" using grows_log [OF assms(1)] by blast
  ultimately have "committed n h' t m" "prefix l (hy_logs h' t)" using committed_grows [OF assms(1)] by (simp_all add: prefix_append)
  then show ?thesis using \<open>length l \<le> m\<close> by (auto simp: agreed_def)
qed (simp add: agreed_def)

text \<open>Entries a leader adds in a later term are not among those of an earlier one.\<close>

lemma prefix_before_terms:
  assumes "prefix q (l @ es)" "\<forall>e\<in>set q. e_term e < u" "\<forall>e\<in>set es. e_term e = u"
  shows "prefix q l"
proof (cases "length q \<le> length l")
  case True
  then show ?thesis using assms(1) prefix_length_prefix [of q "l @ es" l] by simp
next
  case False
  then have "prefix l q" using assms(1) prefix_length_prefix [of l "l @ es" q] by simp
  then obtain r where r: "q = l @ r" by (auto simp: prefix_def)
  then have "r \<noteq> []" "prefix r es" using False assms(1) by auto
  then have "hd r \<in> set q" "hd r \<in> set es" using r set_mono_prefix [of r es] by auto
  then show ?thesis using assms(2,3) by auto
qed

lemma retains_longer: "retains h p T l \<Longrightarrow> prefix l l' \<Longrightarrow> retains h p T l'"
  unfolding retains_def by (meson prefix_order.trans)

lemma retains_grows:
  assumes "history_ok n h" "grows i h h'" "retains h p T l"
    and "\<And>t m. acked h' p t m \<Longrightarrow> t < T \<Longrightarrow> acked h p t m \<or> prefix (first_of h' t m) l"
  shows "retains h' p T l"
  unfolding retains_def
proof (intro allI impI)
  fix t m
  assume a: "acked h' p t m" "t < T" and later: "\<forall>u. t < u \<longrightarrow> u < T \<longrightarrow> led h' u \<longrightarrow> prefix (first_of h' t m) (hy_logs h' u)"
  show "prefix (first_of h' t m) l"
  proof (cases "acked h p t m")
    case False
    then show ?thesis using assms(4) [OF a] by simp
  next
    case ack: True
    have q: "first_of h' t m = first_of h t m" by (rule first_of_grows [OF assms(2) acked_length [OF assms(1) ack]])
    have "prefix (first_of h t m) (hy_logs h u)" if u: "t < u" "u < T" "led h u" for u
    proof -
      obtain es where es: "hy_logs h' u = hy_logs h u @ es" "\<forall>e\<in>set es. e_term e = u" using grows_log [OF assms(2), of u] u(3) by blast
      have "prefix (first_of h t m) (hy_logs h u @ es)" using later [rule_format, OF u(1,2) grows_led [OF assms(2) u(3)]] q es(1) by simp
      moreover have "\<forall>e\<in>set (first_of h t m). e_term e < u" using first_of_terms [OF assms(1)] u(1) by (meson le_less_trans)
      ultimately show ?thesis using es(2) by (rule prefix_before_terms)
    qed
    then show ?thesis unfolding q by (rule assms(3) [unfolded retains_def, rule_format, OF ack a(2)])
  qed
qed

text \<open>Votes and candidates do not bear on what is retained or committed.\<close>

lemma history_updates [simp]:
  "led (hy_votes_update f h) = led h" "led (hy_early_update g h) = led h" "led (hy_cands_update k h) = led h" "led (hy_acks_update a h) = led h"
  "acked (hy_votes_update f h) = acked h" "acked (hy_early_update g h) = acked h" "acked (hy_cands_update k h) = acked h"
  "consistent (hy_votes_update f h) = consistent h" "consistent (hy_early_update g h) = consistent h" "consistent (hy_cands_update k h) = consistent h"
  "consistent (hy_acks_update a h) = consistent h"
  "retains (hy_votes_update f h) = retains h" "retains (hy_early_update g h) = retains h" "retains (hy_cands_update k h) = retains h"
  by (auto simp: led_def acked_def consistent_def retains_def fun_eq_iff)

end
