(* ===== verification/Raft_Views.thy ===== *)
theory Raft_Views
  imports Raft_History
begin

text \<open>
  When the state of one replica, what its disk holds and what it has sent fit a history of its group,
  and that the others still fit when one of them has moved on.
\<close>

section \<open>Fitting states\<close>

text \<open>The log of a replica in a term.\<close>

definition log_fits :: "nat \<Rightarrow> History \<Rightarrow> Term \<Rightarrow> Entry list \<Rightarrow> bool" where
  "log_fits i h t l \<longleftrightarrow>
     log_sorted l t \<and> consistent h l \<and> retains h i (Suc t) l \<and>
     (\<forall>u m. acked h i u m \<longrightarrow> u \<le> t) \<and> (\<forall>u. (u, i) \<in> hy_led h \<longrightarrow> u \<le> t) \<and> (\<forall>u cl. (u, i, cl) \<in> hy_cands h \<longrightarrow> u \<le> t)"

definition disk_fits :: "nat \<Rightarrow> History \<Rightarrow> Durable \<Rightarrow> bool" where
  "disk_fits i h d \<longleftrightarrow>
     (\<forall>t v. (i, t, v) \<in> hy_votes h \<longrightarrow> vote_kept d t v) \<and>
     (\<forall>v. d_voted_for d = Some v \<longrightarrow> (i, d_term d, v) \<in> hy_votes h) \<and>
     log_fits i h (d_term d) (d_log d)"

definition leader_fits :: "'s RaftConfig \<Rightarrow> History \<Rightarrow> 's Raft \<Rightarrow> bool" where
  "leader_fits c h s \<longleftrightarrow>
     (rf_term s, cfg_id c) \<in> hy_led h \<and> rf_log s = hy_logs h (rf_term s) \<and> acked h (cfg_id c) (rf_term s) (length (rf_log s)) \<and>
     (\<forall>p<cfg_size c. rf_next s ! p \<le> Suc (length (rf_log s)) \<and> (0 < rf_match s ! p \<longrightarrow> acked h p (rf_term s) (rf_match s ! p)))"

definition role_fits :: "'s RaftConfig \<Rightarrow> History \<Rightarrow> 's Raft \<Rightarrow> bool" where
  "role_fits c h s \<longleftrightarrow>
     (rf_role s = Candidate \<longrightarrow> (rf_term s, cfg_id c, rf_log s) \<in> hy_cands h \<and> (rf_term s, cfg_id c) \<notin> hy_led h) \<and>
     (rf_role s = Leader \<longrightarrow> leader_fits c h s)"

definition entry_agreed :: "nat \<Rightarrow> History \<Rightarrow> nat \<Rightarrow> Entry \<Rightarrow> bool" where
  "entry_agreed n h k e \<longleftrightarrow> (\<exists>l. agreed n h l \<and> 1 \<le> k \<and> k \<le> length l \<and> l ! (k - 1) = e)"

definition commit_fits :: "nat \<Rightarrow> History \<Rightarrow> 's Raft \<Rightarrow> bool" where
  "commit_fits n h s \<longleftrightarrow>
     agreed n h (take (rf_commit s) (rf_log s)) \<and> (\<forall>(k, e)\<in>set (rf_applies s). entry_agreed n h k e)"

text \<open>What is sent.\<close>

fun call_fits :: "nat \<Rightarrow> History \<Rightarrow> nat \<Rightarrow> Outgoing \<Rightarrow> bool" where
  "call_fits n h i (VoteCall p r) \<longleftrightarrow>
     p < n \<and> vq_candidate r = i \<and> (\<exists>cl. (vq_term r, i, cl) \<in> hy_cands h \<and> vq_last_index r = length cl \<and> vq_last_term r = last_term cl)"
| "call_fits n h i (AppendCall p r) \<longleftrightarrow>
     p < n \<and> (aq_term r, i) \<in> hy_led h \<and>
     (let l = hy_logs h (aq_term r) in
      aq_prev_index r + length (aq_entries r) \<le> length l \<and> aq_prev_term r = entry_term_at l (aq_prev_index r) \<and>
      prefix (aq_entries r) (drop (aq_prev_index r) l) \<and> aq_commit r \<le> length l \<and> agreed n h (take (aq_commit r) l))"

definition calls_fit :: "'s RaftConfig \<Rightarrow> History \<Rightarrow> 's Raft \<Rightarrow> bool" where
  "calls_fit c h s \<longleftrightarrow> (\<forall>x\<in>set (rf_out s). call_fits (cfg_size c) h (cfg_id c) x)"

definition replica_fits :: "'s RaftConfig \<Rightarrow> History \<Rightarrow> 's Raft \<Rightarrow> bool" where
  "replica_fits c h s \<longleftrightarrow>
     raft_ok c s \<and> campaign c (hy_votes h) s \<and> disk_fits (cfg_id c) h (durable_of s) \<and> role_fits c h s \<and> commit_fits (cfg_size c) h s"

text \<open>A history, and a replica that fits it.\<close>

definition fits :: "'s RaftConfig \<Rightarrow> History \<Rightarrow> 's Raft \<Rightarrow> bool" where
  "fits c h s \<longleftrightarrow> history_ok (cfg_size c) h \<and> replica_fits c h s \<and> calls_fit c h s"

text \<open>A change of a replica is recorded by a longer history.\<close>

definition recorded :: "'s RaftConfig \<Rightarrow> History \<Rightarrow> 's Raft \<Rightarrow> bool" where
  "recorded c h s \<longleftrightarrow> (\<exists>h'. grows (cfg_id c) h h' \<and> fits c h' s)"

lemma recordedI: "grows (cfg_id c) h h' \<Longrightarrow> fits c h' s \<Longrightarrow> recorded c h s"
  by (auto simp: recorded_def)

lemma recorded_same: "fits c h s \<Longrightarrow> recorded c h s"
  by (rule recordedI) simp_all

lemma recorded_then:
  assumes "recorded c h s" "\<And>h'. grows (cfg_id c) h h' \<Longrightarrow> fits c h' s \<Longrightarrow> recorded c h' s'"
  shows "recorded c h s'"
proof -
  obtain h' where h': "grows (cfg_id c) h h'" "fits c h' s" using assms(1) by (auto simp: recorded_def)
  then obtain h'' where "grows (cfg_id c) h' h''" "fits c h'' s'" using assms(2) by (auto simp: recorded_def)
  then show ?thesis using grows_trans [OF h'(1)] by (auto simp: recorded_def)
qed

lemma fits_parts:
  assumes "fits c h s"
  shows "history_ok (cfg_size c) h" "raft_ok c s" "campaign c (hy_votes h) s" "disk_fits (cfg_id c) h (durable_of s)"
    "role_fits c h s" "commit_fits (cfg_size c) h s" "calls_fit c h s"
  using assms by (simp_all add: fits_def replica_fits_def)

lemma fitsI:
  assumes "history_ok (cfg_size c) h" "raft_ok c s" "campaign c (hy_votes h) s" "disk_fits (cfg_id c) h (durable_of s)"
    "role_fits c h s" "commit_fits (cfg_size c) h s" "calls_fit c h s"
  shows "fits c h s"
  using assms by (simp add: fits_def replica_fits_def)

lemma fits_id: "fits c h s \<Longrightarrow> cfg_id c < cfg_size c"
  by (simp add: fits_def replica_fits_def raft_inv_def vectors_ok_def)

lemma fits_log: "fits c h s \<Longrightarrow> log_fits (cfg_id c) h (rf_term s) (rf_log s)"
  by (simp add: fits_def replica_fits_def disk_fits_def durable_of_def)

lemma fits_vote: "fits c h s \<Longrightarrow> (cfg_id c, t, v) \<in> hy_votes h \<Longrightarrow> t \<le> rf_term s \<and> (t = rf_term s \<longrightarrow> rf_voted_for s = Some v)"
proof -
  assume "fits c h s" "(cfg_id c, t, v) \<in> hy_votes h"
  then have "vote_kept (durable_of s) t v" by (simp add: fits_def replica_fits_def disk_fits_def)
  then show ?thesis by (auto simp: vote_kept_def durable_of_def)
qed

lemma fits_same:
  assumes "fits c h s" "raft_ok c s'" "calls_fit c h s'"
    and "rf_term s' = rf_term s" "rf_voted_for s' = rf_voted_for s" "rf_role s' = rf_role s" "rf_log s' = rf_log s"
      "rf_votes s' = rf_votes s" "rf_next s' = rf_next s" "rf_match s' = rf_match s" "rf_commit s' = rf_commit s"
      "rf_applies s' = rf_applies s"
  shows "fits c h s'"
proof -
  have "durable_of s' = durable_of s" "campaign c (hy_votes h) s' = campaign c (hy_votes h) s"
    "role_fits c h s' = role_fits c h s" "commit_fits (cfg_size c) h s' = commit_fits (cfg_size c) h s"
    by (simp_all only: campaign_def role_fits_def leader_fits_def commit_fits_def durable_of_def assms(4-))
  then show ?thesis using fits_parts [OF assms(1)] assms(2,3) by (intro fitsI) simp_all
qed

lemma calls_fit_subset: "calls_fit c h s \<Longrightarrow> set (rf_out s') \<subseteq> set (rf_out s) \<Longrightarrow> calls_fit c h s'"
  by (auto simp: calls_fit_def)

lemmas fits_cong = fits_same [OF _ _ calls_fit_subset [OF fits_parts(7)]]

section \<open>Other replicas\<close>

text \<open>A step of replica \<open>i\<close> leaves the others fitting.\<close>

lemma entry_agreed_grows: "grows i h h' \<Longrightarrow> entry_agreed n h k e \<Longrightarrow> entry_agreed n h' k e"
  using agreed_grows by (fastforce simp: entry_agreed_def)

lemma commit_fits_grows: "grows i h h' \<Longrightarrow> commit_fits n h s \<Longrightarrow> commit_fits n h' s"
  using agreed_grows entry_agreed_grows by (fastforce simp: commit_fits_def)

lemma log_fits_grows:
  assumes "history_ok n h" "grows i h h'" "log_fits p h t l" "p \<noteq> i"
  shows "log_fits p h' t l"
proof -
  have a: "acked h' p u m = acked h p u m" for u m by (rule acked_others [OF assms(2,4)])
  have "retains h' p (Suc t) l" by (rule retains_grows [OF assms(1,2)]) (use assms(3) a in \<open>auto simp: log_fits_def\<close>)
  moreover have "consistent h' l" using assms(3) by (intro consistent_grows [OF assms(2)]) (simp add: log_fits_def)
  moreover have "u \<le> t" if "(u, p) \<in> hy_led h'" for u using grows_others(3) [OF assms(2) that assms(4)] assms(3) by (simp add: log_fits_def)
  moreover have "u \<le> t" if "(u, p, cl) \<in> hy_cands h'" for u cl
    using grows_others(2) [OF assms(2) that assms(4)] assms(3) by (auto simp: log_fits_def)
  ultimately show ?thesis using assms(3) a by (simp add: log_fits_def)
qed

lemma disk_fits_grows:
  assumes "history_ok n h" "grows i h h'" "disk_fits p h d" "p \<noteq> i"
  shows "disk_fits p h' d"
proof -
  have "vote_kept d t v" if "(p, t, v) \<in> hy_votes h'" for t v
    using grows_others(1) [OF assms(2) that assms(4)] assms(3) by (simp add: disk_fits_def)
  moreover have "(p, d_term d, v) \<in> hy_votes h'" if "d_voted_for d = Some v" for v
    using assms(3) that grows_sets(1) [OF assms(2)] by (auto simp: disk_fits_def)
  ultimately show ?thesis using log_fits_grows [OF assms(1,2) _ assms(4)] assms(3) by (simp add: disk_fits_def)
qed

lemma role_fits_grows:
  assumes "history_ok n h'" "grows i h h'" "role_fits c h s" "cfg_id c \<noteq> i"
  shows "role_fits c h' s"
proof -
  have cand: "(rf_term s, cfg_id c, rf_log s) \<in> hy_cands h'" "(rf_term s, cfg_id c) \<notin> hy_led h'" if "rf_role s = Candidate"
    using assms(3) that grows_sets(3) [OF assms(2)] grows_others(3) [OF assms(2) _ assms(4)] by (auto simp: role_fits_def)
  have "leader_fits c h' s" if "rf_role s = Leader"
  proof -
    have old: "leader_fits c h s" using assms(3) that by (simp add: role_fits_def)
    then have led: "(rf_term s, cfg_id c) \<in> hy_led h'" using grows_sets(4) [OF assms(2)] by (auto simp: leader_fits_def)
    have "hy_logs h' (rf_term s) = hy_logs h (rf_term s)"
      using grows_others(5) [OF assms(2), of "rf_term s"] one_leader [OF assms(1) led] assms(4) by blast
    then show ?thesis using old led acked_grows [OF assms(2)] by (auto simp: leader_fits_def)
  qed
  then show ?thesis using cand by (simp add: role_fits_def)
qed

lemma call_fits_grows:
  assumes "grows i h h'" "call_fits n h j x"
  shows "call_fits n h' j x"
proof (cases x)
  case (VoteCall p r)
  then show ?thesis using assms(2) grows_sets(3) [OF assms(1)] by auto
next
  case (AppendCall p r)
  obtain es where es: "hy_logs h' (aq_term r) = hy_logs h (aq_term r) @ es" using grows_log [OF assms(1)] by blast
  let ?l = "hy_logs h (aq_term r)"
  have r: "p < n" "(aq_term r, j) \<in> hy_led h" "aq_prev_index r + length (aq_entries r) \<le> length ?l" "aq_prev_term r = entry_term_at ?l (aq_prev_index r)"
    "prefix (aq_entries r) (drop (aq_prev_index r) ?l)" "aq_commit r \<le> length ?l" "agreed n h (take (aq_commit r) ?l)"
    using assms(2) AppendCall by (simp_all add: Let_def)
  have "entry_term_at (?l @ es) (aq_prev_index r) = entry_term_at ?l (aq_prev_index r)"
    using r(3) by (auto simp: entry_term_at_def nth_append)
  moreover have "(aq_term r, j) \<in> hy_led h'" using r(2) grows_sets(4) [OF assms(1)] by blast
  ultimately show ?thesis using r AppendCall es agreed_grows [OF assms(1) r(7)] by (simp add: Let_def prefix_append)
qed

lemma calls_fit_grows: "grows i h h' \<Longrightarrow> calls_fit c h s \<Longrightarrow> calls_fit c h' s"
  using call_fits_grows by (fastforce simp: calls_fit_def)

lemma fits_others:
  assumes "fits c h s" "history_ok (cfg_size c) h'" "grows i h h'" "cfg_id c \<noteq> i"
  shows "fits c h' s"
proof (rule fitsI)
  note p = fits_parts [OF assms(1)]
  show "campaign c (hy_votes h') s" by (rule campaign_mono [OF p(3) grows_sets(1) [OF assms(3)]])
  show "disk_fits (cfg_id c) h' (durable_of s)" by (rule disk_fits_grows [OF p(1) assms(3) p(4) assms(4)])
  show "role_fits c h' s" by (rule role_fits_grows [OF assms(2,3) p(5) assms(4)])
  show "commit_fits (cfg_size c) h' s" by (rule commit_fits_grows [OF assms(3) p(6)])
  show "calls_fit c h' s" by (rule calls_fit_grows [OF assms(3) p(7)])
qed (use assms(2) fits_parts(2) [OF assms(1)] in simp_all)

end
