(* ===== verification/Raft_Moves.thy ===== *)
theory Raft_Moves
  imports Raft_Views
begin

text \<open>
  The elementary changes of \<^verbatim>\<open>src/raft.cpp\<close>: stepping down, voting, standing for election, winning,
  appending as a leader, merging as a follower, sending and finishing a step. Each keeps the replica
  fitting its group's history, which grows with it.
\<close>

section \<open>Stepping down\<close>

lemma out_simps [simp]:
  "rf_out (reset_election_timer c now s) = rf_out s" "rf_out (fail_reads s) = rf_out s" "rf_out (changed_meta s) = rf_out s"
  "rf_out (changed_from i s) = rf_out s" "rf_out (record_reply from sent reply now s) = rf_out s" "rf_out (apply_committed s) = rf_out s"
  "rf_out (advance_commit c s) = rf_out s" "rf_out (resolve_reads c s) = rf_out s" "rf_out (drop_outputs s) = []"
  by (simp_all add: reset_election_timer_def fail_reads_def changed_meta_def changed_from_def record_reply_def apply_committed_def
      advance_commit_def resolve_reads_def drop_outputs_def Let_def)

lemma out_more [simp]:
  "rf_out (become_follower c t l now s) = rf_out s" "rf_out (append_entries i es s) = rf_out s" "rf_out (persist c s) = rf_out s"
proof -
  show "rf_out (append_entries i es s) = rf_out s" by (induction i es s rule: append_entries.induct) (auto simp: Let_def)
qed (simp_all add: become_follower_def persist_def Let_def split: prod.splits)

lemma out_finish: "set (rf_out (finish c s)) \<subseteq> set (rf_out s)"
  by (simp add: finish_def Let_def)

lemma retains_later:
  assumes "retains h p (Suc t) l" "\<And>u m. acked h p u m \<Longrightarrow> u \<le> t" "t \<le> t'"
  shows "retains h p (Suc t') l"
  unfolding retains_def
proof (intro allI impI)
  fix u m
  assume a: "acked h p u m" and later: "\<forall>w. u < w \<longrightarrow> w < Suc t' \<longrightarrow> led h w \<longrightarrow> prefix (first_of h u m) (hy_logs h w)"
  have "u < Suc t" using assms(2) [OF a] by simp
  then show "prefix (first_of h u m) l" using later assms(3) by (intro assms(1) [unfolded retains_def, rule_format, OF a]) auto
qed

lemma log_fits_later: "log_fits p h t l \<Longrightarrow> t \<le> t' \<Longrightarrow> log_fits p h t' l"
  using retains_later [of h p t l t'] unfolding log_fits_def by (fastforce elim: log_sorted_mono)

lemma disk_fits_follower:
  assumes "disk_fits i h d" "t \<ge> d_term d" "v = (if t > d_term d then None else d_voted_for d)"
  shows "disk_fits i h \<lparr>d_term = t, d_voted_for = v, d_log = d_log d\<rparr>"
proof -
  have "vote_kept \<lparr>d_term = t, d_voted_for = v, d_log = d_log d\<rparr> u w" if "(i, u, w) \<in> hy_votes h" for u w
  proof -
    have "vote_kept d u w" using assms(1) that by (simp add: disk_fits_def)
    then show ?thesis using assms(2,3) by (auto simp: vote_kept_def)
  qed
  moreover have "(i, t, w) \<in> hy_votes h" if "v = Some w" for w
    using assms that by (cases "t = d_term d") (auto simp: disk_fits_def split: if_splits)
  moreover have "log_fits i h t (d_log d)" using assms(1,2) log_fits_later by (auto simp: disk_fits_def)
  ultimately show ?thesis by (simp add: disk_fits_def)
qed

lemma durable_follower:
  "durable_of (become_follower c t l now s) =
     \<lparr>d_term = max t (rf_term s), d_voted_for = (if max t (rf_term s) > rf_term s then None else rf_voted_for s), d_log = rf_log s\<rparr>"
  by (simp add: durable_of_def)

lemma follower_fits:
  assumes "fits c h s"
  shows "fits c h (become_follower c t l now s)"
proof (rule fitsI)
  note p = fits_parts [OF assms]
  show "raft_ok c (become_follower c t l now s)" by (rule become_follower_ok [OF p(2)])
  show "campaign c (hy_votes h) (become_follower c t l now s)" using p(3) by (simp add: campaign_def)
  show "disk_fits (cfg_id c) h (durable_of (become_follower c t l now s))"
    unfolding durable_follower
    using disk_fits_follower [OF p(4) _ refl, of "max t (rf_term s)"] by (simp only: durable_of_def Durable.select_convs max.cobounded2)
  show "role_fits c h (become_follower c t l now s)" by (simp add: role_fits_def)
  show "commit_fits (cfg_size c) h (become_follower c t l now s)" using p(6) by (simp add: commit_fits_def)
  show "calls_fit c h (become_follower c t l now s)" using p(7) by (simp add: calls_fit_def)
qed (rule fits_parts(1) [OF assms])

lemma fits_quiet:
  assumes "fits c h s"
  shows "fits c h (reset_election_timer c now s)" "fits c h (changed_meta s)" "fits c h (changed_from i s)" "fits c h (fail_reads s)"
    "fits c h (s\<lparr>rf_reads := rs\<rparr>)" "fits c h (s\<lparr>rf_inflight := f\<rparr>)" "fits c h (s\<lparr>rf_retry_after := r\<rparr>)" "fits c h (s\<lparr>rf_heartbeat_due := b\<rparr>)"
    "fits c h (s\<lparr>rf_out := []\<rparr>)"
  by (rule fits_cong [OF assms _ assms], use fits_parts(2) [OF assms] in \<open>simp_all add: raft_ok_simps\<close>)+

section \<open>Voting\<close>

text \<open>A vote of replica \<open>i\<close> with the log \<open>l\<close>.\<close>

definition with_vote :: "nat \<Rightarrow> Term \<Rightarrow> nat \<Rightarrow> Entry list \<Rightarrow> History \<Rightarrow> History" where
  "with_vote i t v l h =
     h\<lparr>hy_votes := insert (i, t, v) (hy_votes h),
       hy_early := (if led h t then hy_early h else insert (i, t, v, l) (hy_early h))\<rparr>"

lemma with_vote_simps [simp]:
  "hy_votes (with_vote i t v l h) = insert (i, t, v) (hy_votes h)" "hy_cands (with_vote i t v l h) = hy_cands h" "hy_led (with_vote i t v l h) = hy_led h"
  "hy_logs (with_vote i t v l h) = hy_logs h" "hy_acks (with_vote i t v l h) = hy_acks h"
  "led (with_vote i t v l h) = led h" "acked (with_vote i t v l h) = acked h" "consistent (with_vote i t v l h) = consistent h"
  "retains (with_vote i t v l h) = retains h"
  by (simp_all add: with_vote_def)

lemma with_vote_grows: "grows i h (with_vote i t v l h)"
  by (auto simp: grows_def with_vote_def)

lemma early_majority_mono:
  assumes "2 * card {p. p < n \<and> (\<exists>l. (p, t, i, l) \<in> E)} > (n :: nat)" "E \<subseteq> E'"
  shows "2 * card {p. p < n \<and> (\<exists>l. (p, t, i, l) \<in> E')} > n"
proof -
  have "card {p. p < n \<and> (\<exists>l. (p, t, i, l) \<in> E)} \<le> card {p. p < n \<and> (\<exists>l. (p, t, i, l) \<in> E')}" using assms(2) by (intro card_mono) auto
  then show ?thesis using assms(1) by simp
qed

lemma with_vote_ok:
  assumes h: "history_ok n h" and once: "\<And>w. (i, t, w) \<in> hy_votes h \<Longrightarrow> w = v" and l: "log_fits i h t l"
    and cl: "(t, v, cl) \<in> hy_cands h" "up_to_date cl l"
  shows "history_ok n (with_vote i t v l h)"
proof -
  have "votes_ok (with_vote i t v l h)"
    using h once by (auto simp: history_ok_def votes_ok_def with_vote_def) blast+
  moreover have ret: "retains h i t l" if "\<not> led h t"
    using l that less_Suc_eq unfolding log_fits_def retains_def by metis
  then have "early_ok (with_vote i t v l h)"
    using h l cl by (auto simp: history_ok_def early_ok_def with_vote_def log_fits_def log_sorted_def)
  moreover have "cands_ok (with_vote i t v l h)" using h by (simp add: history_ok_def cands_ok_def)
  moreover have "hy_early h \<subseteq> hy_early (with_vote i t v l h)" by (auto simp: with_vote_def)
  then have "led_ok n (with_vote i t v l h)" using h early_majority_mono by (fastforce simp: history_ok_def led_ok_def)
  ultimately show ?thesis by (simp add: history_ok_def)
qed

lemma log_fits_voted [simp]: "log_fits p (with_vote i t v l h) = log_fits p h"
  by (simp add: log_fits_def fun_eq_iff)

lemma agreed_voted [simp]: "agreed n (with_vote i t v l h) = agreed n h"
  by (simp add: agreed_def committed_def fun_eq_iff)

lemma commit_fits_cong:
  assumes "commit_fits n h s" "grows i h h'" "rf_commit s' = rf_commit s" "rf_applies s' = rf_applies s"
    "take (rf_commit s) (rf_log s') = take (rf_commit s) (rf_log s)"
  shows "commit_fits n h' s'"
  using commit_fits_grows [OF assms(2,1)] assms(3-) by (simp add: commit_fits_def)

lemma grant_recorded:
  assumes f: "fits c h s" and v: "rf_voted_for s = None \<or> rf_voted_for s = Some v" and cl: "(rf_term s, v, cl) \<in> hy_cands h" "up_to_date cl (rf_log s)"
  shows "recorded c h (s\<lparr>rf_voted_for := Some v\<rparr>)"
proof (rule recordedI)
  note p = fits_parts [OF f]
  let ?h = "with_vote (cfg_id c) (rf_term s) v (rf_log s) h" and ?s = "s\<lparr>rf_voted_for := Some v\<rparr>"
  show g: "grows (cfg_id c) h ?h" by (rule with_vote_grows)
  show "fits c ?h ?s"
  proof (rule fitsI)
    show "history_ok (cfg_size c) ?h" using fits_vote [OF f] v by (intro with_vote_ok [OF p(1) _ fits_log [OF f] cl]) fastforce
    show "raft_ok c ?s" by (rule raft_ok_updates(6) [OF p(2)])
    show "campaign c (hy_votes ?h) ?s" using p(3) v by (auto simp: campaign_def)
    show "disk_fits (cfg_id c) ?h (durable_of ?s)"
      using fits_vote [OF f] v fits_log [OF f] by (fastforce simp: disk_fits_def durable_of_def vote_kept_def)
    show "role_fits c ?h ?s" using p(5) by (auto simp: role_fits_def leader_fits_def)
    show "commit_fits (cfg_size c) ?h ?s" by (rule commit_fits_cong [OF p(6) g]) simp_all
    show "calls_fit c ?h ?s" using calls_fit_grows [OF g p(7)] by (simp add: calls_fit_def)
  qed
qed

section \<open>Standing for election\<close>

definition with_candidate :: "nat \<Rightarrow> Term \<Rightarrow> Entry list \<Rightarrow> History \<Rightarrow> History" where
  "with_candidate i t l h = h\<lparr>hy_cands := insert (t, i, l) (hy_cands h)\<rparr>"

lemma with_candidate_simps [simp]:
  "hy_votes (with_candidate i t l h) = hy_votes h" "hy_early (with_candidate i t l h) = hy_early h"
  "hy_cands (with_candidate i t l h) = insert (t, i, l) (hy_cands h)" "hy_led (with_candidate i t l h) = hy_led h"
  "hy_logs (with_candidate i t l h) = hy_logs h" "hy_acks (with_candidate i t l h) = hy_acks h"
  "led (with_candidate i t l h) = led h" "acked (with_candidate i t l h) = acked h" "consistent (with_candidate i t l h) = consistent h"
  "retains (with_candidate i t l h) = retains h"
  by (simp_all add: with_candidate_def)

lemma with_candidate_grows: "grows i h (with_candidate i t l h)"
  by (auto simp: grows_def)

lemma with_candidate_ok:
  assumes h: "history_ok n h" and l: "log_fits i h t l" "t < t'"
  shows "history_ok n (with_candidate i t' l h)"
proof -
  have new: "(t', i, cl) \<notin> hy_cands h" for cl using l by (auto simp: log_fits_def)
  have "\<forall>e\<in>set l. e_term e < t'" using l by (auto simp: log_fits_def log_sorted_def)
  then have "cands_ok (with_candidate i t' l h)"
    using h l(1) new by (auto simp: history_ok_def cands_ok_def log_fits_def log_sorted_def)
  moreover have "early_ok (with_candidate i t' l h)" using h by (fastforce simp: history_ok_def early_ok_def)
  moreover have "led_ok n (with_candidate i t' l h)" using h by (fastforce simp: history_ok_def led_ok_def)
  moreover have "votes_ok (with_candidate i t' l h)" using h by (simp add: history_ok_def votes_ok_def)
  ultimately show ?thesis by (simp add: history_ok_def)
qed

text \<open>A candidate before it sends its calls.\<close>

definition standing :: "'s RaftConfig \<Rightarrow> Millis \<Rightarrow> 's Raft \<Rightarrow> 's Raft" where
  "standing c now s =
     (let s = changed_meta (s\<lparr>rf_term := Suc (rf_term s), rf_voted_for := Some (cfg_id c)\<rparr>);
          s = reset_election_timer c now (fail_reads (s\<lparr>rf_role := Candidate, rf_leader := None\<rparr>))
      in s\<lparr>rf_votes := (replicate (length (rf_votes s)) False)[cfg_id c := True]\<rparr>)"

lemma start_election_standing:
  "start_election c now s =
     (let s = standing c now s in
      if majority c 1 then become_leader c now s else s\<lparr>rf_out := rf_out s @ map (vote_call c s) (peers c)\<rparr>)"
  by (simp add: start_election_def standing_def Let_def)

lemma standing_simps [simp]:
  "rf_term (standing c now s) = Suc (rf_term s)" "rf_voted_for (standing c now s) = Some (cfg_id c)" "rf_log (standing c now s) = rf_log s"
  "rf_role (standing c now s) = Candidate" "rf_commit (standing c now s) = rf_commit s" "rf_applied (standing c now s) = rf_applied s"
  "rf_applies (standing c now s) = rf_applies s" "rf_next (standing c now s) = rf_next s" "rf_match (standing c now s) = rf_match s"
  "rf_votes (standing c now s) = (replicate (length (rf_votes s)) False)[cfg_id c := True]" "rf_out (standing c now s) = rf_out s"
  by (simp_all add: standing_def Let_def)

lemma up_to_date_refl [simp]: "up_to_date l l"
  by (simp add: up_to_date_def)

lemma stand_recorded:
  assumes f: "fits c h s"
  shows "recorded c h (standing c now s)"
proof (rule recordedI)
  note p = fits_parts [OF f]
  let ?t = "Suc (rf_term s)" and ?s = "standing c now s"
  let ?h = "with_vote (cfg_id c) ?t (cfg_id c) (rf_log s) (with_candidate (cfg_id c) ?t (rf_log s) h)"
  show g: "grows (cfg_id c) h ?h" by (rule grows_trans [OF with_candidate_grows with_vote_grows])
  have l: "log_fits (cfg_id c) (with_candidate (cfg_id c) ?t (rf_log s) h) ?t (rf_log s)"
    using log_fits_later [OF fits_log [OF f], of ?t] by (auto simp: log_fits_def)
  have new: "(cfg_id c, ?t, w) \<notin> hy_votes h" for w using fits_vote [OF f] by fastforce
  show "fits c ?h ?s"
  proof (rule fitsI)
    show "history_ok (cfg_size c) ?h"
      using new by (intro with_vote_ok [OF with_candidate_ok [OF p(1) fits_log [OF f]] _ l, where cl = "rf_log s"]) simp_all
    have "log_sorted (rf_log s) (Suc (rf_term s))" using p(2) by (auto simp: raft_inv_def elim: log_sorted_mono)
    then show "raft_ok c ?s" using p(2) by (simp add: raft_ok_simps)
    show "campaign c (hy_votes ?h) ?s" using p(3) fits_id [OF f] by (auto simp: campaign_def nth_list_update)
    show "disk_fits (cfg_id c) ?h (durable_of ?s)"
      using fits_vote [OF f] l by (fastforce simp: disk_fits_def durable_of_def vote_kept_def)
    show "role_fits c ?h ?s" using fits_log [OF f] by (auto simp: role_fits_def log_fits_def)
    show "commit_fits (cfg_size c) ?h ?s" by (rule commit_fits_cong [OF p(6) g]) simp_all
    show "calls_fit c ?h ?s" using calls_fit_grows [OF g p(7)] by (simp add: calls_fit_def)
  qed
qed

lemma ask_fits:
  assumes f: "fits c h s" and "rf_role s = Candidate"
  shows "fits c h (s\<lparr>rf_out := rf_out s @ map (vote_call c s) (peers c)\<rparr>)"
proof -
  note p = fits_parts [OF f]
  let ?s = "s\<lparr>rf_out := rf_out s @ map (vote_call c s) (peers c)\<rparr>"
  have "call_fits (cfg_size c) h (cfg_id c) (vote_call c s q)" if "q \<in> set (peers c)" for q
    using p(5) assms(2) that by (auto simp: vote_call_def role_fits_def peers_def last_term_def term_at_def last_index_def)
  then have "calls_fit c h ?s" using p(7) by (auto simp: calls_fit_def)
  then show ?thesis using p(2) by (intro fits_same [OF f]) (simp_all add: raft_ok_simps)
qed

section \<open>Leading\<close>

text \<open>Replica \<open>i\<close> leads in term \<open>t\<close> with the log \<open>l\<close>.\<close>

definition with_leader :: "nat \<Rightarrow> Term \<Rightarrow> Entry list \<Rightarrow> History \<Rightarrow> History" where
  "with_leader i t l h =
     h\<lparr>hy_led := insert (t, i) (hy_led h), hy_logs := (hy_logs h)(t := l), hy_acks := insert (i, t, length l) (hy_acks h)\<rparr>"

lemma with_leader_simps [simp]:
  "hy_votes (with_leader i t l h) = hy_votes h" "hy_early (with_leader i t l h) = hy_early h" "hy_cands (with_leader i t l h) = hy_cands h"
  "hy_led (with_leader i t l h) = insert (t, i) (hy_led h)" "hy_logs (with_leader i t l h) = (hy_logs h)(t := l)"
  "hy_acks (with_leader i t l h) = insert (i, t, length l) (hy_acks h)"
  by (simp_all add: with_leader_def)

text \<open>When a log may grow by entries of term \<open>t\<close>.\<close>

definition may_lead :: "nat \<Rightarrow> nat \<Rightarrow> Term \<Rightarrow> Entry list \<Rightarrow> History \<Rightarrow> bool" where
  "may_lead n i t l h \<longleftrightarrow>
     (t, i) \<in> hy_led h \<and> hy_logs h t = l \<or>
     \<not> led h t \<and> (t, i, l) \<in> hy_cands h \<and> 2 * card {p. p < n \<and> (\<exists>vl. (p, t, i, vl) \<in> hy_early h)} > n"

lemma unled_log: "history_ok n h \<Longrightarrow> \<not> led h t \<Longrightarrow> hy_logs h t = []"
  by (auto simp: history_ok_def led_ok_def)

lemma with_leader_grows:
  assumes "history_ok n h" "may_lead n i t l h" "\<forall>e\<in>set es. e_term e = t"
  shows "grows i h (with_leader i t (l @ es) h)"
proof -
  have "\<exists>xs. (if u = t then l @ es else hy_logs h u) = hy_logs h u @ xs \<and> (led h u \<longrightarrow> (\<forall>e\<in>set xs. e_term e = u))" for u
    using assms unled_log [OF assms(1), of t] by (cases "u = t"; cases "led h t") (auto simp: may_lead_def)
  then show ?thesis by (auto simp: grows_def)
qed

lemma led_with_leader [simp]: "led (with_leader i t l h) u \<longleftrightarrow> u = t \<or> led h u"
  by (auto simp: led_def)

lemma acked_with_leader: "acked (with_leader i t l h) p u m \<Longrightarrow> acked h p u m \<or> p = i \<and> u = t \<and> m \<le> length l"
  by (auto simp: acked_def)

lemma consistent_push:
  assumes "consistent h l" "prefix (l @ [e]) (hy_logs h (e_term e))"
  shows "consistent h (l @ [e])"
  using assms by (auto simp: consistent_def nth_append less_Suc_eq)

lemma with_leader_ok:
  assumes h: "history_ok n h" and lead: "may_lead n i t l h" and l: "log_fits i h t l" and e: "e_term e = t"
    and late: "\<And>u v. (i, u, v) \<in> hy_votes h \<Longrightarrow> u \<le> t"
  shows "history_ok n (with_leader i t (l @ [e]) h)"
proof -
  let ?h = "with_leader i t (l @ [e]) h"
  have g: "grows i h ?h" by (rule with_leader_grows [OF h lead]) (simp add: e)
  have ret: "retains ?h p u vl" if early: "(p, u, v, vl) \<in> hy_early h" for p u v vl
  proof (rule retains_grows [OF h g])
    show "retains h p u vl" using h early by (fastforce simp: history_ok_def early_ok_def)
    have vote: "(p, u, v) \<in> hy_votes h" using h early by (fastforce simp: history_ok_def votes_ok_def)
    show "acked h p w m \<or> prefix (first_of ?h w m) vl" if "acked ?h p w m" "w < u" for w m
      using acked_with_leader [OF that(1)] late vote that(2) by fastforce
  qed
  then have "early_ok ?h" using h by (fastforce simp: history_ok_def early_ok_def)
  moreover have "votes_ok ?h" using h by (simp add: history_ok_def votes_ok_def)
  moreover have "cands_ok ?h" using h consistent_grows [OF g] by (fastforce simp: history_ok_def cands_ok_def)
  moreover have "led_ok n ?h" unfolding led_ok_def
  proof (intro conjI allI impI)
    fix u j assume new: "(u, j) \<in> hy_led ?h"
    have "2 * card {p. p < n \<and> (\<exists>l. (p, u, j, l) \<in> hy_early h)} > n \<and> (\<exists>cl. (u, j, cl) \<in> hy_cands h \<and> prefix cl (hy_logs ?h u))"
    proof (cases "(u, j) \<in> hy_led h")
      case True
      then obtain cl where cl: "(u, j, cl) \<in> hy_cands h" "prefix cl (hy_logs h u)" using led_candidate [OF h] by blast
      obtain es where "hy_logs ?h u = hy_logs h u @ es" using grows_log [OF g] by blast
      then have "prefix cl (hy_logs ?h u)" using cl(2) by (metis prefix_prefix)
      then show ?thesis using cl(1) led_majority [OF h True] by blast
    next
      case False
      then show ?thesis using new lead by (auto simp: may_lead_def)
    qed
    then show "2 * card {p. p < n \<and> (\<exists>l. (p, u, j, l) \<in> hy_early ?h)} > n" "\<exists>cl. (u, j, cl) \<in> hy_cands ?h \<and> prefix cl (hy_logs ?h u)"
      by simp_all
  next
    fix u
    have old: "log_sorted (hy_logs h u) u" "consistent ?h (hy_logs h u)"
      using h consistent_grows [OF g] by (auto simp: history_ok_def led_ok_def)
    have "log_sorted (l @ [e]) t" using l e by (auto simp: log_fits_def log_sorted_def sorted_append)
    moreover have "consistent ?h (l @ [e])" using l e consistent_grows [OF g] by (intro consistent_push) (simp_all add: log_fits_def)
    ultimately show "log_sorted (hy_logs ?h u) u" "consistent ?h (hy_logs ?h u)" using old by simp_all
    show "led ?h u" if "hy_logs ?h u \<noteq> []" using that unled_log [OF h, of u] by (auto split: if_splits)
  next
    fix p u m assume "(p, u, m) \<in> hy_acks ?h"
    moreover have "m \<le> length (hy_logs ?h u)" if "(p, u, m) \<in> hy_acks h"
    proof -
      have "m \<le> length (hy_logs h u)" using h that by (auto simp: history_ok_def led_ok_def)
      moreover obtain es where "hy_logs ?h u = hy_logs h u @ es" using grows_log [OF g] by blast
      ultimately show ?thesis by simp
    qed
    ultimately show "m \<le> length (hy_logs ?h u)" by auto
  qed
  ultimately show ?thesis by (simp add: history_ok_def)
qed

lemma log_fits_leader:
  assumes h: "history_ok n h" and lead: "may_lead n i t l h" and l: "log_fits i h t l" and e: "e_term e = t"
  shows "log_fits i (with_leader i t (l @ [e]) h) t (l @ [e])"
proof -
  let ?h = "with_leader i t (l @ [e]) h"
  have g: "grows i h ?h" by (rule with_leader_grows [OF h lead]) (simp add: e)
  have "retains ?h i (Suc t) (l @ [e])"
  proof (rule retains_grows [OF h g])
    show "retains h i (Suc t) (l @ [e])" using l by (auto simp: log_fits_def intro: retains_longer)
    show "acked h i u m \<or> prefix (first_of ?h u m) (l @ [e])" if "acked ?h i u m" for u m
    proof (cases "acked h i u m")
      case False
      then have "hy_logs ?h u = l @ [e]" using acked_with_leader [OF that] by auto
      then show ?thesis by (simp only: take_is_prefix simp_thms)
    qed simp
  qed
  moreover have "consistent ?h (l @ [e])" using l e consistent_grows [OF g] by (intro consistent_push) (simp_all add: log_fits_def)
  moreover have "\<forall>u m. acked ?h i u m \<longrightarrow> u \<le> t"
  proof (intro allI impI)
    fix u m assume "acked ?h i u m"
    from acked_with_leader [OF this] show "u \<le> t" using l by (auto simp: log_fits_def)
  qed
  moreover have "log_sorted (l @ [e]) t" using l e by (auto simp: log_fits_def log_sorted_def sorted_append)
  moreover have "\<forall>u. (u, i) \<in> hy_led ?h \<longrightarrow> u \<le> t" "\<forall>u cl. (u, i, cl) \<in> hy_cands ?h \<longrightarrow> u \<le> t" using l by (auto simp: log_fits_def)
  ultimately show ?thesis unfolding log_fits_def by blast
qed

text \<open>The states in which a leader has one more entry; the calls it has still to send are not changed.\<close>

lemma lead_recorded:
  assumes f: "fits c h s" and lead: "may_lead (cfg_size c) (cfg_id c) (rf_term s) (rf_log s) h" and e: "e_term e = rf_term s"
    and s': "raft_ok c s'" "rf_term s' = rf_term s" "rf_voted_for s' = rf_voted_for s" "rf_role s' = Leader" "rf_log s' = rf_log s @ [e]"
      "rf_votes s' = rf_votes s" "rf_commit s' = rf_commit s" "rf_applies s' = rf_applies s" "rf_out s' = rf_out s"
    and votes: "rf_role s \<noteq> Follower" "majority c (count_true (rf_votes s))"
    and books: "\<And>p. p < cfg_size c \<Longrightarrow> rf_next s' ! p \<le> Suc (Suc (length (rf_log s))) \<and> (0 < rf_match s' ! p \<longrightarrow> acked h p (rf_term s) (rf_match s' ! p))"
  shows "recorded c h s'"
proof (rule recordedI)
  note p = fits_parts [OF f]
  let ?h = "with_leader (cfg_id c) (rf_term s) (rf_log s @ [e]) h"
  show g: "grows (cfg_id c) h ?h" by (rule with_leader_grows [OF p(1) lead]) (simp add: e)
  show "fits c ?h s'"
  proof (rule fitsI)
    show "history_ok (cfg_size c) ?h" using fits_vote [OF f] by (intro with_leader_ok [OF p(1) lead fits_log [OF f] e]) blast
    show "campaign c (hy_votes ?h) s'" using p(3) votes s' by (simp add: campaign_def)
    show "disk_fits (cfg_id c) ?h (durable_of s')"
      using log_fits_leader [OF p(1) lead fits_log [OF f] e] p(4) s' by (simp add: disk_fits_def durable_of_def vote_kept_def)
    have "acked ?h (cfg_id c) (rf_term s) (Suc (length (rf_log s)))" by (auto simp: acked_def)
    then have "leader_fits c ?h s'" using books acked_grows [OF g] s' by (simp add: leader_fits_def)
    then show "role_fits c ?h s'" using s' by (simp add: role_fits_def)
    have "rf_commit s \<le> length (rf_log s)" using p(2) by (simp add: raft_inv_def last_index_def)
    then show "commit_fits (cfg_size c) ?h s'" by (intro commit_fits_cong [OF p(6) g]) (simp_all add: s')
    show "calls_fit c ?h s'" using calls_fit_grows [OF g p(7)] s' by (simp add: calls_fit_def)
  qed (rule s'(1))
qed

text \<open>The votes counted are a majority, so nobody else has won the term.\<close>

lemma won_may_lead:
  assumes f: "fits c h s" and "rf_role s = Candidate" "majority c (count_true (rf_votes s))"
  shows "may_lead (cfg_size c) (cfg_id c) (rf_term s) (rf_log s) h"
proof -
  note p = fits_parts [OF f]
  let ?n = "cfg_size c" and ?i = "cfg_id c" and ?t = "rf_term s"
  have v: "votes_ok h" using p(1) by (simp add: history_ok_def)
  have own: "(?i, ?t, ?i) \<in> hy_votes h" using p(3,4) assms(2) by (auto simp: campaign_def disk_fits_def durable_of_def)
  have "{q. q < ?n \<and> rf_votes s ! q} \<subseteq> {q. q < ?n \<and> (q, ?t, ?i) \<in> hy_votes h}" using p(3) assms(2) own by (auto simp: campaign_def)
  then have "card {q. q < ?n \<and> rf_votes s ! q} \<le> card {q. q < ?n \<and> (q, ?t, ?i) \<in> hy_votes h}" by (intro card_mono) auto
  then have maj: "2 * card {q. q < ?n \<and> (q, ?t, ?i) \<in> hy_votes h} > ?n"
    using assms(3) p(3) by (simp add: majority_def count_true_card campaign_def)
  have cand: "(?t, ?i, rf_log s) \<in> hy_cands h" "(?t, ?i) \<notin> hy_led h" using p(5) assms(2) by (simp_all add: role_fits_def)
  have unled: "\<not> led h ?t"
  proof
    assume "led h ?t"
    then obtain j where j: "(?t, j) \<in> hy_led h" by (auto simp: led_def)
    obtain q where "\<exists>l. (q, ?t, j, l) \<in> hy_early h" "(q, ?t, ?i) \<in> hy_votes h"
      by (rule majorities_meet [OF led_majority [OF p(1) j] maj]) blast
    then have "j = ?i" using v unfolding votes_ok_def by blast
    then show False using j cand(2) by simp
  qed
  then have "{q. q < ?n \<and> (q, ?t, ?i) \<in> hy_votes h} = {q. q < ?n \<and> (\<exists>l. (q, ?t, ?i, l) \<in> hy_early h)}"
    using v unfolding votes_ok_def by blast
  then show ?thesis using maj cand(1) unled by (simp add: may_lead_def)
qed

section \<open>Sending\<close>

lemma take_entries_prefix: "prefix (take_entries b n first es) es"
  by (induction b n first es rule: take_entries.induct) (simp_all add: Let_def)

lemma send_fits:
  assumes f: "fits c h s" and "rf_role s = Leader" "q < cfg_size c"
  shows "fits c h (send_append c now q s)"
proof -
  note p = fits_parts [OF f]
  have lead: "leader_fits c h s" using p(5) assms(2) by (simp add: role_fits_def)
  let ?prev = "rf_next s ! q - 1" and ?l = "rf_log s"
  let ?es = "take_entries (cfg_max_append_bytes c) 0 True (drop ?prev ?l)"
  have prev: "?prev \<le> length ?l" using lead assms(3) by (auto simp: leader_fits_def)
  have "prefix ?es (drop ?prev ?l)" by (rule take_entries_prefix)
  moreover from this have "?prev + length ?es \<le> length ?l" using prefix_length_le [of ?es "drop ?prev ?l"] prev by simp
  moreover have "rf_commit s \<le> length ?l" "agreed (cfg_size c) h (take (rf_commit s) ?l)"
    using p(2,6) by (simp_all add: raft_inv_def last_index_def commit_fits_def)
  ultimately have "calls_fit c h (send_append c now q s)"
    using p(7) lead assms(3) by (auto simp: calls_fit_def send_append_def Let_def leader_fits_def term_at_def)
  then show ?thesis using p(2) by (intro fits_same [OF f]) (simp_all add: raft_ok_simps)
qed

lemma send_if_due_fits:
  assumes "fits c h s" "q < cfg_size c"
  shows "fits c h (send_if_due c now force q s)"
  using assms send_fits by (auto simp: send_if_due_def intro: fits_quiet)

lemma tick_peer_fits:
  assumes "fits c h s" "q < cfg_size c"
  shows "fits c h (tick_peer c now q s)"
  using assms by (auto simp: tick_peer_def Let_def intro: send_if_due_fits fits_quiet)

lemma fold_fits:
  assumes "fits c h s" "\<And>q s. fits c h s \<Longrightarrow> q < cfg_size c \<Longrightarrow> fits c h (f q s)"
  shows "fits c h (fold f (peers c) s)"
proof -
  have "fits c h (fold f qs s)" if "\<forall>q\<in>set qs. q < cfg_size c" for qs
    using that assms(1) by (induction qs arbitrary: s) (simp_all add: assms(2))
  then show ?thesis by (simp add: peers_def)
qed

lemma fold_send_fits:
  assumes "fits c h s" "rf_role s = Leader"
  shows "fits c h (fold (send_append c now) (peers c) s)"
proof -
  have "fits c h (fold (send_append c now) qs s)" if "\<forall>q\<in>set qs. q < cfg_size c" for qs
    using that assms by (induction qs arbitrary: s) (simp_all add: send_fits)
  then show ?thesis by (simp add: peers_def)
qed

lemma leader_recorded:
  assumes f: "fits c h s" and "rf_role s = Candidate" "majority c (count_true (rf_votes s))"
  shows "recorded c h (become_leader c now s)"
proof -
  define s1 where "s1 = s\<lparr>rf_role := Leader, rf_leader := Some (cfg_id c),
     rf_next := replicate (cfg_size c) (last_index s + 1), rf_match := replicate (cfg_size c) 0,
     rf_inflight := replicate (cfg_size c) False, rf_heartbeat_due := replicate (cfg_size c) now,
     rf_retry_after := replicate (cfg_size c) now, rf_heard := replicate (cfg_size c) now\<rparr>"
  define s2 where "s2 = s1\<lparr>rf_log := rf_log s1 @ [\<lparr>e_term = rf_term s1, e_command = ''NOOP''\<rparr>]\<rparr>"
  have lead: "become_leader c now s = fold (send_append c now) (peers c) (changed_from (last_index s2) s2)"
    by (simp add: become_leader_def Let_def s1_def s2_def)
  have "raft_ok c (changed_from (last_index s2) s2)"
    using fits_parts(2) [OF f] by (simp add: s2_def s1_def raft_ok_simps log_sorted_push)
  then have "recorded c h (changed_from (last_index s2) s2)"
    by (intro lead_recorded [OF f won_may_lead [OF assms], of "\<lparr>e_term = rf_term s, e_command = ''NOOP''\<rparr>"])
      (use assms(2,3) in \<open>simp_all add: s2_def s1_def last_index_def\<close>)
  then show ?thesis unfolding lead
    by (rule recorded_then) (intro recorded_same fold_send_fits, simp_all add: s2_def s1_def)
qed

lemma election_recorded:
  assumes f: "fits c h s"
  shows "recorded c h (start_election c now s)"
proof (rule recorded_then [OF stand_recorded [OF f, of now]])
  fix h' assume f': "fits c h' (standing c now s)"
  have "length (rf_votes s) = cfg_size c" using fits_parts(2) [OF f] by (simp add: raft_inv_def vectors_ok_def)
  then have "count_true (rf_votes (standing c now s)) = 1" using count_one fits_id [OF f] by simp
  then show "recorded c h' (start_election c now s)"
    unfolding start_election_standing Let_def using leader_recorded [OF f'] ask_fits [OF f'] by (simp add: recorded_same)
qed

lemma propose_recorded:
  assumes f: "fits c h s" and "rf_role s = Leader"
  shows "recorded c h (changed_from i (s\<lparr>rf_log := rf_log s @ [\<lparr>e_term = rf_term s, e_command = x\<rparr>]\<rparr>))"
proof -
  note p = fits_parts [OF f]
  have lead: "leader_fits c h s" using p(5) assms(2) by (simp add: role_fits_def)
  then have "may_lead (cfg_size c) (cfg_id c) (rf_term s) (rf_log s) h" by (simp add: may_lead_def leader_fits_def)
  moreover have "majority c (count_true (rf_votes s))" using p(3) assms(2) by (simp add: campaign_def)
  ultimately show ?thesis
    by (intro lead_recorded [OF f, of "\<lparr>e_term = rf_term s, e_command = x\<rparr>"] propose_log_ok [OF p(2)])
      (use assms(2) lead in \<open>auto simp: leader_fits_def\<close>)
qed

end
