(* ===== verification/Raft_Turns.thy ===== *)
theory Raft_Turns
  imports Raft_Moves
begin

text \<open>
  Whole turns of a replica: merging an APPEND, the end of every step and then every input of
  \<^verbatim>\<open>src/raft.cpp\<close>. A turn that the disk has taken, wholly or in part, is recorded by the history.
\<close>

section \<open>Merging\<close>

lemma log_matching:
  assumes "consistent h l" "consistent h l'" "k < length l" "k < length l'" "e_term (l ! k) = e_term (l' ! k)"
  shows "take (Suc k) l = take (Suc k) l'"
proof -
  have "prefix (take (Suc k) l) (hy_logs h (e_term (l ! k)))" using assms(1,3) by (simp add: consistent_def)
  moreover have "prefix (take (Suc k) l') (hy_logs h (e_term (l ! k)))" using assms(2,4,5) by (simp add: consistent_def)
  moreover have "length (take (Suc k) l) = length (take (Suc k) l')" using assms(3,4) by simp
  ultimately show ?thesis by (metis prefix_length_prefix prefix_order.antisym order_refl)
qed

lemma consistent_take: "consistent h l \<Longrightarrow> consistent h (take m l)"
  by (auto simp: consistent_def min_def)

lemma log_sorted_take: "log_sorted l t \<Longrightarrow> log_sorted (take m l) t"
  by (auto simp: log_sorted_def take_map [symmetric] intro: sorted_wrt_take dest: in_set_takeD)

text \<open>A merged log is the old one or the leader's, and what both had stays.\<close>

lemma merge_log_cases:
  assumes "consistent h l" "consistent h L" "i \<le> length l" "take i l = take i L" "prefix es (drop i L)" "i + length es \<le> length L"
  shows "take (i + length es) (merge_log i es l) = take (i + length es) L \<and>
    (merge_log i es l = l \<or> merge_log i es l = take (i + length es) L \<and> (\<forall>q. prefix q l \<longrightarrow> prefix q L \<longrightarrow> length q \<le> i + length es))"
  using assms
proof (induction i es l rule: merge_log.induct)
  case (2 i e es l)
  have L: "drop i L = e # drop (Suc i) L" "e = L ! i" "prefix es (drop (Suc i) L)" "i < length L"
    using "2.prems"(5,6) by (auto simp: prefix_def Cons_nth_drop_Suc [symmetric])
  show ?case
  proof (cases "Suc i \<le> length l \<and> e_term (l ! i) = e_term e")
    case True
    then have "take (Suc i) l = take (Suc i) L" using log_matching [OF "2.prems"(1,2), of i] L by simp
    then show ?thesis using "2.IH" True "2.prems" L(3) by simp
  next
    case False
    obtain xs where xs: "drop (Suc i) L = es @ xs" using L(3) by (auto simp: prefix_def)
    have "take (i + Suc (length es)) L = take i L @ take (Suc (length es)) (drop i L)" by (rule take_add)
    also have "\<dots> = take i L @ e # es" by (simp add: L(1) xs)
    finally have whole: "take (i + Suc (length es)) L = take i L @ e # es" .
    then have m: "merge_log i (e # es) l = take (i + Suc (length es)) L" using False "2.prems"(3,4) by (auto simp: min_def)
    have "length q \<le> i" if "prefix q l" "prefix q L" for q
    proof (rule ccontr)
      assume "\<not> length q \<le> i"
      then have "q ! i = l ! i" "q ! i = L ! i" "i < length l" using that by (auto simp: prefix_def nth_append)
      then show False using False L(2) by simp
    qed
    then have "\<forall>q. prefix q l \<longrightarrow> prefix q L \<longrightarrow> length q \<le> i + length (e # es)" by fastforce
    then show ?thesis using m by simp
  qed
qed simp

lemma prefix_take: "prefix q l \<Longrightarrow> length q \<le> m \<Longrightarrow> prefix q (take m l)"
  by (auto simp: prefix_def)

text \<open>Replica \<open>i\<close> has the first \<open>m\<close> entries of the log of term \<open>t\<close>.\<close>

definition with_ack :: "nat \<Rightarrow> Term \<Rightarrow> nat \<Rightarrow> History \<Rightarrow> History" where
  "with_ack i t m h = h\<lparr>hy_acks := insert (i, t, m) (hy_acks h)\<rparr>"

lemma with_ack_simps [simp]:
  "hy_votes (with_ack i t m h) = hy_votes h" "hy_early (with_ack i t m h) = hy_early h" "hy_cands (with_ack i t m h) = hy_cands h"
  "hy_led (with_ack i t m h) = hy_led h" "hy_logs (with_ack i t m h) = hy_logs h" "hy_acks (with_ack i t m h) = insert (i, t, m) (hy_acks h)"
  "led (with_ack i t m h) = led h" "consistent (with_ack i t m h) = consistent h"
  by (simp_all add: with_ack_def)

lemma with_ack_grows: "grows i h (with_ack i t m h)"
  by (auto simp: grows_def)

lemma acked_with_ack: "acked (with_ack i t m h) p u k \<longleftrightarrow> acked h p u k \<or> p = i \<and> u = t \<and> k \<le> m"
  by (auto simp: acked_def)

lemma with_ack_ok:
  assumes h: "history_ok n h" and late: "\<And>u v. (i, u, v) \<in> hy_votes h \<Longrightarrow> u \<le> t" and m: "m \<le> length (hy_logs h t)"
  shows "history_ok n (with_ack i t m h)"
proof -
  let ?h = "with_ack i t m h"
  have ret: "retains ?h p u vl" if early: "(p, u, v, vl) \<in> hy_early h" for p u v vl
  proof (rule retains_grows [OF h with_ack_grows])
    show "retains h p u vl" using h early by (fastforce simp: history_ok_def early_ok_def)
    have vote: "(p, u, v) \<in> hy_votes h" using h early by (fastforce simp: history_ok_def votes_ok_def)
    show "acked h p w k \<or> prefix (first_of ?h w k) vl" if "acked ?h p w k" "w < u" for w k
      using that late vote by (fastforce simp: acked_with_ack)
  qed
  then have "early_ok ?h" using h by (fastforce simp: history_ok_def early_ok_def)
  moreover have "votes_ok ?h" "cands_ok ?h" using h by (simp_all add: history_ok_def votes_ok_def cands_ok_def)
  moreover have "led_ok n ?h" using h m by (auto simp: history_ok_def led_ok_def)
  ultimately show ?thesis by (simp add: history_ok_def)
qed

lemma log_fits_ack:
  assumes h: "history_ok n h" and l: "log_fits i h t l" and m: "prefix (first_of h t m) l"
  shows "log_fits i (with_ack i t m h) t l"
proof -
  have "retains (with_ack i t m h) i (Suc t) l"
  proof (rule retains_grows [OF h with_ack_grows])
    show "retains h i (Suc t) l" using l by (simp add: log_fits_def)
    show "acked h i u k \<or> prefix (first_of (with_ack i t m h) u k) l" if "acked (with_ack i t m h) i u k" for u k
    proof (cases "acked h i u k")
      case False
      then have u: "u = t" "k \<le> m" using that by (simp_all add: acked_with_ack)
      have "take k (hy_logs h t) = take k (first_of h t m)" using u(2) by (simp add: min_def)
      then have "prefix (take k (hy_logs h t)) (first_of h t m)" by (simp only: take_is_prefix)
      then show ?thesis using m u(1) prefix_order.trans by auto
    qed simp
  qed
  moreover have "\<forall>u k. acked (with_ack i t m h) i u k \<longrightarrow> u \<le> t" using l by (auto simp: acked_with_ack log_fits_def)
  ultimately show ?thesis using l by (simp add: log_fits_def)
qed

text \<open>A log in the place of another: nothing that both the old one and the leader's have is lost.\<close>

lemma log_fits_replaced:
  assumes l: "log_fits i h t l" and "led h t" "log_sorted m t" "consistent h m"
    and keep: "\<And>q. prefix q l \<Longrightarrow> prefix q (hy_logs h t) \<Longrightarrow> prefix q m"
  shows "log_fits i h t m"
proof -
  have "retains h i (Suc t) m" unfolding retains_def
  proof (intro allI impI)
    fix u k
    assume a: "acked h i u k" "u < Suc t" and later: "\<forall>w. u < w \<longrightarrow> w < Suc t \<longrightarrow> led h w \<longrightarrow> prefix (first_of h u k) (hy_logs h w)"
    have "prefix (first_of h u k) (hy_logs h t)"
      using later assms(2) a(2) by (cases "u = t") (auto simp: take_is_prefix)
    moreover have "prefix (first_of h u k) l" using l a later unfolding log_fits_def retains_def by blast
    ultimately show "prefix (first_of h u k) m" using keep by blast
  qed
  then show ?thesis using l assms(3,4) unfolding log_fits_def by blast
qed

section \<open>The end of a step\<close>

lemma agreed_take: "agreed n h l \<Longrightarrow> agreed n h (take k l)"
  unfolding agreed_def by (metis length_take min.coboundedI1 prefix_order.trans take_is_prefix take_eq_Nil)

lemma scan_agreed:
  assumes lead: "leader_fits c h s" and old: "agreed (cfg_size c) h (take (rf_commit s) (rf_log s))" and i: "cfg_id c < cfg_size c"
  shows "m \<le> length (rf_log s) \<Longrightarrow> agreed (cfg_size c) h (take (advance_scan c s m) (rf_log s))"
proof (induction m)
  case 0
  then show ?case using old by simp
next
  case (Suc m)
  let ?n = "cfg_size c" and ?t = "rf_term s"
  show ?case
  proof (cases "\<not> Suc m \<le> rf_commit s \<and> term_at s (Suc m) = ?t \<and> majority c (1 + length (filter (\<lambda>p. rf_match s ! p \<ge> Suc m) (peers c)))")
    case True
    let ?P = "set (filter (\<lambda>p. rf_match s ! p \<ge> Suc m) (peers c))"
    have "acked h p ?t (Suc m)" if "p \<in> ?P" for p
    proof -
      have "acked h p ?t (rf_match s ! p)" using that lead by (auto simp: leader_fits_def peers_def)
      then show ?thesis using that by (auto elim: acked_less)
    qed
    moreover have "acked h (cfg_id c) ?t (Suc m)" using lead Suc.prems acked_less unfolding leader_fits_def by blast
    ultimately have "insert (cfg_id c) ?P \<subseteq> {p. p < ?n \<and> acked h p ?t (Suc m)}" using i by (auto simp: peers_def)
    then have "card (insert (cfg_id c) ?P) \<le> card {p. p < ?n \<and> acked h p ?t (Suc m)}" by (intro card_mono) auto
    moreover have "card (insert (cfg_id c) ?P) = 1 + length (filter (\<lambda>p. rf_match s ! p \<ge> Suc m) (peers c))"
      using distinct_card [of "filter (\<lambda>p. rf_match s ! p \<ge> Suc m) (peers c)"] by (simp add: peers_def)
    ultimately have "2 * card {p. p < ?n \<and> acked h p ?t (Suc m)} > ?n" using True by (simp add: majority_def)
    moreover have "rf_log s = hy_logs h ?t" using lead by (simp add: leader_fits_def)
    ultimately have "committed ?n h ?t (Suc m)" "prefix (take (Suc m) (rf_log s)) (hy_logs h ?t)"
      using True Suc.prems by (simp_all add: committed_def term_at_def entry_term_at_def take_is_prefix)
    then have "agreed ?n h (take (Suc m) (rf_log s))" unfolding agreed_def by (metis length_take min.cobounded2)
    then show ?thesis using True by simp
  qed (use Suc old in auto)
qed

lemma applied_agreed:
  assumes "commit_fits n h s" "rf_commit s \<le> length (rf_log s)"
  shows "commit_fits n h (apply_committed s)"
proof -
  have "entry_agreed n h k (rf_log s ! (k - 1))" if "1 \<le> k" "k \<le> rf_commit s" for k
  proof -
    have "agreed n h (take (rf_commit s) (rf_log s))" using assms(1) by (simp add: commit_fits_def)
    moreover have "k \<le> length (take (rf_commit s) (rf_log s))" using that assms(2) by simp
    moreover have "take (rf_commit s) (rf_log s) ! (k - 1) = rf_log s ! (k - 1)" using that by simp
    ultimately show ?thesis using that(1) unfolding entry_agreed_def by blast
  qed
  then show ?thesis using assms(1) by (auto simp: commit_fits_def apply_committed_def)
qed

lemma finish_fits:
  assumes f: "fits c h s"
  shows "fits c h (finish c s)"
proof (rule fitsI)
  note p = fits_parts [OF f]
  have bound: "rf_commit s \<le> length (rf_log s)" using p(2) by (simp add: raft_inv_def last_index_def)
  show "raft_ok c (finish c s)" by (rule finish_ok [OF p(2)])
  show "disk_fits (cfg_id c) h (durable_of (finish c s))" using p(4) by (simp add: durable_of_def)
  show "role_fits c h (finish c s)" using p(5) by (auto simp: role_fits_def leader_fits_def)
  show "calls_fit c h (finish c s)" by (rule calls_fit_subset [OF p(7) out_finish])
  show "commit_fits (cfg_size c) h (finish c s)"
  proof (cases "rf_stopped s \<or> rf_stopped (persist c s)")
    case True
    then show ?thesis using p(6) by (auto simp: finish_def Let_def commit_fits_def)
  next
    case False
    let ?s = "if rf_role s = Leader then advance_commit c (persist c s) else persist c s"
    have "rf_commit ?s \<le> length (rf_log s)"
      using bound advance_scan_bounds [of "last_index s" "persist c s" c] by (simp add: advance_commit_def last_index_def)
    moreover have "agreed (cfg_size c) h (take (advance_scan c (persist c s) (length (rf_log s))) (rf_log s))" if "rf_role s = Leader"
    proof -
      have "leader_fits c h (persist c s)" using p(5) that by (auto simp: role_fits_def leader_fits_def)
      then show ?thesis using scan_agreed [of c h "persist c s"] p(6) fits_id [OF f] by (simp add: commit_fits_def)
    qed
    then have "commit_fits (cfg_size c) h ?s" using p(6) by (auto simp: commit_fits_def advance_commit_def last_index_def)
    ultimately have "commit_fits (cfg_size c) h (apply_committed ?s)" by (intro applied_agreed) (auto split: if_splits)
    moreover have "finish c s = resolve_reads c (apply_committed ?s)" using False by (simp add: finish_def Let_def)
    ultimately show ?thesis by (simp add: commit_fits_def)
  qed
qed (use fits_parts(1,3) [OF f] in simp_all)

lemma recorded_quiet: "recorded c h s \<Longrightarrow> (\<And>h'. fits c h' s \<Longrightarrow> fits c h' s') \<Longrightarrow> recorded c h s'"
  by (auto simp: recorded_def)

lemma finish_recorded: "recorded c h s \<Longrightarrow> recorded c h (finish c s)"
  by (erule recorded_quiet) (rule finish_fits)

section \<open>Inputs\<close>

lemma tick_recorded:
  assumes f: "fits c h s"
  shows "recorded c h (tick c now s)"
  using recorded_same [OF f] recorded_same [OF finish_fits [OF f]] finish_recorded [OF election_recorded [OF f, of now]]
    recorded_same [OF finish_fits [OF follower_fits [OF f]]] recorded_same [OF finish_fits [OF fold_fits [OF f tick_peer_fits]]]
  by (simp add: tick_def)

lemma handle_vote_recorded:
  assumes f: "fits c h s" and cl: "(vq_term req, vq_candidate req, cl) \<in> hy_cands h" "vq_last_index req = length cl" "vq_last_term req = last_term cl"
  shows "recorded c h (snd (handle_vote c req now s))"
proof (cases "rf_stopped s")
  case True
  then show ?thesis using recorded_same [OF f] by (simp add: handle_vote_def)
next
  case False
  define s1 where "s1 = (if vq_term req > rf_term s then become_follower c (vq_term req) None now s else s)"
  have f1: "fits c h s1" using f follower_fits by (auto simp: s1_def)
  define grant where "grant = (vq_term req = rf_term s1 \<and> (rf_voted_for s1 = None \<or> rf_voted_for s1 = Some (vq_candidate req)) \<and>
    log_at_least_as_up_to_date s1 (vq_last_term req) (vq_last_index req))"
  have given: "recorded c h (s1\<lparr>rf_voted_for := Some (vq_candidate req)\<rparr>)" if grant
  proof (rule grant_recorded [OF f1])
    show "(rf_term s1, vq_candidate req, cl) \<in> hy_cands h" using cl(1) that by (simp add: grant_def)
    show "up_to_date cl (rf_log s1)"
      using cl(2,3) that by (auto simp: grant_def log_at_least_as_up_to_date_def up_to_date_def Let_def last_term_def term_at_def last_index_def)
  qed (use that in \<open>simp add: grant_def\<close>)
  have "recorded c h (reset_election_timer c now (changed_meta (s1\<lparr>rf_voted_for := Some (vq_candidate req)\<rparr>)))" if grant
    by (rule recorded_quiet [OF given [OF that]]) (simp add: fits_quiet)
  then have "recorded c h (finish c (if grant then reset_election_timer c now (changed_meta (s1\<lparr>rf_voted_for := Some (vq_candidate req)\<rparr>)) else s1))"
    using recorded_same [OF f1] by (intro finish_recorded) simp
  then show ?thesis using False by (simp only: handle_vote_def Let_def s1_def grant_def snd_conv if_False)
qed

lemma count_fits:
  assumes f: "fits c h s" and "(from, rf_term s, cfg_id c) \<in> hy_votes h" "rf_role s = Candidate"
  shows "fits c h (s\<lparr>rf_votes := (rf_votes s)[from := True]\<rparr>)"
proof (rule fitsI)
  note p = fits_parts [OF f]
  let ?s = "s\<lparr>rf_votes := (rf_votes s)[from := True]\<rparr>"
  show "raft_ok c ?s" by (rule raft_ok_updates(5) [OF p(2)])
  show "campaign c (hy_votes h) ?s" using p(3) assms(2,3) by (auto simp: campaign_def dest!: update_true)
  show "disk_fits (cfg_id c) h (durable_of ?s)" using p(4) by (simp add: durable_of_def)
  show "role_fits c h ?s" using p(5) assms(3) by (simp add: role_fits_def)
  show "commit_fits (cfg_size c) h ?s" using p(6) by (simp add: commit_fits_def)
  show "calls_fit c h ?s" using p(7) by (simp add: calls_fit_def)
qed (rule fits_parts(1) [OF f])

lemma handle_vote_reply_recorded:
  assumes f: "fits c h s" and "vr_granted reply \<Longrightarrow> (from, vq_term sent, cfg_id c) \<in> hy_votes h"
  shows "recorded c h (handle_vote_reply c from sent reply now s)"
proof -
  let ?s = "s\<lparr>rf_votes := (rf_votes s)[from := True]\<rparr>"
  have "recorded c h (if majority c (count_true (rf_votes ?s)) then become_leader c now ?s else ?s)"
    if "rf_role s = Candidate" "vq_term sent = rf_term s" "vr_granted reply"
  proof -
    have "fits c h ?s" using that assms(2) by (intro count_fits [OF f]) simp_all
    then show ?thesis using leader_recorded [of c h ?s now] that(1) recorded_same by auto
  qed
  then show ?thesis
    using recorded_same [OF f] recorded_same [OF follower_fits [OF f]] by (auto simp: handle_vote_reply_def Let_def intro!: finish_recorded)
qed

section \<open>Following a leader\<close>

lemma call_append_ok:
  assumes h: "history_ok n h" and call: "call_fits n h j (AppendCall i req)"
  shows "append_ok req"
proof -
  let ?l = "hy_logs h (aq_term req)" and ?k = "aq_prev_index req"
  obtain xs where xs: "drop ?k ?l = aq_entries req @ xs" using call by (auto simp: Let_def prefix_def)
  have s: "log_sorted ?l (aq_term req)" by (rule logs_sorted [OF h])
  have "sorted (map e_term (drop ?k ?l))" using s by (simp add: log_sorted_def drop_map [symmetric] sorted_wrt_drop)
  then have "sorted (map e_term (aq_entries req))" by (simp add: xs sorted_append)
  moreover have "entry_term_at ?l ?k \<le> e_term e" if "e \<in> set (aq_entries req)" for e
  proof -
    have "e \<in> set (drop ?k ?l)" using that xs by simp
    then obtain m where "m < length (drop ?k ?l)" "e = drop ?k ?l ! m" by (metis in_set_conv_nth)
    then have m: "?k + m < length ?l" "e = ?l ! (?k + m)" by simp_all
    then show ?thesis using s sorted_nth_mono [of "map e_term ?l" "?k - 1" "?k + m"] by (auto simp: entry_term_at_def log_sorted_def)
  qed
  moreover have "e_term e \<le> aq_term req" if "e \<in> set (aq_entries req)" for e
    using that s xs in_set_dropD [of e ?k ?l] by (simp add: log_sorted_def)
  ultimately show ?thesis using call by (simp add: append_ok_def Let_def)
qed

text \<open>The log after an APPEND, and what a crash may leave of it.\<close>

lemma merged_log_fits:
  assumes h: "history_ok n h" and call: "call_fits n h j (AppendCall i' req)" and l: "log_fits i h (aq_term req) l"
    and at: "aq_prev_index req \<le> length l" "entry_term_at l (aq_prev_index req) = aq_prev_term req"
    and m: "m = merge_log (aq_prev_index req) (aq_entries req) l"
  shows "prefix (first_of h (aq_term req) (aq_prev_index req + length (aq_entries req))) m"
    and "length (longest_common_prefix l m) \<le> k \<Longrightarrow> log_fits i h (aq_term req) (take k m)"
proof -
  let ?t = "aq_term req" and ?k = "aq_prev_index req" and ?es = "aq_entries req"
  let ?l = "hy_logs h ?t"
  have c: "consistent h l" "consistent h ?l" using l logs_consistent [OF h] by (simp_all add: log_fits_def)
  have r: "(?t, j) \<in> hy_led h" "?k + length ?es \<le> length ?l" "prefix ?es (drop ?k ?l)" "aq_prev_term req = entry_term_at ?l ?k"
    using call by (simp_all add: Let_def)
  have start: "take ?k l = take ?k ?l"
  proof (cases "?k")
    case (Suc b)
    then show ?thesis using log_matching [OF c, of b] at r(2,4) by (simp add: entry_term_at_def)
  qed simp
  note cases = merge_log_cases [OF c at(1) start r(3,2), folded m]
  have "take (?k + length ?es) m = first_of h ?t (?k + length ?es)" using cases by blast
  then show "prefix (first_of h ?t (?k + length ?es)) m" by (metis take_is_prefix)
  assume k: "length (longest_common_prefix l m) \<le> k"
  have "consistent h m" "log_sorted m ?t"
    using cases c l logs_sorted [OF h, of ?t] by (auto simp: log_fits_def intro: consistent_take log_sorted_take)
  then have "consistent h (take k m)" "log_sorted (take k m) ?t" by (simp_all add: consistent_take log_sorted_take)
  moreover have "prefix q (take k m)" if q: "prefix q l" "prefix q ?l" for q
  proof -
    have "prefix q m" using cases q by (auto intro: prefix_take)
    moreover from this have "prefix q (longest_common_prefix l m)" using q(1) by (intro longest_common_prefix_max_prefix)
    then have "length q \<le> k" using k prefix_length_le by fastforce
    ultimately show ?thesis by (rule prefix_take)
  qed
  ultimately show "log_fits i h ?t (take k m)" using r(1) by (intro log_fits_replaced [OF l]) (auto simp: led_def)
qed

lemma merge_recorded:
  assumes f: "fits c h s" and call: "call_fits (cfg_size c) h j (AppendCall i req)" and s: "rf_role s = Follower" "rf_term s = aq_term req"
    and at: "aq_prev_index req \<le> last_index s" "term_at s (aq_prev_index req) = aq_prev_term req"
    and s': "s' = append_entries (aq_prev_index req) (aq_entries req) s" "\<not> rf_stopped s'" "\<not> rf_stopped s"
    and m: "m = aq_prev_index req + length (aq_entries req)"
  shows "fits c (with_ack (cfg_id c) (aq_term req) m h) s'" "prefix (first_of h (aq_term req) m) (rf_log s')"
proof -
  note p = fits_parts [OF f]
  let ?t = "aq_term req" and ?h = "with_ack (cfg_id c) (aq_term req) m h"
  have bound: "rf_commit s \<le> length (rf_log s)" using p(2) by (simp add: raft_inv_def last_index_def)
  have log: "rf_log s' = merge_log (aq_prev_index req) (aq_entries req) (rf_log s)"
    "take (rf_commit s) (rf_log s') = take (rf_commit s) (rf_log s)"
    using append_entries_log [OF at(1) s'(3), of "aq_entries req"] s'(1,2) bound by (auto simp: last_index_def)
  note merged = merged_log_fits [OF p(1) call _ _ _ log(1)]
  have l: "log_fits (cfg_id c) h ?t (rf_log s)" using fits_log [OF f] s(2) by simp
  show pre: "prefix (first_of h ?t m) (rf_log s')" using merged(1) [OF l] at m by (simp add: last_index_def term_at_def)
  have "length (longest_common_prefix (rf_log s) (rf_log s')) \<le> length (rf_log s')" by (rule prefix_length_le [OF longest_common_prefix_prefix2])
  then have l': "log_fits (cfg_id c) h ?t (rf_log s')"
    using merged(2) [OF l, of "length (rf_log s')"] at by (simp add: last_index_def term_at_def)
  have g: "grows (cfg_id c) h ?h" by (rule with_ack_grows)
  show "fits c ?h s'"
  proof (rule fitsI)
    have "m \<le> length (hy_logs h ?t)" using call m by (simp add: Let_def)
    then show "history_ok (cfg_size c) ?h" using fits_vote [OF f] s(2) by (intro with_ack_ok [OF p(1)]) simp_all
    have "length (take (rf_commit s) (rf_log s')) = rf_commit s" using log(2) bound by simp
    then have "rf_commit s \<le> length (rf_log s')" by simp
    moreover have "log_sorted (rf_log s') ?t" using l' by (simp add: log_fits_def)
    ultimately show "raft_ok c s'" using p(2) s(2) by (simp add: raft_ok_simps s'(1))
    show "campaign c (hy_votes ?h) s'" using p(3) by (simp add: s'(1) campaign_def)
    show "disk_fits (cfg_id c) ?h (durable_of s')"
      using p(4) s(2) log_fits_ack [OF p(1) l' pre] by (simp add: s'(1) disk_fits_def durable_of_def vote_kept_def)
    show "role_fits c ?h s'" using s(1) by (simp add: role_fits_def s'(1))
    show "commit_fits (cfg_size c) ?h s'" using log(2) by (intro commit_fits_cong [OF p(6) g]) (simp_all add: s'(1))
    show "calls_fit c ?h s'" using calls_fit_grows [OF g p(7)] by (simp add: s'(1) calls_fit_def)
  qed
qed

lemma commit_follows:
  assumes f: "fits c h s" and call: "call_fits (cfg_size c) h j (AppendCall i req)" and "rf_role s = Follower"
    and pre: "prefix (first_of h (aq_term req) m) (rf_log s)"
  shows "fits c h (s\<lparr>rf_commit := min (aq_commit req) m\<rparr>)"
proof (rule fitsI)
  note p = fits_parts [OF f]
  let ?s = "s\<lparr>rf_commit := min (aq_commit req) m\<rparr>" and ?l = "hy_logs h (aq_term req)"
  have r: "aq_commit req \<le> length ?l" "agreed (cfg_size c) h (take (aq_commit req) ?l)" using call by (simp_all add: Let_def)
  let ?k = "min (aq_commit req) m"
  obtain xs where xs: "rf_log s = first_of h (aq_term req) m @ xs" using pre by (auto simp: prefix_def)
  have "take ?k (rf_log s) = take ?k (take (aq_commit req) ?l)" using r(1) by (simp add: xs min_def)
  then have "agreed (cfg_size c) h (take ?k (rf_log s))" using agreed_take [OF r(2), of ?k] by simp
  then show "commit_fits (cfg_size c) h ?s" using p(6) by (simp add: commit_fits_def)
  have "?k \<le> length (rf_log s)" using r(1) by (simp add: xs min_def)
  then show "raft_ok c ?s" using p(2) by (simp add: raft_ok_simps)
  show "campaign c (hy_votes h) ?s" using p(3) by (simp add: campaign_def)
  show "disk_fits (cfg_id c) h (durable_of ?s)" using p(4) by (simp add: durable_of_def)
  show "role_fits c h ?s" using assms(3) by (simp add: role_fits_def)
  show "calls_fit c h ?s" using p(7) by (simp add: calls_fit_def)
qed (rule fits_parts(1) [OF f])

text \<open>The first part of \<^verbatim>\<open>handle_append\<close>: the replica follows the leader of the request.\<close>

abbreviation following :: "'s RaftConfig \<Rightarrow> AppendRequest \<Rightarrow> Millis \<Rightarrow> 's Raft \<Rightarrow> 's Raft" where
  "following c req now s \<equiv> reset_election_timer c now (become_follower c (aq_term req) (Some (aq_leader req)) now s)"

lemma following_fits: "fits c h s \<Longrightarrow> fits c h (following c req now s)"
  by (intro fits_quiet follower_fits)

lemma handle_append_recorded:
  assumes f: "fits c h s" and call: "call_fits (cfg_size c) h j (AppendCall i req)"
  shows "\<exists>h'. grows (cfg_id c) h h' \<and> fits c h' (snd (handle_append c req now s)) \<and>
    (ar_success (fst (handle_append c req now s)) \<longrightarrow>
       acked h' (cfg_id c) (aq_term req) (aq_prev_index req + length (aq_entries req)))"
proof -
  let ?s1 = "following c req now s" and ?m = "aq_prev_index req + length (aq_entries req)"
  let ?s2 = "append_entries (aq_prev_index req) (aq_entries req) ?s1"
  have refused: ?thesis if "fits c h (snd (handle_append c req now s))" "\<not> ar_success (fst (handle_append c req now s))"
    using that grows_refl by blast
  consider (stopped) "rf_stopped s" | (old) "\<not> rf_stopped s" "aq_term req < rf_term s"
    | (far) "\<not> rf_stopped s" "\<not> aq_term req < rf_term s" "aq_prev_index req > last_index ?s1"
    | (differs) "\<not> rf_stopped s" "\<not> aq_term req < rf_term s" "\<not> aq_prev_index req > last_index ?s1" "term_at ?s1 (aq_prev_index req) \<noteq> aq_prev_term req"
    | (halts) "\<not> rf_stopped s" "\<not> aq_term req < rf_term s" "\<not> aq_prev_index req > last_index ?s1" "term_at ?s1 (aq_prev_index req) = aq_prev_term req"
        "rf_stopped ?s2"
    | (merges) "\<not> rf_stopped s" "\<not> aq_term req < rf_term s" "\<not> aq_prev_index req > last_index ?s1" "term_at ?s1 (aq_prev_index req) = aq_prev_term req"
        "\<not> rf_stopped ?s2" by blast
  then show ?thesis
  proof cases
    case stopped
    then show ?thesis using f by (intro refused) (simp_all add: handle_append_def)
  next
    case old
    then show ?thesis using finish_fits [OF f] by (intro refused) (simp_all add: handle_append_def Let_def)
  next
    case far
    then show ?thesis using finish_fits [OF following_fits [OF f]] by (intro refused) (simp_all add: handle_append_def Let_def)
  next
    case differs
    then show ?thesis using finish_fits [OF following_fits [OF f]] by (intro refused) (simp_all add: handle_append_def Let_def)
  next
    case halts
    have f1: "fits c h ?s1" by (rule following_fits [OF f])
    have "rf_log ?s2 = rf_log ?s1" using append_entries_log [of "aq_prev_index req" ?s1 "aq_entries req"] halts by simp
    then have "fits c h ?s2" using fits_parts(2) [OF f1] by (intro fits_cong [OF f1 _ f1]) (simp_all add: raft_ok_simps)
    then show ?thesis using halts by (intro refused) (simp_all add: handle_append_def Let_def)
  next
    case merges
    let ?h = "with_ack (cfg_id c) (aq_term req) ?m h"
    let ?s3 = "if aq_commit req > rf_commit ?s2 then ?s2\<lparr>rf_commit := min (aq_commit req) ?m\<rparr> else ?s2"
    have f2: "fits c ?h ?s2" "prefix (first_of h (aq_term req) ?m) (rf_log ?s2)"
      using merges by (intro merge_recorded [OF following_fits [OF f] call _ _ _ _ refl]; simp)+
    have "fits c ?h (?s2\<lparr>rf_commit := min (aq_commit req) ?m\<rparr>)"
      using f2(2) by (intro commit_follows [OF f2(1) call_fits_grows [OF with_ack_grows call]]) simp_all
    then have "fits c ?h ?s3" using f2(1) by simp
    then have "fits c ?h (finish c ?s3)" by (rule finish_fits)
    moreover have "snd (handle_append c req now s) = finish c ?s3"
      using merges by (simp add: handle_append_def Let_def)
    moreover have "acked ?h (cfg_id c) (aq_term req) ?m" by (simp add: acked_with_ack)
    ultimately show ?thesis using with_ack_grows by (intro exI [of _ ?h]) simp
  qed
qed

section \<open>Leading the others\<close>

text \<open>The loose ends of a reply in the leader's books.\<close>

lemma record_reply_match:
  "rf_match (record_reply from sent reply now s) =
     (if ar_success reply \<and> aq_prev_index sent + length (aq_entries sent) > rf_match s ! from
      then (rf_match s)[from := aq_prev_index sent + length (aq_entries sent)] else rf_match s)"
  by (simp add: record_reply_def Let_def)

lemma record_reply_next:
  "\<exists>v. rf_next (record_reply from sent reply now s) = (rf_next s)[from := v] \<and>
     (v \<le> rf_next s ! from \<or> ar_success reply \<and> v = Suc (aq_prev_index sent + length (aq_entries sent)))"
proof (cases "ar_success reply")
  case True
  then show ?thesis by (cases "rf_next s ! from < Suc (aq_prev_index sent + length (aq_entries sent))")
      (auto simp: record_reply_def Let_def intro: exI [of _ "rf_next s ! from"])
next
  case False
  define b where "b = max (rf_match s ! from + 1) (min (max (ar_index reply) 1) (aq_prev_index sent))"
  have "rf_next (record_reply from sent reply now s) = (rf_next s)[from := if b < rf_next s ! from then b else rf_next s ! from]"
    using False by (auto simp: record_reply_def Let_def b_def)
  then show ?thesis by (intro exI [of _ "if b < rf_next s ! from then b else rf_next s ! from"]) simp
qed

lemma record_reply_books:
  assumes "\<forall>p<n. rf_next s ! p \<le> k \<and> (0 < rf_match s ! p \<longrightarrow> A p (rf_match s ! p))" "length (rf_next s) = n" "length (rf_match s) = n" "from < n"
    and "ar_success reply \<Longrightarrow> Suc (aq_prev_index sent + length (aq_entries sent)) \<le> k \<and> A from (aq_prev_index sent + length (aq_entries sent))"
  shows "\<forall>p<n. rf_next (record_reply from sent reply now s) ! p \<le> k \<and>
    (0 < rf_match (record_reply from sent reply now s) ! p \<longrightarrow> A p (rf_match (record_reply from sent reply now s) ! p))"
proof -
  obtain v where v: "rf_next (record_reply from sent reply now s) = (rf_next s)[from := v]"
    "v \<le> rf_next s ! from \<or> ar_success reply \<and> v = Suc (aq_prev_index sent + length (aq_entries sent))"
    using record_reply_next by blast
  have "v \<le> k" using v(2) assms(1,4,5) by (metis le_trans)
  then show ?thesis unfolding v(1) record_reply_match using assms by (simp add: nth_list_update)
qed

lemma record_reply_fits:
  assumes f: "fits c h s" and "rf_role s = Leader" "rf_term s = aq_term sent"
    and call: "call_fits (cfg_size c) h (cfg_id c) (AppendCall from sent)"
    and ack: "ar_success reply \<Longrightarrow> acked h from (aq_term sent) (aq_prev_index sent + length (aq_entries sent))"
  shows "fits c h (record_reply from sent reply now s)"
proof (rule fitsI)
  note p = fits_parts [OF f]
  let ?s = "record_reply from sent reply now s"
  have lead: "leader_fits c h s" using p(5) assms(2) by (simp add: role_fits_def)
  have "length (rf_next s) = cfg_size c" "length (rf_match s) = cfg_size c" using p(2) by (simp_all add: raft_inv_def vectors_ok_def)
  then have "\<forall>q<cfg_size c. rf_next ?s ! q \<le> Suc (length (rf_log s)) \<and> (0 < rf_match ?s ! q \<longrightarrow> acked h q (rf_term s) (rf_match ?s ! q))"
    using lead call ack assms(3)
    by (intro record_reply_books [where A = "\<lambda>q. acked h q (rf_term s)"]) (auto simp: leader_fits_def Let_def)
  then have "leader_fits c h ?s" using lead by (auto simp: leader_fits_def)
  then show "role_fits c h ?s" using assms(2) by (simp add: role_fits_def)
  show "raft_ok c ?s" by (rule record_reply_ok [OF p(2)])
  show "campaign c (hy_votes h) ?s" using p(3) by (simp add: campaign_def)
  show "disk_fits (cfg_id c) h (durable_of ?s)" using p(4) by (simp add: durable_of_def)
  show "commit_fits (cfg_size c) h ?s" using p(6) by (simp add: commit_fits_def)
  show "calls_fit c h ?s" using p(7) by (simp add: calls_fit_def)
qed (rule fits_parts(1) [OF f])

lemma handle_append_reply_fits:
  assumes f: "fits c h s" and call: "call_fits (cfg_size c) h (cfg_id c) (AppendCall from sent)"
    and ack: "ar_success reply \<Longrightarrow> acked h from (aq_term sent) (aq_prev_index sent + length (aq_entries sent))"
  shows "fits c h (handle_append_reply c from sent reply now s)"
proof -
  have "fits c h (send_if_due c now False from (record_reply from sent reply now s))" if "rf_role s = Leader" "rf_term s = aq_term sent"
    using call ack by (intro send_if_due_fits record_reply_fits [OF f that]) simp_all
  then show ?thesis using f by (auto simp: handle_append_reply_def intro: finish_fits follower_fits)
qed

lemma call_failed_fits: "fits c h s \<Longrightarrow> fits c h (call_failed c to sent now s)"
  by (auto simp: call_failed_def Let_def intro!: fits_quiet split: Outgoing.splits)

lemma propose_step_recorded:
  assumes "fits c h s"
  shows "recorded c h (snd (propose c command now s))"
proof (cases "rf_stopped s \<or> rf_role s \<noteq> Leader")
  case True
  then show ?thesis using recorded_same [OF assms] by (simp add: propose_def)
next
  case False
  let ?s = "s\<lparr>rf_log := rf_log s @ [\<lparr>e_term = rf_term s, e_command = command\<rparr>]\<rparr>"
  have "recorded c h (changed_from (last_index ?s) ?s)" using False by (intro propose_recorded [OF assms]) simp
  then have "recorded c h (finish c (fold (send_if_due c now False) (peers c) (changed_from (last_index ?s) ?s)))"
    by (rule recorded_quiet) (intro finish_fits fold_fits send_if_due_fits)
  then show ?thesis using False by (simp add: propose_def Let_def)
qed

lemma read_fits:
  assumes "fits c h s"
  shows "fits c h (snd (read c i now s))"
  using assms by (auto simp: read_def Let_def intro!: finish_fits fold_fits send_if_due_fits fits_quiet)

section \<open>Every input\<close>

text \<open>What has reached a replica fits the history.\<close>

fun input_fits :: "'s RaftConfig \<Rightarrow> History \<Rightarrow> Input \<Rightarrow> bool" where
  "input_fits c h (Vote req now) \<longleftrightarrow> (\<exists>j. call_fits (cfg_size c) h j (VoteCall (cfg_id c) req))"
| "input_fits c h (Append req now) \<longleftrightarrow> (\<exists>j. call_fits (cfg_size c) h j (AppendCall (cfg_id c) req))"
| "input_fits c h (VoteReplied p sent reply now) \<longleftrightarrow>
     call_fits (cfg_size c) h (cfg_id c) (VoteCall p sent) \<and> (vr_granted reply \<longrightarrow> (p, vq_term sent, vq_candidate sent) \<in> hy_votes h)"
| "input_fits c h (AppendReplied p sent reply now) \<longleftrightarrow>
     call_fits (cfg_size c) h (cfg_id c) (AppendCall p sent) \<and>
     (ar_success reply \<longrightarrow> acked h p (aq_term sent) (aq_prev_index sent + length (aq_entries sent)))"
| "input_fits c h _ \<longleftrightarrow> True"

text \<open>And so does the answer.\<close>

fun answer_fits :: "'s RaftConfig \<Rightarrow> History \<Rightarrow> Input \<Rightarrow> 's Raft \<Rightarrow> bool" where
  "answer_fits c h (Vote req now) s \<longleftrightarrow>
     (vr_granted (fst (handle_vote c req now s)) \<longrightarrow> (cfg_id c, vq_term req, vq_candidate req) \<in> hy_votes h)"
| "answer_fits c h (Append req now) s \<longleftrightarrow>
     (ar_success (fst (handle_append c req now s)) \<longrightarrow>
        acked h (cfg_id c) (aq_term req) (aq_prev_index req + length (aq_entries req)))"
| "answer_fits c h _ s \<longleftrightarrow> True"

lemma vote_answer_fits:
  assumes "fits c h (snd (handle_vote c req now s))"
  shows "answer_fits c h (Vote req now) s"
  using handle_vote_granted [of c req now s] fits_parts(4) [OF assms] by (auto simp: disk_fits_def durable_of_def)

lemma step_recorded:
  assumes f: "fits c h s" and x: "input_fits c h x"
  shows "\<exists>h'. grows (cfg_id c) h h' \<and> fits c h' (raft_step c x s) \<and> answer_fits c h' x s"
proof (cases x)
  case (Vote req now)
  then obtain cl where "(vq_term req, vq_candidate req, cl) \<in> hy_cands h" "vq_last_index req = length cl" "vq_last_term req = last_term cl"
    using x by auto
  then have "recorded c h (raft_step c x s)" unfolding Vote raft_step.simps by (rule handle_vote_recorded [OF f])
  then show ?thesis using vote_answer_fits Vote by (fastforce simp: recorded_def)
next
  case (Append req now)
  then obtain j where "call_fits (cfg_size c) h j (AppendCall (cfg_id c) req)" using x by auto
  from handle_append_recorded [OF f this] show ?thesis using Append by simp
next
  case (VoteReplied p sent reply now)
  then have "recorded c h (raft_step c x s)" using x by (auto intro!: handle_vote_reply_recorded [OF f])
  then show ?thesis using VoteReplied by (simp add: recorded_def)
next
  case (AppendReplied p sent reply now)
  then have "fits c h (raft_step c x s)" using x by (auto intro!: handle_append_reply_fits [OF f])
  then show ?thesis using AppendReplied grows_refl by fastforce
next
  case (Tick now)
  then show ?thesis using tick_recorded [OF f] by (simp add: recorded_def)
next
  case (CallFailed to sent now)
  then show ?thesis using call_failed_fits [OF f] grows_refl by fastforce
next
  case (Propose command now)
  then show ?thesis using propose_step_recorded [OF f] by (simp add: recorded_def)
next
  case (Read i now)
  then show ?thesis using read_fits [OF f] grows_refl by fastforce
qed

end
