(* ===== verification/Raft_Crash.thy ===== *)
theory Raft_Crash
  imports Raft_Turns
begin

text \<open>
  Crashes of one replica: what its disk may hold when the process dies in the middle of a save, and that
  the history of the group records it; and a replica that starts on such a disk.
\<close>

section \<open>What a disk holds after a crash\<close>

text \<open>
  The records of a save are the term and the vote, the cut of the log and the entries one by one
  (\<^verbatim>\<open>save\<close> of \<^verbatim>\<open>src/raft_log.cpp\<close>), and replay stops at the first that is not whole. So the disk holds the
  old state, or the new term and vote with the old log or with the new one up to some entry; what the two
  logs have in common is there in either case.
\<close>

definition recovers :: "Durable \<Rightarrow> Durable \<Rightarrow> Durable \<Rightarrow> bool" where
  "recovers old new d \<longleftrightarrow>
     d = old \<or>
     d_term d = d_term new \<and> d_voted_for d = d_voted_for new \<and>
     (d_log d = d_log old \<or>
      prefix (d_log d) (d_log new) \<and> length (longest_common_prefix (d_log old) (d_log new)) \<le> length (d_log d))"

text \<open>That this is what the log file of \<^verbatim>\<open>src/raft_log.cpp\<close> holds.\<close>

lemma replay_some_entries:
  assumes "log_sorted log t" "t < wire_max" "Suc (length log) < wire_max"
    and "\<forall>e\<in>set log. command_fits (e_command e)" "n \<le> m" "m \<le> length log"
  shows "replay_all (map (entry_body log) [Suc n..<Suc m]) \<lparr>d_term = t, d_voted_for = v, d_log = take n log\<rparr>
    = Some \<lparr>d_term = t, d_voted_for = v, d_log = take m log\<rparr>"
proof -
  let ?log = "take m log"
  have "log_sorted ?log t" by (rule log_sorted_take [OF assms(1)])
  moreover have "\<forall>e\<in>set ?log. command_fits (e_command e)" using assms(4) in_set_takeD by fastforce
  moreover have "map (entry_body ?log) [Suc n..<Suc m] = map (entry_body log) [Suc n..<Suc m]"
    by (rule map_cong [OF refl]) (auto simp: entry_body_def)
  moreover have "length ?log = m" "take n ?log = take n log" using assms(5,6) by (simp_all add: min_absorb1)
  ultimately show ?thesis using replay_entries [of ?log t n v] assms(2,3,5,6) by (simp only: order.refl)
qed

lemma take_entry_bodies:
  assumes "1 \<le> from" "from \<le> Suc (length log)"
  shows "\<exists>m. from - 1 \<le> m \<and> m \<le> length log \<and> take j (map f [from..<Suc (length log)]) = map f [from..<Suc m]"
proof (cases "from + j \<le> Suc (length log)")
  case True
  then show ?thesis using assms by (intro exI [of _ "from + j - 1"]) (auto simp: take_map take_upt simp del: upt_Suc)
next
  case False
  then show ?thesis using assms by (intro exI [of _ "length log"]) (simp del: upt_Suc)
qed

lemma replay_part_recovers:
  assumes st: "fs_term st = d_term d" "fs_voted_for st = d_voted_for d" "fs_last st = length (d_log d)"
    and legal: "legal_save d t v from log" and fits: "durable_fits \<lparr>d_term = t, d_voted_for = v, d_log = log\<rparr>"
    and first: "from = Suc (length (longest_common_prefix (d_log d) log))"
    and run: "replay_all (take k (save_bodies st t v from log)) d = Some d'"
  shows "recovers d \<lparr>d_term = t, d_voted_for = v, d_log = log\<rparr> d'"
proof -
  define A where "A = (if t \<noteq> fs_term st \<or> v \<noteq> fs_voted_for st then [term_body t v] else [])"
  define B where "B = (if from \<le> fs_last st then [cut_body from] else [])"
  define d1 where "d1 = \<lparr>d_term = t, d_voted_for = v, d_log = d_log d\<rparr>"
  define d2 where "d2 = \<lparr>d_term = t, d_voted_for = v, d_log = take (from - 1) log\<rparr>"
  note l = legal [unfolded legal_save_def] and f = fits [unfolded durable_fits_def, simplified]
  have 1: "replay_all A d = Some d1" using l f st by (cases d) (auto simp: A_def d1_def replay_term)
  have 2: "replay_all B d1 = Some d2" using l f st by (auto simp: B_def d1_def d2_def replay_cut)
  have lens: "length A \<le> 1" "length B \<le> 1" by (simp_all add: A_def B_def)
  let ?b = "take (k - length A) B" and ?c = "take (k - length A - length B) (map (entry_body log) [from..<Suc (length log)])"
  have parts: "take k (save_bodies st t v from log) = take k A @ ?b @ ?c"
    unfolding save_bodies_def A_def [symmetric] B_def [symmetric] by (simp add: diff_diff_add del: upt_Suc)
  consider (none) "k < length A" | (meta) "length A \<le> k" "k - length A < length B" | (entries) "length A \<le> k" "length B \<le> k - length A" by linarith
  then show ?thesis
  proof cases
    case none
    then have "k = 0" using lens(1) by linarith
    then have "d' = d" using run by simp
    then show ?thesis by (simp add: recovers_def)
  next
    case meta
    then have "k - length A = 0" using lens by linarith
    then have "d' = d1" using run 1 meta(1) unfolding parts replay_all_append by simp
    then show ?thesis by (simp add: recovers_def d1_def)
  next
    case entries
    obtain m where m: "from - 1 \<le> m" "m \<le> length log" "?c = map (entry_body log) [from..<Suc m]"
      using take_entry_bodies l by blast
    have "replay_all ?c d2 = Some \<lparr>d_term = t, d_voted_for = v, d_log = take m log\<rparr>"
      using replay_some_entries [of log t "from - 1" m v] l f m(1,2) unfolding m(3) d2_def by (cases "from") (auto simp del: upt_Suc)
    then have "d' = \<lparr>d_term = t, d_voted_for = v, d_log = take m log\<rparr>" using run 1 2 entries unfolding parts replay_all_append by simp
    then show ?thesis using m(1,2) first by (simp add: recovers_def take_is_prefix)
  qed
qed

text \<open>
  C13. A torn save: when the process dies while it writes a save of which the first changed index is
  \<open>from\<close>, with any part of the batch in the file, opening the file gives the state before the save, or the new term
  and vote with the old log, or these with the new log up to some entry at or after the first changed one.
\<close>

theorem torn_save_recovers:
  assumes "file_holds P st d" "legal_save d t v from log" "durable_fits \<lparr>d_term = t, d_voted_for = v, d_log = log\<rparr>"
    and "from = Suc (length (longest_common_prefix (d_log d) log))"
    and "batch = batch_text P (save_bodies st t v from log)" "length batch \<le> LOG_TAIL_LIMIT"
    and "io_text io = Some (fs_file st @ take n batch)" "io_append io" "io_cut io"
  shows "\<exists>st' d' report. open_log P path io disk = Inr (st', d', report) \<and> file_holds P st' d' \<and>
    recovers d \<lparr>d_term = t, d_voted_for = v, d_log = log\<rparr> d'"
proof -
  obtain st' d' report k where k: "open_log P path io disk = Inr (st', d', report)" "file_holds P st' d'"
    "replay_all (take k (save_bodies st t v from log)) d = Some d'"
    using crash_reopens [OF assms(1-3) refl _ _ assms(8,9), of n path disk] assms(5-7) by blast
  have "fs_term st = d_term d" "fs_voted_for st = d_voted_for d" "fs_last st = length (d_log d)" using assms(1) by (simp_all add: file_holds_def)
  from replay_part_recovers [OF this assms(2-4) k(3)] show ?thesis using k(1,2) by blast
qed

theorem torn_save_recovers_witness:
  "\<exists>st' d' report. open_log sample_platform ''raft.log'' torn_io (\<lambda>_. None) = Inr (st', d', report) \<and> file_holds sample_platform st' d' \<and>
    recovers empty_durable \<lparr>d_term = 1, d_voted_for = Some 0, d_log = [\<lparr>e_term = 1, e_command = ''NOOP''\<rparr>]\<rparr> d'"
proof -
  let ?log = "[\<lparr>e_term = 1, e_command = ''NOOP''\<rparr>]"
  have "legal_save empty_durable 1 (Some 0) 1 ?log" by (simp add: legal_save_def empty_durable_def log_sorted_def)
  moreover have "durable_fits \<lparr>d_term = 1, d_voted_for = Some 0, d_log = ?log\<rparr>" by (simp add: durable_fits_def command_fits_def)
  moreover have "1 = Suc (length (longest_common_prefix (d_log empty_durable) ?log))" by (simp add: empty_durable_def)
  moreover have "sample_batch = batch_text sample_platform (save_bodies fresh_file 1 (Some 0) 1 ?log)" by (simp add: sample_batch_def)
  moreover have "length sample_batch \<le> LOG_TAIL_LIMIT" using sample_batch_length by (simp add: LOG_TAIL_LIMIT_def)
  moreover have "io_text torn_io = Some (fs_file fresh_file @ take 20 sample_batch)" "io_append torn_io" "io_cut torn_io"
    by (simp_all add: torn_io_def fresh_file_def)
  ultimately show ?thesis using torn_save_recovers [OF fresh_file_holds] by blast
qed

text \<open>Some history records the state \<open>d\<close> of a disk.\<close>

definition kept :: "'s RaftConfig \<Rightarrow> History \<Rightarrow> Durable \<Rightarrow> bool" where
  "kept c h d \<longleftrightarrow> (\<exists>h'. grows (cfg_id c) h h' \<and> history_ok (cfg_size c) h' \<and> disk_fits (cfg_id c) h' d)"

lemma kept_same: "fits c h s \<Longrightarrow> kept c h (durable_of s)"
  unfolding kept_def using fits_parts(1,4) grows_refl by blast

lemma kept_recorded: "recorded c h s \<Longrightarrow> kept c h (durable_of s)"
  unfolding kept_def recorded_def using fits_parts(1,4) by blast

lemma common_all: "longest_common_prefix l (l @ xs) = l"
  by (induction l) simp_all

text \<open>A log with at most one new entry.\<close>

lemma pushed_kept:
  assumes f: "fits c h s" and r: "recorded c h s'" and d: "recovers (durable_of s) (durable_of s') d"
    and log: "rf_log s' = rf_log s \<or> rf_log s' = rf_log s @ [e] \<and>
      (rf_term s' = rf_term s \<and> rf_voted_for s' = rf_voted_for s \<or> rf_term s' = Suc (rf_term s) \<and> rf_voted_for s' = Some (cfg_id c))"
  shows "kept c h d"
proof -
  have common: "longest_common_prefix (rf_log s) (rf_log s') = rf_log s" using log common_all [of _ "[]"] common_all by auto
  have "d = durable_of s \<or> d = durable_of s' \<or> d = \<lparr>d_term = rf_term s', d_voted_for = rf_voted_for s', d_log = rf_log s\<rparr>"
  proof (cases "d = durable_of s")
    case False
    then have new: "d_term d = rf_term s'" "d_voted_for d = rf_voted_for s'"
      and l: "d_log d = rf_log s \<or> prefix (d_log d) (rf_log s') \<and> length (rf_log s) \<le> length (d_log d)"
      using d common by (auto simp: recovers_def durable_of_def)
    have "d_log d = rf_log s \<or> d_log d = rf_log s'" using l log prefix_length_le by (fastforce simp: prefix_def append_eq_append_conv2 Cons_eq_append_conv)
    then show ?thesis using new by (auto simp: durable_of_def)
  qed simp
  then consider "d = durable_of s" | "d = durable_of s'"
    | "rf_log s' = rf_log s @ [e]" "d = durable_of (standing c 0 s)" using log by (auto simp: durable_of_def)
  then show ?thesis using kept_same [OF f] kept_recorded [OF r] kept_recorded [OF stand_recorded [OF f]] by cases simp_all
qed

lemma step_pushes:
  assumes "\<forall>req now. x \<noteq> Append req now"
  shows "\<exists>e. rf_log (raft_step c x s) = rf_log s \<or> rf_log (raft_step c x s) = rf_log s @ [e] \<and>
    (rf_term (raft_step c x s) = rf_term s \<and> rf_voted_for (raft_step c x s) = rf_voted_for s \<or>
     rf_term (raft_step c x s) = Suc (rf_term s) \<and> rf_voted_for (raft_step c x s) = Some (cfg_id c))"
proof (cases x)
  case (Tick now)
  then show ?thesis by (auto simp: tick_def noop_log_def)
next
  case (Vote req now)
  then show ?thesis by (simp add: handle_vote_def Let_def)
next
  case (VoteReplied p sent reply now)
  then show ?thesis by (auto simp: handle_vote_reply_def Let_def)
next
  case (CallFailed to sent now)
  then show ?thesis by (simp add: call_failed_def Let_def split: Outgoing.splits)
next
  case (Propose command now)
  then show ?thesis by (auto simp: propose_def Let_def)
qed (use assms in \<open>simp_all add: handle_append_reply_def read_def Let_def\<close>)

lemma append_durable:
  assumes s1_def: "s1 = following c req now s" and s'_def: "s' = snd (handle_append c req now s)"
  shows "durable_of s' = durable_of s \<or> durable_of s' = durable_of s1 \<or>
    rf_log s' = merge_log (aq_prev_index req) (aq_entries req) (rf_log s) \<and> rf_term s' = rf_term s1 \<and> rf_voted_for s' = rf_voted_for s1 \<and>
    aq_prev_index req \<le> length (rf_log s) \<and> entry_term_at (rf_log s) (aq_prev_index req) = aq_prev_term req \<and> rf_term s1 = aq_term req"
proof (cases "rf_stopped s \<or> aq_term req < rf_term s")
  case True
  then show ?thesis by (auto simp: s'_def handle_append_def Let_def durable_of_def)
next
  case running: False
  let ?s2 = "append_entries (aq_prev_index req) (aq_entries req) s1"
  show ?thesis
  proof (cases "aq_prev_index req \<le> last_index s1 \<and> term_at s1 (aq_prev_index req) = aq_prev_term req")
    case False
    then show ?thesis using running by (auto simp: s'_def s1_def handle_append_def Let_def durable_of_def)
  next
    case True
    have "\<not> rf_stopped s1" using running by (simp add: s1_def)
    then have log: "rf_log ?s2 = (if rf_stopped ?s2 then rf_log s1 else merge_log (aq_prev_index req) (aq_entries req) (rf_log s1))"
      using append_entries_log [of "aq_prev_index req" s1 "aq_entries req"] True by blast
    have "rf_log s' = rf_log ?s2" "rf_term s' = rf_term s1" "rf_voted_for s' = rf_voted_for s1"
      using running True by (auto simp: s'_def s1_def handle_append_def Let_def)
    then show ?thesis using log True running by (cases "rf_stopped ?s2") (auto simp: durable_of_def s1_def last_index_def term_at_def)
  qed
qed

lemma append_kept:
  assumes f: "fits c h s" and call: "call_fits (cfg_size c) h j (AppendCall i req)"
    and d: "recovers (durable_of s) (durable_of (snd (handle_append c req now s))) d"
  shows "kept c h d"
proof -
  let ?s1 = "following c req now s" and ?s' = "snd (handle_append c req now s)"
  have f1: "fits c h ?s1" by (rule following_fits [OF f])
  have r: "recorded c h ?s'" using handle_append_recorded [OF f call, of now] by (auto simp: recorded_def)
  show ?thesis
  proof (cases "d = durable_of s \<or> rf_log ?s' = rf_log s")
    case True
    then show ?thesis using pushed_kept [OF f r d] kept_same [OF f] by auto
  next
    case False
    then have m: "rf_log ?s' = merge_log (aq_prev_index req) (aq_entries req) (rf_log s)" "rf_term ?s' = rf_term ?s1" "rf_voted_for ?s' = rf_voted_for ?s1"
        "aq_prev_index req \<le> length (rf_log s)" "entry_term_at (rf_log s) (aq_prev_index req) = aq_prev_term req" "rf_term ?s1 = aq_term req"
      using append_durable [OF refl refl, of c req now s] by (auto simp: durable_of_def)
    have d': "d_term d = aq_term req" "d_voted_for d = rf_voted_for ?s1"
      and l: "d_log d = rf_log s \<or> prefix (d_log d) (rf_log ?s') \<and> length (longest_common_prefix (rf_log s) (rf_log ?s')) \<le> length (d_log d)"
      using d False m(2,3,6) by (auto simp: recovers_def durable_of_def)
    have fit: "log_fits (cfg_id c) h (aq_term req) (rf_log s)" using fits_log [OF f1] m(6) by simp
    have "log_fits (cfg_id c) h (aq_term req) (d_log d)"
      using l
    proof
      assume p: "prefix (d_log d) (rf_log ?s') \<and> length (longest_common_prefix (rf_log s) (rf_log ?s')) \<le> length (d_log d)"
      then have "d_log d = take (length (d_log d)) (rf_log ?s')" by (auto simp: prefix_def)
      then show ?thesis using merged_log_fits(2) [OF fits_parts(1) [OF f] call fit m(4,5,1)] p by metis
    qed (use fit in simp)
    then have "disk_fits (cfg_id c) h d" using fits_parts(4) [OF f1] d' m(6) by (simp add: disk_fits_def durable_of_def vote_kept_def)
    then show ?thesis unfolding kept_def using fits_parts(1) [OF f] grows_refl by blast
  qed
qed

lemma step_kept:
  assumes f: "fits c h s" and x: "input_fits c h x" and d: "recovers (durable_of s) (durable_of (raft_step c x s)) d"
  shows "kept c h d"
proof (cases "\<exists>req now. x = Append req now")
  case True
  then obtain req now j where "x = Append req now" "call_fits (cfg_size c) h j (AppendCall (cfg_id c) req)" using x by auto
  then show ?thesis using append_kept [OF f] d by simp
next
  case False
  then obtain e where "rf_log (raft_step c x s) = rf_log s \<or> rf_log (raft_step c x s) = rf_log s @ [e] \<and>
    (rf_term (raft_step c x s) = rf_term s \<and> rf_voted_for (raft_step c x s) = rf_voted_for s \<or>
     rf_term (raft_step c x s) = Suc (rf_term s) \<and> rf_voted_for (raft_step c x s) = Some (cfg_id c))"
    using step_pushes [of x c s] by blast
  moreover have "recorded c h (raft_step c x s)" using step_recorded [OF f x] by (auto simp: recorded_def)
  ultimately show ?thesis using pushed_kept [OF f _ d] by blast
qed

section \<open>Starting\<close>

lemma boot_fits:
  assumes "history_ok (cfg_size c) h" "disk_fits (cfg_id c) h d" "cfg_id c < cfg_size c"
  shows "fits c h (raft_boot c st d)"
proof (rule fitsI)
  let ?s = "raft_boot c st d"
  have s: "rf_role ?s = Follower" "rf_commit ?s = 0" "rf_applies ?s = []" "rf_out ?s = []" "durable_of ?s = d"
    by (simp_all add: raft_boot_def Let_def durable_of_def)
  have "log_sorted (d_log d) (d_term d)" using assms(2) by (simp add: disk_fits_def log_fits_def)
  then show "raft_ok c ?s" using assms(3) by (intro raft_boot_ok)
  show "campaign c (hy_votes h) ?s" by (simp add: campaign_def raft_boot_def Let_def)
  show "disk_fits (cfg_id c) h (durable_of ?s)" using assms(2) s(5) by simp
  show "role_fits c h ?s" "commit_fits (cfg_size c) h ?s" "calls_fit c h ?s"
    using s by (simp_all add: role_fits_def commit_fits_def calls_fit_def agreed_def)
qed (rule assms(1))

lemma init_recorded:
  assumes "history_ok (cfg_size c) h" "disk_fits (cfg_id c) h d" "cfg_id c < cfg_size c"
  shows "recorded c h (raft_init c st d now)"
proof -
  have f: "fits c h (reset_election_timer c now (raft_boot c st d))" by (intro fits_quiet boot_fits assms)
  then show ?thesis using election_recorded [OF f] by (simp add: raft_init_def Let_def finish_recorded recorded_same finish_fits)
qed

lemma init_kept:
  assumes "history_ok (cfg_size c) h" "disk_fits (cfg_id c) h d" "cfg_id c < cfg_size c"
    and d': "recovers d (durable_of (raft_init c st d now)) d'"
  shows "kept c h d'"
proof -
  let ?s = "reset_election_timer c now (raft_boot c st d)"
  have f: "fits c h ?s" by (intro fits_quiet boot_fits assms)
  have "durable_of ?s = d" by (simp add: raft_boot_def Let_def durable_of_def)
  then have "recovers (durable_of ?s) (durable_of (raft_init c st d now)) d'" using d' by simp
  then show ?thesis
    by (rule pushed_kept [OF f init_recorded [OF assms(1-3)], where e = "\<lparr>e_term = Suc (rf_term ?s), e_command = ''NOOP''\<rparr>"])
      (simp add: raft_init_def Let_def noop_log_def)
qed

end
