(* ===== verification/Raft_Cluster.thy ===== *)
theory Raft_Cluster
  imports Raft_Crash
begin

text \<open>
  State machine safety of a group of replicas of \<^verbatim>\<open>src/raft.cpp\<close>: over a network that loses,
  delays, repeats and reorders messages, with replicas that crash at any time, also in the middle of a
  save, and start again on what the disk then holds, no two replicas ever apply different entries at one index.
\<close>

section \<open>The cluster\<close>

text \<open>
  The replicas and their disks; the calls sent so far and the answers given so far, each of which may be
  delivered late, many times or never; and every entry that any replica has ever applied.
\<close>

record 's Cluster =
  cl_replicas :: "nat \<Rightarrow> 's Raft"
  cl_disks :: "nat \<Rightarrow> Durable"
  cl_calls :: "(nat \<times> Outgoing) set"
  cl_votes :: "(nat \<times> VoteRequest \<times> VoteReply) set"
  cl_appends :: "(nat \<times> AppendRequest \<times> AppendReply) set"
  cl_applied :: "(Index \<times> Entry) set"

text \<open>
  What may reach replica \<open>i\<close>: calls addressed to it, answers to its own calls, and at any time the
  clock, a client's command or read, and the failure of a call.
\<close>

fun delivered :: "'s Cluster \<Rightarrow> nat \<Rightarrow> Input \<Rightarrow> bool" where
  "delivered g i (Vote req now) \<longleftrightarrow> VoteCall i req \<in> snd ` cl_calls g"
| "delivered g i (Append req now) \<longleftrightarrow> AppendCall i req \<in> snd ` cl_calls g"
| "delivered g i (VoteReplied p sent reply now) \<longleftrightarrow> (i, VoteCall p sent) \<in> cl_calls g \<and> (p, sent, reply) \<in> cl_votes g"
| "delivered g i (AppendReplied p sent reply now) \<longleftrightarrow> (i, AppendCall p sent) \<in> cl_calls g \<and> (p, sent, reply) \<in> cl_appends g"
| "delivered g i _ \<longleftrightarrow> True"

fun vote_answers :: "'s RaftConfig \<Rightarrow> Input \<Rightarrow> 's Raft \<Rightarrow> (nat \<times> VoteRequest \<times> VoteReply) set" where
  "vote_answers c (Vote req now) s = {(cfg_id c, req, fst (handle_vote c req now s))}"
| "vote_answers c _ s = {}"

fun append_answers :: "'s RaftConfig \<Rightarrow> Input \<Rightarrow> 's Raft \<Rightarrow> (nat \<times> AppendRequest \<times> AppendReply) set" where
  "append_answers c (Append req now) s = {(cfg_id c, req, fst (handle_append c req now s))}"
| "append_answers c _ s = {}"

text \<open>The disk after a turn that was not cut short: a replica that stops has failed to save.\<close>

definition saved :: "'s Raft \<Rightarrow> Durable \<Rightarrow> 's Raft \<Rightarrow> Durable \<Rightarrow> bool" where
  "saved s old s' d \<longleftrightarrow>
     (if rf_stopped s then d = old else if rf_stopped s' then recovers old (durable_of s') d else d = durable_of s')"

definition set_state :: "nat \<Rightarrow> 's Raft \<Rightarrow> Durable \<Rightarrow> 's Cluster \<Rightarrow> 's Cluster" where
  "set_state i s d g =
     g\<lparr>cl_replicas := (cl_replicas g)(i := s), cl_disks := (cl_disks g)(i := d), cl_applied := cl_applied g \<union> set (rf_applies s)\<rparr>"

definition with_answers :: "(nat \<times> VoteRequest \<times> VoteReply) set \<Rightarrow> (nat \<times> AppendRequest \<times> AppendReply) set \<Rightarrow> 's Cluster \<Rightarrow> 's Cluster" where
  "with_answers V A g = g\<lparr>cl_votes := cl_votes g \<union> V, cl_appends := cl_appends g \<union> A\<rparr>"

text \<open>A process that is not running.\<close>

definition dead :: "'s Raft \<Rightarrow> 's Raft" where
  "dead s = s\<lparr>rf_stopped := True, rf_out := []\<rparr>"

definition cluster_start :: "(nat \<Rightarrow> 's RaftConfig) \<Rightarrow> (nat \<Rightarrow> 's) \<Rightarrow> 's Cluster" where
  "cluster_start cfg st =
     \<lparr>cl_replicas = (\<lambda>i. dead (raft_boot (cfg i) (st i) empty_durable)), cl_disks = (\<lambda>_. empty_durable),
      cl_calls = {}, cl_votes = {}, cl_appends = {}, cl_applied = {}\<rparr>"

text \<open>
  The steps: a replica takes an input and answers it; it hands its calls to the network; its process dies
  while it saves what an input has changed (a process that dies between two inputs is one that starts
  again without it); it starts on what its disk holds.
\<close>

inductive cluster_step :: "(nat \<Rightarrow> 's RaftConfig) \<Rightarrow> nat \<Rightarrow> 's Cluster \<Rightarrow> 's Cluster \<Rightarrow> bool" for cfg n where
  turns: "i < n \<Longrightarrow> delivered g i x \<Longrightarrow> s = cl_replicas g i \<Longrightarrow> saved s (cl_disks g i) (raft_step (cfg i) x s) d \<Longrightarrow>
    cluster_step cfg n g (with_answers (vote_answers (cfg i) x s) (append_answers (cfg i) x s) (set_state i (raft_step (cfg i) x s) d g))"
| posts: "i < n \<Longrightarrow> take_outgoing (cl_replicas g i) = (out, s) \<Longrightarrow>
    cluster_step cfg n g (g\<lparr>cl_replicas := (cl_replicas g)(i := s), cl_calls := cl_calls g \<union> Pair i ` set out\<rparr>)"
| crashes: "i < n \<Longrightarrow> delivered g i x \<Longrightarrow> s = cl_replicas g i \<Longrightarrow> \<not> rf_stopped s \<Longrightarrow>
    recovers (cl_disks g i) (durable_of (raft_step (cfg i) x s)) d \<Longrightarrow> cluster_step cfg n g (set_state i (dead s) d g)"
| restarts: "i < n \<Longrightarrow> s = raft_init (cfg i) st (cl_disks g i) now \<Longrightarrow>
    (if rf_stopped s then recovers (cl_disks g i) (durable_of s) d else d = durable_of s) \<Longrightarrow>
    cluster_step cfg n g (set_state i s d g)"

section \<open>Clusters that fit a history\<close>

definition cluster_fits :: "(nat \<Rightarrow> 's RaftConfig) \<Rightarrow> nat \<Rightarrow> History \<Rightarrow> 's Cluster \<Rightarrow> bool" where
  "cluster_fits cfg n h g \<longleftrightarrow>
     (\<forall>i<n. disk_fits i h (cl_disks g i) \<and> calls_fit (cfg i) h (cl_replicas g i) \<and>
        (\<not> rf_stopped (cl_replicas g i) \<longrightarrow> fits (cfg i) h (cl_replicas g i) \<and> cl_disks g i = durable_of (cl_replicas g i)) \<and>
        (\<forall>(k, e)\<in>set (rf_applies (cl_replicas g i)). entry_agreed n h k e)) \<and>
     (\<forall>(j, x)\<in>cl_calls g. call_fits n h j x) \<and>
     (\<forall>(p, req, reply)\<in>cl_votes g. vr_granted reply \<longrightarrow> (p, vq_term req, vq_candidate req) \<in> hy_votes h) \<and>
     (\<forall>(p, req, reply)\<in>cl_appends g. ar_success reply \<longrightarrow> acked h p (aq_term req) (aq_prev_index req + length (aq_entries req))) \<and>
     (\<forall>(k, e)\<in>cl_applied g. entry_agreed n h k e)"

definition members :: "(nat \<Rightarrow> 's RaftConfig) \<Rightarrow> nat \<Rightarrow> bool" where
  "members cfg n \<longleftrightarrow> (\<forall>i<n. cfg_id (cfg i) = i \<and> cfg_size (cfg i) = n)"

text \<open>Replica \<open>i\<close> has moved on, and the history with it.\<close>

definition moved :: "(nat \<Rightarrow> 's RaftConfig) \<Rightarrow> nat \<Rightarrow> History \<Rightarrow> 's Raft \<Rightarrow> Durable \<Rightarrow> nat \<Rightarrow> bool" where
  "moved cfg n h s d i \<longleftrightarrow>
     disk_fits i h d \<and> calls_fit (cfg i) h s \<and> (\<not> rf_stopped s \<longrightarrow> fits (cfg i) h s \<and> d = durable_of s) \<and>
     (\<forall>(k, e)\<in>set (rf_applies s). entry_agreed n h k e)"

lemma set_state_fits:
  assumes g: "cluster_fits cfg n h g" and cfg: "members cfg n" and h: "history_ok n h" "grows i h h'" "history_ok n h'"
    and s: "moved cfg n h' s d i"
  shows "cluster_fits cfg n h' (set_state i s d g)"
proof -
  let ?g = "set_state i s d g"
  have old: "moved cfg n h' (cl_replicas g j) (cl_disks g j) j" if j: "j < n" "j \<noteq> i" for j
  proof -
    have r: "disk_fits j h (cl_disks g j)" "calls_fit (cfg j) h (cl_replicas g j)"
        "\<not> rf_stopped (cl_replicas g j) \<longrightarrow> fits (cfg j) h (cl_replicas g j) \<and> cl_disks g j = durable_of (cl_replicas g j)"
        "\<forall>(k, e)\<in>set (rf_applies (cl_replicas g j)). entry_agreed n h k e"
      using g j(1) by (simp_all add: cluster_fits_def)
    have "\<not> rf_stopped (cl_replicas g j) \<longrightarrow> fits (cfg j) h' (cl_replicas g j)"
      using fits_others [of "cfg j" h _ h' i] h(2,3) r(3) cfg j by (auto simp: members_def)
    moreover have "\<forall>(k, e)\<in>set (rf_applies (cl_replicas g j)). entry_agreed n h' k e" using r(4) entry_agreed_grows [OF h(2)] by fastforce
    ultimately show ?thesis
      using r(3) disk_fits_grows [OF h(1,2) r(1) j(2)] calls_fit_grows [OF h(2) r(2)] by (simp add: moved_def)
  qed
  have "\<forall>j<n. moved cfg n h' (cl_replicas ?g j) (cl_disks ?g j) j" using s old by (simp add: set_state_def)
  moreover have "\<forall>(j, x)\<in>cl_calls ?g. call_fits n h' j x" using g call_fits_grows [OF h(2)] by (fastforce simp: cluster_fits_def set_state_def)
  moreover have "\<forall>(p, req, reply)\<in>cl_votes ?g. vr_granted reply \<longrightarrow> (p, vq_term req, vq_candidate req) \<in> hy_votes h'"
    using g grows_sets(1) [OF h(2)] by (fastforce simp: cluster_fits_def set_state_def)
  moreover have "\<forall>(p, req, reply)\<in>cl_appends ?g. ar_success reply \<longrightarrow> acked h' p (aq_term req) (aq_prev_index req + length (aq_entries req))"
    using g acked_grows [OF h(2)] by (fastforce simp: cluster_fits_def set_state_def)
  moreover have "\<forall>(k, e)\<in>cl_applied ?g. entry_agreed n h' k e"
    using g entry_agreed_grows [OF h(2)] s by (fastforce simp: cluster_fits_def set_state_def moved_def)
  ultimately show ?thesis unfolding cluster_fits_def moved_def by blast
qed

text \<open>Stopping: nothing is sent, applied or granted.\<close>

lemma finish_stops: "rf_stopped (finish c s) \<Longrightarrow> rf_out (finish c s) = [] \<and> rf_applies (finish c s) = rf_applies s"
  by (auto simp: finish_def Let_def split: if_splits)

lemma step_stops:
  assumes "\<not> rf_stopped s" "rf_stopped (raft_step c x s)"
  shows "set (rf_out (raft_step c x s)) \<subseteq> set (rf_out s) \<and> rf_applies (raft_step c x s) = rf_applies s"
  using assms
proof (cases x)
  case (Append req now)
  then show ?thesis using assms by (auto simp: handle_append_def Let_def dest!: finish_stops split: if_splits)
next
  case (VoteReplied p sent reply now)
  then show ?thesis using assms by (auto simp: handle_vote_reply_def Let_def dest!: finish_stops split: if_splits)
next
  case (CallFailed to sent now)
  then show ?thesis using assms by (auto simp: call_failed_def Let_def split: Outgoing.splits if_splits)
qed (auto simp: tick_def handle_vote_def handle_append_reply_def propose_def read_def Let_def dest!: finish_stops split: if_splits)

lemma stopped_refuses: "rf_stopped (raft_step c x s) \<Longrightarrow> answer_fits c h x s"
proof (cases x)
  case (Vote req now)
  assume "rf_stopped (raft_step c x s)"
  then show ?thesis using handle_vote_granted [of c req now s] Vote by auto
next
  case (Append req now)
  assume "rf_stopped (raft_step c x s)"
  then show ?thesis using Append by (auto simp: handle_append_def Let_def split: if_splits)
qed simp_all

lemma stopped_stays: "rf_stopped s \<Longrightarrow> raft_step c x s = s"
  by (cases x) (simp_all add: tick_def handle_vote_def handle_append_def handle_vote_reply_def handle_append_reply_def call_failed_def
      propose_def read_def split: Outgoing.splits)

lemma answers_fit:
  assumes g: "cluster_fits cfg n h g" and "answer_fits c h x s"
  shows "cluster_fits cfg n h (with_answers (vote_answers c x s) (append_answers c x s) g)"
proof -
  let ?g = "with_answers (vote_answers c x s) (append_answers c x s) g"
  have "\<forall>(p, req, reply)\<in>vote_answers c x s. vr_granted reply \<longrightarrow> (p, vq_term req, vq_candidate req) \<in> hy_votes h"
    "\<forall>(p, req, reply)\<in>append_answers c x s. ar_success reply \<longrightarrow> acked h p (aq_term req) (aq_prev_index req + length (aq_entries req))"
    using assms(2) by (cases x; simp)+
  then show ?thesis using g unfolding cluster_fits_def with_answers_def by (simp add: ball_Un)
qed

lemma delivered_fits:
  assumes g: "cluster_fits cfg n h g" and "delivered g i x" and i: "cfg_id (cfg i) = i" "cfg_size (cfg i) = n"
  shows "input_fits (cfg i) h x"
proof -
  have calls: "call_fits n h j y" if "(j, y) \<in> cl_calls g" for j y using g that by (auto simp: cluster_fits_def)
  have "vr_granted reply \<longrightarrow> (p, vq_term req, vq_candidate req) \<in> hy_votes h" if "(p, req, reply) \<in> cl_votes g" for p req reply
    using g that by (auto simp: cluster_fits_def)
  moreover have "ar_success reply \<longrightarrow> acked h p (aq_term req) (aq_prev_index req + length (aq_entries req))"
    if "(p, req, reply) \<in> cl_appends g" for p req reply
    using g that by (auto simp: cluster_fits_def)
  ultimately show ?thesis using assms(2) calls unfolding i by (cases x) (fastforce simp: i simp del: call_fits.simps)+
qed

lemma turn_fits:
  assumes cfg: "members cfg n" and h: "history_ok n h" and g: "cluster_fits cfg n h g" and i: "i < n" "delivered g i x"
    and s: "s = cl_replicas g i" "saved s (cl_disks g i) (raft_step (cfg i) x s) d"
  shows "\<exists>h'. history_ok n h' \<and> cluster_fits cfg n h' (set_state i (raft_step (cfg i) x s) d g) \<and> answer_fits (cfg i) h' x s"
proof -
  let ?s = "raft_step (cfg i) x s"
  have ci: "cfg_id (cfg i) = i" "cfg_size (cfg i) = n" using cfg i(1) by (simp_all add: members_def)
  have x: "input_fits (cfg i) h x" by (rule delivered_fits [OF g i(2) ci])
  have r: "moved cfg n h s (cl_disks g i) i" using g i(1) s(1) unfolding cluster_fits_def moved_def by blast
  show ?thesis
  proof (cases "rf_stopped s")
    case True
    then have "moved cfg n h ?s d i" using r s(2) stopped_stays [of s "cfg i" x] by (simp add: saved_def)
    then have "cluster_fits cfg n h (set_state i ?s d g)" by (rule set_state_fits [OF g cfg h grows_refl h])
    then show ?thesis using h stopped_refuses [of "cfg i" x s] True stopped_stays [of s "cfg i" x] by auto
  next
    case run: False
    then have f: "fits (cfg i) h s" "cl_disks g i = durable_of s" using r by (simp_all add: moved_def)
    show ?thesis
    proof (cases "rf_stopped ?s")
      case True
      then have "recovers (durable_of s) (durable_of ?s) d" using s(2) run f(2) by (simp add: saved_def)
      then obtain h' where h': "grows i h h'" "history_ok n h'" "disk_fits i h' d" using step_kept [OF f(1) x] by (auto simp: kept_def ci)
      have stop: "set (rf_out ?s) \<subseteq> set (rf_out s)" "rf_applies ?s = rf_applies s" using step_stops [OF run True] by simp_all
      have "calls_fit (cfg i) h' ?s" by (rule calls_fit_subset [OF calls_fit_grows [OF h'(1) fits_parts(7) [OF f(1)]] stop(1)])
      moreover have "\<forall>(k, e)\<in>set (rf_applies ?s). entry_agreed n h' k e"
        using r entry_agreed_grows [OF h'(1)] unfolding stop(2) moved_def by fastforce
      ultimately have "moved cfg n h' ?s d i" using True h'(3) by (simp add: moved_def)
      then have "cluster_fits cfg n h' (set_state i ?s d g)" by (rule set_state_fits [OF g cfg h h'(1,2)])
      then show ?thesis using h'(2) stopped_refuses [OF True] by blast
    next
      case False
      obtain h' where h': "grows i h h'" "fits (cfg i) h' ?s" "answer_fits (cfg i) h' x s" using step_recorded [OF f(1) x] by (auto simp: ci)
      note p = fits_parts [OF h'(2), unfolded ci]
      have "d = durable_of ?s" using s(2) run False by (simp add: saved_def)
      then have "moved cfg n h' ?s d i" using h'(2) p by (simp add: moved_def commit_fits_def)
      then have "cluster_fits cfg n h' (set_state i ?s d g)" by (rule set_state_fits [OF g cfg h h'(1) p(1)])
      then show ?thesis using h'(3) p(1) by blast
    qed
  qed
qed

lemma crash_fits:
  assumes cfg: "members cfg n" and h: "history_ok n h" and g: "cluster_fits cfg n h g" and i: "i < n" "delivered g i x"
    and s: "s = cl_replicas g i" "\<not> rf_stopped s" "recovers (cl_disks g i) (durable_of (raft_step (cfg i) x s)) d"
  shows "\<exists>h'. history_ok n h' \<and> cluster_fits cfg n h' (set_state i (dead s) d g)"
proof -
  have ci: "cfg_id (cfg i) = i" "cfg_size (cfg i) = n" using cfg i(1) by (simp_all add: members_def)
  have x: "input_fits (cfg i) h x" by (rule delivered_fits [OF g i(2) ci])
  have r: "fits (cfg i) h s" "cl_disks g i = durable_of s" "\<forall>(k, e)\<in>set (rf_applies s). entry_agreed n h k e"
    using g i(1) s(1,2) by (auto simp: cluster_fits_def)
  obtain h' where h': "grows i h h'" "history_ok n h'" "disk_fits i h' d" using step_kept [OF r(1) x] s(3) r(2) by (auto simp: kept_def ci)
  have "\<forall>(k, e)\<in>set (rf_applies s). entry_agreed n h' k e" using r(3) entry_agreed_grows [OF h'(1)] by fastforce
  then have "moved cfg n h' (dead s) d i" using h'(3) by (simp add: moved_def dead_def calls_fit_def)
  then show ?thesis using set_state_fits [OF g cfg h h'(1,2)] h'(2) by blast
qed

lemma init_stops: "rf_stopped (raft_init c st d now) \<Longrightarrow> rf_out (raft_init c st d now) = [] \<and> rf_applies (raft_init c st d now) = []"
  by (auto simp: raft_init_def Let_def dest!: finish_stops) (simp_all add: raft_boot_def Let_def)

lemma restart_fits:
  assumes cfg: "members cfg n" and h: "history_ok n h" and g: "cluster_fits cfg n h g" and i: "i < n"
    and s: "s = raft_init (cfg i) st (cl_disks g i) now" "if rf_stopped s then recovers (cl_disks g i) (durable_of s) d else d = durable_of s"
  shows "\<exists>h'. history_ok n h' \<and> cluster_fits cfg n h' (set_state i s d g)"
proof -
  have ci: "cfg_id (cfg i) = i" "cfg_size (cfg i) = n" using cfg i(1) by (simp_all add: members_def)
  have ok: "history_ok (cfg_size (cfg i)) h" "disk_fits (cfg_id (cfg i)) h (cl_disks g i)" "cfg_id (cfg i) < cfg_size (cfg i)"
    using h g i by (simp_all add: ci cluster_fits_def)
  have "\<exists>h'. grows i h h' \<and> history_ok n h' \<and> moved cfg n h' s d i"
  proof (cases "rf_stopped s")
    case True
    then have "recovers (cl_disks g i) (durable_of (raft_init (cfg i) st (cl_disks g i) now)) d" using s by simp
    from init_kept [OF ok this] obtain h' where h': "grows i h h'" "history_ok n h'" "disk_fits i h' d" by (auto simp: kept_def ci)
    moreover have "rf_out s = []" "rf_applies s = []" using init_stops [of "cfg i" st "cl_disks g i" now] True s(1) by simp_all
    ultimately show ?thesis using True by (auto simp: moved_def calls_fit_def)
  next
    case False
    obtain h' where h': "grows i h h'" "fits (cfg i) h' s" using init_recorded [OF ok] s(1) by (auto simp: recorded_def ci)
    note p = fits_parts [OF h'(2), unfolded ci]
    have "moved cfg n h' s d i" using h'(2) p s(2) False by (simp add: moved_def commit_fits_def)
    then show ?thesis using h'(1) p(1) by blast
  qed
  then show ?thesis using set_state_fits [OF g cfg h] by blast
qed

lemma post_fits:
  assumes cfg: "members cfg n" and g: "cluster_fits cfg n h g" and i: "i < n" and out: "take_outgoing (cl_replicas g i) = (out, s)"
  shows "cluster_fits cfg n h (g\<lparr>cl_replicas := (cl_replicas g)(i := s), cl_calls := cl_calls g \<union> Pair i ` set out\<rparr>)"
proof -
  have ci: "cfg_id (cfg i) = i" "cfg_size (cfg i) = n" using cfg i(1) by (simp_all add: members_def)
  have s: "s = (cl_replicas g i)\<lparr>rf_out := []\<rparr>" "out = rf_out (cl_replicas g i)" using out by (simp_all add: take_outgoing_def)
  have r: "moved cfg n h (cl_replicas g i) (cl_disks g i) i" using g i unfolding cluster_fits_def moved_def by blast
  then have "\<forall>x\<in>set out. call_fits n h i x" by (simp add: moved_def calls_fit_def ci s(2))
  moreover have "durable_of s = durable_of (cl_replicas g i)" by (simp add: s(1) durable_of_def)
  then have "moved cfg n h s (cl_disks g i) i" using r fits_quiet(9) by (auto simp: s(1) moved_def calls_fit_def)
  ultimately show ?thesis using g by (auto simp: cluster_fits_def moved_def)
qed

lemma cluster_step_fits:
  assumes step: "cluster_step cfg n g g'" and cfg: "members cfg n" and h: "history_ok n h" "cluster_fits cfg n h g"
  shows "\<exists>h'. history_ok n h' \<and> cluster_fits cfg n h' g'"
  using step
proof cases
  case (turns i x s d)
  from turn_fits [OF cfg h turns(2-5)] show ?thesis unfolding turns(1) using answers_fit by blast
next
  case (posts i out s)
  then show ?thesis using post_fits [OF cfg h(2)] h(1) by blast
next
  case (crashes i x s d)
  then show ?thesis using crash_fits [OF cfg h] by blast
next
  case (restarts i s st now d)
  from restart_fits [OF cfg h restarts(2-4)] show ?thesis unfolding restarts(1) .
qed

text \<open>Before anything has happened.\<close>

definition no_history :: History where
  "no_history = \<lparr>hy_votes = {}, hy_early = {}, hy_cands = {}, hy_led = {}, hy_logs = (\<lambda>_. []), hy_acks = {}\<rparr>"

lemma start_fits: "history_ok n no_history \<and> cluster_fits cfg n no_history (cluster_start cfg st)"
proof -
  have "history_ok n no_history"
    by (simp add: no_history_def history_ok_def votes_ok_def early_ok_def cands_ok_def led_ok_def log_sorted_def consistent_def)
  moreover have "disk_fits i no_history empty_durable" for i
    by (simp add: no_history_def disk_fits_def empty_durable_def log_fits_def log_sorted_def consistent_def retains_def acked_def)
  moreover have "rf_applies (dead (raft_boot (cfg i) (st i) empty_durable)) = []" for i by (simp add: dead_def raft_boot_def Let_def)
  ultimately show ?thesis by (simp add: cluster_fits_def cluster_start_def dead_def calls_fit_def)
qed

lemma cluster_reachable_fits:
  assumes "(cluster_step cfg n)\<^sup>*\<^sup>* (cluster_start cfg st) g" "members cfg n"
  shows "\<exists>h. history_ok n h \<and> cluster_fits cfg n h g"
  using assms(1)
proof (induction rule: rtranclp_induct)
  case base
  then show ?case using start_fits by blast
next
  case (step g g')
  then show ?case using cluster_step_fits [OF step(2) assms(2)] by blast
qed

text \<open>
  C3. State machine safety: in every run of a group of replicas, with any loss, delay, repetition and
  reordering of messages and with crashes at any time, torn saves included, two entries that replicas
  ever applied at the same index are the same entry.
\<close>

theorem applied_entries_agree:
  assumes "members cfg n" "(cluster_step cfg n)\<^sup>*\<^sup>* (cluster_start cfg st) g"
    and "(k, e) \<in> cl_applied g" "(k, e') \<in> cl_applied g"
  shows "e = e'"
proof -
  obtain h where h: "history_ok n h" "cluster_fits cfg n h g" using cluster_reachable_fits [OF assms(2,1)] by blast
  then have all: "entry_agreed n h k x" if "(k, x) \<in> cl_applied g" for x using that by (auto simp: cluster_fits_def)
  obtain l l' where "agreed n h l" "1 \<le> k" "k \<le> length l" "l ! (k - 1) = e" "agreed n h l'" "k \<le> length l'" "l' ! (k - 1) = e'"
    using all [OF assms(3)] all [OF assms(4)] unfolding entry_agreed_def by blast
  then show ?thesis using agreed_nth [OF h(1), of l l' "k - 1"] by simp
qed

text \<open>
  Three replicas on the storage \<^verbatim>\<open>MemoryStorage\<close> of \<^verbatim>\<open>src/raft.h\<close>: the first asks the second for its vote,
  wins, sends it its first entry, and applies the entry when the second has it.
\<close>

definition three :: "nat \<Rightarrow> MemoryStorage RaftConfig" where
  "three i =
     \<lparr>cfg_id = i, cfg_size = 3, cfg_election = 1000, cfg_max_append_bytes = 64, cfg_spread = (\<lambda>_. 0), cfg_save = memory_save\<rparr>"

definition blank :: MemoryStorage where
  "blank = \<lparr>ms_durable = empty_durable, ms_saves = 0, ms_fail = False\<rparr>"

definition noop :: Entry where
  "noop = \<lparr>e_term = 1, e_command = ''NOOP''\<rparr>"

definition first_append :: AppendRequest where
  "first_append = \<lparr>aq_term = 1, aq_leader = 0, aq_prev_index = 0, aq_prev_term = 0, aq_entries = [noop], aq_commit = 0, aq_seq = 1\<rparr>"

abbreviation stored :: AppendReply where
  "stored \<equiv> \<lparr>ar_term = 1, ar_success = True, ar_index = 1\<rparr>"

definition three_asks :: "MemoryStorage Raft" where
  "three_asks = tick (three 0) 5000 (raft_init (three 0) blank empty_durable 0)"

definition three_voter :: "MemoryStorage Raft" where
  "three_voter = raft_init (three 1) blank empty_durable 0"

definition three_voted :: "MemoryStorage Raft" where
  "three_voted = snd (handle_vote (three 1) first_call 5001 three_voter)"

definition three_leader :: "MemoryStorage Raft" where
  "three_leader = handle_vote_reply (three 0) 1 first_call granted 5002 (snd (take_outgoing three_asks))"

definition three_follower :: "MemoryStorage Raft" where
  "three_follower = snd (handle_append (three 1) first_append 5003 three_voted)"

definition three_done :: "MemoryStorage Raft" where
  "three_done = handle_append_reply (three 0) 1 first_append stored 5004 (snd (take_outgoing three_leader))"

lemma three_run:
  "VoteCall 1 first_call \<in> set (rf_out three_asks)" "AppendCall 1 first_append \<in> set (rf_out three_leader)"
  "fst (handle_vote (three 1) first_call 5001 three_voter) = granted"
  "fst (handle_append (three 1) first_append 5003 three_voted) = stored"
  "rf_applies three_done = [(1, noop)]"
  by code_simp+

lemma three_running:
  "\<not> rf_stopped (raft_init (three 0) blank empty_durable 0)" "\<not> rf_stopped three_asks" "\<not> rf_stopped three_voter" "\<not> rf_stopped three_voted"
  "\<not> rf_stopped three_leader" "\<not> rf_stopped three_follower" "\<not> rf_stopped three_done"
  by code_simp+

definition act :: "nat \<Rightarrow> Input \<Rightarrow> MemoryStorage Cluster \<Rightarrow> MemoryStorage Cluster" where
  "act i x g =
     (let s = cl_replicas g i; s' = raft_step (three i) x s
      in with_answers (vote_answers (three i) x s) (append_answers (three i) x s) (set_state i s' (durable_of s') g))"

definition post :: "nat \<Rightarrow> MemoryStorage Cluster \<Rightarrow> MemoryStorage Cluster" where
  "post i g =
     g\<lparr>cl_replicas := (cl_replicas g)(i := snd (take_outgoing (cl_replicas g i))), cl_calls := cl_calls g \<union> Pair i ` set (rf_out (cl_replicas g i))\<rparr>"

lemma act_step:
  assumes "i < 3" "delivered g i x" "\<not> rf_stopped (cl_replicas g i)" "\<not> rf_stopped (raft_step (three i) x (cl_replicas g i))"
  shows "cluster_step three 3 g (act i x g)"
  unfolding act_def Let_def by (rule turns [OF assms(1,2) refl]) (simp add: saved_def assms(3,4))

lemma post_step: "i < 3 \<Longrightarrow> cluster_step three 3 g (post i g)"
  unfolding post_def by (rule posts) (simp_all add: take_outgoing_def)

lemma run_fields [simp]:
  "cl_replicas (act i x g) = (cl_replicas g)(i := raft_step (three i) x (cl_replicas g i))"
  "cl_calls (act i x g) = cl_calls g" "cl_votes (act i x g) = cl_votes g \<union> vote_answers (three i) x (cl_replicas g i)"
  "cl_appends (act i x g) = cl_appends g \<union> append_answers (three i) x (cl_replicas g i)"
  "cl_replicas (post i g) = (cl_replicas g)(i := snd (take_outgoing (cl_replicas g i)))"
  "cl_calls (post i g) = cl_calls g \<union> Pair i ` set (rf_out (cl_replicas g i))" "cl_votes (post i g) = cl_votes g" "cl_appends (post i g) = cl_appends g"
  by (simp_all add: act_def post_def set_state_def with_answers_def Let_def)

definition three_started :: "MemoryStorage Cluster" where
  "three_started =
     set_state 1 three_voter (durable_of three_voter)
       (set_state 0 (raft_init (three 0) blank empty_durable 0) (durable_of (raft_init (three 0) blank empty_durable 0)) (cluster_start three (\<lambda>_. blank)))"

definition three_asked :: "MemoryStorage Cluster" where
  "three_asked = post 0 (act 0 (Tick 5000) three_started)"

definition three_led :: "MemoryStorage Cluster" where
  "three_led = post 0 (act 0 (VoteReplied 1 first_call granted 5002) (act 1 (Vote first_call 5001) three_asked))"

definition three_applied :: "MemoryStorage Cluster" where
  "three_applied = act 0 (AppendReplied 1 first_append stored 5004) (act 1 (Append first_append 5003) three_led)"

lemma three_states:
  "cl_replicas three_started 0 = raft_init (three 0) blank empty_durable 0" "cl_replicas three_asked 0 = snd (take_outgoing three_asks)"
  "cl_replicas three_asked 1 = three_voter" "cl_replicas three_led 0 = snd (take_outgoing three_leader)" "cl_replicas three_led 1 = three_voted"
  by (simp_all add: three_started_def three_asked_def three_led_def set_state_def three_asks_def three_leader_def three_voted_def cluster_start_def)

lemma posted_running: "rf_stopped (snd (take_outgoing s)) = rf_stopped s"
  by (simp add: take_outgoing_def)

lemma three_reached: "(cluster_step three 3)\<^sup>*\<^sup>* (cluster_start three (\<lambda>_. blank)) three_applied"
proof -
  let ?s0 = "raft_init (three 0) blank empty_durable 0"
  let ?g = "cluster_start three (\<lambda>_. blank)"
  let ?g1 = "set_state 0 ?s0 (durable_of ?s0) ?g"
  let ?v = "act 1 (Vote first_call 5001) three_asked" and ?a = "act 1 (Append first_append 5003) three_led"
  let ?l = "act 0 (VoteReplied 1 first_call granted 5002) ?v"
  have calls: "(0, VoteCall 1 first_call) \<in> cl_calls three_asked" "(0, AppendCall 1 first_append) \<in> cl_calls three_led"
    using three_run(1,2) by (simp_all add: three_asked_def three_led_def three_states three_asks_def three_leader_def)
  note running = three_running posted_running
  have "cluster_step three 3 ?g ?g1"
    by (rule restarts [where st = blank and now = 0]) (use running in \<open>simp_all add: cluster_start_def\<close>)
  moreover have "cluster_step three 3 ?g1 three_started" unfolding three_started_def
    by (rule restarts [where st = blank and now = 0]) (use running in \<open>simp_all add: cluster_start_def set_state_def three_voter_def\<close>)
  moreover have "cluster_step three 3 three_started (act 0 (Tick 5000) three_started)"
    by (rule act_step) (use running in \<open>simp_all add: three_states three_asks_def\<close>)
  moreover have "cluster_step three 3 (act 0 (Tick 5000) three_started) three_asked" unfolding three_asked_def by (rule post_step) simp
  moreover have "cluster_step three 3 three_asked ?v"
    by (rule act_step) (use running calls in \<open>force simp: three_states three_voted_def simp del: One_nat_def\<close>)+
  moreover have "cluster_step three 3 ?v ?l"
    by (rule act_step) (use running calls three_run(3) in \<open>auto simp: three_states three_leader_def three_def simp del: One_nat_def\<close>)
  moreover have "cluster_step three 3 ?l three_led" unfolding three_led_def by (rule post_step) simp
  moreover have "cluster_step three 3 three_led ?a"
    by (rule act_step) (use running calls in \<open>force simp: three_states three_follower_def simp del: One_nat_def\<close>)+
  moreover have "cluster_step three 3 ?a three_applied" unfolding three_applied_def
    by (rule act_step) (use running calls three_run(4) in \<open>auto simp: three_states three_done_def three_def simp del: One_nat_def\<close>)
  ultimately show ?thesis by (meson converse_rtranclp_into_rtranclp rtranclp.rtrancl_refl)
qed

theorem applied_entries_agree_witness:
  "(cluster_step three 3)\<^sup>*\<^sup>* (cluster_start three (\<lambda>_. blank)) three_applied \<and> (1, noop) \<in> cl_applied three_applied \<and>
   (1, noop\<lparr>e_command := ''x''\<rparr>) \<notin> cl_applied three_applied"
proof -
  have first: "(1, noop) \<in> cl_applied three_applied"
    using three_run(5) by (simp add: three_applied_def act_def with_answers_def set_state_def Let_def three_states three_done_def)
  have "members three 3" by (simp add: members_def three_def)
  from applied_entries_agree [OF this three_reached first, of "noop\<lparr>e_command := ''x''\<rparr>"] show ?thesis using first three_reached by (auto simp: noop_def)
qed

end
