(* ===== verification/Paging.thy ===== *)
theory Paging
  imports Prelude
begin

text \<open>
  Listings that come a page at a time: the namespace's LIST and ENTRIES, and a node's KEYS.
  Each page is a part of a strictly ascending sequence right after a given element; the reader
  asks again after the last element it was given, until a page is empty.
\<close>

definition after_key :: "'k :: linorder option \<Rightarrow> 'k list \<Rightarrow> 'k list" where
  "after_key a xs = (case a of None \<Rightarrow> xs | Some k \<Rightarrow> dropWhile (\<lambda>x. x \<le> k) xs)"

fun read_pages :: "('k option \<Rightarrow> 'k list) \<Rightarrow> nat \<Rightarrow> 'k option \<Rightarrow> 'k list" where
  "read_pages page 0 a = []"
| "read_pages page (Suc fuel) a =
     (let p = page a in if p = [] then [] else p @ read_pages page fuel (Some (last p)))"

lemma after_key_append:
  assumes "sorted_wrt (<) (p @ q)" "p \<noteq> []"
  shows "after_key (Some (last p)) (p @ q) = q"
proof -
  have le: "x \<le> last p" if "x \<in> set p" for x
  proof -
    have "p = butlast p @ [last p]" using assms(2) by simp
    then have "sorted_wrt (<) (butlast p @ [last p])" using assms(1) by (metis sorted_wrt_append)
    then show ?thesis using that \<open>p = butlast p @ [last p]\<close>
      by (metis (no_types, lifting) Un_iff empty_iff insert_iff less_imp_le list.set(1) list.set(2) order_refl set_append sorted_wrt_append)
  qed
  have gt: "\<not> x \<le> last p" if "x \<in> set q" for x
    using assms that by (auto simp: sorted_wrt_append not_le)
  show ?thesis
    using le gt by (cases q) (auto simp: after_key_def dropWhile_append)
qed

text \<open>
  The state \<open>s\<close> lists \<open>all s\<close>, and \<open>page s a\<close> is the page after \<open>a\<close>, for the states that are \<open>ok\<close>.
\<close>

locale pager =
  fixes ok :: "'s \<Rightarrow> bool" and all :: "'s \<Rightarrow> 'k :: linorder list" and page :: "'s \<Rightarrow> 'k option \<Rightarrow> 'k list"
  assumes ascending: "ok s \<Longrightarrow> sorted_wrt (<) (all s)"
    and page_part: "ok s \<Longrightarrow> \<exists>n. page s a = take n (after_key a (all s))"
    and page_progress: "ok s \<Longrightarrow> after_key a (all s) \<noteq> [] \<Longrightarrow> page s a \<noteq> []"
begin

lemma read_from:
  assumes ok: "ok s"
    and "all s = done @ rest" "done = [] \<Longrightarrow> a = None" "done \<noteq> [] \<Longrightarrow> a = Some (last done)" "length rest < fuel"
  shows "read_pages (page s) fuel a = rest"
  using assms(2-)
proof (induction fuel arbitrary: "done" rest a)
  case (Suc fuel)
  have here: "after_key a (all s) = rest"
  proof (cases "done = []")
    case True
    with Suc.prems show ?thesis by (simp add: after_key_def)
  next
    case False
    with Suc.prems ascending [OF ok] show ?thesis by (simp add: after_key_append)
  qed
  show ?case
  proof (cases "rest = []")
    case True
    then show ?thesis using page_part [OF ok, of a] here by auto
  next
    case False
    obtain n where n: "page s a = take n rest" using page_part [OF ok, of a] here by auto
    have ne: "page s a \<noteq> []" using page_progress [OF ok, of a] here False by simp
    have "read_pages (page s) fuel (Some (last (page s a))) = drop n rest"
    proof (rule Suc.IH)
      show "all s = (done @ take n rest) @ drop n rest" using Suc.prems(1) by simp
      show "length (drop n rest) < fuel" using Suc.prems(4) n ne False by (cases n; cases rest) auto
    qed (use n ne in auto)
    then show ?thesis using n ne by (simp add: Let_def)
  qed
qed simp

lemma read_all: "ok s \<Longrightarrow> length (all s) < fuel \<Longrightarrow> read_pages (page s) fuel None = all s"
  by (rule read_from [of s "[]"]) auto

end

end
