(* ===== verification/Store.thy ===== *)
theory Store
  imports Sample_Platform Chord Paging
begin

text \<open>
  \<^verbatim>\<open>src/store.h\<close> and \<^verbatim>\<open>src/store.cpp\<close>: the chunk store of one node. The state is the index of keys,
  the write times, the byte count, and the disk: the file each key's path holds and the
  temporary files. What the file system answers to each call is an argument. Times are
  milliseconds of the steady clock.
\<close>

section \<open>Keys\<close>

definition MAX_CHUNK :: nat where
  "MAX_CHUNK = 512 * 1024"

definition valid_key :: "string \<Rightarrow> bool" where
  "valid_key key \<longleftrightarrow> length key = 40 \<and> list_all is_lower_hex key"

definition chunk_key :: "platform \<Rightarrow> string \<Rightarrow> string" where
  "chunk_key P bytes = sha1 P bytes"

lemma valid_chunk_key: "platform_ok P \<Longrightarrow> valid_key (chunk_key P b)"
  by (simp add: valid_key_def chunk_key_def sha1_length sha1_lower)

lemma valid_key_no_sep [simp]:
  assumes "valid_key k"
  shows "CHR '' '' \<notin> set k" "CHR 0x0A \<notin> set k" "k \<noteq> []"
proof -
  have "list_all is_lower_hex k" using assms by (simp add: valid_key_def)
  then show "CHR '' '' \<notin> set k" "CHR 0x0A \<notin> set k" using lower_hex_no_sep is_lower_hex_not_sep by blast+
  show "k \<noteq> []" using assms by (auto simp: valid_key_def)
qed

section \<open>State\<close>

record ChunkStore =
  cs_dir :: string
  cs_keys :: "string list"
  cs_touched :: "string \<rightharpoonup> int"
  cs_opened :: int
  cs_next_tmp :: nat
  cs_bytes :: nat
  cs_files :: "string \<rightharpoonup> string"
  cs_tmp :: "string \<rightharpoonup> string"

datatype PutResult = Stored | AlreadyHeld | BadKey | TooLarge | HashMismatch | IoError

definition put_result_name :: "PutResult \<Rightarrow> string" where
  "put_result_name r =
     (case r of
        Stored \<Rightarrow> ''stored''
      | AlreadyHeld \<Rightarrow> ''already held''
      | BadKey \<Rightarrow> ''key must be 40 lowercase hexadecimal characters''
      | TooLarge \<Rightarrow> ''chunk larger than '' @ to_string MAX_CHUNK @ '' bytes''
      | HashMismatch \<Rightarrow> ''bytes do not hash to the key''
      | IoError \<Rightarrow> ''disk error'')"

text \<open>\<^verbatim>\<open>std::set<std::string>\<close>: a strictly ascending list.\<close>

fun set_insert :: "string \<Rightarrow> string list \<Rightarrow> string list" where
  "set_insert k [] = [k]"
| "set_insert k (x # xs) = (if k < x then k # x # xs else if k = x then x # xs else x # set_insert k xs)"

definition set_erase :: "string \<Rightarrow> string list \<Rightarrow> string list" where
  "set_erase k xs = filter (\<lambda>x. x \<noteq> k) xs"

section \<open>Opening\<close>

text \<open>
  The names in one fan-out directory with the text of each file, as the listing gives them.
\<close>

type_synonym listing = "(string \<times> (string \<times> string) list) list"

definition ours :: "string \<Rightarrow> string \<Rightarrow> bool" where
  "ours sub name \<longleftrightarrow> valid_key name \<and> take 2 name = sub"

definition store_open ::
  "bool \<Rightarrow> listing \<Rightarrow> nat \<Rightarrow> int \<Rightarrow> string \<Rightarrow> (ChunkStore \<times> string) option"
where
  "store_open dirs_made listing removed now dir =
     (if \<not> dirs_made then None
      else let found = [(name, text). (sub, files) \<leftarrow> listing, (name, text) \<leftarrow> files, ours sub name];
               foreign = length [name. (sub, files) \<leftarrow> listing, (name, text) \<leftarrow> files, \<not> ours sub name]
           in Some (\<lparr>cs_dir = dir, cs_keys = fold set_insert (map fst found) [], cs_touched = Map.empty, cs_opened = now,
                     cs_next_tmp = 0, cs_bytes = sum_list (map (length \<circ> snd) found),
                     cs_files = map_of found, cs_tmp = Map.empty\<rparr>,
                    to_string (length found) @ '' chunks, '' @ to_string removed @ '' unfinished writes removed, '' @
                    to_string foreign @ '' other files ignored''))"

section \<open>Writing\<close>

record PutIo =
  pio_create :: bool
  pio_write :: bool
  pio_rename :: bool
  pio_sync :: bool

text \<open>
  \<^verbatim>\<open>store_put\<close> in the three parts other threads can come between: the checks and the first
  critical section, the file, and the second critical section.
\<close>

definition put_check :: "platform \<Rightarrow> int \<Rightarrow> string \<Rightarrow> string \<Rightarrow> ChunkStore \<Rightarrow> PutResult option \<times> ChunkStore" where
  "put_check P now key body s =
     (if \<not> valid_key key then (Some BadKey, s)
      else if length body > MAX_CHUNK then (Some TooLarge, s)
      else if chunk_key P body \<noteq> key then (Some HashMismatch, s)
      else if key \<in> set (cs_keys s) then (Some AlreadyHeld, s\<lparr>cs_touched := (cs_touched s)(key \<mapsto> now)\<rparr>)
      else (None, s))"

definition put_file :: "PutIo \<Rightarrow> string \<Rightarrow> string \<Rightarrow> ChunkStore \<Rightarrow> bool \<times> ChunkStore" where
  "put_file io key body s =
     (let tmp = key @ ''.'' @ to_string (cs_next_tmp s);
          s = s\<lparr>cs_next_tmp := Suc (cs_next_tmp s)\<rparr>
      in if \<not> pio_create io then (False, s)
         else if \<not> pio_write io \<or> \<not> pio_rename io then (False, s\<lparr>cs_tmp := (cs_tmp s)(tmp := None)\<rparr>)
         else (pio_sync io, s\<lparr>cs_tmp := (cs_tmp s)(tmp := None), cs_files := (cs_files s)(key \<mapsto> body)\<rparr>))"

definition put_index :: "int \<Rightarrow> string \<Rightarrow> string \<Rightarrow> ChunkStore \<Rightarrow> ChunkStore" where
  "put_index now key body s =
     (let s = (if key \<in> set (cs_keys s) then s
               else s\<lparr>cs_keys := set_insert key (cs_keys s), cs_bytes := cs_bytes s + length body\<rparr>)
      in s\<lparr>cs_touched := (cs_touched s)(key \<mapsto> now)\<rparr>)"

definition store_put :: "platform \<Rightarrow> PutIo \<Rightarrow> int \<Rightarrow> string \<Rightarrow> string \<Rightarrow> ChunkStore \<Rightarrow> PutResult \<times> ChunkStore" where
  "store_put P io now key body s =
     (case put_check P now key body s of
        (Some r, s) \<Rightarrow> (r, s)
      | (None, s) \<Rightarrow>
          (case put_file io key body s of
             (False, s) \<Rightarrow> (IoError, s)
           | (True, s) \<Rightarrow> (Stored, put_index now key body s)))"

section \<open>Reading\<close>

datatype GetResult = GFound string | GMissing | GBadKey | GIoError

text \<open>\<open>opens\<close> and \<open>reads\<close>: whether an existing file can be opened, and read whole.\<close>

definition store_get :: "bool \<Rightarrow> bool \<Rightarrow> ChunkStore \<Rightarrow> string \<Rightarrow> GetResult" where
  "store_get opens reads s key =
     (if \<not> valid_key key then GBadKey
      else case cs_files s key of
        None \<Rightarrow> GMissing
      | Some body \<Rightarrow>
          if \<not> opens then GIoError
          else if length body > MAX_CHUNK then GIoError
          else if \<not> reads then GIoError
          else GFound body)"

definition store_has :: "ChunkStore \<Rightarrow> string \<Rightarrow> bool" where
  "store_has s key \<longleftrightarrow> key \<in> set (cs_keys s)"

definition store_keys :: "ChunkStore \<Rightarrow> string list" where
  "store_keys s = cs_keys s"

definition store_keys_in_arc :: "ChunkStore \<Rightarrow> Id \<Rightarrow> Id \<Rightarrow> string list" where
  "store_keys_in_arc s from to =
     filter (\<lambda>key. case id_from_key key of None \<Rightarrow> False | Some i \<Rightarrow> in_range_oc i from to) (cs_keys s)"

definition store_keys_after :: "ChunkStore \<Rightarrow> string \<Rightarrow> nat \<Rightarrow> string list" where
  "store_keys_after s after limit =
     take limit (if after = [] then cs_keys s else dropWhile (\<lambda>k. k \<le> after) (cs_keys s))"

section \<open>Removing\<close>

definition file_size :: "ChunkStore \<Rightarrow> string \<Rightarrow> nat" where
  "file_size s key = (case cs_files s key of None \<Rightarrow> 0 | Some body \<Rightarrow> length body)"

text \<open>\<open>unlinks\<close>: whether the unlink of an existing file succeeds.\<close>

definition store_remove :: "bool \<Rightarrow> string \<Rightarrow> ChunkStore \<Rightarrow> bool \<times> ChunkStore" where
  "store_remove unlinks key s =
     (if \<not> valid_key key then (False, s)
      else let size = file_size s key;
               s = (if key \<in> set (cs_keys s)
                    then s\<lparr>cs_keys := set_erase key (cs_keys s), cs_bytes := cs_bytes s - min size (cs_bytes s)\<rparr>
                    else s)
           in if cs_files s key = None then (True, s)
              else if unlinks then (True, s\<lparr>cs_files := (cs_files s)(key := None)\<rparr>)
              else (False, s))"

datatype DropResult = Dropped | TooYoung | NotHeld | DBadKey

definition written_at :: "ChunkStore \<Rightarrow> string \<Rightarrow> int" where
  "written_at s key = (case cs_touched s key of None \<Rightarrow> cs_opened s | Some t \<Rightarrow> t)"

definition store_drop :: "bool \<Rightarrow> int \<Rightarrow> int \<Rightarrow> string \<Rightarrow> ChunkStore \<Rightarrow> (DropResult \<times> nat) \<times> ChunkStore" where
  "store_drop unlinks now grace key s =
     (if \<not> valid_key key then ((DBadKey, 0), s)
      else if key \<notin> set (cs_keys s) then ((NotHeld, 0), s)
      else if now - written_at s key < grace then ((TooYoung, 0), s)
      else let bytes = file_size s key in
        ((Dropped, bytes),
         s\<lparr>cs_keys := set_erase key (cs_keys s), cs_touched := (cs_touched s)(key := None),
           cs_bytes := cs_bytes s - min bytes (cs_bytes s),
           cs_files := (if unlinks then (cs_files s)(key := None) else cs_files s)\<rparr>))"

definition store_forget_old :: "int \<Rightarrow> int \<Rightarrow> ChunkStore \<Rightarrow> ChunkStore" where
  "store_forget_old now grace s =
     s\<lparr>cs_touched := (\<lambda>k. case cs_touched s k of
          None \<Rightarrow> None | Some t \<Rightarrow> if now - t \<ge> grace then None else Some t)\<rparr>"

section \<open>The index as a set\<close>

lemma set_insert_set [simp]: "set (set_insert k xs) = insert k (set xs)"
  by (induction k xs rule: set_insert.induct) auto

lemma set_insert_sorted: "sorted_wrt (<) xs \<Longrightarrow> sorted_wrt (<) (set_insert k xs)"
  by (induction k xs rule: set_insert.induct) auto

lemma set_erase_set [simp]: "set (set_erase k xs) = set xs - {k}"
  by (auto simp: set_erase_def)

lemma set_erase_sorted: "sorted_wrt (<) xs \<Longrightarrow> sorted_wrt (<) (set_erase k xs)"
  by (simp add: set_erase_def sorted_wrt_filter)

lemma sorted_distinct: "sorted_wrt (<) (xs :: string list) \<Longrightarrow> distinct xs"
  by (induction xs) auto

lemma set_insert_sum: "k \<notin> set xs \<Longrightarrow> sum_list (map f (set_insert k xs)) = (f k :: nat) + sum_list (map f xs)"
  by (induction k xs rule: set_insert.induct) auto

lemma set_erase_sum:
  "distinct xs \<Longrightarrow> k \<in> set xs \<Longrightarrow> sum_list (map f (set_erase k xs)) + (f k :: nat) = sum_list (map f xs)"
proof (induction xs)
  case (Cons x xs)
  have "filter (\<lambda>x. x \<noteq> k) xs = xs" if "k \<notin> set xs" using that by (auto simp: filter_id_conv)
  with Cons show ?case by (cases "x = k") (auto simp: set_erase_def)
qed simp

section \<open>The store's invariant\<close>

text \<open>
  The index is sorted, every file hashes to the key it is kept under and is no longer than a
  chunk, every key of the index has its file, and the byte count is the files' total.
\<close>

definition store_inv :: "platform \<Rightarrow> ChunkStore \<Rightarrow> bool" where
  "store_inv P s \<longleftrightarrow>
     sorted_wrt (<) (cs_keys s) \<and>
     (\<forall>k b. cs_files s k = Some b \<longrightarrow> valid_key k \<and> chunk_key P b = k \<and> length b \<le> MAX_CHUNK) \<and>
     (\<forall>k\<in>set (cs_keys s). cs_files s k \<noteq> None) \<and>
     cs_bytes s = sum_list (map (file_size s) (cs_keys s))"

datatype StoreOp =
  Put PutIo int string string
| Drop bool int int string
| Remove bool string
| Forget int int

fun store_op :: "platform \<Rightarrow> StoreOp \<Rightarrow> ChunkStore \<Rightarrow> ChunkStore" where
  "store_op P (Put io now key body) s = snd (store_put P io now key body s)"
| "store_op P (Drop unlinks now grace key) s = snd (store_drop unlinks now grace key s)"
| "store_op P (Remove unlinks key) s = snd (store_remove unlinks key s)"
| "store_op P (Forget now grace) s = store_forget_old now grace s"

lemma file_size_cong: "cs_files s' k = cs_files s k \<Longrightarrow> file_size s' k = file_size s k"
  by (simp add: file_size_def)

lemma sum_files_cong:
  "(\<And>k. k \<in> set ks \<Longrightarrow> cs_files s' k = cs_files s k) \<Longrightarrow>
     sum_list (map (file_size s') ks) = sum_list (map (file_size s) ks)"
  by (metis (no_types, lifting) file_size_cong map_cong)

lemma store_put_inv:
  assumes "store_inv P s"
  shows "store_inv P (snd (store_put P io now key body s))"
proof (cases "put_check P now key body s")
  case (Pair r s1)
  show ?thesis
  proof (cases r)
    case (Some x)
    then have "cs_keys s1 = cs_keys s" "cs_files s1 = cs_files s" "cs_bytes s1 = cs_bytes s"
      using Pair by (auto simp: put_check_def split: if_splits)
    then show ?thesis
      using assms sum_files_cong [of "cs_keys s" s1 s] by (simp add: store_put_def Pair Some store_inv_def)
  next
    case None
    then have s1: "s1 = s" "valid_key key" "length body \<le> MAX_CHUNK" "chunk_key P body = key" "key \<notin> set (cs_keys s)"
      using Pair by (auto simp: put_check_def split: if_splits)
    obtain ok s2 where s2: "put_file io key body s = (ok, s2)" by (cases "put_file io key body s")
    have keep: "cs_keys s2 = cs_keys s" "cs_bytes s2 = cs_bytes s"
      "cs_files s2 = cs_files s \<or> cs_files s2 = (cs_files s)(key \<mapsto> body)"
      "ok \<Longrightarrow> cs_files s2 = (cs_files s)(key \<mapsto> body)"
      using s2 by (auto simp: put_file_def Let_def split: if_splits)
    have sum: "sum_list (map (file_size s2) (cs_keys s)) = sum_list (map (file_size s) (cs_keys s))"
      using keep(3) s1(5) by (intro sum_files_cong) auto
    have inv2: "store_inv P s2" using assms keep(1-3) s1 sum by (auto simp: store_inv_def split: if_splits)
    have "store_inv P (put_index now key body s2)" if ok
    proof -
      let ?s3 = "put_index now key body s2"
      have k: "cs_keys ?s3 = set_insert key (cs_keys s)" "cs_files ?s3 = cs_files s2"
        "cs_bytes ?s3 = cs_bytes s + length body"
        using s1(5) keep(1,2) by (simp_all add: put_index_def Let_def)
      have "sum_list (map (file_size ?s3) (set_insert key (cs_keys s))) = length body + sum_list (map (file_size s) (cs_keys s))"
        using set_insert_sum [OF s1(5), of "file_size ?s3"] sum sum_files_cong [of "cs_keys s" ?s3 s2] k(2) keep(4) [OF that]
        by (simp add: file_size_def)
      then show ?thesis
        using inv2 k keep(1,4) assms that by (auto simp: store_inv_def set_insert_sorted)
    qed
    then show ?thesis
      using inv2 by (cases ok) (simp_all add: store_put_def Pair None s1(1) s2)
  qed
qed

lemma erase_inv:
  assumes inv: "store_inv P s" and key: "key \<in> set (cs_keys s)"
    and s': "cs_keys s' = set_erase key (cs_keys s)" "cs_bytes s' = cs_bytes s - min (file_size s key) (cs_bytes s)"
      "cs_files s' = cs_files s \<or> cs_files s' = (cs_files s)(key := None)"
  shows "store_inv P s'"
proof -
  have "sum_list (map (file_size s') (set_erase key (cs_keys s))) = sum_list (map (file_size s) (set_erase key (cs_keys s)))"
    using s'(3) by (intro sum_files_cong) auto
  moreover have "sum_list (map (file_size s) (set_erase key (cs_keys s))) + file_size s key = cs_bytes s"
    using set_erase_sum [OF sorted_distinct key] inv by (simp add: store_inv_def)
  ultimately show ?thesis
    using inv s' by (auto simp: store_inv_def set_erase_sorted split: if_splits)
qed

lemma store_op_inv: "store_inv P s \<Longrightarrow> store_inv P (store_op P op s)"
proof (cases op)
  case (Drop u now grace key)
  assume inv: "store_inv P s"
  show ?thesis
  proof (cases "fst (fst (store_drop u now grace key s)) = Dropped")
    case True
    then show ?thesis
      by (intro erase_inv [OF inv, of key]) (auto simp: Drop store_drop_def Let_def split: if_splits)
  next
    case False
    then have "snd (store_drop u now grace key s) = s" by (auto simp: store_drop_def Let_def split: if_splits)
    with inv show ?thesis by (simp add: Drop)
  qed
next
  case (Remove u key)
  assume inv: "store_inv P s"
  show ?thesis
  proof (cases "valid_key key \<and> key \<in> set (cs_keys s)")
    case True
    then show ?thesis
      by (intro erase_inv [OF inv, of key]) (auto simp: Remove store_remove_def Let_def)
  next
    case False
    have "sum_list (map (file_size (s\<lparr>cs_files := (cs_files s)(key := None)\<rparr>)) (cs_keys s)) =
        sum_list (map (file_size s) (cs_keys s))" if "key \<notin> set (cs_keys s)"
      using that by (intro sum_files_cong) auto
    then show ?thesis
      using inv False by (auto simp: Remove store_remove_def Let_def store_inv_def)
  qed
next
  case (Forget now grace)
  assume inv: "store_inv P s"
  then show ?thesis
    using sum_files_cong [of "cs_keys s" "store_forget_old now grace s" s]
    by (simp add: Forget store_forget_old_def store_inv_def)
qed (simp add: store_put_inv)

lemma store_run_inv: "store_inv P s \<Longrightarrow> store_inv P (fold (store_op P) ops s)"
  by (induction ops arbitrary: s) (simp_all add: store_op_inv)

lemma fold_insert_set: "set (fold set_insert ks xs) = set ks \<union> set xs"
  by (induction ks arbitrary: xs) auto

lemma fold_insert_sorted: "sorted_wrt (<) xs \<Longrightarrow> sorted_wrt (<) (fold set_insert ks xs)"
  by (induction ks arbitrary: xs) (auto simp: set_insert_sorted)

lemma fold_insert_sum:
  "distinct ks \<Longrightarrow> set ks \<inter> set xs = {} \<Longrightarrow>
     sum_list (map f (fold set_insert ks xs)) = sum_list (map f ks) + (sum_list (map f xs) :: nat)"
proof (induction ks arbitrary: xs)
  case (Cons k ks)
  then show ?case using set_insert_sum [of k xs f] by auto
qed simp

text \<open>What the listing holds under the store's own names, and that it is what was stored.\<close>

definition listed :: "listing \<Rightarrow> (string \<times> string) list" where
  "listed listing = [(name, text). (sub, files) \<leftarrow> listing, (name, text) \<leftarrow> files, ours sub name]"

definition listing_ok :: "platform \<Rightarrow> listing \<Rightarrow> bool" where
  "listing_ok P listing \<longleftrightarrow>
     distinct (map fst (listed listing)) \<and>
     (\<forall>(name, text)\<in>set (listed listing). chunk_key P text = name \<and> length text \<le> MAX_CHUNK)"

lemma store_open_inv:
  assumes ok: "listing_ok P listing" and opened: "store_open True listing removed now dir = Some (s, report)"
  shows "store_inv P s \<and> set (cs_keys s) = fst ` set (listed listing)"
proof -
  let ?found = "listed listing"
  have s: "cs_keys s = fold set_insert (map fst ?found) []" "cs_files s = map_of ?found"
    "cs_bytes s = sum_list (map (length \<circ> snd) ?found)"
    using opened by (auto simp: store_open_def listed_def Let_def)
  have d: "distinct (map fst ?found)" using ok by (simp add: listing_ok_def)
  have valid: "valid_key name" if "(name, body) \<in> set ?found" for name body
    using that by (auto simp: listed_def ours_def)
  have sizes: "map (file_size s \<circ> fst) ?found = map (length \<circ> snd) ?found"
    using d by (auto simp: file_size_def s(2))
  have "sum_list (map (file_size s) (cs_keys s)) = cs_bytes s"
    using fold_insert_sum [OF d, of "[]" "file_size s"] by (simp add: s sizes)
  moreover have "set (cs_keys s) = fst ` set ?found" by (simp add: s fold_insert_set)
  moreover have "sorted_wrt (<) (cs_keys s)" by (simp add: s fold_insert_sorted)
  moreover have "valid_key k \<and> chunk_key P b = k \<and> length b \<le> MAX_CHUNK" if "cs_files s k = Some b" for k b
    using that ok valid [of k b] by (auto simp: s listing_ok_def dest!: map_of_SomeD)
  ultimately show ?thesis by (auto simp: store_inv_def s dom_map_of_conv_image_fst [symmetric])
qed

section \<open>What the store promises\<close>


text \<open>A store with one chunk, for concrete runs.\<close>

definition sample_chunk :: string where
  "sample_chunk = ''hello''"

definition sample_key :: string where
  "sample_key = chunk_key sample_platform sample_chunk"

definition sample_listing :: listing where
  "sample_listing = [(take 2 sample_key, [(sample_key, sample_chunk)])]"

definition good_io :: PutIo where
  "good_io = \<lparr>pio_create = True, pio_write = True, pio_rename = True, pio_sync = True\<rparr>"

definition sample_store :: ChunkStore where
  "sample_store = fst (the (store_open True sample_listing 0 100 ''/data''))"

lemma sample_key_valid: "valid_key sample_key"
  by (simp add: sample_key_def valid_chunk_key sample_platform_ok)

lemma sample_chunk_small: "length sample_chunk \<le> MAX_CHUNK"
  by (simp add: sample_chunk_def MAX_CHUNK_def)

lemma sample_listed: "listed sample_listing = [(sample_key, sample_chunk)]"
  by (simp add: listed_def sample_listing_def ours_def sample_key_valid)

lemma sample_listing_ok: "listing_ok sample_platform sample_listing"
  by (simp add: listing_ok_def sample_listed sample_chunk_small) (simp add: sample_key_def)

lemma sample_store_open: "\<exists>report. store_open True sample_listing 0 100 ''/data'' = Some (sample_store, report)"
  by (simp add: sample_store_def store_open_def Let_def)


section \<open>Young chunks survive\<close>

text \<open>
  The operations of one period: their times are not before \<open>t\<close> and before \<open>t + g\<close>, collection uses
  a grace period of at least \<open>g\<close>, and the scrub does not remove the chunk.
\<close>

fun op_within :: "int \<Rightarrow> int \<Rightarrow> string \<Rightarrow> StoreOp \<Rightarrow> bool" where
  "op_within t g key (Put io now k body) \<longleftrightarrow> t \<le> now"
| "op_within t g key (Drop unlinks now grace k) \<longleftrightarrow> k \<noteq> key \<or> (now < t + g \<and> g \<le> grace)"
| "op_within t g key (Remove unlinks k) \<longleftrightarrow> k \<noteq> key"
| "op_within t g key (Forget now grace) \<longleftrightarrow> now < t + g \<and> g \<le> grace"

definition fresh :: "int \<Rightarrow> string \<Rightarrow> ChunkStore \<Rightarrow> bool" where
  "fresh t key s \<longleftrightarrow> key \<in> set (cs_keys s) \<and> (\<exists>w. cs_touched s key = Some w \<and> t \<le> w)"

lemma put_fresh:
  "fst (store_put P io t key body s) \<in> {Stored, AlreadyHeld} \<Longrightarrow> fresh t key (snd (store_put P io t key body s))"
  by (auto simp: store_put_def put_check_def put_file_def put_index_def Let_def fresh_def split: if_splits prod.splits bool.splits)

lemma op_fresh: "fresh t key s \<Longrightarrow> op_within t g key op \<Longrightarrow> fresh t key (store_op P op s)"
proof (cases op)
  case (Put io now k body)
  assume "fresh t key s" "op_within t g key op"
  then show ?thesis
    by (auto simp: Put store_put_def put_check_def put_file_def put_index_def Let_def fresh_def split: if_splits prod.splits bool.splits)
qed (auto simp: store_drop_def store_remove_def store_forget_old_def fresh_def written_at_def Let_def split: option.splits)


definition empty_store :: ChunkStore where
  "empty_store =
     \<lparr>cs_dir = ''/data'', cs_keys = [], cs_touched = Map.empty, cs_opened = 0, cs_next_tmp = 0, cs_bytes = 0,
      cs_files = Map.empty, cs_tmp = Map.empty\<rparr>"

lemma empty_store_inv: "store_inv P empty_store"
  by (simp add: store_inv_def empty_store_def)

lemma sample_put: "fst (store_put sample_platform good_io 50 sample_key sample_chunk empty_store) = Stored"
  using sample_key_valid sample_chunk_small
  by (simp add: store_put_def put_check_def put_file_def good_io_def empty_store_def Let_def) (simp add: sample_key_def)


text \<open>
  Forgetting old write times changes no decision: after \<open>store_forget_old\<close> with a grace period,
  a drop with a grace period at least as short, at that time or later, is decided exactly as
  before, for every chunk not written before the store was opened.
\<close>

theorem forget_keeps_decisions:
  assumes "now \<le> now'" "grace' \<le> grace" "\<forall>w. cs_touched s key = Some w \<longrightarrow> cs_opened s \<le> w"
  shows "fst (store_drop unlinks now' grace' key (store_forget_old now grace s)) =
    fst (store_drop unlinks now' grace' key s)"
  using assms
  by (auto simp: store_drop_def store_forget_old_def written_at_def file_size_def Let_def split: option.splits)

theorem forget_keeps_decisions_witness:
  "fst (store_drop True 180 100 sample_key
     (store_forget_old 170 100 (snd (store_put sample_platform good_io 50 sample_key sample_chunk empty_store)))) =
   fst (store_drop True 180 100 sample_key (snd (store_put sample_platform good_io 50 sample_key sample_chunk empty_store)))"
proof (rule forget_keeps_decisions)
  show "\<forall>w. cs_touched (snd (store_put sample_platform good_io 50 sample_key sample_chunk empty_store)) sample_key = Some w \<longrightarrow>
      cs_opened (snd (store_put sample_platform good_io 50 sample_key sample_chunk empty_store)) \<le> w"
    by (auto simp: store_put_def put_check_def put_file_def put_index_def good_io_def empty_store_def Let_def)
qed simp_all

section \<open>Two writers and a collection\<close>

text \<open>
  A slow store can lose its chunk to a collection and still answer stored: with its three
  parts interleaved with another store of the same chunk and a drop after the grace period, the
  chunk ends up in the index with no file behind it.
\<close>

theorem slow_put_race:
  "\<exists>P key body s s1 s2 s3 s4.
     platform_ok P \<and> store_inv P s \<and>
     put_check P 0 key body s = (None, s) \<and>
     store_put P good_io 1 key body s = (Stored, s1) \<and>
     put_file good_io key body s1 = (True, s2) \<and>
     store_drop True 1001 1000 key s2 = ((Dropped, length body), s3) \<and>
     put_index 1002 key body s3 = s4 \<and>
     store_has s4 key \<and> store_get True True s4 key = GMissing"
proof -
  let ?s1 = "snd (store_put sample_platform good_io 1 sample_key sample_chunk empty_store)"
  let ?s2 = "snd (put_file good_io sample_key sample_chunk ?s1)"
  let ?s3 = "snd (store_drop True 1001 1000 sample_key ?s2)"
  let ?s4 = "put_index 1002 sample_key sample_chunk ?s3"
  note defs = store_put_def put_check_def put_file_def put_index_def good_io_def empty_store_def Let_def
    store_drop_def written_at_def file_size_def set_erase_def
  have k: "chunk_key sample_platform sample_chunk = sample_key" by (simp add: sample_key_def)
  have 1: "put_check sample_platform 0 sample_key sample_chunk empty_store = (None, empty_store)"
    using sample_key_valid sample_chunk_small k by (simp add: defs)
  have 2: "store_put sample_platform good_io 1 sample_key sample_chunk empty_store = (Stored, ?s1)"
    using sample_key_valid sample_chunk_small k by (simp add: defs)
  have 3: "put_file good_io sample_key sample_chunk ?s1 = (True, ?s2)" by (simp add: defs)
  have 4: "store_drop True 1001 1000 sample_key ?s2 = ((Dropped, length sample_chunk), ?s3)"
    using sample_key_valid sample_chunk_small k by (simp add: defs)
  have 5: "store_has ?s4 sample_key" "store_get True True ?s4 sample_key = GMissing"
    using sample_key_valid sample_chunk_small k by (simp_all add: defs store_has_def store_get_def)
  show ?thesis
    using 1 2 3 4 5 empty_store_inv [of sample_platform] sample_platform_ok by blast
qed

section \<open>Listings\<close>

definition keys_page :: "ChunkStore \<times> nat \<Rightarrow> string option \<Rightarrow> string list" where
  "keys_page sl a = store_keys_after (fst sl) (case a of None \<Rightarrow> [] | Some k \<Rightarrow> k) (snd sl)"

definition keys_listable :: "ChunkStore \<times> nat \<Rightarrow> bool" where
  "keys_listable sl \<longleftrightarrow> sorted_wrt (<) (cs_keys (fst sl)) \<and> [] \<notin> set (cs_keys (fst sl)) \<and> 0 < snd sl"

interpretation keys_pages: pager keys_listable "\<lambda>sl. cs_keys (fst sl)" keys_page
proof unfold_locales
  have same: "keys_page sl a = take (snd sl) (after_key a (cs_keys (fst sl)))" if "keys_listable sl" for sl a
  proof (cases a)
    case None
    then show ?thesis by (simp add: keys_page_def store_keys_after_def after_key_def)
  next
    case (Some k)
    have "dropWhile (\<lambda>x. x \<le> []) (cs_keys (fst sl)) = cs_keys (fst sl)"
      using that by (cases "cs_keys (fst sl)") (auto simp: keys_listable_def)
    with Some show ?thesis by (simp add: keys_page_def store_keys_after_def after_key_def)
  qed
  show "\<exists>n. keys_page sl a = take n (after_key a (cs_keys (fst sl)))" if "keys_listable sl" for sl a
    using same [OF that] by blast
  show "keys_page sl a \<noteq> []" if "keys_listable sl" "after_key a (cs_keys (fst sl)) \<noteq> []" for sl a
    using same [OF that(1)] that by (auto simp: keys_listable_def)
qed (simp add: keys_listable_def)

text \<open>
  A listing in pages is complete: asking for pages of any positive size, each after the last
  key of the one before, until a page is empty, gives every key of the index once, in order.
\<close>

theorem key_pages_complete:
  assumes "store_inv P s" "0 < limit" "length (store_keys s) < fuel"
  shows "read_pages (keys_page (s, limit)) fuel None = store_keys s"
proof -
  have "[] \<notin> set (cs_keys s)" using assms(1) by (fastforce simp: store_inv_def valid_key_def)
  then have "keys_listable (s, limit)" using assms by (simp add: keys_listable_def store_inv_def)
  from keys_pages.read_all [OF this] assms(3) show ?thesis by (simp add: store_keys_def)
qed

theorem key_pages_complete_witness:
  "read_pages (keys_page (snd (store_put sample_platform good_io 50 sample_key sample_chunk empty_store), 1)) 5 None =
     [sample_key]"
proof -
  let ?s = "snd (store_put sample_platform good_io 50 sample_key sample_chunk empty_store)"
  have "store_keys ?s = [sample_key]"
    using sample_key_valid sample_chunk_small
    by (simp add: store_put_def put_check_def put_file_def put_index_def good_io_def empty_store_def Let_def store_keys_def)
      (simp add: sample_key_def)
  then show ?thesis
    using key_pages_complete [OF store_put_inv [OF empty_store_inv], of 1 sample_platform good_io 50 sample_key sample_chunk 5] by simp
qed

text \<open>
  The keys in an arc are exactly the held keys whose identifier lies in the arc, in order
  and without repetition.
\<close>

lemma keys_in_arc_exact:
  assumes "store_inv P s"
  shows "sorted_wrt (<) (store_keys_in_arc s lo hi) \<and>
    (key \<in> set (store_keys_in_arc s lo hi) \<longleftrightarrow>
       store_has s key \<and> (\<exists>i. id_from_key key = Some i \<and> in_range_oc i lo hi))"
  using assms
  by (auto simp: store_inv_def store_keys_in_arc_def store_has_def sorted_wrt_filter split: option.splits)

end
