(* ===== verification/Names.thy ===== *)
theory Names
  imports Store Raft_Log
begin

text \<open>
  \<^verbatim>\<open>src/names.h\<close> and \<^verbatim>\<open>src/names.cpp\<close>: the namespace, the state machine the Raft group replicates.
  The sorted \<^verbatim>\<open>std::map\<close> of names is a list of pairs in ascending order of the name.
\<close>

definition MAX_LINE :: nat where
  "MAX_LINE = 1024"

definition MAX_NAME :: nat where
  "MAX_NAME = 200"

record NameEntry =
  ne_key :: string
  ne_owner :: string

type_synonym Namespace = "(string \<times> NameEntry) list"

datatype Kind = KRegister | KUnregister | KResolve | KList | KEntries | KPing | KInvalid

record NamesRequest =
  nr_kind :: Kind
  nr_name :: string
  nr_key :: string
  nr_owner :: string
  nr_secret :: string
  nr_after :: string
  nr_from_start :: bool
  nr_error :: string

definition BAD_NAME :: string where
  "BAD_NAME = ''ERR a name is 1 to 200 visible ASCII characters''"

definition BAD_KEY :: string where
  "BAD_KEY = ''ERR a key is 40 lowercase hexadecimal characters''"

definition BAD_OWNER :: string where
  "BAD_OWNER = ''ERR an owner hash is 40 lowercase hexadecimal characters''"

definition BAD_SECRET :: string where
  "BAD_SECRET = ''ERR a secret is 32 to 64 lowercase hexadecimal characters''"

definition visible :: "char \<Rightarrow> bool" where
  "visible c \<longleftrightarrow> 0x21 \<le> (of_char c :: nat) \<and> (of_char c :: nat) \<le> 0x7e"

definition valid_name :: "string \<Rightarrow> bool" where
  "valid_name name \<longleftrightarrow> name \<noteq> [] \<and> length name \<le> MAX_NAME \<and> list_all visible name"

definition valid_secret :: "string \<Rightarrow> bool" where
  "valid_secret secret \<longleftrightarrow> 32 \<le> length secret \<and> length secret \<le> 64 \<and> list_all is_lower_hex secret"

definition owner_hash :: "platform \<Rightarrow> string \<Rightarrow> string" where
  "owner_hash P secret = chunk_key P secret"

section \<open>Requests\<close>

definition invalid_request :: "string \<Rightarrow> NamesRequest" where
  "invalid_request err =
     \<lparr>nr_kind = KInvalid, nr_name = [], nr_key = [], nr_owner = [], nr_secret = [], nr_after = [], nr_from_start = True,
      nr_error = err\<rparr>"

definition parse_page :: "string list \<Rightarrow> Kind \<Rightarrow> string \<Rightarrow> NamesRequest" where
  "parse_page w kind usage =
     (if length w > 2 then invalid_request usage
      else if length w = 2 \<and> \<not> valid_name (w ! 1) then invalid_request BAD_NAME
      else (invalid_request [])\<lparr>nr_kind := kind, nr_from_start := (length w = 1),
                                nr_after := (if length w = 2 then w ! 1 else [])\<rparr>)"

definition parse_register :: "string list \<Rightarrow> NamesRequest" where
  "parse_register w =
     (if length w \<noteq> 3 \<and> length w \<noteq> 4 then invalid_request ''ERR usage: REGISTER <name> <manifest-key> [<owner-hash>]''
      else if \<not> valid_name (w ! 1) then invalid_request BAD_NAME
      else if \<not> valid_key (w ! 2) then invalid_request BAD_KEY
      else if length w = 4 \<and> \<not> valid_key (w ! 3) then invalid_request BAD_OWNER
      else (invalid_request [])\<lparr>nr_kind := KRegister, nr_name := w ! 1, nr_key := w ! 2,
                                nr_owner := (if length w = 4 then w ! 3 else [])\<rparr>)"

definition parse_unregister :: "string list \<Rightarrow> NamesRequest" where
  "parse_unregister w =
     (if length w \<noteq> 3 then invalid_request ''ERR usage: UNREGISTER <name> <secret>''
      else if \<not> valid_name (w ! 1) then invalid_request BAD_NAME
      else if \<not> valid_secret (w ! 2) then invalid_request BAD_SECRET
      else (invalid_request [])\<lparr>nr_kind := KUnregister, nr_name := w ! 1, nr_secret := w ! 2\<rparr>)"

definition parse_resolve :: "string list \<Rightarrow> NamesRequest" where
  "parse_resolve w =
     (if length w \<noteq> 2 then invalid_request ''ERR usage: RESOLVE <name>''
      else if \<not> valid_name (w ! 1) then invalid_request BAD_NAME
      else (invalid_request [])\<lparr>nr_kind := KResolve, nr_name := w ! 1\<rparr>)"

definition parse_names_request :: "string \<Rightarrow> NamesRequest" where
  "parse_names_request line =
     (if line = [] then invalid_request ''ERR empty request''
      else let w = split_single_spaces line; verb = hd w in
        if verb = ''PING'' \<and> length w = 1 then (invalid_request [])\<lparr>nr_kind := KPing\<rparr>
        else if verb = ''REGISTER'' then parse_register w
        else if verb = ''UNREGISTER'' then parse_unregister w
        else if verb = ''RESOLVE'' then parse_resolve w
        else if verb = ''LIST'' then parse_page w KList ''ERR usage: LIST [<after>]''
        else if verb = ''ENTRIES'' then parse_page w KEntries ''ERR usage: ENTRIES [<after>]''
        else invalid_request ''ERR unknown request'')"

lemma invalid_request_kind [simp]: "nr_kind (invalid_request e) = KInvalid"
  by (simp add: invalid_request_def)

lemma parse_kinds:
  "nr_kind (parse_page w kind usage) \<in> {kind, KInvalid}" "nr_kind (parse_register w) \<in> {KRegister, KInvalid}"
  "nr_kind (parse_unregister w) \<in> {KUnregister, KInvalid}" "nr_kind (parse_resolve w) \<in> {KResolve, KInvalid}"
  by (simp_all add: parse_page_def parse_register_def parse_unregister_def parse_resolve_def)

lemma parse_names_cases:
  obtains (register) "parse_names_request line = parse_register (split_single_spaces line)"
  | (unregister) "parse_names_request line = parse_unregister (split_single_spaces line)"
  | (other) "nr_kind (parse_names_request line) \<in> {KInvalid, KPing, KResolve, KList, KEntries}"
proof -
  let ?w = "split_single_spaces line"
  have "parse_names_request line \<in>
      {parse_register ?w, parse_unregister ?w, parse_resolve ?w, (invalid_request [])\<lparr>nr_kind := KPing\<rparr>,
       parse_page ?w KList ''ERR usage: LIST [<after>]'', parse_page ?w KEntries ''ERR usage: ENTRIES [<after>]'',
       invalid_request ''ERR empty request'', invalid_request ''ERR unknown request''}"
    unfolding parse_names_request_def Let_def by (simp only: insert_iff split: if_split) blast
  moreover have "nr_kind ((invalid_request [])\<lparr>nr_kind := KPing\<rparr>) = KPing" by simp
  ultimately show thesis
    using that parse_kinds(1) [of ?w KList "''ERR usage: LIST [<after>]''"]
      parse_kinds(1) [of ?w KEntries "''ERR usage: ENTRIES [<after>]''"] parse_kinds(4) [of ?w] invalid_request_kind
    by (metis (no_types, lifting) empty_iff insert_iff)
qed

text \<open>What an accepted registration and an accepted deletion carry.\<close>

lemma parse_names_register:
  assumes "nr_kind (parse_names_request line) = KRegister"
  shows "valid_name (nr_name (parse_names_request line)) \<and> valid_key (nr_key (parse_names_request line)) \<and>
    (nr_owner (parse_names_request line) = [] \<or> valid_key (nr_owner (parse_names_request line)))"
  using assms parse_kinds(3) [of "split_single_spaces line"]
  by (cases line rule: parse_names_cases) (auto simp: parse_register_def split: if_splits)

lemma parse_names_unregister:
  assumes "nr_kind (parse_names_request line) = KUnregister"
  shows "valid_name (nr_name (parse_names_request line)) \<and> valid_secret (nr_secret (parse_names_request line))"
  using assms parse_kinds(2) [of "split_single_spaces line"]
  by (cases line rule: parse_names_cases) (auto simp: parse_unregister_def split: if_splits)

section \<open>Commands\<close>

definition register_command :: "string \<Rightarrow> string \<Rightarrow> string \<Rightarrow> string" where
  "register_command name key owner =
     ''REGISTER '' @ name @ '' '' @ key @ (if owner = [] then [] else '' '' @ owner)"

definition unregister_command :: "string \<Rightarrow> string \<Rightarrow> string" where
  "unregister_command name owner = ''UNREGISTER '' @ name @ '' '' @ owner"

definition valid_command :: "string \<Rightarrow> bool" where
  "valid_command command \<longleftrightarrow>
     (if command = ''NOOP'' then True
      else let w = split_single_spaces command in
        if hd w = ''REGISTER'' then
          (length w = 3 \<or> length w = 4) \<and> valid_name (w ! 1) \<and> valid_key (w ! 2) \<and> (length w = 3 \<or> valid_key (w ! 3))
        else if hd w = ''UNREGISTER'' then length w = 3 \<and> valid_name (w ! 1) \<and> valid_key (w ! 2)
        else False)"

text \<open>\<^verbatim>\<open>names.emplace\<close> of a name that is absent, and \<^verbatim>\<open>names.erase\<close>.\<close>

fun ns_emplace :: "string \<Rightarrow> NameEntry \<Rightarrow> Namespace \<Rightarrow> Namespace" where
  "ns_emplace n e [] = [(n, e)]"
| "ns_emplace n e (x # xs) = (if n < fst x then (n, e) # x # xs else x # ns_emplace n e xs)"

definition ns_erase :: "string \<Rightarrow> Namespace \<Rightarrow> Namespace" where
  "ns_erase n ns = filter (\<lambda>x. fst x \<noteq> n) ns"

definition apply_command :: "string \<Rightarrow> Namespace \<Rightarrow> string \<times> Namespace" where
  "apply_command command ns =
     (if \<not> valid_command command \<or> command = ''NOOP'' then ([], ns)
      else let w = split_single_spaces command; it = map_of ns (w ! 1) in
        if hd w = ''UNREGISTER'' then
          (case it of
             None \<Rightarrow> (''MISSING'', ns)
           | Some e \<Rightarrow>
               if ne_owner e = [] \<or> ne_owner e \<noteq> w ! 2 then (''DENIED'', ns)
               else (''OK'', ns_erase (w ! 1) ns))
        else
          let owner = (if length w = 4 then w ! 3 else []) in
          (case it of
             None \<Rightarrow> (''OK'', ns_emplace (w ! 1) \<lparr>ne_key = w ! 2, ne_owner = owner\<rparr> ns)
           | Some e \<Rightarrow> (if ne_key e = w ! 2 \<and> ne_owner e = owner then ''OK'' else ''EXISTS '' @ ne_key e, ns)))"

section \<open>Reads\<close>

text \<open>The loop of \<^verbatim>\<open>page\<close>: how many entries fit, with the text built so far.\<close>

fun page_loop :: "(string \<times> NameEntry \<Rightarrow> string) \<Rightarrow> nat \<Rightarrow> string \<Rightarrow> nat \<Rightarrow> Namespace \<Rightarrow> nat \<times> string" where
  "page_loop word budget so_far count [] = (count, so_far)"
| "page_loop word budget so_far count (x # xs) =
     (if length so_far + length (word x) > budget then (count, so_far)
      else page_loop word budget (so_far @ word x) (Suc count) xs)"

definition page :: "Namespace \<Rightarrow> string \<Rightarrow> string \<Rightarrow> bool \<Rightarrow> (string \<times> NameEntry \<Rightarrow> string) \<Rightarrow> string" where
  "page ns verb after from_start word =
     (let budget = MAX_LINE - length verb - 5;
          items = (if from_start then ns else dropWhile (\<lambda>x. fst x \<le> after) ns);
          (count, words) = page_loop word budget [] 0 items
      in verb @ '' '' @ to_string count @ words)"

definition list_word :: "string \<times> NameEntry \<Rightarrow> string" where
  "list_word x = '' '' @ fst x"

definition entries_word :: "string \<times> NameEntry \<Rightarrow> string" where
  "entries_word x = '' '' @ fst x @ '' '' @ ne_key (snd x)"

definition answer_read :: "Namespace \<Rightarrow> NamesRequest \<Rightarrow> string" where
  "answer_read ns req =
     (case nr_kind req of
        KResolve \<Rightarrow> (case map_of ns (nr_name req) of None \<Rightarrow> ''MISSING'' | Some e \<Rightarrow> ''FILE '' @ ne_key e)
      | KList \<Rightarrow> page ns ''NAMES'' (nr_after req) (nr_from_start req) list_word
      | KEntries \<Rightarrow> page ns ''ENTRIES'' (nr_after req) (nr_from_start req) entries_word
      | _ \<Rightarrow> ''ERR not a read'')"

section \<open>Commands as values\<close>

datatype NameCommand = Noop | RegisterC string string string | UnregisterC string string

fun command_text :: "NameCommand \<Rightarrow> string" where
  "command_text Noop = ''NOOP''"
| "command_text (RegisterC n k owner) = register_command n k owner"
| "command_text (UnregisterC n owner) = unregister_command n owner"

fun name_command_ok :: "NameCommand \<Rightarrow> bool" where
  "name_command_ok Noop = True"
| "name_command_ok (RegisterC n k owner) = (valid_name n \<and> valid_key k \<and> (owner = [] \<or> valid_key owner))"
| "name_command_ok (UnregisterC n owner) = (valid_name n \<and> valid_key owner)"

lemma valid_name_no_sep [simp]:
  assumes "valid_name n"
  shows "CHR '' '' \<notin> set n" "CHR 0x0A \<notin> set n" "n \<noteq> []" "[] \<noteq> n"
proof -
  have v: "list_all visible n" using assms by (simp add: valid_name_def)
  have "\<not> visible CHR '' ''" "\<not> visible (CHR 0x0A)" by (simp_all add: visible_def)
  with v show "CHR '' '' \<notin> set n" "CHR 0x0A \<notin> set n" by (auto simp: list_all_iff)
  show "n \<noteq> []" "[] \<noteq> n" using assms by (auto simp: valid_name_def)
qed

lemma valid_key_nonempty [simp]: "valid_key k \<Longrightarrow> [] \<noteq> k"
  by (auto simp: valid_key_def)

lemma not_valid_key_Nil [simp]: "\<not> valid_key []"
  by (simp add: valid_key_def)

lemma register_words:
  "valid_name n \<Longrightarrow> valid_key k \<Longrightarrow> owner = [] \<or> valid_key owner \<Longrightarrow>
     split_single_spaces (register_command n k owner) = [''REGISTER'', n, k] @ (if owner = [] then [] else [owner])"
  by (auto simp: register_command_def)

lemma unregister_words:
  "valid_name n \<Longrightarrow> valid_key owner \<Longrightarrow>
     split_single_spaces (unregister_command n owner) = [''UNREGISTER'', n, owner]"
  by (simp add: unregister_command_def)

lemma command_text_valid: "name_command_ok c \<Longrightarrow> valid_command (command_text c)"
  by (cases c) (auto simp: valid_command_def register_words unregister_words Let_def)

lemma join_split_words: "join_with (CHR '' '') (split_single_spaces s) = s"
  by (simp add: split_single_spaces_def)

lemma valid_command_text:
  assumes "valid_command x"
  shows "\<exists>c. name_command_ok c \<and> command_text c = x"
proof (cases "x = ''NOOP''")
  case True
  then show ?thesis by (intro exI [of _ Noop]) simp
next
  case False
  let ?w = "split_single_spaces x"
  have x: "x = join_with (CHR '' '') ?w" by (simp add: join_split_words)
  consider (reg3) n k where "?w = [''REGISTER'', n, k]" "valid_name n" "valid_key k"
    | (reg4) n k owner where "?w = [''REGISTER'', n, k, owner]" "valid_name n" "valid_key k" "valid_key owner"
    | (unreg) n owner where "?w = [''UNREGISTER'', n, owner]" "valid_name n" "valid_key owner"
    using assms False
    by (auto simp: valid_command_def Let_def length_Suc_conv numeral_eq_Suc split: if_splits)
  then show ?thesis
  proof cases
    case reg3
    then have "x = register_command n k []" using x by (simp add: register_command_def)
    with reg3 show ?thesis by (intro exI [of _ "RegisterC n k []"]) simp
  next
    case reg4
    then have "x = register_command n k owner" using x by (simp add: register_command_def)
    with reg4 show ?thesis by (intro exI [of _ "RegisterC n k owner"]) simp
  next
    case unreg
    then have "x = unregister_command n owner" using x by (simp add: unregister_command_def)
    with unreg show ?thesis by (intro exI [of _ "UnregisterC n owner"]) simp
  qed
qed

lemma command_text_fits: "name_command_ok c \<Longrightarrow> command_fits (command_text c)"
  by (cases c) (auto simp: command_fits_def register_words unregister_words register_command_def unregister_command_def)

text \<open>
  The commands of the log: a text is a valid command exactly when it is the one spelling of
  a no-op, a registration or a deletion with a valid name, key and owner hash; and then it can
  be kept in the log file and sent in an APPEND unchanged.
\<close>

theorem valid_command_iff:
  "valid_command x \<longleftrightarrow> (\<exists>c. name_command_ok c \<and> command_text c = x \<and> command_fits x)"
  using command_text_valid valid_command_text command_text_fits by metis

section \<open>The namespace as a map\<close>

definition ns_ok :: "Namespace \<Rightarrow> bool" where
  "ns_ok ns \<longleftrightarrow>
     sorted_wrt (<) (map fst ns) \<and>
     (\<forall>(n, e)\<in>set ns. valid_name n \<and> valid_key (ne_key e) \<and> (ne_owner e = [] \<or> valid_key (ne_owner e)))"

lemma ns_emplace_set [simp]: "set (ns_emplace n e ns) = insert (n, e) (set ns)"
  by (induction n e ns rule: ns_emplace.induct) auto

lemma ns_emplace_map: "map_of ns n = None \<Longrightarrow> map_of (ns_emplace n e ns) = (map_of ns)(n \<mapsto> e)"
  by (induction n e ns rule: ns_emplace.induct) (auto simp: fun_eq_iff split: if_splits)

lemma ns_emplace_sorted:
  "sorted_wrt (<) (map fst ns) \<Longrightarrow> map_of ns n = None \<Longrightarrow> sorted_wrt (<) (map fst (ns_emplace n e ns))"
proof (induction n e ns rule: ns_emplace.induct)
  case (2 n e x xs)
  then show ?case by (cases "n < fst x") (auto split: if_splits)
qed simp

lemma ns_erase_map: "map_of (ns_erase n ns) = (map_of ns)(n := None)"
  by (induction ns) (auto simp: ns_erase_def fun_eq_iff)

lemma ns_erase_sorted: "sorted_wrt (<) (map fst ns) \<Longrightarrow> sorted_wrt (<) (map fst (ns_erase n ns))"
  by (induction ns) (auto simp: ns_erase_def)

text \<open>The contract: what each command does to a plain map from names to entries.\<close>

fun spec_apply :: "NameCommand \<Rightarrow> (string \<rightharpoonup> NameEntry) \<Rightarrow> string \<times> (string \<rightharpoonup> NameEntry)" where
  "spec_apply Noop m = ([], m)"
| "spec_apply (RegisterC n k owner) m =
     (case m n of
        None \<Rightarrow> (''OK'', m(n \<mapsto> \<lparr>ne_key = k, ne_owner = owner\<rparr>))
      | Some e \<Rightarrow> (if e = \<lparr>ne_key = k, ne_owner = owner\<rparr> then ''OK'' else ''EXISTS '' @ ne_key e, m))"
| "spec_apply (UnregisterC n owner) m =
     (case m n of
        None \<Rightarrow> (''MISSING'', m)
      | Some e \<Rightarrow> if ne_owner e = owner then (''OK'', m(n := None)) else (''DENIED'', m))"

lemma apply_unregister:
  assumes "valid_name n" "valid_key owner"
  shows "apply_command (unregister_command n owner) ns =
    (case map_of ns n of
       None \<Rightarrow> (''MISSING'', ns)
     | Some e \<Rightarrow> if ne_owner e = owner then (''OK'', ns_erase n ns) else (''DENIED'', ns))"
proof -
  have "valid_command (unregister_command n owner)" using command_text_valid [of "UnregisterC n owner"] assms by simp
  moreover have "unregister_command n owner \<noteq> ''NOOP''" by (simp add: unregister_command_def)
  moreover have "owner \<noteq> []" using assms by auto
  ultimately show ?thesis
    by (auto simp: apply_command_def Let_def unregister_words [OF assms] split: option.splits)
qed

lemma apply_refines:
  assumes "ns_ok ns" "name_command_ok c" "apply_command (command_text c) ns = (r, ns')"
  shows "ns_ok ns' \<and> spec_apply c (map_of ns) = (r, map_of ns')"
proof (cases c)
  case Noop
  with assms show ?thesis by (simp add: apply_command_def)
next
  case (RegisterC n k owner)
  have v: "valid_name n" "valid_key k" "owner = [] \<or> valid_key owner" using assms(2) RegisterC by auto
  have vc: "valid_command (register_command n k owner)" "register_command n k owner \<noteq> ''NOOP''"
    using command_text_valid [OF assms(2)] RegisterC by (auto simp: register_command_def)
  show ?thesis
  proof (cases "map_of ns n")
    case None
    then have "r = ''OK''" "ns' = ns_emplace n \<lparr>ne_key = k, ne_owner = owner\<rparr> ns"
      using assms(3) vc v by (auto simp: RegisterC apply_command_def Let_def register_words [OF v] split: if_splits)
    then show ?thesis
      using None assms(1) v by (auto simp: RegisterC ns_ok_def ns_emplace_map ns_emplace_sorted)
  next
    case (Some e)
    then have "ns' = ns" "r = (if ne_key e = k \<and> ne_owner e = owner then ''OK'' else ''EXISTS '' @ ne_key e)"
      using assms(3) vc v by (auto simp: RegisterC apply_command_def Let_def register_words [OF v] split: if_splits)
    moreover have "e = \<lparr>ne_key = k, ne_owner = owner\<rparr> \<longleftrightarrow> ne_key e = k \<and> ne_owner e = owner"
      by (cases e) auto
    ultimately show ?thesis using Some assms(1) by (simp add: RegisterC)
  qed
next
  case (UnregisterC n owner)
  have v: "valid_name n" "valid_key owner" using assms(2) UnregisterC by auto
  show ?thesis
    using assms(1,3)
    by (auto simp: UnregisterC apply_unregister [OF v] ns_erase_map ns_ok_def ns_erase_sorted
        split: option.splits if_splits) (auto simp: ns_erase_def)
qed

text \<open>
  C16. The namespace implements its contract: applying a valid command to a well-formed namespace
  gives the answer and the map the contract gives (registering a free name binds it,
  registering a taken one changes nothing and answers OK only for the same key and owner,
  deleting needs the owner's hash), and the namespace stays sorted and well formed.
\<close>

theorem apply_command_refines:
  assumes "ns_ok ns" "name_command_ok c" "apply_command (command_text c) ns = (r, ns')"
  shows "ns_ok ns' \<and> spec_apply c (map_of ns) = (r, map_of ns')"
  using apply_refines [OF assms] .

definition apply_all :: "string list \<Rightarrow> Namespace \<Rightarrow> Namespace" where
  "apply_all xs ns = fold (\<lambda>x ns. snd (apply_command x ns)) xs ns"

lemma apply_command_ok: "ns_ok ns \<Longrightarrow> ns_ok (snd (apply_command x ns))"
proof (cases "valid_command x")
  case True
  assume ok: "ns_ok ns"
  obtain c where "name_command_ok c" "command_text c = x" using valid_command_text [OF True] by blast
  with apply_refines [OF ok] show ?thesis by (metis prod.collapse)
qed (simp add: apply_command_def)

lemma apply_all_ok: "ns_ok ns \<Longrightarrow> ns_ok (apply_all xs ns)"
  unfolding apply_all_def by (induction xs arbitrary: ns) (auto simp: apply_command_ok)

lemma apply_command_entry:
  assumes "ns_ok ns" "map_of ns n = Some e" "map_of (snd (apply_command x ns)) n \<noteq> Some e"
  shows "ne_owner e \<noteq> [] \<and> x = unregister_command n (ne_owner e)"
proof -
  have "valid_command x" using assms(2,3) by (auto simp: apply_command_def split: if_splits)
  then obtain c where c: "name_command_ok c" "command_text c = x" using valid_command_text by blast
  have s: "snd (spec_apply c (map_of ns)) n \<noteq> Some e"
    using apply_refines [OF assms(1) c(1)] c(2) assms(3) by (metis prod.collapse snd_conv)
  show ?thesis
  proof (cases c)
    case (UnregisterC n' owner)
    then have "n' = n" "ne_owner e = owner"
      using s assms(2) by (auto split: option.splits if_splits)
    then show ?thesis using c UnregisterC by auto
  qed (use s assms(2) in \<open>auto split: option.splits if_splits\<close>)
qed

text \<open>
  C17. A registered name is the owner's: through any sequence of commands, an entry of the
  namespace stays as it is unless one of the commands is the deletion of exactly that name by
  the hash of its owner's secret. An entry registered without an owner is never changed.
\<close>

theorem name_kept_unless_owner_deletes:
  assumes "ns_ok ns" "map_of ns n = Some e" "map_of (apply_all xs ns) n \<noteq> Some e"
  shows "ne_owner e \<noteq> [] \<and> unregister_command n (ne_owner e) \<in> set xs"
  using assms
proof (induction xs arbitrary: ns)
  case (Cons x xs)
  show ?case
  proof (cases "map_of (snd (apply_command x ns)) n = Some e")
    case True
    with Cons apply_command_ok [of ns x] show ?thesis by (auto simp: apply_all_def)
  next
    case False
    with apply_command_entry [OF Cons.prems(1,2)] show ?thesis by auto
  qed
qed (simp add: apply_all_def)

definition sample_names :: Namespace where
  "sample_names = [(''a.txt'', \<lparr>ne_key = sample_key, ne_owner = sample_key\<rparr>)]"

lemma sample_names_ok: "ns_ok sample_names"
  by (simp add: ns_ok_def sample_names_def sample_key_valid valid_name_def MAX_NAME_def visible_def)

lemma sample_name_valid: "valid_name ''a.txt''"
  by (simp add: valid_name_def MAX_NAME_def visible_def)

theorem apply_command_refines_witness:
  "ns_ok [] \<and> spec_apply (UnregisterC ''a.txt'' sample_key) (map_of sample_names) = (''OK'', Map.empty)"
proof -
  have "apply_command (command_text (UnregisterC ''a.txt'' sample_key)) sample_names = (''OK'', [])"
    by (simp add: apply_unregister [OF sample_name_valid sample_key_valid] sample_names_def ns_erase_def)
  then show ?thesis
    using apply_command_refines [OF sample_names_ok, of "UnregisterC ''a.txt'' sample_key" "''OK''" "[]"]
      sample_name_valid sample_key_valid by simp
qed

theorem name_kept_unless_owner_deletes_witness:
  "map_of (apply_all [''NOOP'', unregister_command ''a.txt'' sample_key] sample_names) ''a.txt'' = None \<and>
   unregister_command ''a.txt'' sample_key \<in> set [''NOOP'', unregister_command ''a.txt'' sample_key]"
proof -
  have noop: "apply_command ''NOOP'' sample_names = ([], sample_names)" by (simp add: apply_command_def)
  have "apply_all [''NOOP'', unregister_command ''a.txt'' sample_key] sample_names = []"
    by (simp add: apply_all_def noop [simplified sample_names_def] apply_unregister [OF sample_name_valid sample_key_valid] sample_names_def ns_erase_def)
  then show ?thesis
    using name_kept_unless_owner_deletes [OF sample_names_ok, of "''a.txt''" "\<lparr>ne_key = sample_key, ne_owner = sample_key\<rparr>"
        "[''NOOP'', unregister_command ''a.txt'' sample_key]"]
    by (simp add: sample_names_def)
qed

section \<open>Pages of names\<close>

lemma page_loop_take:
  "\<exists>m\<le>length xs. page_loop word budget so_far count xs = (count + m, so_far @ concat (map word (take m xs))) \<and>
     (m = 0 \<or> length so_far + length (concat (map word (take m xs))) \<le> budget) \<and>
     (xs \<noteq> [] \<and> length so_far + length (word (hd xs)) \<le> budget \<longrightarrow> m \<noteq> 0)"
proof (induction word budget so_far count xs rule: page_loop.induct)
  case (2 word budget so_far count x xs)
  show ?case
  proof (cases "length so_far + length (word x) > budget")
    case True
    then show ?thesis by (intro exI [of _ 0]) simp
  next
    case False
    with 2 obtain m where m: "m \<le> length xs"
      "page_loop word budget (so_far @ word x) (Suc count) xs = (Suc count + m, (so_far @ word x) @ concat (map word (take m xs)))"
      "m = 0 \<or> length (so_far @ word x) + length (concat (map word (take m xs))) \<le> budget" by auto
    then show ?thesis using False by (intro exI [of _ "Suc m"]) auto
  qed
qed simp

definition items_after :: "string option \<Rightarrow> Namespace \<Rightarrow> Namespace" where
  "items_after a ns = (case a of None \<Rightarrow> ns | Some k \<Rightarrow> dropWhile (\<lambda>x. fst x \<le> k) ns)"

definition page_request :: "Kind \<Rightarrow> string option \<Rightarrow> NamesRequest" where
  "page_request kind a =
     (invalid_request [])\<lparr>nr_kind := kind, nr_from_start := (a = None), nr_after := (case a of None \<Rightarrow> [] | Some k \<Rightarrow> k)\<rparr>"

lemma items_after_keys: "map fst (items_after a ns) = after_key a (map fst ns)"
  by (cases a) (simp_all add: items_after_def after_key_def dropWhile_map comp_def)

text \<open>One LIST reply: a count and that many names, right after the given one, within one line.\<close>

lemma list_reply:
  assumes "ns_ok ns"
  shows "\<exists>m\<le>length (items_after a ns).
    answer_read ns (page_request KList a) =
      ''NAMES '' @ to_string m @ concat (map list_word (take m (items_after a ns))) \<and>
    (items_after a ns \<noteq> [] \<longrightarrow> m \<noteq> 0) \<and> length (answer_read ns (page_request KList a)) \<le> MAX_LINE"
proof -
  let ?items = "items_after a ns"
  have sub: "set ?items \<subseteq> set ns" by (auto simp: items_after_def dest: set_dropWhileD split: option.splits)
  obtain m where m: "m \<le> length ?items"
    "page_loop list_word 1014 [] 0 ?items = (m, concat (map list_word (take m ?items)))"
    "m = 0 \<or> length (concat (map list_word (take m ?items))) \<le> 1014"
    "?items \<noteq> [] \<and> length (list_word (hd ?items)) \<le> 1014 \<longrightarrow> m \<noteq> 0"
    using page_loop_take [of ?items list_word 1014 "[]" 0] by auto
  have reply: "answer_read ns (page_request KList a) = ''NAMES '' @ to_string m @ concat (map list_word (take m ?items))"
    using m(2) by (cases a) (simp_all add: answer_read_def page_request_def page_def MAX_LINE_def items_after_def)
  have first: "length (list_word (hd ?items)) \<le> 1014" if "?items \<noteq> []"
  proof -
    have "hd ?items \<in> set ns" using that sub by (meson hd_in_set subsetD)
    then show ?thesis using assms by (auto simp: ns_ok_def list_word_def valid_name_def MAX_NAME_def)
  qed
  have "m \<le> length (concat (map list_word (take m ?items)))"
  proof -
    have "length xs \<le> length (concat (map list_word xs))" for xs by (induction xs) (auto simp: list_word_def)
    from this [of "take m ?items"] m(1) show ?thesis by simp
  qed
  then have "m \<le> 1014" using m(3) by auto
  then have "length (to_string m) \<le> 4" by (intro to_string_length_le) auto
  then have "length (answer_read ns (page_request KList a)) \<le> MAX_LINE"
    using m(3) by (auto simp: reply MAX_LINE_def)
  then show ?thesis using m(1,4) first reply by blast
qed

text \<open>The names a client reads off a NAMES reply.\<close>

definition names_page :: "Namespace \<Rightarrow> string option \<Rightarrow> string list" where
  "names_page ns a = drop 2 (split_single_spaces (answer_read ns (page_request KList a)))"

lemma split_list_words:
  "(\<forall>x\<in>set xs. CHR '' '' \<notin> set (fst x)) \<Longrightarrow> CHR '' '' \<notin> set w \<Longrightarrow>
     split_single_spaces (w @ concat (map list_word xs)) = w # map fst xs"
  by (induction xs arbitrary: w) (auto simp: list_word_def)

lemma names_page_take: "ns_ok ns \<Longrightarrow> \<exists>n. names_page ns a = take n (after_key a (map fst ns)) \<and>
  (after_key a (map fst ns) \<noteq> [] \<longrightarrow> names_page ns a \<noteq> [])"
proof -
  assume ok: "ns_ok ns"
  let ?items = "items_after a ns"
  obtain m where m: "m \<le> length ?items" "?items \<noteq> [] \<longrightarrow> m \<noteq> 0"
    "answer_read ns (page_request KList a) = ''NAMES '' @ to_string m @ concat (map list_word (take m ?items))"
    using list_reply [OF ok, of a] by blast
  have "\<forall>x\<in>set (take m ?items). CHR '' '' \<notin> set (fst x)"
    using ok by (auto simp: ns_ok_def items_after_def dest!: in_set_takeD set_dropWhileD split: option.splits)
  from split_list_words [OF this, of "to_string m"]
  have "names_page ns a = map fst (take m ?items)" by (simp add: names_page_def m(3))
  then have "names_page ns a = take m (after_key a (map fst ns))" by (simp add: take_map items_after_keys [symmetric])
  with m items_after_keys [of a ns] show ?thesis by (intro exI [of _ m]) (auto simp: take_eq_Nil)
qed

interpretation names_pages: pager ns_ok "map fst" names_page
proof unfold_locales
  show "ns_ok s \<Longrightarrow> sorted_wrt (<) (map fst s)" for s by (simp add: ns_ok_def)
qed (use names_page_take in blast)+

text \<open>
  Listing the names is complete: every NAMES reply fits one line and carries its own count,
  and a client that asks for the page after the last name it was given until a page is empty
  has read every registered name once, in order.
\<close>

theorem list_names_complete:
  assumes "ns_ok ns" "length ns < fuel"
  shows "read_pages (names_page ns) fuel None = map fst ns \<and>
    length (answer_read ns (page_request KList a)) \<le> MAX_LINE"
  using names_pages.read_all [OF assms(1)] list_reply [OF assms(1), of a] assms(2) by auto

theorem list_names_complete_witness: "read_pages (names_page sample_names) 5 None = [''a.txt'']"
  using list_names_complete [OF sample_names_ok, of 5] by (simp add: sample_names_def)

end
