(* ===== verification/Stabilize.thy ===== *)
theory Stabilize
  imports Fixed_Ring Names
begin

text \<open>
  \<^verbatim>\<open>src/stabilize.h\<close> and \<^verbatim>\<open>src/stabilize.cpp\<close>: a ring member's routing state and everything that
  changes it. A call to another node goes through a transport over a world that contains this
  node's own state: while the call is in progress the lock is not held, and the state that comes
  back may have been changed by other threads. Events for the log are appended to the state in
  order, without the measured duration of a failed call.
\<close>

section \<open>State\<close>

definition DEFAULT_SUCCESSORS :: nat where "DEFAULT_SUCCESSORS = 8"
definition MAX_SUCCESSORS :: nat where "MAX_SUCCESSORS = 16"
definition STRIKES_TO_EVICT :: nat where "STRIKES_TO_EVICT = 2"
definition MAX_CONTACTS :: nat where "MAX_CONTACTS = 32"
definition MAX_WALK :: nat where "MAX_WALK = 64"

record RingCounters =
  ct_rounds :: nat
  ct_strikes :: nat
  ct_evicted_refused :: nat
  ct_evicted_strikes :: nat
  ct_evicted_orphan :: nat
  ct_new_successor :: nat
  ct_rejoins :: nat

record NodeState =
  nd_self :: Peer
  nd_r :: nat
  nd_log :: "string list"
  nd_has_pred :: bool
  nd_pred :: Peer
  nd_succs :: "Peer list"
  nd_fingers :: "Peer list"
  nd_next_finger :: nat
  nd_orphaned :: bool
  nd_contacts :: "Peer list"
  nd_next_contact :: nat
  nd_strikes :: "string \<rightharpoonup> nat"
  nd_counters :: RingCounters

definition node_init :: "Peer \<Rightarrow> nat \<Rightarrow> NodeState" where
  "node_init me successors =
     \<lparr>nd_self = me, nd_r = successors, nd_log = [], nd_has_pred = False, nd_pred = empty_peer, nd_succs = [me],
      nd_fingers = replicate ID_BITS me, nd_next_finger = 1, nd_orphaned = False, nd_contacts = [], nd_next_contact = 0,
      nd_strikes = Map.empty,
      nd_counters = \<lparr>ct_rounds = 0, ct_strikes = 0, ct_evicted_refused = 0, ct_evicted_strikes = 0, ct_evicted_orphan = 0,
                     ct_new_successor = 0, ct_rejoins = 0\<rparr>\<rparr>"

definition same_node :: "Peer \<Rightarrow> Peer \<Rightarrow> bool" where
  "same_node a b \<longleftrightarrow> peer_ip a = peer_ip b \<and> peer_port a = peer_port b \<and> peer_id a = peer_id b"

definition same_process :: "Peer \<Rightarrow> Peer \<Rightarrow> bool" where
  "same_process a b \<longleftrightarrow> peer_ip a = peer_ip b \<and> peer_port a = peer_port b"

definition member_key :: "Peer \<Rightarrow> string" where
  "member_key p = peer_address p @ ''/'' @ id_to_hex (peer_id p)"

definition emit :: "string list \<Rightarrow> NodeState \<Rightarrow> NodeState" where
  "emit events s = s\<lparr>nd_log := nd_log s @ events\<rparr>"

definition is_pong :: "string \<Rightarrow> bool" where
  "is_pong reply \<longleftrightarrow> starts_with ''PONG '' reply"

definition is_ok :: "string \<Rightarrow> bool" where
  "is_ok reply \<longleftrightarrow> reply = ''OK''"

section \<open>Eviction and strikes\<close>

definition consider_peer :: "NodeState \<Rightarrow> (Peer \<Rightarrow> bool) \<Rightarrow> Peer \<Rightarrow> Peer \<times> Id \<Rightarrow> Peer \<times> Id" where
  "consider_peer s gone p best =
     (if same_node p (nd_self s) \<or> gone p \<or> peer_id p = peer_id (nd_self s) then best
      else let distance = peer_id p - peer_id (nd_self s) in
        if snd best = 0 \<or> distance < snd best then (p, distance) else best)"

definition nearest_known :: "NodeState \<Rightarrow> (Peer \<Rightarrow> bool) \<Rightarrow> Peer" where
  "nearest_known s gone =
     fst (fold (consider_peer s gone) (nd_fingers s @ (if nd_has_pred s then [nd_pred s] else [])) (nd_self s, 0))"

definition remember :: "Peer \<Rightarrow> NodeState \<Rightarrow> NodeState" where
  "remember p s =
     (if same_process p (nd_self s) then s
      else let contacts = p # remove1 p (nd_contacts s) in
        s\<lparr>nd_contacts := (if length contacts > MAX_CONTACTS then butlast contacts else contacts)\<rparr>)"

text \<open>The entry that takes over from \<open>dead\<close>: the first one kept after the first one gone.\<close>

definition replacement_of :: "(Peer \<Rightarrow> bool) \<Rightarrow> Peer list \<Rightarrow> Peer option" where
  "replacement_of gone succs = List.find (\<lambda>p. \<not> gone p) (dropWhile (\<lambda>p. \<not> gone p) succs)"

definition count_eviction :: "bool \<Rightarrow> bool \<Rightarrow> RingCounters \<Rightarrow> RingCounters" where
  "count_eviction whole_process sibling_said_so c =
     (if sibling_said_so then c\<lparr>ct_evicted_orphan := Suc (ct_evicted_orphan c)\<rparr>
      else if whole_process then c\<lparr>ct_evicted_refused := Suc (ct_evicted_refused c)\<rparr>
      else c\<lparr>ct_evicted_strikes := Suc (ct_evicted_strikes c)\<rparr>)"

text \<open>The successor list after an eviction, and whether this leaves the node orphaned.\<close>

definition evict_succs :: "(Peer \<Rightarrow> bool) \<Rightarrow> NodeState \<Rightarrow> NodeState" where
  "evict_succs gone s =
     (let kept = filter (\<lambda>p. \<not> gone p) (nd_succs s) in
      if kept \<noteq> [] then s\<lparr>nd_succs := kept\<rparr>
      else let fallback = nearest_known s gone in
        if same_node fallback (nd_self s) \<and> \<not> same_node (hd (nd_succs s)) (nd_self s)
        then emit [''orphaned: every known node is gone; refusing to route until rejoined'']
               (s\<lparr>nd_succs := [fallback], nd_orphaned := True\<rparr>)
        else emit [''successor list exhausted; falling back to '' @ peer_address fallback] (s\<lparr>nd_succs := [fallback]\<rparr>))"

text \<open>Everything an eviction changes: the successors, the predecessor, the fingers, the strikes.\<close>

definition evict_tables :: "(Peer \<Rightarrow> bool) \<Rightarrow> (string \<Rightarrow> bool) \<Rightarrow> NodeState \<Rightarrow> NodeState" where
  "evict_tables gone cleared s =
     (let s1 = evict_succs gone s;
          first = hd (nd_succs s1);
          replacement = replacement_of gone (nd_succs s);
          fingers = map (\<lambda>f. if gone f then (case replacement of None \<Rightarrow> first | Some p \<Rightarrow> p) else f) (nd_fingers s)
      in s1\<lparr>nd_has_pred := (nd_has_pred s \<and> \<not> gone (nd_pred s)),
            nd_fingers := fingers[0 := first],
            nd_strikes := (\<lambda>k. if cleared k then None else nd_strikes s k)\<rparr>)"

definition was_known :: "(Peer \<Rightarrow> bool) \<Rightarrow> NodeState \<Rightarrow> bool" where
  "was_known gone s \<longleftrightarrow>
     (\<exists>p\<in>set (nd_succs s). gone p) \<or> nd_has_pred s \<and> gone (nd_pred s) \<or> (\<exists>f\<in>set (nd_fingers s). gone f)"

definition evict :: "Peer \<Rightarrow> string \<Rightarrow> bool \<Rightarrow> bool \<Rightarrow> NodeState \<Rightarrow> NodeState" where
  "evict dead why whole_process sibling_said_so s =
     (if same_node dead (nd_self s) then s
      else if same_process dead (nd_self s) \<and> \<not> sibling_said_so then s
      else let gone = (\<lambda>p. if whole_process then same_process p dead else same_node p dead);
               cleared = (\<lambda>k. if whole_process then starts_with (peer_address dead @ ''/'') k else k = member_key dead);
               s' = evict_tables gone cleared s
           in if was_known gone s
              then emit [''evict '' @ peer_address dead @ '' ('' @ why @ '')'' @
                         (if whole_process then [] else '' member '' @ id_to_hex (peer_id dead))]
                     (s'\<lparr>nd_counters := count_eviction whole_process sibling_said_so (nd_counters s')\<rparr>)
              else s')"

definition strike :: "Peer \<Rightarrow> string \<Rightarrow> NodeState \<Rightarrow> NodeState" where
  "strike p why s =
     (if same_process p (nd_self s) then s
      else if \<not> (nd_has_pred s \<and> same_node p (nd_pred s) \<or> (\<exists>q\<in>set (nd_succs s). same_node p q) \<or>
                 (\<exists>f\<in>set (nd_fingers s). same_node p f)) then s
      else let n = Suc (case nd_strikes s (member_key p) of None \<Rightarrow> 0 | Some k \<Rightarrow> k);
               c = nd_counters s;
               s = emit [''strike '' @ to_string n @ '' against '' @ peer_address p @ '' ('' @ why @ '')'']
                     (s\<lparr>nd_strikes := (nd_strikes s)(member_key p \<mapsto> n),
                        nd_counters := c\<lparr>ct_strikes := Suc (ct_strikes c)\<rparr>\<rparr>)
           in if n \<ge> STRIKES_TO_EVICT then evict p (why @ '', second strike'') False False s else s)"

definition clear_strikes :: "Peer \<Rightarrow> NodeState \<Rightarrow> NodeState" where
  "clear_strikes p s = s\<lparr>nd_strikes := (nd_strikes s)(member_key p := None)\<rparr>"

section \<open>Calls\<close>

type_synonym 'w node_world = "'w \<times> NodeState"

datatype Call = CGood | CRefused | CFailed

definition first_word :: "string \<Rightarrow> string" where
  "first_word s = takeWhile (\<lambda>c. c \<noteq> CHR '' '') s"

text \<open>What a call's outcome does to the state, under the lock.\<close>

definition report_call :: "Peer \<Rightarrow> string \<Rightarrow> Delivery \<Rightarrow> string \<Rightarrow> bool \<Rightarrow> NodeState \<Rightarrow> NodeState" where
  "report_call to request d reply good s =
     (if good then clear_strikes to s
      else if d = Ok \<and> starts_with ''ERR orphaned'' reply then evict to ''it says it is orphaned'' False True s
      else if d = Refused then evict to ''refused'' True False s
      else strike to (if d = Ok then ''bad reply to '' @ first_word request else delivery_name d) s)"

definition call_peer ::
  "'w node_world transport \<Rightarrow> Peer \<Rightarrow> string \<Rightarrow> (string \<Rightarrow> bool) \<Rightarrow> 'w node_world \<Rightarrow> (Call \<times> string) \<times> 'w node_world"
where
  "call_peer t to request valid ws =
     (case t ws to request of
        ((d, reply), (w, s)) \<Rightarrow>
          let good = (d = Ok \<and> \<not> starts_with ''ERR'' reply \<and> valid reply);
              s = report_call to request d reply good s
          in ((if good then CGood else if d = Refused then CRefused else CFailed, reply), (w, s)))"

definition parse_count :: "string \<Rightarrow> nat option" where
  "parse_count w =
     (if w = [] \<or> length w > 2 \<or> hd w = CHR ''0'' then None
      else case digits_from 0 w of
        None \<Rightarrow> None
      | Some v \<Rightarrow> if v < 1 \<or> v > MAX_SUCCESSORS then None else Some v)"

section \<open>Wire formats\<close>

record Neighbours =
  nb_has_pred :: bool
  nb_pred :: Peer
  nb_succs :: "Peer list"

definition render_neighbours :: "Neighbours \<Rightarrow> string" where
  "render_neighbours n =
     ''NEIGHBOURS '' @ (if nb_has_pred n then peer_words (nb_pred n) else ''NONE'') @
     '' '' @ to_string (length (nb_succs n)) @ concat (map (\<lambda>p. '' '' @ peer_words p) (nb_succs n))"

fun parse_peers :: "platform \<Rightarrow> string list \<Rightarrow> Peer list option" where
  "parse_peers P [] = Some []"
| "parse_peers P (a # b # c # rest) =
     (case parse_peer_words P a b c of
        Inl _ \<Rightarrow> None
      | Inr p \<Rightarrow> map_option ((#) p) (parse_peers P rest))"
| "parse_peers P _ = None"

definition parse_successors :: "platform \<Rightarrow> bool \<Rightarrow> Peer \<Rightarrow> string list \<Rightarrow> Neighbours option" where
  "parse_successors P has_pred pred ws =
     (case ws of
        [] \<Rightarrow> None
      | count # rest \<Rightarrow>
          (case parse_count count of
             None \<Rightarrow> None
           | Some n \<Rightarrow>
               if length rest \<noteq> 3 * n then None
               else map_option (\<lambda>ps. \<lparr>nb_has_pred = has_pred, nb_pred = pred, nb_succs = ps\<rparr>) (parse_peers P rest)))"

definition parse_neighbours :: "platform \<Rightarrow> string \<Rightarrow> Neighbours option" where
  "parse_neighbours P line =
     (let w = split_single_spaces line in
      if length w < 3 \<or> hd w \<noteq> ''NEIGHBOURS'' then None
      else if w ! 1 = ''NONE'' then parse_successors P False empty_peer (drop 2 w)
      else if length w < 5 then None
      else case parse_peer_words P (w ! 1) (w ! 2) (w ! 3) of
        Inl _ \<Rightarrow> None
      | Inr p \<Rightarrow> parse_successors P True p (drop 4 w))"

fun merge_loop :: "Peer \<Rightarrow> nat \<Rightarrow> Peer list \<Rightarrow> Peer list \<Rightarrow> Peer list" where
  "merge_loop self r out [] = out"
| "merge_loop self r out (p # ps) =
     (if length out \<ge> r then out
      else if same_node p self then out
      else if peer_id p = peer_id self then merge_loop self r out ps
      else merge_loop self r (if (\<exists>q\<in>set out. same_node p q) then out else out @ [p]) ps)"

definition merge_successors :: "Peer \<Rightarrow> Peer \<Rightarrow> Peer list \<Rightarrow> nat \<Rightarrow> Peer list" where
  "merge_successors self succ succ_list r = merge_loop self r [succ] succ_list"


section \<open>Starting states\<close>

definition init_alone :: "NodeState \<Rightarrow> NodeState" where
  "init_alone s =
     s\<lparr>nd_has_pred := False, nd_succs := [nd_self s], nd_fingers := replicate ID_BITS (nd_self s), nd_next_finger := 1\<rparr>"

definition remember_all :: "Peer list \<Rightarrow> NodeState \<Rightarrow> NodeState" where
  "remember_all ps s = fold remember ps s"

text \<open>The next \<open>r\<close> members clockwise after the first one that is \<open>self\<close>.\<close>

definition wired_successors :: "Peer \<Rightarrow> nat \<Rightarrow> Peer list \<Rightarrow> Peer list" where
  "wired_successors self r members =
     (let me = length (takeWhile (\<lambda>p. \<not> same_node p self) members);
          succs = map (\<lambda>step. members ! ((me + step) mod length members)) [1..<min (length members) (Suc r)]
      in if succs = [] then [self] else succs)"

definition init_wired :: "Peer list \<Rightarrow> NodeState \<Rightarrow> NodeState option" where
  "init_wired members s =
     (case (build_fingers (peer_id (nd_self s)) members, predecessor_of (peer_id (nd_self s)) members) of
        (Some fingers, Some pred) \<Rightarrow>
          (let succs = wired_successors (nd_self s) (nd_r s) members;
               has_pred = (length members > 1)
           in Some (remember_all succs
                (s\<lparr>nd_succs := succs, nd_has_pred := has_pred, nd_pred := (if has_pred then pred else nd_pred s),
                   nd_fingers := fingers[0 := hd succs], nd_next_finger := 1\<rparr>)))
      | _ \<Rightarrow> None)"

datatype JoinStatus = Joined | Retry | Collision

definition joined_state :: "Peer \<Rightarrow> Peer \<Rightarrow> Neighbours option \<Rightarrow> NodeState \<Rightarrow> NodeState" where
  "joined_state known found nb s =
     (let succs = (case nb of
            Some n \<Rightarrow> merge_successors (nd_self s) found (nb_succs n) (nd_r s)
          | None \<Rightarrow> [found])
      in remember_all (known # rev succs)
           (s\<lparr>nd_has_pred := False, nd_succs := succs, nd_fingers := replicate ID_BITS found, nd_next_finger := 1,
              nd_orphaned := False\<rparr>))"

definition join ::
  "platform \<Rightarrow> 'w node_world transport \<Rightarrow> Peer \<Rightarrow> 'w node_world \<Rightarrow> (JoinStatus \<times> string) \<times> 'w node_world"
where
  "join P t known ws =
     (let self = nd_self (snd ws);
          (r, ws) = lookup P t known (peer_id self) ws
      in if \<not> lr_ok r
         then ((Retry, ''lookup failed ('' @ lookup_error_name (lr_error r) @ ''): '' @ lr_message r), ws)
         else if same_node (lr_owner r) self
         then ((Retry, ''the ring still names '' @ peer_address self @ '' as a member; waiting for it to be evicted''), ws)
         else if peer_id (lr_owner r) = peer_id self
         then ((Collision, ''identifier '' @ id_to_hex (peer_id self) @ '' is already used by '' @
                 peer_address (lr_owner r) @ ''; start this node on another port''), ws)
         else case t ws (lr_owner r) ''NEIGHBOURS'' of
           ((d, reply), (w, s)) \<Rightarrow>
             ((Joined, []), (w, joined_state known (lr_owner r) (if d = Ok then parse_neighbours P reply else None) s)))"

section \<open>Answering requests\<close>

text \<open>\<^verbatim>\<open>in >> w\<close>: the words between white space.\<close>

fun words_of :: "string \<Rightarrow> string list" where
  "words_of [] = []"
| "words_of (c # cs) =
     (if is_space c then words_of cs
      else case cs of
        [] \<Rightarrow> [[c]]
      | d # _ \<Rightarrow> if is_space d then [c] # words_of cs
                else (case words_of cs of [] \<Rightarrow> [[c]] | w # ws \<Rightarrow> (c # w) # ws))"

text \<open>A reply, and the probe of the old predecessor that is to follow it, for the new one.\<close>

type_synonym Handled = "string \<times> (Peer \<times> Peer) option"

definition set_pred :: "Peer \<Rightarrow> NodeState \<Rightarrow> NodeState" where
  "set_pred c s =
     emit [''predecessor is now '' @ peer_address c] (remember c (s\<lparr>nd_pred := c, nd_has_pred := True\<rparr>))"

definition handle_notify :: "platform \<Rightarrow> string \<Rightarrow> string \<Rightarrow> string \<Rightarrow> NodeState \<Rightarrow> Handled \<times> NodeState" where
  "handle_notify P a b d s =
     (case parse_peer_words P a b d of
        Inl why \<Rightarrow> ((''ERR '' @ why, None), s)
      | Inr c \<Rightarrow>
          if same_node c (nd_self s) then ((''OK'', None), s)
          else if peer_id c = peer_id (nd_self s)
          then ((''OK'', None), emit [''refusing '' @ peer_address c @ '' as predecessor: it carries my identifier''] s)
          else if \<not> nd_has_pred s \<or> in_range_oo (peer_id c) (peer_id (nd_pred s)) (peer_id (nd_self s))
          then ((''OK'', None), set_pred c (clear_strikes c s))
          else if \<not> same_node (nd_pred s) c then ((''OK'', Some (nd_pred s, c)), s)
          else ((''OK'', None), s))"

definition suspect_target :: "string \<Rightarrow> NodeState \<Rightarrow> Peer option" where
  "suspect_target named s =
     List.find (\<lambda>p. peer_address p = named)
       ((if nd_has_pred s then [nd_pred s] else []) @ nd_succs s @ nd_fingers s)"

definition handle_suspect ::
  "'w node_world transport \<Rightarrow> string \<Rightarrow> 'w node_world \<Rightarrow> Handled \<times> 'w node_world"
where
  "handle_suspect t named ws =
     (case suspect_target named (snd ws) of
        None \<Rightarrow> ((''OK'', None), ws)
      | Some target \<Rightarrow>
          if same_process target (nd_self (snd ws)) then ((''OK'', None), ws)
          else case t ws target ''PING'' of
            ((d, _), (w, s)) \<Rightarrow>
              ((''OK'', None),
               (w, if d = Refused then evict target ''refused, after a client reported it'' True False s else s)))"

fun finger_runs :: "nat \<Rightarrow> Peer option \<Rightarrow> Peer list \<Rightarrow> (nat \<times> Peer) list" where
  "finger_runs i prev [] = []"
| "finger_runs i prev (f # fs) =
     (if (case prev of None \<Rightarrow> False | Some q \<Rightarrow> same_node f q) then finger_runs (Suc i) (Some f) fs
      else (i, f) # finger_runs (Suc i) (Some f) fs)"

definition render_fingers :: "Peer list \<Rightarrow> string" where
  "render_fingers fingers =
     (let runs = finger_runs 0 None fingers;
          reply = ''FINGERS '' @ to_string (length runs) @
            concat (map (\<lambda>(i, f). '' '' @ to_string i @ '' '' @ peer_words f) runs)
      in if length reply > MAX_LINE then ''ERR too many distinct fingers for one line'' else reply)"

definition orphan_verb :: "string \<Rightarrow> bool" where
  "orphan_verb verb \<longleftrightarrow> verb = ''PING'' \<or> verb = ''FIND_SUCCESSOR'' \<or> verb = ''NEIGHBOURS'' \<or> verb = ''NOTIFY''"

definition handle_find_successor :: "string \<Rightarrow> NodeState \<Rightarrow> string" where
  "handle_find_successor hex s =
     (case id_from_hex hex of
        None \<Rightarrow> ''ERR identifier must be 16 hexadecimal characters''
      | Some k \<Rightarrow> reply_line (route_step (nd_self s) (hd (nd_succs s)) (nd_fingers s) k))"

definition neighbours_of :: "NodeState \<Rightarrow> Neighbours" where
  "neighbours_of s = \<lparr>nb_has_pred = nd_has_pred s, nb_pred = nd_pred s, nb_succs = nd_succs s\<rparr>"

definition handle_request ::
  "platform \<Rightarrow> 'w node_world transport \<Rightarrow> string \<Rightarrow> 'w node_world \<Rightarrow> Handled \<times> 'w node_world"
where
  "handle_request P t line ws =
     (let words = words_of line; (w, s) = ws in
      if words = [] then ((''ERR empty request'', None), ws)
      else if orphan_verb (hd words) \<and> nd_orphaned s then ((''ERR orphaned: rejoining the ring'', None), ws)
      else if words = [''PING''] then ((''PONG '' @ id_to_hex (peer_id (nd_self s)), None), ws)
      else if hd words = ''FIND_SUCCESSOR'' \<and> length words = 2 then ((handle_find_successor (words ! 1) s, None), ws)
      else if words = [''NEIGHBOURS''] then ((render_neighbours (neighbours_of s), None), ws)
      else if hd words = ''NOTIFY'' \<and> length words = 4
        then (case handle_notify P (words ! 1) (words ! 2) (words ! 3) s of (h, s) \<Rightarrow> (h, (w, s)))
      else if hd words = ''SUSPECT'' \<and> length words = 3 then handle_suspect t (words ! 1 @ '':'' @ words ! 2) ws
      else if words = [''FINGERS''] then ((render_fingers (nd_fingers s), None), ws)
      else ((''ERR unknown request'', None), ws))"

text \<open>The work NOTIFY leaves for after its reply.\<close>

definition notify_after :: "'w node_world transport \<Rightarrow> Peer \<Rightarrow> Peer \<Rightarrow> 'w node_world \<Rightarrow> 'w node_world" where
  "notify_after t old c ws =
     (case call_peer t old ''PING'' is_pong ws of
        ((r, _), (w, s)) \<Rightarrow> (w, if r \<noteq> CGood \<and> \<not> nd_has_pred s then set_pred c s else s))"

section \<open>The maintenance round\<close>

text \<open>What the successor's answer changes, and the closer node to verify, if it names one.\<close>

definition take_neighbours :: "Peer \<Rightarrow> Neighbours \<Rightarrow> NodeState \<Rightarrow> NodeState" where
  "take_neighbours succ nb s =
     (let succs = merge_successors (nd_self s) succ (nb_succs nb) (nd_r s) in
      remember_all (rev succs) (s\<lparr>nd_succs := succs, nd_fingers := (nd_fingers s)[0 := hd succs]\<rparr>))"

definition closer_candidate :: "Peer \<Rightarrow> Neighbours \<Rightarrow> NodeState \<Rightarrow> Peer option \<times> string list" where
  "closer_candidate succ nb s =
     (if nb_has_pred nb \<and> \<not> same_node (nb_pred nb) (nd_self s) \<and> \<not> same_node (nb_pred nb) succ then
        (if peer_id (nb_pred nb) = peer_id (nd_self s)
         then (None, [''refusing '' @ peer_address (nb_pred nb) @ '' as successor: it carries my identifier''])
         else if in_range_oo (peer_id (nb_pred nb)) (peer_id (nd_self s)) (peer_id succ)
         then (Some (nb_pred nb), []) else (None, []))
      else (None, []))"

text \<open>The loop keeps an entry only while the list, with the candidate in front, is shorter than \<open>r\<close>.\<close>

definition adopt_successor :: "Peer \<Rightarrow> NodeState \<Rightarrow> NodeState" where
  "adopt_successor candidate s =
     (let succs = candidate # take (nd_r s - 1) (filter (\<lambda>p. \<not> same_node p (nd_self s)) (nd_succs s));
          c = nd_counters s
      in emit [''successor is now '' @ peer_address candidate]
           (remember candidate
              (s\<lparr>nd_succs := succs, nd_fingers := (nd_fingers s)[0 := candidate],
                 nd_counters := c\<lparr>ct_new_successor := Suc (ct_new_successor c)\<rparr>\<rparr>)))"

definition verify_candidate ::
  "'w node_world transport \<Rightarrow> Peer \<Rightarrow> Peer option \<Rightarrow> 'w node_world \<Rightarrow> bool \<times> 'w node_world"
where
  "verify_candidate t succ candidate ws =
     (case candidate of
        None \<Rightarrow> (False, ws)
      | Some c \<Rightarrow>
          (case call_peer t c ''PING'' is_pong ws of
             ((r, _), (w, s)) \<Rightarrow>
               if r = CGood \<and> same_node (hd (nd_succs s)) succ then (True, (w, adopt_successor c s))
               else (False, (w, s))))"

definition notify_successor :: "'w node_world transport \<Rightarrow> 'w node_world \<Rightarrow> 'w node_world" where
  "notify_successor t ws =
     (let s = snd ws; target = hd (nd_succs s) in
      if same_node target (nd_self s) then ws
      else snd (call_peer t target (''NOTIFY '' @ peer_words (nd_self s)) is_ok ws))"

text \<open>One pass asks the current successor; the flag says that another pass is due.\<close>

definition stabilize_pass ::
  "platform \<Rightarrow> 'w node_world transport \<Rightarrow> 'w node_world \<Rightarrow> bool \<times> 'w node_world"
where
  "stabilize_pass P t ws =
     (let succ = hd (nd_succs (snd ws)) in
      case call_peer t succ ''NEIGHBOURS'' (\<lambda>line. parse_neighbours P line \<noteq> None) ws of
        ((c, reply), (w, s)) \<Rightarrow>
          if c \<noteq> CGood then (\<not> same_node (hd (nd_succs s)) succ, (w, s))
          else if \<not> same_node (hd (nd_succs s)) succ then (False, (w, s))
          else case parse_neighbours P reply of
            None \<Rightarrow> (False, (w, s))
          | Some nb \<Rightarrow>
              (case closer_candidate succ nb s of
                 (candidate, events) \<Rightarrow>
                   (case verify_candidate t succ candidate (w, emit events (take_neighbours succ nb s)) of
                      (moved, ws) \<Rightarrow> if moved then (True, ws) else (False, notify_successor t ws))))"

fun stabilize_loop :: "platform \<Rightarrow> 'w node_world transport \<Rightarrow> nat \<Rightarrow> 'w node_world \<Rightarrow> 'w node_world" where
  "stabilize_loop P t 0 ws = ws"
| "stabilize_loop P t (Suc passes) ws =
     (case stabilize_pass P t ws of (again, ws) \<Rightarrow> if again then stabilize_loop P t passes ws else ws)"

definition stabilize :: "platform \<Rightarrow> 'w node_world transport \<Rightarrow> 'w node_world \<Rightarrow> 'w node_world" where
  "stabilize P t ws = stabilize_loop P t (MAX_SUCCESSORS + MAX_WALK + 1) ws"

definition check_predecessor :: "'w node_world transport \<Rightarrow> 'w node_world \<Rightarrow> 'w node_world" where
  "check_predecessor t ws =
     (let s = snd ws in
      if \<not> nd_has_pred s \<or> same_node (nd_pred s) (nd_self s) then ws
      else snd (call_peer t (nd_pred s) ''PING'' is_pong ws))"

definition next_after :: "nat \<Rightarrow> nat" where
  "next_after i = (if i + 1 \<ge> ID_BITS then 1 else i + 1)"

text \<open>The first index from \<open>j\<close> on whose start the owner does not cover, or the end of the table.\<close>

function fill_end :: "Id \<Rightarrow> Id \<Rightarrow> nat \<Rightarrow> nat" where
  "fill_end self found j =
     (if j < ID_BITS \<and> in_range_oc (finger_start self j) self found then fill_end self found (Suc j) else j)"
  by auto
termination by (relation "measure (\<lambda>(_, _, j). ID_BITS - j)") auto

declare fill_end.simps [simp del]

definition fill_fingers :: "nat \<Rightarrow> nat \<Rightarrow> Peer \<Rightarrow> Peer list \<Rightarrow> Peer list" where
  "fill_fingers i j found fingers = map (\<lambda>n. if i \<le> n \<and> n < j then found else fingers ! n) [0..<length fingers]"

definition blame_hop :: "LookupResult \<Rightarrow> NodeState \<Rightarrow> NodeState" where
  "blame_hop r s =
     (if lr_error r = LTooManyRequests \<or> lr_error r = LUnreachable \<or> lr_path r = [] then s
      else let why = lookup_error_name (lr_error r) @ '' during fix_fingers'' in
        if lr_error r = LRefused then evict (last (lr_path r)) why True False s
        else strike (last (lr_path r)) why s)"

definition apply_finger :: "nat \<Rightarrow> LookupResult \<Rightarrow> NodeState \<Rightarrow> NodeState" where
  "apply_finger i r s =
     (let found = lr_owner r in
      if \<not> lr_ok r then (blame_hop r s)\<lparr>nd_next_finger := next_after i\<rparr>
      else if peer_id found = peer_id (nd_self s) \<and> \<not> same_node found (nd_self s)
      then emit [''refusing '' @ peer_address found @ '' as a finger: it carries my identifier'']
             (s\<lparr>nd_next_finger := next_after i\<rparr>)
      else let j = fill_end (peer_id (nd_self s)) (peer_id found) i;
               j = (if j = i then i + 1 else j)
           in remember found
                (s\<lparr>nd_fingers := (fill_fingers i j found (nd_fingers s))[0 := hd (nd_succs s)],
                   nd_next_finger := (if j \<ge> ID_BITS then 1 else j)\<rparr>))"

definition fix_next_finger :: "platform \<Rightarrow> 'w node_world transport \<Rightarrow> 'w node_world \<Rightarrow> 'w node_world" where
  "fix_next_finger P t ws =
     (let s = snd ws; i = nd_next_finger s in
      case lookup P t (nd_self s) (finger_start (peer_id (nd_self s)) i) ws of
        (r, (w, s)) \<Rightarrow> (w, apply_finger i r s))"

definition rejoin :: "platform \<Rightarrow> 'w node_world transport \<Rightarrow> 'w node_world \<Rightarrow> 'w node_world" where
  "rejoin P t ws =
     (case ws of (w, s) \<Rightarrow>
        if nd_contacts s = [] then ws
        else let contact = nd_contacts s ! (nd_next_contact s mod length (nd_contacts s));
                 s = s\<lparr>nd_next_contact := Suc (nd_next_contact s)\<rparr>
             in case join P t contact (w, s) of
                  ((st, why), (w, s)) \<Rightarrow>
                    let c = nd_counters s in
                    (w, if st = Joined
                        then emit [''rejoined through '' @ peer_address contact]
                               (s\<lparr>nd_counters := c\<lparr>ct_rejoins := Suc (ct_rejoins c)\<rparr>\<rparr>)
                        else emit [''rejoin through '' @ peer_address contact @ '' failed: '' @ why] s))"

definition maintenance_round :: "platform \<Rightarrow> 'w node_world transport \<Rightarrow> 'w node_world \<Rightarrow> 'w node_world" where
  "maintenance_round P t ws =
     (case ws of (w, s) \<Rightarrow>
        let c = nd_counters s;
            s = s\<lparr>nd_counters := c\<lparr>ct_rounds := Suc (ct_rounds c)\<rparr>\<rparr>
        in if nd_orphaned s then rejoin P t (w, s)
           else fix_next_finger P t (check_predecessor t (stabilize P t (w, s))))"

end
