(* ===== verification/Stabilize_Inv.thy ===== *)
theory Stabilize_Inv
  imports Stabilize
begin

text \<open>
  What every operation on a member's routing state keeps, whatever the other nodes answer and
  whatever the process's other threads do while a call is in progress.
\<close>

section \<open>The invariant\<close>

lemma same_node_eq [simp]: "same_node a b \<longleftrightarrow> a = b"
  by (cases a; cases b) (auto simp: same_node_def)

lemma same_process_refl [simp]: "same_process a a"
  by (simp add: same_process_def)

definition node_inv :: "NodeState \<Rightarrow> bool" where
  "node_inv s \<longleftrightarrow>
     nd_succs s \<noteq> [] \<and> length (nd_succs s) \<le> max (nd_r s) 1 \<and>
     nd_self s \<notin> set (tl (nd_succs s)) \<and> length (nd_fingers s) = ID_BITS \<and> nd_fingers s ! 0 = hd (nd_succs s) \<and>
     (\<forall>p\<in>set (nd_succs s) \<union> set (nd_fingers s). peer_id p = peer_id (nd_self s) \<longrightarrow> p = nd_self s) \<and>
     (nd_has_pred s \<longrightarrow> peer_id (nd_pred s) \<noteq> peer_id (nd_self s)) \<and>
     length (nd_contacts s) \<le> MAX_CONTACTS \<and> distinct (nd_contacts s) \<and>
     (\<forall>p\<in>set (nd_contacts s). \<not> same_process p (nd_self s)) \<and>
     1 \<le> nd_next_finger s \<and> nd_next_finger s < ID_BITS \<and>
     (\<forall>k n. nd_strikes s k = Some n \<longrightarrow> n = 1)"

text \<open>A node that is its own successor answers for the whole ring, unless it knows it is orphaned.\<close>

definition claims_ring :: "NodeState \<Rightarrow> bool" where
  "claims_ring s \<longleftrightarrow> hd (nd_succs s) = nd_self s \<and> \<not> nd_orphaned s"

definition keeps :: "NodeState \<Rightarrow> NodeState \<Rightarrow> bool" where
  "keeps s s' \<longleftrightarrow>
     nd_self s' = nd_self s \<and> nd_r s' = nd_r s \<and>
     (node_inv s \<longrightarrow> node_inv s' \<and> (claims_ring s' \<longrightarrow> claims_ring s))"

lemma keeps_refl [simp, intro]: "keeps s s"
  by (simp add: keeps_def)

lemma keeps_trans: "keeps s1 s2 \<Longrightarrow> keeps s2 s3 \<Longrightarrow> keeps s1 s3"
  by (auto simp: keeps_def)

lemma keeps_self: "keeps s s' \<Longrightarrow> nd_self s' = nd_self s" "keeps s s' \<Longrightarrow> nd_r s' = nd_r s"
  by (simp_all add: keeps_def)

lemma keeps_inv: "keeps s s' \<Longrightarrow> node_inv s \<Longrightarrow> node_inv s'"
  by (simp add: keeps_def)

lemma same_process_sym: "same_process a b \<longleftrightarrow> same_process b a"
  by (auto simp: same_process_def)

section \<open>Each operation keeps it\<close>

lemma keeps_emit [simp, intro]: "keeps s (emit es s)"
  by (auto simp: keeps_def emit_def node_inv_def claims_ring_def)

lemma keeps_counters [simp, intro]: "keeps s (s\<lparr>nd_counters := c\<rparr>)" "keeps s (s\<lparr>nd_next_contact := n\<rparr>)"
  by (auto simp: keeps_def node_inv_def claims_ring_def)

lemma keeps_clear [simp, intro]: "keeps s (clear_strikes p s)"
  by (auto simp: keeps_def clear_strikes_def node_inv_def claims_ring_def)

lemma remember_fields [simp]:
  "nd_self (remember p s) = nd_self s" "nd_r (remember p s) = nd_r s" "nd_succs (remember p s) = nd_succs s"
  "nd_fingers (remember p s) = nd_fingers s" "nd_has_pred (remember p s) = nd_has_pred s"
  "nd_pred (remember p s) = nd_pred s" "nd_orphaned (remember p s) = nd_orphaned s"
  "nd_next_finger (remember p s) = nd_next_finger s" "nd_strikes (remember p s) = nd_strikes s"
  by (simp_all add: remember_def Let_def)

lemma remember_contacts:
  assumes "length (nd_contacts s) \<le> MAX_CONTACTS" "distinct (nd_contacts s)"
    "\<forall>q\<in>set (nd_contacts s). \<not> same_process q (nd_self s)"
  shows "length (nd_contacts (remember p s)) \<le> MAX_CONTACTS \<and> distinct (nd_contacts (remember p s)) \<and>
    (\<forall>q\<in>set (nd_contacts (remember p s)). \<not> same_process q (nd_self s))"
proof (cases "same_process p (nd_self s)")
  case False
  let ?c = "p # remove1 p (nd_contacts s)"
  have c: "distinct ?c" "\<forall>q\<in>set ?c. \<not> same_process q (nd_self s)" "length ?c \<le> Suc MAX_CONTACTS"
    using assms False set_remove1_subset [of p "nd_contacts s"] by (auto simp: length_remove1)
  show ?thesis
  proof (cases "length ?c > MAX_CONTACTS")
    case True
    with False have r: "nd_contacts (remember p s) = butlast ?c" by (simp add: remember_def)
    show ?thesis unfolding r
    proof (intro conjI ballI)
      show "length (butlast ?c) \<le> MAX_CONTACTS" using c(3) by simp
      show "distinct (butlast ?c)" by (rule distinct_butlast [OF c(1)])
      show "\<not> same_process q (nd_self s)" if "q \<in> set (butlast ?c)" for q
        using c(2) in_set_butlastD [OF that] by blast
    qed
  next
    case False': False
    with False have "nd_contacts (remember p s) = ?c" by (simp add: remember_def)
    then show ?thesis using c False' by simp
  qed
qed (use assms in \<open>simp add: remember_def\<close>)

lemma keeps_remember [simp, intro]: "keeps s (remember p s)"
  using remember_contacts [of s p] by (auto simp: keeps_def node_inv_def claims_ring_def)

lemma keeps_remember_all [simp, intro]: "keeps s (remember_all ps s)"
  unfolding remember_all_def
proof (induction ps arbitrary: s)
  case (Cons p ps)
  show ?case using keeps_trans [OF keeps_remember [of s p] Cons [of "remember p s"]] by simp
qed simp

lemma remember_all_fields [simp]:
  "nd_self (remember_all ps s) = nd_self s" "nd_r (remember_all ps s) = nd_r s" "nd_succs (remember_all ps s) = nd_succs s"
  "nd_fingers (remember_all ps s) = nd_fingers s" "nd_has_pred (remember_all ps s) = nd_has_pred s"
  "nd_pred (remember_all ps s) = nd_pred s" "nd_orphaned (remember_all ps s) = nd_orphaned s"
  unfolding remember_all_def by (induction ps arbitrary: s) simp_all

lemma keeps_set_pred: "peer_id c \<noteq> peer_id (nd_self s) \<Longrightarrow> keeps s (set_pred c s)"
  unfolding set_pred_def
  by (rule keeps_trans [OF keeps_trans [OF _ keeps_remember] keeps_emit])
    (auto simp: keeps_def node_inv_def claims_ring_def)

text \<open>The fallback is a known node that is not gone, or the node itself.\<close>

lemma nearest_known_mem:
  assumes "\<forall>p\<in>set (nd_fingers s). peer_id p = peer_id (nd_self s) \<longrightarrow> p = nd_self s"
  shows "nearest_known s gone = nd_self s \<or> peer_id (nearest_known s gone) \<noteq> peer_id (nd_self s)"
proof -
  have "fst (fold (consider_peer s gone) ps best) = nd_self s \<or>
      peer_id (fst (fold (consider_peer s gone) ps best)) \<noteq> peer_id (nd_self s)"
    if "fst best = nd_self s \<or> peer_id (fst best) \<noteq> peer_id (nd_self s)" for ps best
    using that
  proof (induction ps arbitrary: best)
    case (Cons p ps)
    then show ?case by (simp add: consider_peer_def Let_def split: if_splits)
  qed simp
  then show ?thesis unfolding nearest_known_def by simp
qed

lemma evict_succs_fields [simp]:
  "nd_self (evict_succs gone s) = nd_self s" "nd_r (evict_succs gone s) = nd_r s"
  "nd_fingers (evict_succs gone s) = nd_fingers s" "nd_has_pred (evict_succs gone s) = nd_has_pred s"
  "nd_pred (evict_succs gone s) = nd_pred s" "nd_contacts (evict_succs gone s) = nd_contacts s"
  "nd_next_finger (evict_succs gone s) = nd_next_finger s" "nd_strikes (evict_succs gone s) = nd_strikes s"
  "nd_counters (evict_succs gone s) = nd_counters s"
  by (simp_all add: evict_succs_def emit_def Let_def)

lemma filter_keeps_head:
  assumes "x \<notin> set (tl xs)" "P x" "filter P xs \<noteq> []"
  shows "x \<notin> set (tl (filter P xs)) \<and> (hd (filter P xs) = x \<longrightarrow> hd xs = x)"
proof (cases xs)
  case (Cons a as)
  with assms have x: "x \<notin> set (filter P as)" by simp
  then have "x \<notin> set (tl (filter P as))" by (cases "filter P as") auto
  with x show ?thesis using Cons assms(3) hd_in_set [of "filter P as"] by auto
qed (use assms in simp)

lemma evict_succs_spec:
  assumes inv: "node_inv s" and "\<not> gone (nd_self s)"
  shows "nd_succs (evict_succs gone s) \<noteq> [] \<and> length (nd_succs (evict_succs gone s)) \<le> max (nd_r s) 1 \<and>
    nd_self s \<notin> set (tl (nd_succs (evict_succs gone s))) \<and>
    (\<forall>p\<in>set (nd_succs (evict_succs gone s)). peer_id p = peer_id (nd_self s) \<longrightarrow> p = nd_self s) \<and>
    (claims_ring (evict_succs gone s) \<longrightarrow> claims_ring s)"
proof (cases "filter (\<lambda>p. \<not> gone p) (nd_succs s) = []")
  case True
  have ne: "nd_succs s \<noteq> []" and near: "\<forall>p\<in>set (nd_fingers s). peer_id p = peer_id (nd_self s) \<longrightarrow> p = nd_self s"
    using inv by (simp_all add: node_inv_def)
  have "gone (hd (nd_succs s))" using True ne by (simp add: filter_empty_conv)
  with assms(2) have hd: "hd (nd_succs s) \<noteq> nd_self s" by auto
  show ?thesis
    using True hd nearest_known_mem [OF near, of gone] by (auto simp: evict_succs_def emit_def Let_def claims_ring_def)
next
  case False
  have s': "evict_succs gone s = s\<lparr>nd_succs := filter (\<lambda>p. \<not> gone p) (nd_succs s)\<rparr>"
    using False by (simp add: evict_succs_def)
  have "length (nd_succs s) \<le> max (nd_r s) 1" using inv by (simp add: node_inv_def)
  with length_filter_le [of "\<lambda>p. \<not> gone p" "nd_succs s"]
  have len: "length (filter (\<lambda>p. \<not> gone p) (nd_succs s)) \<le> max (nd_r s) 1" by (rule order_trans)
  have ids: "\<forall>p\<in>set (nd_succs s). peer_id p = peer_id (nd_self s) \<longrightarrow> p = nd_self s"
    and tail: "nd_self s \<notin> set (tl (nd_succs s))"
    using inv by (simp_all add: node_inv_def)
  show ?thesis
    unfolding s' using filter_keeps_head [OF tail assms(2) False] False len ids
    by (simp add: claims_ring_def)
qed

lemma gone_self:
  assumes "\<not> same_node dead me" "\<not> (same_process dead me \<and> \<not> sib)" "sib \<longrightarrow> \<not> whole"
  shows "\<not> (if whole then same_process me dead else same_node me dead)"
  using assms by (auto simp: same_process_def)

lemma replacement_of_mem: "replacement_of gone ss = Some p \<Longrightarrow> p \<in> set ss"
  unfolding replacement_of_def by (auto simp: find_Some_iff dest!: set_dropWhileD nth_mem)

lemma keeps_evict_tables:
  assumes "\<not> gone (nd_self s)"
  shows "keeps s (evict_tables gone cleared s)"
proof (cases "node_inv s")
  case True
  let ?s1 = "evict_succs gone s"
  note sp = evict_succs_spec [of s gone, OF True assms]
  define fs where "fs = map (\<lambda>f. if gone f then (case replacement_of gone (nd_succs s) of None \<Rightarrow> hd (nd_succs ?s1) | Some p \<Rightarrow> p) else f) (nd_fingers s)"
  have "\<forall>f\<in>set fs. f \<in> set (nd_fingers s) \<union> set (nd_succs s) \<union> set (nd_succs ?s1)"
    using sp by (auto simp: fs_def split: option.splits dest: replacement_of_mem)
  then have fs: "\<forall>f\<in>set (fs[0 := hd (nd_succs ?s1)]). f \<in> set (nd_fingers s) \<union> set (nd_succs s) \<union> set (nd_succs ?s1)"
    using sp set_update_subset_insert [of fs 0 "hd (nd_succs ?s1)"] by auto
  have e: "evict_tables gone cleared s = ?s1\<lparr>nd_has_pred := (nd_has_pred s \<and> \<not> gone (nd_pred s)),
      nd_fingers := fs[0 := hd (nd_succs ?s1)], nd_strikes := (\<lambda>k. if cleared k then None else nd_strikes s k)\<rparr>"
    by (simp add: evict_tables_def Let_def fs_def)
  have len: "length fs = ID_BITS" using True by (simp add: fs_def node_inv_def)
  have "node_inv (evict_tables gone cleared s)"
    using True sp fs len unfolding e node_inv_def by (auto simp: ID_BITS_def)
  then show ?thesis
    using sp by (simp add: keeps_def e claims_ring_def)
qed (simp add: keeps_def evict_tables_def Let_def)

lemma keeps_evict: "(sib \<longrightarrow> \<not> whole) \<Longrightarrow> keeps s (evict dead why whole sib s)"
  unfolding evict_def Let_def
  by (auto intro!: keeps_evict_tables gone_self keeps_trans [OF _ keeps_emit] keeps_trans [OF _ keeps_counters(1)]
      simp: same_process_sym)

lemma nearest_known_strikes: "nearest_known (s\<lparr>nd_strikes := st\<rparr>) gone = nearest_known s gone"
proof -
  have "consider_peer (s\<lparr>nd_strikes := st\<rparr>) gone = consider_peer s gone"
    by (intro ext) (simp add: consider_peer_def)
  then show ?thesis by (simp add: nearest_known_def)
qed

lemma evict_tables_strikes:
  "(\<And>k. \<not> cleared k \<Longrightarrow> st k = nd_strikes s k) \<Longrightarrow>
     evict_tables gone cleared (s\<lparr>nd_strikes := st\<rparr>) = evict_tables gone cleared s"
proof -
  assume st: "\<And>k. \<not> cleared k \<Longrightarrow> st k = nd_strikes s k"
  have e: "evict_succs gone (s\<lparr>nd_strikes := st\<rparr>) = (evict_succs gone s)\<lparr>nd_strikes := st\<rparr>"
    by (simp add: evict_succs_def emit_def Let_def nearest_known_strikes)
  have "(\<lambda>k. if cleared k then None else st k) = (\<lambda>k. if cleared k then None else nd_strikes s k)"
    using st by auto
  then show ?thesis by (simp add: evict_tables_def e Let_def cong: if_cong option.case_cong)
qed

lemma evict_strikes:
  assumes "\<And>k. k \<noteq> member_key p \<Longrightarrow> st k = nd_strikes s k" "\<not> same_process p (nd_self s)"
  shows "evict p w False False (s\<lparr>nd_strikes := st\<rparr>) = evict p w False False s"
proof -
  have "evict_tables gone (\<lambda>k. k = member_key p) (s\<lparr>nd_strikes := st\<rparr>) = evict_tables gone (\<lambda>k. k = member_key p) s" for gone
    by (rule evict_tables_strikes) (use assms(1) in simp)
  then show ?thesis using assms(2) by (auto simp: evict_def Let_def was_known_def)
qed

lemma keeps_strike: "keeps s (strike p why s)"
proof (cases "same_process p (nd_self s)")
  case True
  then show ?thesis by (simp add: strike_def)
next
  case False
  define n where "n = Suc (case nd_strikes s (member_key p) of None \<Rightarrow> 0 | Some k \<Rightarrow> k)"
  define st where "st = (nd_strikes s)(member_key p \<mapsto> n)"
  define c where "c = (nd_counters s)\<lparr>ct_strikes := Suc (ct_strikes (nd_counters s))\<rparr>"
  define msg where "msg = [''strike '' @ to_string n @ '' against '' @ peer_address p @ '' ('' @ why @ '')'']"
  define s1 where "s1 = emit msg (s\<lparr>nd_counters := c\<rparr>)"
  have s1: "keeps s s1" unfolding s1_def by (rule keeps_trans [OF keeps_counters(1) keeps_emit])
  have comm: "emit msg (s\<lparr>nd_strikes := st, nd_counters := c\<rparr>) = s1\<lparr>nd_strikes := st\<rparr>"
    by (simp add: s1_def emit_def)
  have st1: "k \<noteq> member_key p \<Longrightarrow> st k = nd_strikes s1 k" for k
    by (simp add: st_def s1_def emit_def)
  have two: "evict p w False False (s1\<lparr>nd_strikes := st\<rparr>) = evict p w False False s1" for w
    by (rule evict_strikes [OF st1]) (use False keeps_self [OF s1] in auto)
  have one: "keeps s (s1\<lparr>nd_strikes := st\<rparr>)" if "n < STRIKES_TO_EVICT"
    using s1 that by (auto simp: keeps_def node_inv_def claims_ring_def st_def n_def STRIKES_TO_EVICT_def s1_def emit_def)
  have "strike p why s = s \<or> strike p why s = (if n \<ge> STRIKES_TO_EVICT then evict p (why @ '', second strike'') False False s1
      else s1\<lparr>nd_strikes := st\<rparr>)"
    using False unfolding strike_def Let_def n_def [symmetric] st_def [symmetric] c_def [symmetric] msg_def [symmetric] comm two by auto
  then show ?thesis using one keeps_trans [OF s1 keeps_evict] by auto
qed

section \<open>Interference\<close>

text \<open>
  What the process's other threads can do to this member's state between two of the holder's
  critical sections: answer requests, and report the outcome of the probes that follow them.
\<close>

inductive other_step :: "NodeState \<Rightarrow> NodeState \<Rightarrow> bool" where
  os_log: "other_step s (emit es s)"
| os_evict: "(sib \<longrightarrow> \<not> whole) \<Longrightarrow> other_step s (evict dead why whole sib s)"
| os_strike: "other_step s (strike p why s)"
| os_clear: "other_step s (clear_strikes p s)"
| os_pred: "peer_id c \<noteq> peer_id (nd_self s) \<Longrightarrow> other_step s (set_pred c s)"

definition shared :: "'w node_world transport \<Rightarrow> bool" where
  "shared t \<longleftrightarrow> (\<forall>w s to req d reply w' s'. t (w, s) to req = ((d, reply), (w', s')) \<longrightarrow> other_step\<^sup>*\<^sup>* s s')"

lemma keeps_other_step: "other_step s s' \<Longrightarrow> keeps s s'"
  by (induction rule: other_step.induct) (auto intro: keeps_evict keeps_strike keeps_set_pred)

lemma keeps_other: "other_step\<^sup>*\<^sup>* s s' \<Longrightarrow> keeps s s'"
  by (induction rule: rtranclp_induct) (auto intro: keeps_trans keeps_other_step)

lemma shared_other: "shared t \<Longrightarrow> t ws to req = (dr, ws') \<Longrightarrow> other_step\<^sup>*\<^sup>* (snd ws) (snd ws')"
  by (cases ws; cases ws'; cases dr) (auto simp: shared_def)

section \<open>Calls and lookups\<close>

lemma report_call_other: "other_step s (report_call to req d reply good s)"
  unfolding report_call_def by (auto intro: other_step.intros)

lemma call_peer_other:
  assumes "shared t" "call_peer t to req valid ws = (r, ws')"
  shows "other_step\<^sup>*\<^sup>* (snd ws) (snd ws')"
proof -
  obtain d reply w s where t: "t ws to req = ((d, reply), (w, s))" by (metis surj_pair)
  have "snd ws' = report_call to req d reply (d = Ok \<and> \<not> starts_with ''ERR'' reply \<and> valid reply) s"
    using assms(2) t by (auto simp: call_peer_def Let_def)
  then show ?thesis
    using shared_other [OF assms(1) t] report_call_other by (simp add: rtranclp.rtrancl_into_rtrancl)
qed

lemma lookup_loop_other:
  assumes "shared t"
  shows "lookup_loop P t req k left current r ws = (r', ws') \<Longrightarrow> other_step\<^sup>*\<^sup>* (snd ws) (snd ws')"
proof (induction left arbitrary: current r ws)
  case (Suc left)
  obtain d reply ws1 where t: "t ws current req = ((d, reply), ws1)" by (metis surj_pair)
  note step = shared_other [OF assms t]
  from Suc.prems t Suc.IH [of _ _ ws1] show ?case
    by (auto simp: lookup_loop.simps(2) Let_def step split: if_splits sum.splits intro: rtranclp_trans [OF step])
qed simp

lemma lookup_other: "shared t \<Longrightarrow> lookup P t start k ws = (r, ws') \<Longrightarrow> other_step\<^sup>*\<^sup>* (snd ws) (snd ws')"
  unfolding lookup_def by (rule lookup_loop_other)

lemmas call_peer_keeps = keeps_other [OF call_peer_other]

lemma call_peer_keeps': "shared t \<Longrightarrow> keeps (snd ws) (snd (snd (call_peer t to req valid ws)))"
  by (rule call_peer_keeps [OF _ prod.collapse [symmetric]])

lemmas lookup_keeps = keeps_other [OF lookup_other]

section \<open>Requests\<close>

lemma set_pred_other: "peer_id c \<noteq> peer_id (nd_self s) \<Longrightarrow> other_step\<^sup>*\<^sup>* s (set_pred c (clear_strikes c s))"
proof -
  assume "peer_id c \<noteq> peer_id (nd_self s)"
  then have "other_step (clear_strikes c s) (set_pred c (clear_strikes c s))"
    by (intro os_pred) (simp add: clear_strikes_def)
  then show ?thesis using os_clear [of s c] by (simp add: converse_rtranclp_into_rtranclp)
qed

lemma handle_notify_other:
  "handle_notify P a b d s = (h, s') \<Longrightarrow> other_step\<^sup>*\<^sup>* s s' \<and>
     (\<forall>old c. snd h = Some (old, c) \<longrightarrow> peer_id c \<noteq> peer_id (nd_self s))"
  by (auto simp: handle_notify_def intro: os_log set_pred_other split: sum.splits if_splits)

lemma handle_suspect_other:
  assumes "shared t" "handle_suspect t named ws = (h, ws')"
  shows "other_step\<^sup>*\<^sup>* (snd ws) (snd ws') \<and> snd h = None"
proof (cases "case suspect_target named (snd ws) of None \<Rightarrow> True | Some q \<Rightarrow> same_process q (nd_self (snd ws))")
  case True
  then show ?thesis using assms(2) by (auto simp: handle_suspect_def split: option.splits)
next
  case False
  then obtain q where q: "suspect_target named (snd ws) = Some q" "\<not> same_process q (nd_self (snd ws))"
    by (auto split: option.splits)
  obtain d reply w s where t: "t ws q ''PING'' = ((d, reply), (w, s))" by (metis surj_pair)
  have "other_step s (evict q ''refused, after a client reported it'' True False s)" by (rule os_evict) simp
  then have "other_step\<^sup>*\<^sup>* s (snd ws') \<and> snd h = None"
    using assms(2) q t by (auto simp: handle_suspect_def)
  then show ?thesis using shared_other [OF assms(1) t] by (auto intro: rtranclp_trans)
qed

text \<open>Whatever a request asks for, it changes the state only by steps of \<^const>\<open>other_step\<close>.\<close>

lemma handle_request_other:
  assumes "shared t" "handle_request P t line ws = (h, ws')"
  shows "other_step\<^sup>*\<^sup>* (snd ws) (snd ws') \<and> (\<forall>old c. snd h = Some (old, c) \<longrightarrow> peer_id c \<noteq> peer_id (nd_self (snd ws)))"
proof (cases "ws' = ws \<and> snd h = None")
  case False
  obtain w s where ws: "ws = (w, s)" by (metis surj_pair)
  let ?words = "words_of line"
  have "(\<exists>s'. handle_notify P (?words ! 1) (?words ! 2) (?words ! 3) s = (h, s') \<and> ws' = (w, s')) \<or>
      handle_suspect t (?words ! 1 @ '':'' @ ?words ! 2) ws = (h, ws')"
    using assms(2) False unfolding handle_request_def ws Let_def by (auto split: if_splits prod.splits)
  then show ?thesis
  proof
    assume "\<exists>s'. handle_notify P (?words ! 1) (?words ! 2) (?words ! 3) s = (h, s') \<and> ws' = (w, s')"
    then obtain s' where "handle_notify P (?words ! 1) (?words ! 2) (?words ! 3) s = (h, s')" "ws' = (w, s')" by blast
    then show ?thesis using handle_notify_other [of P _ _ _ s h s'] by (simp add: ws)
  next
    assume "handle_suspect t (?words ! 1 @ '':'' @ ?words ! 2) ws = (h, ws')"
    from handle_suspect_other [OF assms(1) this] show ?thesis by simp
  qed
qed auto

lemma notify_after_other:
  assumes "shared t" "peer_id c \<noteq> peer_id (nd_self (snd ws))"
  shows "other_step\<^sup>*\<^sup>* (snd ws) (snd (notify_after t old c ws))"
proof -
  obtain r reply w s where cp: "call_peer t old ''PING'' is_pong ws = ((r, reply), (w, s))" by (metis surj_pair)
  have o: "other_step\<^sup>*\<^sup>* (snd ws) s" using call_peer_other [OF assms(1) cp] by simp
  then have "other_step s (set_pred c s)"
    using assms(2) keeps_self(1) [OF keeps_other [OF o]] by (auto intro: os_pred)
  then show ?thesis using o cp by (auto simp: notify_after_def)
qed

section \<open>Maintenance\<close>

lemma merge_loop_spec:
  "(\<exists>added. merge_loop self r out ps = out @ added \<and> self \<notin> set added \<and> (\<forall>p\<in>set added. peer_id p \<noteq> peer_id self)) \<and>
   length (merge_loop self r out ps) \<le> max r (length out)"
proof (induction self r out ps rule: merge_loop.induct)
  case (2 self r out p ps)
  show ?case
  proof (cases "length out \<ge> r \<or> p = self \<or> peer_id p = peer_id self \<or> p \<in> set out")
    case True
    then show ?thesis using 2(1) 2(2) by auto
  next
    case False
    with 2(2) obtain added where "merge_loop self r (out @ [p]) ps = (out @ [p]) @ added" "self \<notin> set added"
      "\<forall>p\<in>set added. peer_id p \<noteq> peer_id self" "length (merge_loop self r (out @ [p]) ps) \<le> max r (length (out @ [p]))"
      by auto
    then show ?thesis using False by (auto intro!: exI [of _ "p # added"])
  qed
qed auto

lemma merge_successors_spec:
  "\<exists>added. merge_successors self succ ps r = succ # added \<and> self \<notin> set added \<and>
     (\<forall>p\<in>set added. peer_id p \<noteq> peer_id self) \<and> length (succ # added) \<le> max r 1"
  using merge_loop_spec [of self r "[succ]" ps] by (auto simp: merge_successors_def)

lemma set_first: "\<forall>x\<in>set (xs[0 := y]). x = y \<or> x \<in> set xs"
  using set_update_subset_insert [of xs 0 y] by auto

lemma keeps_take_neighbours:
  assumes "hd (nd_succs s) = succ"
  shows "keeps s (take_neighbours succ nb s)"
proof -
  obtain added where m: "merge_successors (nd_self s) succ (nb_succs nb) (nd_r s) = succ # added" "nd_self s \<notin> set added"
    "\<forall>p\<in>set added. peer_id p \<noteq> peer_id (nd_self s)" "length (succ # added) \<le> max (nd_r s) 1"
    using merge_successors_spec by blast
  have "keeps s (s\<lparr>nd_succs := succ # added, nd_fingers := (nd_fingers s)[0 := succ]\<rparr>)"
    using assms m(2,3,4) set_first [of "nd_fingers s" succ] hd_in_set [of "nd_succs s"]
    by (auto simp: keeps_def node_inv_def claims_ring_def ID_BITS_def)
  from keeps_trans [OF this keeps_remember_all] show ?thesis by (simp add: take_neighbours_def m)
qed

lemma keeps_front:
  assumes "peer_id c \<noteq> peer_id (nd_self s)" "length L < max (nd_r s) 1" "set L \<subseteq> set (nd_succs s) - {nd_self s}"
  shows "keeps s (s\<lparr>nd_succs := c # L, nd_fingers := (nd_fingers s)[0 := c]\<rparr>)"
  using assms set_first [of "nd_fingers s" c] by (auto simp: keeps_def node_inv_def claims_ring_def ID_BITS_def Suc_le_eq)

lemma keeps_adopt:
  assumes "peer_id c \<noteq> peer_id (nd_self s)"
  shows "keeps s (adopt_successor c s)"
proof -
  define L where "L = take (nd_r s - 1) (filter (\<lambda>p. \<not> same_node p (nd_self s)) (nd_succs s))"
  let ?n = "(nd_counters s)\<lparr>ct_new_successor := Suc (ct_new_successor (nd_counters s))\<rparr>"
  have "length L < max (nd_r s) 1" "set L \<subseteq> set (nd_succs s) - {nd_self s}"
    by (auto simp: L_def dest: in_set_takeD)
  from keeps_trans [OF keeps_trans [OF keeps_trans [OF keeps_front [OF assms this] keeps_counters(1) [of _ ?n]] keeps_remember] keeps_emit]
  show ?thesis by (simp add: adopt_successor_def Let_def L_def)
qed

lemma closer_candidate_id: "closer_candidate succ nb s = (Some c, es) \<Longrightarrow> peer_id c \<noteq> peer_id (nd_self s)"
  by (auto simp: closer_candidate_def split: if_splits)

lemma verify_candidate_keeps:
  assumes "shared t" "\<And>c. candidate = Some c \<Longrightarrow> peer_id c \<noteq> peer_id (nd_self (snd ws))"
    "verify_candidate t succ candidate ws = (moved, ws')"
  shows "keeps (snd ws) (snd ws')"
proof (cases candidate)
  case (Some c)
  obtain r reply w s where cp: "call_peer t c ''PING'' is_pong ws = ((r, reply), (w, s))" by (metis surj_pair)
  have k: "keeps (snd ws) s" using call_peer_keeps [OF assms(1) cp] by simp
  have "keeps s (adopt_successor c s)" by (rule keeps_adopt) (use assms(2) Some keeps_self(1) [OF k] in simp)
  then have "keeps s (snd ws')"
    using assms(3) Some cp by (auto simp: verify_candidate_def split: if_splits)
  with k show ?thesis by (rule keeps_trans)
qed (use assms(3) in \<open>simp add: verify_candidate_def\<close>)

lemma notify_successor_keeps: "shared t \<Longrightarrow> keeps (snd ws) (snd (notify_successor t ws))"
  by (simp add: notify_successor_def Let_def call_peer_keeps')


lemma stabilize_pass_keeps:
  assumes "shared t" "stabilize_pass P t ws = (again, ws')"
  shows "keeps (snd ws) (snd ws')"
proof -
  let ?succ = "hd (nd_succs (snd ws))"
  obtain c reply w s where cp: "call_peer t ?succ ''NEIGHBOURS'' (\<lambda>line. parse_neighbours P line \<noteq> None) ws = ((c, reply), (w, s))"
    by (metis surj_pair)
  have k: "keeps (snd ws) s" using call_peer_keeps [OF assms(1) cp] by simp
  show ?thesis
  proof (cases "c = CGood \<and> hd (nd_succs s) = ?succ \<and> parse_neighbours P reply \<noteq> None")
    case False
    then have "snd ws' = s" using assms(2) cp by (auto simp: stabilize_pass_def Let_def split: if_splits option.splits)
    with k show ?thesis by simp
  next
    case True
    then obtain nb where nb: "parse_neighbours P reply = Some nb" by auto
    obtain candidate es where cc: "closer_candidate ?succ nb s = (candidate, es)" by (metis surj_pair)
    let ?s1 = "emit es (take_neighbours ?succ nb s)"
    obtain moved ws1 where v: "verify_candidate t ?succ candidate (w, ?s1) = (moved, ws1)" by (metis surj_pair)
    have s1: "keeps s ?s1" using True by (intro keeps_trans [OF keeps_take_neighbours keeps_emit]) simp
    have "\<And>c. candidate = Some c \<Longrightarrow> peer_id c \<noteq> peer_id (nd_self (snd (w, ?s1)))"
      using closer_candidate_id cc keeps_self(1) [OF s1] by simp
    from verify_candidate_keeps [OF assms(1) this v] have "keeps ?s1 (snd ws1)" by simp
    moreover have "snd ws' = snd ws1 \<or> snd ws' = snd (notify_successor t ws1)"
      using assms(2) cp True nb cc v by (auto simp: stabilize_pass_def Let_def split: if_splits)
    ultimately show ?thesis
      using k s1 notify_successor_keeps [OF assms(1), of ws1] keeps_trans by metis
  qed
qed

lemma stabilize_keeps:
  assumes "shared t"
  shows "keeps (snd ws) (snd (stabilize P t ws))"
proof -
  have "keeps (snd ws) (snd (stabilize_loop P t n ws))" for n
  proof (induction n arbitrary: ws)
    case (Suc n)
    obtain again ws1 where p: "stabilize_pass P t ws = (again, ws1)" by (metis surj_pair)
    from stabilize_pass_keeps [OF assms p] Suc [of ws1] p show ?case by (auto intro: keeps_trans)
  qed simp
  then show ?thesis by (simp only: stabilize_def)
qed

lemma check_predecessor_keeps: "shared t \<Longrightarrow> keeps (snd ws) (snd (check_predecessor t ws))"
  by (simp add: check_predecessor_def Let_def call_peer_keeps')

lemma fill_end_ge: "i \<le> fill_end self found i"
proof -
  show "i \<le> fill_end self found i"
  proof (induction self found i rule: fill_end.induct)
    case (1 self found j)
    then show ?case by (subst fill_end.simps) (auto dest: Suc_leD)
  qed
qed

lemma fill_fingers_set: "p \<in> set (fill_fingers i j found fs) \<Longrightarrow> p = found \<or> p \<in> set fs"
  by (auto simp: fill_fingers_def split: if_splits)

lemma fill_fingers_length [simp]: "length (fill_fingers i j found fs) = length fs"
  by (simp add: fill_fingers_def)

lemma keeps_next_finger: "1 \<le> i \<Longrightarrow> i < ID_BITS \<Longrightarrow> keeps s (s\<lparr>nd_next_finger := i\<rparr>)"
  by (auto simp: keeps_def node_inv_def claims_ring_def)

lemma keeps_blame: "keeps s (blame_hop r s)"
  by (auto simp: blame_hop_def Let_def intro: keeps_evict keeps_strike)

lemma keeps_apply_finger:
  assumes "1 \<le> i" "i < ID_BITS"
  shows "keeps s (apply_finger i r s)"
proof -
  have n: "1 \<le> next_after i" "next_after i < ID_BITS" using assms by (auto simp: next_after_def ID_BITS_def)
  define j where "j = (let j = fill_end (peer_id (nd_self s)) (peer_id (lr_owner r)) i in if j = i then i + 1 else j)"
  have j: "i < j" using fill_end_ge [of i] by (simp add: j_def Let_def order_less_le)
  let ?s = "s\<lparr>nd_fingers := (fill_fingers i j (lr_owner r) (nd_fingers s))[0 := hd (nd_succs s)],
    nd_next_finger := (if j \<ge> ID_BITS then 1 else j)\<rparr>"
  have "keeps s ?s" if "peer_id (lr_owner r) = peer_id (nd_self s) \<longrightarrow> lr_owner r = nd_self s"
    using that j assms set_first [of "fill_fingers i j (lr_owner r) (nd_fingers s)" "hd (nd_succs s)"]
    by (auto simp: keeps_def node_inv_def claims_ring_def ID_BITS_def dest!: bspec fill_fingers_set)
  then have ok: "keeps s (remember (lr_owner r) ?s)" if "peer_id (lr_owner r) = peer_id (nd_self s) \<longrightarrow> lr_owner r = nd_self s"
    using that keeps_trans keeps_remember by blast
  show ?thesis
    using ok keeps_trans [OF keeps_blame keeps_next_finger [OF n]] keeps_trans [OF keeps_next_finger [OF n] keeps_emit]
    unfolding apply_finger_def Let_def j_def [unfolded Let_def, symmetric] by auto
qed

lemma fix_next_finger_keeps:
  assumes "shared t"
  shows "keeps (snd ws) (snd (fix_next_finger P t ws))"
proof (cases "node_inv (snd ws)")
  case True
  let ?i = "nd_next_finger (snd ws)"
  obtain r w s where l: "lookup P t (nd_self (snd ws)) (finger_start (peer_id (nd_self (snd ws))) ?i) ws = (r, (w, s))"
    by (metis surj_pair)
  have "1 \<le> ?i" "?i < ID_BITS" using True by (auto simp: node_inv_def)
  from keeps_trans [OF _ keeps_apply_finger [OF this, of s r]] lookup_keeps [OF assms l]
  show ?thesis by (simp add: fix_next_finger_def l Let_def)
next
  case False
  obtain r w s where l: "lookup P t (nd_self (snd ws)) (finger_start (peer_id (nd_self (snd ws))) (nd_next_finger (snd ws))) ws = (r, (w, s))"
    by (metis surj_pair)
  note k = lookup_keeps [OF assms l]
  have "nd_self (apply_finger i r s) = nd_self s \<and> nd_r (apply_finger i r s) = nd_r s" for i
    using keeps_self [OF keeps_blame [of s r]] by (auto simp: apply_finger_def Let_def emit_def)
  then show ?thesis using k False by (simp add: fix_next_finger_def l Let_def keeps_def)
qed

section \<open>Joining and starting\<close>

lemma keeps_joined:
  assumes "peer_id found \<noteq> peer_id (nd_self s)"
  shows "keeps s (joined_state known found nb s)"
proof -
  define succs where "succs = (case nb of Some n \<Rightarrow> merge_successors (nd_self s) found (nb_succs n) (nd_r s) | None \<Rightarrow> [found])"
  have "\<exists>added. succs = found # added \<and> nd_self s \<notin> set added \<and> (\<forall>p\<in>set added. peer_id p \<noteq> peer_id (nd_self s)) \<and>
      length (found # added) \<le> max (nd_r s) 1"
    using merge_successors_spec [of "nd_self s" found _ "nd_r s"] by (cases nb) (simp_all add: succs_def)
  then obtain added where a: "succs = found # added" "nd_self s \<notin> set added"
    "\<forall>p\<in>set added. peer_id p \<noteq> peer_id (nd_self s)" "length (found # added) \<le> max (nd_r s) 1"
    by blast
  have "found \<noteq> nd_self s" using assms by auto
  then have "keeps s (s\<lparr>nd_has_pred := False, nd_succs := succs, nd_fingers := replicate ID_BITS found, nd_next_finger := 1,
      nd_orphaned := False\<rparr>)"
    using a(2,3,4) assms by (auto simp: a(1) keeps_def node_inv_def claims_ring_def ID_BITS_def)
  from keeps_trans [OF this keeps_remember_all] show ?thesis by (simp add: joined_state_def Let_def succs_def)
qed

lemma join_keeps:
  assumes "shared t" "join P t known ws = ((st, why), ws')"
  shows "keeps (snd ws) (snd ws') \<and> (st = Joined \<longrightarrow> hd (nd_succs (snd ws')) \<noteq> nd_self (snd ws) \<and> \<not> nd_orphaned (snd ws'))"
proof -
  let ?self = "nd_self (snd ws)"
  obtain r ws1 where l: "lookup P t known (peer_id ?self) ws = (r, ws1)" by (metis surj_pair)
  note k = lookup_keeps [OF assms(1) l]
  show ?thesis
  proof (cases "lr_ok r \<and> peer_id (lr_owner r) \<noteq> peer_id ?self")
    case False
    then show ?thesis using assms(2) l k by (auto simp: join_def Let_def split: if_splits)
  next
    case True
    then have other: "lr_owner r \<noteq> ?self" by auto
    obtain d reply w s where t: "t ws1 (lr_owner r) ''NEIGHBOURS'' = ((d, reply), (w, s))" by (metis surj_pair)
    let ?nb = "if d = Ok then parse_neighbours P reply else None"
    have ks: "keeps (snd ws) s" using keeps_trans [OF k keeps_other [OF shared_other [OF assms(1) t]]] by simp
    have ws': "snd ws' = joined_state known (lr_owner r) ?nb s"
      using assms(2) l t True other by (auto simp: join_def Let_def)
    have "hd (nd_succs (joined_state known (lr_owner r) ?nb s)) = lr_owner r \<and> \<not> nd_orphaned (joined_state known (lr_owner r) ?nb s)"
      using merge_successors_spec [of "nd_self s" "lr_owner r" _ "nd_r s"]
      by (auto simp: joined_state_def Let_def split: option.splits) (metis list.sel(1))+
    then show ?thesis
      using keeps_trans [OF ks keeps_joined [of "lr_owner r" s known ?nb]] True other keeps_self(1) [OF ks] by (simp add: ws')
  qed
qed

lemma rejoin_keeps:
  assumes "shared t"
  shows "keeps (snd ws) (snd (rejoin P t ws))"
proof (cases "nd_contacts (snd ws) = []")
  case True
  then show ?thesis by (cases ws) (simp add: rejoin_def)
next
  case False
  obtain w s where ws: "ws = (w, s)" by (metis surj_pair)
  let ?c = "nd_contacts s ! (nd_next_contact s mod length (nd_contacts s))"
  obtain st why w1 s1 where j: "join P t ?c (w, s\<lparr>nd_next_contact := Suc (nd_next_contact s)\<rparr>) = ((st, why), (w1, s1))"
    by (metis surj_pair)
  have "keeps s s1" using keeps_trans [OF keeps_counters(2) conjunct1 [OF join_keeps [OF assms j], unfolded snd_conv]] .
  moreover have "keeps s1 (snd (rejoin P t ws))"
    using False j by (auto simp: rejoin_def ws Let_def intro: keeps_trans [OF keeps_counters(1) keeps_emit])
  ultimately show ?thesis by (auto simp: ws intro: keeps_trans)
qed

lemma maintenance_round_keeps:
  assumes "shared t"
  shows "keeps (snd ws) (snd (maintenance_round P t ws))"
proof -
  obtain w s where ws: "ws = (w, s)" by (metis surj_pair)
  let ?s = "s\<lparr>nd_counters := (nd_counters s)\<lparr>ct_rounds := Suc (ct_rounds (nd_counters s))\<rparr>\<rparr>"
  have "keeps ?s (snd (maintenance_round P t ws))"
    using rejoin_keeps [OF assms, of "(w, ?s)"]
      keeps_trans [OF keeps_trans [OF stabilize_keeps [OF assms, of "(w, ?s)"] check_predecessor_keeps [OF assms]] fix_next_finger_keeps [OF assms]]
    by (simp add: maintenance_round_def ws Let_def)
  with keeps_counters(1) show ?thesis by (auto simp: ws intro: keeps_trans)
qed

lemma node_inv_init: "node_inv (node_init me r)"
  by (simp add: node_inv_def node_init_def ID_BITS_def MAX_CONTACTS_def)

lemma node_inv_alone: "node_inv (init_alone (node_init me r))"
  by (simp add: node_inv_def node_init_def init_alone_def ID_BITS_def MAX_CONTACTS_def)

text \<open>The successor list of a wired node: the first \<open>r\<close> of the members after it, clockwise.\<close>

lemma wired_successors_eq:
  assumes "members = xs @ self # ys" "self \<notin> set xs"
  shows "wired_successors self r members = (let L = take r (ys @ xs) in if L = [] then [self] else L)"
proof -
  have me: "length (takeWhile (\<lambda>p. \<not> same_node p self) members) = length xs"
  proof -
    have "takeWhile (\<lambda>p. \<not> same_node p self) (xs @ self # ys) = xs @ takeWhile (\<lambda>p. \<not> same_node p self) (self # ys)"
      by (rule takeWhile_append2) (use assms(2) in auto)
    then show ?thesis using assms(1) by simp
  qed
  have "map (\<lambda>step. members ! ((length xs + step) mod length members)) [1..<min (length members) (Suc r)] = take r (ys @ xs)"
  proof (rule nth_equalityI)
    show "length (map (\<lambda>step. members ! ((length xs + step) mod length members)) [1..<min (length members) (Suc r)]) =
        length (take r (ys @ xs))"
      using assms(1) by (auto simp: min_def)
    fix i assume "i < length (map (\<lambda>step. members ! ((length xs + step) mod length members)) [1..<min (length members) (Suc r)])"
    then have i: "i < r" "i < length (ys @ xs)" using assms(1) by (auto simp del: upt_Suc)
    have "members ! ((length xs + Suc i) mod length members) = (ys @ xs) ! i"
    proof (cases "i < length ys")
      case True
      then show ?thesis using assms(1) by (simp add: nth_append)
    next
      case False
      then have "(length xs + Suc i) mod length members = i - length ys"
        using i assms(1) by (simp add: mod_if)
      then show ?thesis using False i assms(1) by (simp add: nth_append)
    qed
    then show "map (\<lambda>step. members ! ((length xs + step) mod length members)) [1..<min (length members) (Suc r)] ! i = take r (ys @ xs) ! i"
      using i assms(1) by (simp del: upt_Suc take_append)
  qed
  then show ?thesis by (simp only: wired_successors_def me Let_def)
qed

lemma ring_split:
  assumes "ring_ok ms" "self \<in> set ms"
  obtains xs ys where "ms = xs @ self # ys" "\<And>p. p \<in> set xs \<Longrightarrow> peer_id p < peer_id self"
    "\<And>p. p \<in> set ys \<Longrightarrow> peer_id self < peer_id p"
proof -
  obtain xs ys where ms: "ms = xs @ self # ys" using assms(2) by (meson split_list)
  then show thesis using assms(1) by (intro that [of xs ys]) (auto simp: ring_ok_def sorted_wrt_append)
qed

lemma predecessor_of_split:
  assumes "ms = xs @ self # ys" "\<And>p. p \<in> set xs \<Longrightarrow> peer_id p < peer_id self"
  shows "predecessor_of (peer_id self) ms = Some (if xs = [] then last (self # ys) else last xs)"
proof -
  have "takeWhile (\<lambda>p. peer_id p < peer_id self) (xs @ self # ys) = xs @ takeWhile (\<lambda>p. peer_id p < peer_id self) (self # ys)"
    by (rule takeWhile_append2) (rule assms(2))
  then show ?thesis using assms(1) by (auto simp: predecessor_of_def)
qed

lemma build_fingers_members:
  assumes "ring_ok ms" "build_fingers n ms = Some fs"
  shows "length fs = ID_BITS" "set fs \<subseteq> set ms"
proof -
  obtain fs' where f: "build_fingers n ms = Some fs'" "length fs' = ID_BITS"
    "\<And>i. i < ID_BITS \<Longrightarrow> successor_of (finger_start n i) ms = Some (fs' ! i)"
    using build_fingers_some [OF assms(1)] by blast
  then show len: "length fs = ID_BITS" using assms(2) by simp
  show "set fs \<subseteq> set ms"
  proof
    fix q assume "q \<in> set fs"
    then obtain i where "i < ID_BITS" "q = fs ! i" using len by (auto simp: in_set_conv_nth)
    with f assms(2) have "successor_of (finger_start n i) ms = Some q" by auto
    with successor_of_max [OF assms(1), of "finger_start n i"] show "q \<in> set ms" by auto
  qed
qed

lemma take_successors:
  assumes "\<forall>p\<in>set (ys @ xs). p \<noteq> me"
    and succs_def: "succs = (let L = take r (ys @ xs) in if L = [] then [me] else L)"
  shows "succs \<noteq> [] \<and> length succs \<le> max r 1 \<and> set succs \<subseteq> insert me (set (ys @ xs)) \<and> me \<notin> set (tl succs)"
proof (cases "take r (ys @ xs) = []")
  case True
  then show ?thesis by (simp add: succs_def Let_def)
next
  case False
  then have s: "succs = take r (ys @ xs)" by (simp only: succs_def Let_def if_False)
  have sub: "set succs \<subseteq> set (ys @ xs)" unfolding s by (rule set_take_subset)
  moreover have "set (tl succs) \<subseteq> set succs" by (cases succs) auto
  moreover have "length succs \<le> max r 1" unfolding s by simp
  moreover have "succs \<noteq> []" using False s by simp
  ultimately show ?thesis using assms(1) by blast
qed

text \<open>A wired node's state, in one piece.\<close>

lemma init_wired_eq:
  assumes ring: "ring_ok ms" and ms: "ms = xs @ me # ys"
    and xs: "\<And>p. p \<in> set xs \<Longrightarrow> peer_id p < peer_id me" and ys: "\<And>p. p \<in> set ys \<Longrightarrow> peer_id me < peer_id p"
    and fs: "build_fingers (peer_id me) ms = Some fs"
  shows "\<exists>s. init_wired ms (node_init me r) = Some s \<and> nd_self s = me \<and> nd_r s = r \<and>
    nd_succs s = (let L = take r (ys @ xs) in if L = [] then [me] else L) \<and> nd_fingers s = fs[0 := hd (nd_succs s)] \<and>
    nd_has_pred s = (length ms > 1) \<and>
    (nd_has_pred s \<longrightarrow> nd_pred s = last (ys @ xs)) \<and> \<not> nd_orphaned s \<and> node_inv s"
proof -
  define succs where "succs = (let L = take r (ys @ xs) in if L = [] then [me] else L)"
  have w: "wired_successors me r ms = succs"
    unfolding succs_def by (rule wired_successors_eq [OF ms]) (use xs in blast)
  define pred where "pred = (if xs = [] then last (me # ys) else last xs)"
  have p: "predecessor_of (peer_id me) ms = Some pred"
    unfolding pred_def by (rule predecessor_of_split [OF ms xs])
  have pred: "pred = last (ys @ xs)" if "length ms > 1" using that ms by (auto simp: pred_def)
  have others: "\<forall>p\<in>set (ys @ xs). peer_id p \<noteq> peer_id me" using xs ys by fastforce
  then have pred_id: "peer_id pred \<noteq> peer_id me" if "length ms > 1"
    using pred [OF that] that ms last_in_set [of "ys @ xs"] by fastforce
  define s where "s = (node_init me r)\<lparr>nd_succs := succs, nd_has_pred := (length ms > 1),
    nd_pred := (if length ms > 1 then pred else empty_peer), nd_fingers := fs[0 := hd succs], nd_next_finger := 1\<rparr>"
  have i: "init_wired ms (node_init me r) = Some (remember_all succs s)"
    by (simp add: init_wired_def node_init_def fs p w s_def Let_def)
  note len = build_fingers_members(1) [OF ring fs] and fset = build_fingers_members(2) [OF ring fs]
  have ids: "\<forall>q\<in>set ms. peer_id q = peer_id me \<longrightarrow> q = me" using others ms by auto
  have "\<forall>p\<in>set (ys @ xs). p \<noteq> me" using others by blast
  note succs = take_successors [OF this succs_def]
  have members: "set succs \<subseteq> set ms" using succs ms by auto
  then have "hd succs \<in> set ms" using succs hd_in_set [of succs] by blast
  have nodes: "\<forall>p\<in>set succs \<union> set (fs[0 := hd succs]). peer_id p = peer_id me \<longrightarrow> p = me"
    using members \<open>hd succs \<in> set ms\<close> fset ids set_first [of fs "hd succs"] by (metis UnE subsetD)
  have "node_inv s"
    using succs len nodes pred_id
    by (simp add: node_inv_def s_def node_init_def ID_BITS_def MAX_CONTACTS_def)
  then have "node_inv (remember_all succs s)" using keeps_inv keeps_remember_all by blast
  then show ?thesis using i pred by (auto simp: s_def node_init_def succs_def)
qed

section \<open>A node's whole life\<close>

text \<open>
  A member starts alone, wired into a fixed ring, or by joining through a known node; from then
  on it answers requests, runs the probes that follow a NOTIFY, and runs maintenance rounds, in
  any order, each through a transport that may answer anything.
\<close>

inductive node_start :: "platform \<Rightarrow> Peer \<Rightarrow> nat \<Rightarrow> 'w node_world \<Rightarrow> bool" for P me r where
  ns_alone: "node_start P me r (w, init_alone (node_init me r))"
| ns_wired: "ring_ok ms \<Longrightarrow> me \<in> set ms \<Longrightarrow> init_wired ms (node_init me r) = Some s \<Longrightarrow> node_start P me r (w, s)"
| ns_join: "shared t \<Longrightarrow> join P t known (w, node_init me r) = ((Joined, why), ws) \<Longrightarrow> node_start P me r ws"

inductive node_step :: "platform \<Rightarrow> 'w node_world \<Rightarrow> 'w node_world \<Rightarrow> bool" for P where
  st_request: "shared t \<Longrightarrow> handle_request P t line ws = (h, ws') \<Longrightarrow> node_step P ws ws'"
| st_after: "shared t \<Longrightarrow> peer_id c \<noteq> peer_id (nd_self (snd ws)) \<Longrightarrow> node_step P ws (notify_after t old c ws)"
| st_round: "shared t \<Longrightarrow> node_step P ws (maintenance_round P t ws)"

lemma node_step_keeps: "node_step P ws ws' \<Longrightarrow> keeps (snd ws) (snd ws')"
  by (induction rule: node_step.induct)
    (use handle_request_other notify_after_other maintenance_round_keeps keeps_other in blast)+

lemma node_steps_keep: "(node_step P)\<^sup>*\<^sup>* ws ws' \<Longrightarrow> keeps (snd ws) (snd ws')"
  by (induction rule: rtranclp_induct) (auto intro: keeps_trans node_step_keeps)

lemma node_start_inv: "node_start P me r ws \<Longrightarrow> node_inv (snd ws) \<and> nd_self (snd ws) = me \<and> nd_r (snd ws) = r"
proof (induction rule: node_start.induct)
  case (ns_alone w)
  then show ?case using node_inv_alone by (simp add: init_alone_def node_init_def)
next
  case (ns_wired ms s w)
  obtain xs ys where split: "ms = xs @ me # ys" "\<And>p. p \<in> set xs \<Longrightarrow> peer_id p < peer_id me"
    "\<And>p. p \<in> set ys \<Longrightarrow> peer_id me < peer_id p"
    using ring_split [OF ns_wired(1,2)] by blast
  obtain fs where "build_fingers (peer_id me) ms = Some fs" using build_fingers_some [OF ns_wired(1)] by metis
  from init_wired_eq [OF ns_wired(1) split this, of r] ns_wired(3) show ?case by auto
next
  case (ns_join t known w why ws)
  from join_keeps [OF ns_join] node_inv_init [of me r] show ?case by (simp add: keeps_def node_init_def)
qed

text \<open>
  C9. A ring member's tables stay well formed for its whole life, whatever the other nodes answer
  and whatever its other threads do during a call: the successor list is never empty nor longer
  than \<open>r\<close>, the first finger is the successor, no other node with its own identifier is ever
  kept, at most \<^verbatim>\<open>MAX_CONTACTS\<close> distinct contacts are kept, none in its own process, the next
  finger is in range, and no peer it still holds has reached the second strike.
\<close>

theorem node_tables_invariant:
  assumes "node_start P me r ws" "(node_step P)\<^sup>*\<^sup>* ws ws'"
  shows "node_inv (snd ws') \<and> nd_self (snd ws') = me \<and> nd_r (snd ws') = r"
  using node_start_inv [OF assms(1)] node_steps_keep [OF assms(2)] by (simp add: keeps_def)

definition quiet :: "'w node_world transport" where
  "quiet ws to req = ((Refused, []), ws)"

lemma quiet_shared: "shared quiet"
  by (auto simp: shared_def quiet_def)

theorem node_tables_invariant_witness:
  "node_inv (snd (maintenance_round sample_platform quiet ((), init_alone (node_init (sample_peer 3 9001) 8))))"
proof -
  let ?ws = "((), init_alone (node_init (sample_peer 3 9001) 8))"
  have "(node_step sample_platform)\<^sup>*\<^sup>* ?ws (maintenance_round sample_platform quiet ?ws)"
    by (intro r_into_rtranclp st_round quiet_shared)
  from node_tables_invariant [OF ns_alone this] show ?thesis by blast
qed


lemma wired_pair:
  "\<exists>s. init_wired [sample_peer 3 9001, sample_peer 9 9002] (node_init (sample_peer 3 9001) 8) = Some s \<and>
     hd (nd_succs s) = sample_peer 9 9002"
proof -
  let ?a = "sample_peer 3 9001" let ?b = "sample_peer 9 9002"
  have ring: "ring_ok [?a, ?b]" by (simp add: ring_ok_def sample_peer_def)
  obtain fs where fs: "build_fingers (peer_id ?a) [?a, ?b] = Some fs" using build_fingers_some [OF ring] by metis
  have "\<exists>s. init_wired [?a, ?b] (node_init ?a 8) = Some s \<and> nd_self s = ?a \<and> nd_r s = 8 \<and>
    nd_succs s = (let L = take 8 ([?b] @ []) in if L = [] then [?a] else L) \<and> nd_fingers s = fs[0 := hd (nd_succs s)] \<and>
    nd_has_pred s = (length [?a, ?b] > 1) \<and>
    (nd_has_pred s \<longrightarrow> nd_pred s = last ([?b] @ [])) \<and> \<not> nd_orphaned s \<and> node_inv s"
    by (rule init_wired_eq [OF ring _ _ _ fs]) (auto simp: sample_peer_def)
  then show ?thesis by auto
qed


end
