(* ===== verification/Stabilize_Ring.thy ===== *)
theory Stabilize_Ring
  imports Stabilize_Inv
begin

text \<open>
  Members of \<^verbatim>\<open>src/stabilize.cpp\<close> talking to each other: the NEIGHBOURS line survives the wire, a
  ring of wired members answers lookups correctly, and maintenance leaves a correct ring as it is.
\<close>

section \<open>Words between white space\<close>

lemma is_space_blank [simp]: "is_space CHR '' ''"
  by (simp add: is_space_def)

lemma words_of_word: "w \<noteq> [] \<Longrightarrow> list_all (\<lambda>c. \<not> is_space c) w \<Longrightarrow> words_of w = [w]"
proof (induction w)
  case (Cons c w)
  then show ?case by (cases w) auto
qed simp

lemma words_of_append:
  "w \<noteq> [] \<Longrightarrow> list_all (\<lambda>c. \<not> is_space c) w \<Longrightarrow> words_of (w @ CHR '' '' # rest) = w # words_of rest"
proof (induction w)
  case (Cons c w)
  then show ?case by (cases w) auto
qed simp

declare words_of.simps [simp del]

lemma lower_hex_not_space: "is_lower_hex c \<Longrightarrow> \<not> is_space c"
  by (auto simp: is_lower_hex_def is_space_def)

lemma digit_not_space: "is_digit c \<Longrightarrow> \<not> is_space c"
  by (auto simp: is_digit_def is_space_def)

lemma id_to_hex_word: "id_to_hex i \<noteq> []" "list_all (\<lambda>c. \<not> is_space c) (id_to_hex i)"
proof -
  show "id_to_hex i \<noteq> []" using id_to_hex_length [of i] by (metis length_0_conv zero_neq_numeral)
  show "list_all (\<lambda>c. \<not> is_space c) (id_to_hex i)"
    using hex_pad_lower by (auto simp: id_to_hex_def list_all_iff dest: lower_hex_not_space)
qed

lemma to_string_word: "list_all (\<lambda>c. \<not> is_space c) (to_string n)"
  using to_string_digits [of n] by (auto simp: list_all_iff dest: digit_not_space)

section \<open>NEIGHBOURS on the wire\<close>

lemma parse_count_to_string: "1 \<le> n \<Longrightarrow> n \<le> MAX_SUCCESSORS \<Longrightarrow> parse_count (to_string n) = Some n"
proof -
  assume n: "1 \<le> n" "n \<le> MAX_SUCCESSORS"
  then have "length (to_string n) \<le> 2" by (intro to_string_length_le) (auto simp: MAX_SUCCESSORS_def)
  with n show ?thesis by (simp add: parse_count_def to_string_hd_zero)
qed

definition peer_word_list :: "Peer \<Rightarrow> string list" where
  "peer_word_list p = [id_to_hex (peer_id p), peer_ip p, to_string (peer_port p)]"

lemma split_peers:
  assumes "platform_ok P" "\<forall>p\<in>set ps. valid_peer P p" "CHR '' '' \<notin> set w"
  shows "split_single_spaces (w @ concat (map (\<lambda>p. '' '' @ peer_words p) ps)) = w # concat (map peer_word_list ps)"
  using assms(2,3)
proof (induction ps arbitrary: w)
  case (Cons p ps)
  then have ip: "CHR '' '' \<notin> set (peer_ip p)" using assms(1) by (simp add: valid_peer_def)
  have "split_single_spaces (to_string (peer_port p) @ concat (map (\<lambda>p. '' '' @ peer_words p) ps)) =
      to_string (peer_port p) # concat (map peer_word_list ps)"
    by (rule Cons.IH) (use Cons.prems in auto)
  then show ?case using Cons.prems(2) ip by (simp add: peer_words_def [of p] peer_word_list_def [of p])
qed simp

lemma parse_peers_words: "\<forall>p\<in>set ps. valid_peer P p \<Longrightarrow> parse_peers P (concat (map peer_word_list ps)) = Some ps"
  by (induction ps) (auto simp: peer_word_list_def parse_peer_words_of)

definition neighbours_fit :: "platform \<Rightarrow> Neighbours \<Rightarrow> bool" where
  "neighbours_fit P n \<longleftrightarrow>
     1 \<le> length (nb_succs n) \<and> length (nb_succs n) \<le> MAX_SUCCESSORS \<and> (\<forall>p\<in>set (nb_succs n). valid_peer P p) \<and>
     (nb_has_pred n \<longrightarrow> valid_peer P (nb_pred n))"

text \<open>What arrives: the predecessor is sent only when there is one.\<close>

definition sent :: "Neighbours \<Rightarrow> Neighbours" where
  "sent n = (if nb_has_pred n then n else n\<lparr>nb_pred := empty_peer\<rparr>)"

lemma peer_word_list_length: "length (concat (map peer_word_list ps)) = 3 * length ps"
  by (induction ps) (auto simp: peer_word_list_def)

lemma neighbours_wire:
  assumes "platform_ok P" "neighbours_fit P n"
  shows "parse_neighbours P (render_neighbours n) = Some (sent n)"
proof -
  let ?ws = "to_string (length (nb_succs n)) # concat (map peer_word_list (nb_succs n))"
  have n: "1 \<le> length (nb_succs n)" "length (nb_succs n) \<le> MAX_SUCCESSORS" "\<forall>p\<in>set (nb_succs n). valid_peer P p"
    using assms(2) by (simp_all add: neighbours_fit_def)
  let ?tail = "to_string (length (nb_succs n)) @ concat (map (\<lambda>p. '' '' @ peer_words p) (nb_succs n))"
  have tail: "split_single_spaces ?tail = ?ws"
    by (rule split_peers [OF assms(1) n(3)]) simp
  have verb: "split_single_spaces (''NEIGHBOURS'' @ CHR '' '' # x) = ''NEIGHBOURS'' # split_single_spaces x" for x
    by (rule split_words_append) simp
  have none: "CHR '' '' \<notin> set ''NONE''" and port: "CHR '' '' \<notin> set (to_string k)" for k by simp_all
  have succs: "parse_successors P b q ?ws = Some \<lparr>nb_has_pred = b, nb_pred = q, nb_succs = nb_succs n\<rparr>" for b q
    using n by (simp add: parse_successors_def parse_count_to_string parse_peers_words peer_word_list_length)
  show ?thesis
  proof (cases "nb_has_pred n")
    case False
    have "render_neighbours n = ''NEIGHBOURS'' @ CHR '' '' # ''NONE'' @ CHR '' '' # ?tail"
      using False by (simp add: render_neighbours_def)
    then have "split_single_spaces (render_neighbours n) = ''NEIGHBOURS'' # ''NONE'' # ?ws"
      by (simp only: verb split_words_append [OF none] tail)
    then show ?thesis using False assms(2) succs n(1) peer_word_list_length [of "nb_succs n"]
      by (simp add: parse_neighbours_def neighbours_fit_def sent_def)
  next
    case True
    then have v: "valid_peer P (nb_pred n)" and ip: "CHR '' '' \<notin> set (peer_ip (nb_pred n))"
      using assms by (auto simp: neighbours_fit_def valid_peer_def)
    let ?p = "nb_pred n"
    have "render_neighbours n = ''NEIGHBOURS'' @ CHR '' '' # id_to_hex (peer_id ?p) @ CHR '' '' # peer_ip ?p @ CHR '' '' #
        to_string (peer_port ?p) @ CHR '' '' # ?tail"
      using True by (simp add: render_neighbours_def peer_words_def)
    then have "split_single_spaces (render_neighbours n) = ''NEIGHBOURS'' # id_to_hex (peer_id ?p) # peer_ip ?p # to_string (peer_port ?p) # ?ws"
      by (simp only: verb split_words_append [OF id_to_hex_no_sep(1)] split_words_append [OF ip] split_words_append [OF port] tail)
    moreover have "id_to_hex i \<noteq> ''NONE''" for i
    proof
      assume "id_to_hex i = ''NONE''"
      then have "length (id_to_hex i) = 4" by simp
      then show False by simp
    qed
    ultimately show ?thesis using True succs parse_peer_words_of [OF v] n(1)
      by (simp add: parse_neighbours_def peer_word_list_def sent_def)
  qed
qed

lemma render_not_err: "\<not> starts_with ''ERR'' (render_neighbours n)"
  by (simp add: render_neighbours_def starts_with_def)

section \<open>Replies fit one line\<close>

text \<open>An address in dotted decimal has at most 15 characters, and a port at most five.\<close>

definition short_peer :: "Peer \<Rightarrow> bool" where
  "short_peer p \<longleftrightarrow> length (peer_ip p) \<le> 15 \<and> peer_port p \<le> 65535"

lemma short_words: "short_peer p \<Longrightarrow> length (peer_words p) \<le> 38"
proof -
  assume p: "short_peer p"
  then have "length (to_string (peer_port p)) \<le> 5" by (intro to_string_length_le) (auto simp: short_peer_def)
  with p show ?thesis by (simp add: peer_words_def short_peer_def)
qed

lemma short_concat: "\<forall>p\<in>set ps. short_peer p \<Longrightarrow> length (concat (map (\<lambda>p. '' '' @ peer_words p) ps)) \<le> 39 * length ps"
proof (induction ps)
  case (Cons p ps)
  then show ?case using short_words [of p] by simp
qed simp

lemma render_neighbours_short:
  assumes "\<forall>p\<in>set (nb_succs n). short_peer p" "nb_has_pred n \<longrightarrow> short_peer (nb_pred n)" "length (nb_succs n) \<le> MAX_SUCCESSORS"
  shows "length (render_neighbours n) \<le> MAX_LINE"
proof -
  have "length (to_string (length (nb_succs n))) \<le> 2"
    using assms(3) by (intro to_string_length_le) (auto simp: MAX_SUCCESSORS_def)
  moreover have "length (concat (map (\<lambda>p. '' '' @ peer_words p) (nb_succs n))) \<le> 624"
    using short_concat [OF assms(1)] assms(3) by (simp add: MAX_SUCCESSORS_def)
  moreover have "length (if nb_has_pred n then peer_words (nb_pred n) else ''NONE'') \<le> 38"
    using assms(2) short_words by simp
  ultimately show ?thesis by (simp add: render_neighbours_def MAX_LINE_def)
qed

lemma handle_find_successor_short:
  assumes "node_inv s" "\<forall>p\<in>set (nd_succs s) \<union> set (nd_fingers s). short_peer p" "short_peer (nd_self s)"
  shows "length (handle_find_successor hex s) \<le> MAX_LINE"
proof -
  have first: "first_in_arc me k fs = me \<or> first_in_arc me k fs \<in> set fs" for me k fs
    by (induction fs) auto
  have hd: "hd (nd_succs s) \<in> set (nd_succs s)" using assms(1) by (simp add: node_inv_def)
  have "short_peer (step_peer (route_step (nd_self s) (hd (nd_succs s)) (nd_fingers s) k))" for k
    using hd assms(2,3) first [of "nd_self s" k "rev (nd_fingers s)"]
    by (auto simp: route_step_def Let_def closest_preceding_finger_def)
  then have short: "length (peer_words (step_peer (route_step (nd_self s) (hd (nd_succs s)) (nd_fingers s) k))) \<le> 38" for k
    using short_words by blast
  have "length (reply_line (route_step (nd_self s) (hd (nd_succs s)) (nd_fingers s) k)) \<le> MAX_LINE" for k
    using short [of k] by (simp add: reply_line_def MAX_LINE_def)
  then show ?thesis by (simp add: handle_find_successor_def MAX_LINE_def split: option.splits)
qed

lemma handle_notify_short: "handle_notify P a b d s = ((reply, after), s') \<Longrightarrow> length reply \<le> MAX_LINE"
  by (auto simp: handle_notify_def parse_peer_words_def MAX_LINE_def split: sum.splits option.splits if_splits)

lemma handle_suspect_short: "handle_suspect t named ws = ((reply, after), ws') \<Longrightarrow> length reply \<le> MAX_LINE"
  by (auto simp: handle_suspect_def MAX_LINE_def split: option.splits if_splits prod.splits)

lemma render_fingers_short: "length (render_fingers fs) \<le> MAX_LINE"
  by (simp add: render_fingers_def Let_def MAX_LINE_def)

text \<open>
  Every reply of a ring member fits in one line of \<^verbatim>\<open>MAX_LINE\<close> bytes, whatever the request:
  the successor list is short enough for NEIGHBOURS, and FINGERS answers an error when its table
  would not fit.
\<close>

theorem reply_fits_one_line:
  assumes "node_inv s" "nd_r s \<le> MAX_SUCCESSORS" "short_peer (nd_self s)"
    "\<forall>p\<in>set (nd_succs s) \<union> set (nd_fingers s). short_peer p" "nd_has_pred s \<longrightarrow> short_peer (nd_pred s)"
    "handle_request P t line (w, s) = ((reply, after), ws')"
  shows "length reply \<le> MAX_LINE"
proof -
  have "length (nd_succs s) \<le> MAX_SUCCESSORS" using assms(1,2) by (auto simp: node_inv_def MAX_SUCCESSORS_def)
  then have "length (render_neighbours (neighbours_of s)) \<le> MAX_LINE"
    using assms(4,5) by (intro render_neighbours_short) (auto simp: neighbours_of_def)
  then show ?thesis
    using assms(6) handle_find_successor_short [OF assms(1,4,3)] handle_notify_short handle_suspect_short render_fingers_short
    by (cases ws') (auto simp: handle_request_def Let_def MAX_LINE_def split: if_splits prod.splits)
qed

theorem reply_fits_one_line_witness:
  "length (fst (fst (handle_request sample_platform quiet ''NEIGHBOURS'' ((), node_init (sample_peer 3 9001) 8)))) \<le> MAX_LINE"
proof -
  let ?s = "node_init (sample_peer 3 9001) 8"
  obtain reply after ws' where h: "handle_request sample_platform quiet ''NEIGHBOURS'' ((), ?s) = ((reply, after), ws')"
    by (metis surj_pair)
  have "length reply \<le> MAX_LINE"
    by (rule reply_fits_one_line [OF node_inv_init _ _ _ _ h])
      (auto simp: node_init_def MAX_SUCCESSORS_def short_peer_def sample_peer_def ID_BITS_def)
  with h show ?thesis by simp
qed

section \<open>A ring of members\<close>

text \<open>
  The ring in one world: every other member's state by its address, and a transport that hands
  each request to the member it is for. A member nobody runs refuses. The probe that may follow
  a NOTIFY runs after its reply and is not part of the call.
\<close>

type_synonym ring_world = "Peer \<rightharpoonup> NodeState"

definition ring_net :: "platform \<Rightarrow> Peer list \<Rightarrow> ring_world node_world transport" where
  "ring_net P ms ws to request =
     (case ws of (W, s) \<Rightarrow>
        if same_node to (nd_self s)
        then (case handle_request P quiet request ((), s) of ((reply, _), (_, s)) \<Rightarrow> ((Ok, reply), (W, s)))
        else case W to of
          None \<Rightarrow> ((Refused, []), (W, s))
        | Some n \<Rightarrow>
            (case handle_request P quiet request ((), n) of
               ((reply, _), (_, n)) \<Rightarrow> ((Ok, reply), (W(to \<mapsto> n), s))))"

definition ring_round :: "platform \<Rightarrow> Peer list \<Rightarrow> Peer \<Rightarrow> ring_world \<Rightarrow> ring_world" where
  "ring_round P ms p W =
     (case W p of
        None \<Rightarrow> W
      | Some s \<Rightarrow> (case maintenance_round P (ring_net P ms) (W(p := None), s) of (W, s) \<Rightarrow> W(p \<mapsto> s)))"

text \<open>The tables \<^const>\<open>init_wired\<close> gives a member, spelt out.\<close>

definition wired :: "Peer list \<Rightarrow> nat \<Rightarrow> Peer \<Rightarrow> NodeState \<Rightarrow> bool" where
  "wired ms r p s \<longleftrightarrow>
     nd_self s = p \<and> nd_r s = r \<and> \<not> nd_orphaned s \<and> 1 \<le> nd_next_finger s \<and> nd_next_finger s < ID_BITS \<and>
     Some (nd_fingers s) = build_fingers (peer_id p) ms \<and> nd_succs s = wired_successors p r ms \<and>
     nd_has_pred s = (length ms > 1) \<and> (nd_has_pred s \<longrightarrow> predecessor_of (peer_id p) ms = Some (nd_pred s))"

definition wired_ring :: "platform \<Rightarrow> Peer list \<Rightarrow> nat \<Rightarrow> ring_world \<Rightarrow> bool" where
  "wired_ring P ms r W \<longleftrightarrow>
     good_ring P ms \<and> 1 \<le> r \<and> r \<le> MAX_SUCCESSORS \<and> dom W = set ms \<and> (\<forall>p s. W p = Some s \<longrightarrow> wired ms r p s)"

definition others :: "Peer list \<Rightarrow> Peer \<Rightarrow> Peer list" where
  "others ms p = tl (dropWhile (\<lambda>q. q \<noteq> p) ms) @ takeWhile (\<lambda>q. q \<noteq> p) ms"

lemma others_split: "p \<notin> set xs \<Longrightarrow> others (xs @ p # ys) p = ys @ xs"
proof -
  assume p: "p \<notin> set xs"
  have "takeWhile (\<lambda>q. q \<noteq> p) (xs @ p # ys) = xs @ takeWhile (\<lambda>q. q \<noteq> p) (p # ys)"
    by (rule takeWhile_append2) (use p in auto)
  moreover have "dropWhile (\<lambda>q. q \<noteq> p) (xs @ p # ys) = dropWhile (\<lambda>q. q \<noteq> p) (p # ys)"
    by (rule dropWhile_append2) (use p in auto)
  ultimately show ?thesis by (simp add: others_def)
qed

lemma wired_successors_others:
  assumes "ring_ok ms" "p \<in> set ms"
  shows "wired_successors p r ms = (let L = take r (others ms p) in if L = [] then [p] else L)"
proof -
  obtain xs ys where s: "ms = xs @ p # ys" "\<And>q. q \<in> set xs \<Longrightarrow> peer_id q < peer_id p" using ring_split [OF assms] by metis
  then have "p \<notin> set xs" by blast
  with s(1) show ?thesis using wired_successors_eq others_split by metis
qed

lemma predecessor_others:
  assumes "ring_ok ms" "p \<in> set ms" "length ms > 1"
  shows "predecessor_of (peer_id p) ms = Some (last (others ms p))"
proof -
  obtain xs ys where s: "ms = xs @ p # ys" "\<And>q. q \<in> set xs \<Longrightarrow> peer_id q < peer_id p" using ring_split [OF assms(1,2)] by metis
  then have "p \<notin> set xs" by blast
  with s assms(3) show ?thesis by (simp add: predecessor_of_split others_split)
qed

lemma ring_distinct: "ring_ok ms \<Longrightarrow> distinct ms"
  by (simp add: ring_ok_def strict_sorted_iff distinct_map)

text \<open>The members after the successor: the rest of the members after oneself, then oneself.\<close>

lemma others_next:
  assumes "ring_ok ms" "p \<in> set ms" "others ms p = q # L"
  shows "q \<in> set ms \<and> others ms q = L @ [p]"
proof -
  obtain xs ys where s: "ms = xs @ p # ys" "\<And>q. q \<in> set xs \<Longrightarrow> peer_id q < peer_id p" using ring_split [OF assms(1,2)] by metis
  note d = ring_distinct [OF assms(1)]
  have o: "ys @ xs = q # L" using s assms(3) others_split [of p xs ys] d by simp
  show ?thesis
  proof (cases ys)
    case Nil
    with o s(1) have "ms = [] @ q # (L @ [p])" by simp
    then show ?thesis using others_split [of q "[]" "L @ [p]"] by simp
  next
    case (Cons y ys')
    with o s(1) have "ms = (xs @ [p]) @ q # ys'" "L = ys' @ xs" by simp_all
    then show ?thesis using others_split [of q "xs @ [p]" ys'] d by auto
  qed
qed

lemma ring_length_others: "p \<in> set ms \<Longrightarrow> length (others ms p) = length ms - 1"
proof -
  assume "p \<in> set ms"
  then obtain xs ys where "ms = xs @ p # ys" "p \<notin> set xs" by (meson split_list_first)
  then show ?thesis using others_split by simp
qed

lemma set_others: "ring_ok ms \<Longrightarrow> p \<in> set ms \<Longrightarrow> set (others ms p) = set ms - {p} \<and> distinct (others ms p)"
proof -
  assume r: "ring_ok ms" and p: "p \<in> set ms"
  then obtain xs ys where ms: "ms = xs @ p # ys" "p \<notin> set xs" by (meson split_list_first)
  with ring_distinct [OF r] others_split [OF ms(2), of ys] show ?thesis by auto
qed

section \<open>Correct tables agree\<close>

text \<open>The first finger of a correct table is the next member clockwise.\<close>

lemma first_finger:
  assumes "ring_ok ms" "p \<in> set ms"
  shows "successor_of (peer_id p + 1) ms = Some (hd (others ms p @ [p]))"
proof -
  obtain xs ys where s: "ms = xs @ p # ys" "\<And>q. q \<in> set xs \<Longrightarrow> peer_id q < peer_id p" "\<And>q. q \<in> set ys \<Longrightarrow> peer_id p < peer_id q"
    using ring_split [OF assms] by metis
  then have o: "others ms p = ys @ xs" using others_split by blast
  show ?thesis
  proof (cases "peer_id p + 1 = 0")
    case True
    then have "peer_id p = - 1" by (simp add: eq_neg_iff_add_eq_0)
    then have "ys = []" using s(3) word_order.extremum_strict by (metis list.set_intros(1) neq_Nil_conv)
    then have "others ms p = xs" "dropWhile (\<lambda>q. peer_id q < 0) ms = ms" "ms \<noteq> []" "hd ms = hd (xs @ [p])"
      using o s(1) by (auto simp: dropWhile_eq_self_iff hd_append)
    then show ?thesis using True by (cases ms) (simp_all add: successor_of_def)
  next
    case False
    then have lt: "peer_id q < peer_id p + 1 \<longleftrightarrow> peer_id q \<le> peer_id p" for q
      using unatSuc [of "peer_id p"] by (simp add: word_less_nat_alt word_le_nat_alt add.commute less_Suc_eq_le)
    have dw: "dropWhile (\<lambda>q. peer_id q < peer_id p + 1) ms = ys"
    proof -
      have "dropWhile (\<lambda>q. peer_id q < peer_id p + 1) ((xs @ [p]) @ ys) = dropWhile (\<lambda>q. peer_id q < peer_id p + 1) ys"
        by (rule dropWhile_append2) (use s(2) lt in \<open>auto intro: order_less_imp_le\<close>)
      also have "\<dots> = ys" using s(3) by (cases ys) (simp_all add: lt not_le)
      finally show ?thesis using s(1) by simp
    qed
    have "hd ms = hd (xs @ [p])" "ms \<noteq> []" using s(1) by (auto simp: hd_append)
    then show ?thesis using o unfolding successor_of_def dw by (cases ys) simp_all
  qed
qed

lemma merge_loop_take:
  assumes "distinct (out @ L)" "self \<notin> set L" "\<forall>p\<in>set L. peer_id p \<noteq> peer_id self" "length out \<le> r" "r \<le> length out + n"
  shows "merge_loop self r out (take n (L @ [self])) = take r (out @ L)"
  using assms
proof (induction L arbitrary: out n)
  case Nil
  then show ?case by (cases n) auto
next
  case (Cons p L)
  show ?case
  proof (cases "length out = r \<or> n = 0")
    case True
    then show ?thesis using Cons.prems by (cases n) auto
  next
    case False
    then obtain m where n: "n = Suc m" by (cases n) auto
    have "merge_loop self r (out @ [p]) (take m (L @ [self])) = take r ((out @ [p]) @ L)"
      by (rule Cons.IH) (use Cons.prems False n in auto)
    then show ?thesis using Cons.prems False n by (auto simp: not_le)
  qed
qed

text \<open>Every start up to the owner of an earlier start has the same owner.\<close>

lemma fill_arith:
  assumes "(A::nat) \<le> B" "1 \<le> A" "em \<le> M" "ef \<le> M" "\<not> (0 < ef \<and> ef < B)"
    "(if em < A then A - 1 - em else M + A - em) \<le> (if ef < A then A - 1 - ef else M + A - ef)"
  shows "(if em < B then B - 1 - em else M + B - em) \<le> (if ef < B then B - 1 - ef else M + B - ef)"
  using assms by (auto split: if_splits)

lemma fill_same_owner:
  assumes ring: "ring_ok ms" and i: "i \<le> n" "n < ID_BITS"
    and f: "successor_of (finger_start a i) ms = Some f" and within: "in_range_oc (finger_start a n) a (peer_id f)"
  shows "successor_of (finger_start a n) ms = Some f"
proof (rule successor_ofI [OF ring])
  obtain q where q: "successor_of (finger_start a i) ms = Some q" "q \<in> set ms"
    "\<And>m. m \<in> set ms \<Longrightarrow> gap (finger_start a i) (peer_id m) \<le> gap (finger_start a i) (peer_id q)"
    using successor_of_max [OF ring] by metis
  with f show "f \<in> set ms" by simp
  fix m assume "m \<in> set ms"
  define em ef where "em = unat (peer_id m - a)" and "ef = unat (peer_id f - a)"
  have b: "em \<le> 18446744073709551615" "ef \<le> 18446744073709551615"
    using unat64_bound [of "peer_id m - a"] unat64_bound [of "peer_id f - a"] by (simp_all add: em_def ef_def)
  have p: "(2::nat) ^ i \<le> 2 ^ n" "1 \<le> (2::nat) ^ i" using i(1) by simp_all
  have iN: "i < ID_BITS" using i by simp
  have far: "\<not> (0 < ef \<and> ef < 2 ^ n)"
    using within i(2) p by (auto simp: in_range_oc_gap gap_finger ef_def)
  have "gap (finger_start a i) (peer_id m) \<le> gap (finger_start a i) (peer_id f)"
    using q(3) [OF \<open>m \<in> set ms\<close>] q(1) f by simp
  then have "(if em < 2 ^ i then 2 ^ i - 1 - em else 18446744073709551615 + 2 ^ i - em) \<le>
      (if ef < 2 ^ i then 2 ^ i - 1 - ef else 18446744073709551615 + 2 ^ i - ef)"
    by (simp only: gap_finger [OF iN] em_def ef_def)
  then have "(if em < 2 ^ n then 2 ^ n - 1 - em else 18446744073709551615 + 2 ^ n - em) \<le>
      (if ef < 2 ^ n then 2 ^ n - 1 - ef else 18446744073709551615 + 2 ^ n - ef)"
    by (rule fill_arith [OF p b far])
  then show "gap (finger_start a n) (peer_id m) \<le> gap (finger_start a n) (peer_id f)"
    by (simp only: gap_finger [OF i(2)] em_def ef_def)
qed

lemma fill_end_within: "i \<le> n \<Longrightarrow> n < fill_end a b i \<Longrightarrow> n < ID_BITS \<and> in_range_oc (finger_start a n) a b"
proof (induction a b i rule: fill_end.induct)
  case (1 a b j)
  show ?case
  proof (cases "j < ID_BITS \<and> in_range_oc (finger_start a j) a b")
    case True
    then have "fill_end a b j = fill_end a b (Suc j)" by (subst fill_end.simps) simp
    then show ?thesis using 1 True by (cases "n = j") auto
  next
    case False
    then have "fill_end a b j = j" by (subst fill_end.simps) auto
    then show ?thesis using 1 by simp
  qed
qed

section \<open>What a wired member answers\<close>

lemma wired_facts:
  assumes "wired_ring P ms r W" "W p = Some s"
  shows "p \<in> set ms" "wired ms r p s" "platform_ok P" "ring_ok ms" "valid_peer P p" "1 \<le> r" "r \<le> MAX_SUCCESSORS"
    "nd_succs s = (if others ms p = [] then [p] else take r (others ms p))" "hd (nd_succs s) = hd (others ms p @ [p])"
    "nd_fingers s ! 0 = hd (nd_succs s)" "length (nd_fingers s) = ID_BITS"
proof -
  show pm: "p \<in> set ms" using assms by (auto simp: wired_ring_def)
  show w: "wired ms r p s" and ring: "ring_ok ms" and r: "1 \<le> r" and "platform_ok P" "r \<le> MAX_SUCCESSORS" "valid_peer P p"
    using assms pm by (auto simp: wired_ring_def good_ring_def)
  have ne: "take r (others ms p) = [] \<longleftrightarrow> others ms p = []" using r by auto
  show succs: "nd_succs s = (if others ms p = [] then [p] else take r (others ms p))"
    using w wired_successors_others [OF ring pm, of r] ne by (auto simp: wired_def Let_def)
  show hd: "hd (nd_succs s) = hd (others ms p @ [p])"
    unfolding succs using r by (cases "others ms p"; cases r) auto
  obtain fs where fs: "build_fingers (peer_id p) ms = Some fs" "length fs = ID_BITS"
    "\<And>i. i < ID_BITS \<Longrightarrow> successor_of (finger_start (peer_id p) i) ms = Some (fs ! i)"
    using build_fingers_some [OF ring] by metis
  have f: "nd_fingers s = fs" using w fs(1) by (simp add: wired_def)
  then show "length (nd_fingers s) = ID_BITS" using fs(2) by simp
  show "nd_fingers s ! 0 = hd (nd_succs s)"
    using fs(3) [of 0] first_finger [OF ring pm] hd f by (simp add: finger_start_zero ID_BITS_def)
qed

lemma handle_find: 
  assumes "\<not> nd_orphaned s"
  shows "handle_request P t (find_successor_request k) (w, s) =
    ((reply_line (route_step (nd_self s) (hd (nd_succs s)) (nd_fingers s) k), None), (w, s))"
proof -
  have "words_of (find_successor_request k) = [''FIND_SUCCESSOR'', id_to_hex k]"
    using words_of_append [of "''FIND_SUCCESSOR''" "id_to_hex k"] words_of_word [OF id_to_hex_word]
    by (simp add: find_successor_request_def is_space_def)
  then show ?thesis using assms by (simp add: handle_request_def handle_find_successor_def Let_def)
qed

lemma handle_neighbours:
  "\<not> nd_orphaned s \<Longrightarrow> handle_request P t ''NEIGHBOURS'' (w, s) = ((render_neighbours (neighbours_of s), None), (w, s))"
  using words_of_word [of "''NEIGHBOURS''"] by (simp add: handle_request_def Let_def is_space_def)

lemma handle_ping:
  "\<not> nd_orphaned s \<Longrightarrow> handle_request P t ''PING'' (w, s) = ((''PONG '' @ id_to_hex (peer_id (nd_self s)), None), (w, s))"
  using words_of_word [of "''PING''"] by (simp add: handle_request_def Let_def is_space_def)

lemma valid_ip_word: "platform_ok P \<Longrightarrow> valid_ip P ip \<Longrightarrow> list_all (\<lambda>c. \<not> is_space c) ip"
proof -
  assume "platform_ok P" "valid_ip P ip"
  then have "is_digit c \<or> c = CHR ''.''" if "c \<in> set ip" for c using valid_ip_chars that by blast
  moreover have "\<not> is_space CHR ''.''" by (simp add: is_space_def)
  ultimately show ?thesis using digit_not_space by (metis list_all_iff)
qed

lemma handle_notify_known:
  assumes "platform_ok P" "valid_peer P c" "\<not> nd_orphaned s" "nd_has_pred s" "nd_pred s = c" "c \<noteq> nd_self s"
    "peer_id c \<noteq> peer_id (nd_self s)"
  shows "handle_request P t (''NOTIFY '' @ peer_words c) (w, s) = ((''OK'', None), (w, s))"
proof -
  have ip: "list_all (\<lambda>c. \<not> is_space c) (peer_ip c)" "peer_ip c \<noteq> []"
    using assms(1,2) by (auto simp: valid_peer_def valid_ip_word valid_ip_nonempty)
  have "words_of (''NOTIFY '' @ peer_words c) = ''NOTIFY'' # words_of (peer_words c)"
    using words_of_append [of "''NOTIFY''" "peer_words c"] by (simp add: is_space_def)
  also have "words_of (peer_words c) = peer_word_list c"
    using ip id_to_hex_word words_of_word [OF to_string_nonempty(1) to_string_word]
    by (simp add: peer_words_def words_of_append peer_word_list_def)
  finally show ?thesis
    using assms parse_peer_words_of [OF assms(2)]
    by (simp add: handle_request_def Let_def peer_word_list_def handle_notify_def in_range_oo_gap)
qed

text \<open>A member asked through the ring's transport, when answering changes nothing.\<close>

lemma ring_net_reply:
  assumes "(W(nd_self s \<mapsto> s)) q = Some n" "handle_request P quiet req ((), n) = ((reply, a), ((), n))"
  shows "ring_net P ms (W, s) q req = ((Ok, reply), (W, s))"
proof (cases "q = nd_self s")
  case True
  then show ?thesis using assms by (simp add: ring_net_def)
next
  case False
  then have "W q = Some n" using assms(1) by simp
  then have "W(q \<mapsto> n) = W" by auto
  with False \<open>W q = Some n\<close> assms(2) show ?thesis by (simp add: ring_net_def)
qed

definition around :: "platform \<Rightarrow> Peer list \<Rightarrow> nat \<Rightarrow> ring_world node_world \<Rightarrow> bool" where
  "around P ms r ws \<longleftrightarrow> (case ws of (W, s) \<Rightarrow> wired_ring P ms r (W(nd_self s \<mapsto> s)))"

lemma around_member:
  assumes "around P ms r (W, s)" "q \<in> set ms"
  obtains n where "(W(nd_self s \<mapsto> s)) q = Some n" "wired ms r q n" "\<not> nd_orphaned n" "nd_self n = q"
proof -
  have "wired_ring P ms r (W(nd_self s \<mapsto> s))" using assms(1) by (simp add: around_def)
  then have "q \<in> dom (W(nd_self s \<mapsto> s))" and w: "\<And>p n. (W(nd_self s \<mapsto> s)) p = Some n \<Longrightarrow> wired ms r p n"
    using assms(2) by (simp_all add: wired_ring_def del: fun_upd_apply)
  then obtain n where "(W(nd_self s \<mapsto> s)) q = Some n" by blast
  then show thesis using w that by (auto simp: wired_def simp del: fun_upd_apply)
qed

interpretation members: ring_router ring_net "\<lambda>P ms ws. \<exists>r. around P ms r ws"
proof
  fix P ms w assume "\<exists>r. around P ms r w"
  then show "good_ring P ms" by (cases w) (auto simp: around_def wired_ring_def)
next
  fix P ms and ws :: "ring_world node_world" and q fs k
  assume "\<exists>r. around P ms r ws" "q \<in> set ms" and fs: "build_fingers (peer_id q) ms = Some fs"
  then obtain r W s where ws: "ws = (W, s)" and a: "around P ms r (W, s)" by (cases ws) auto
  obtain n where n: "(W(nd_self s \<mapsto> s)) q = Some n" "wired ms r q n" "\<not> nd_orphaned n" "nd_self n = q"
    using around_member [OF a \<open>q \<in> set ms\<close>] by blast
  have "wired_ring P ms r (W(nd_self s \<mapsto> s))" using a by (simp add: around_def)
  note f = wired_facts [OF this n(1)]
  have "nd_fingers n = fs" using n(2) fs by (simp add: wired_def)
  then have "handle_request P quiet (find_successor_request k) ((), n) =
      ((reply_line (route_step q (fs ! 0) fs k), None), ((), n))"
    using handle_find [OF n(3), of P quiet k "()"] f(10) n(4) by simp
  from ring_net_reply [OF n(1) this] show "ring_net P ms ws q (find_successor_request k) = ((Ok, reply_line (route_step q (fs ! 0) fs k)), ws)"
    by (simp add: ws)
qed

section \<open>Maintenance of a correct ring\<close>

text \<open>What \<^const>\<open>wired\<close> does not look at.\<close>

lemma wired_update:
  "nd_self s' = nd_self s \<Longrightarrow> nd_r s' = nd_r s \<Longrightarrow> nd_orphaned s' = nd_orphaned s \<Longrightarrow> nd_fingers s' = nd_fingers s \<Longrightarrow>
   nd_succs s' = nd_succs s \<Longrightarrow> nd_has_pred s' = nd_has_pred s \<Longrightarrow> nd_pred s' = nd_pred s \<Longrightarrow>
   1 \<le> nd_next_finger s' \<Longrightarrow> nd_next_finger s' < ID_BITS \<Longrightarrow> wired ms r p s \<Longrightarrow> wired ms r p s'"
  by (simp add: wired_def)

lemma around_update:
  assumes "around P ms r (W, s)" "nd_self s' = nd_self s" "\<And>p. wired ms r p s \<Longrightarrow> wired ms r p s'"
  shows "around P ms r (W, s')"
  using assms by (auto simp: around_def wired_ring_def split: if_splits)

lemma around_clear: "around P ms r (W, s) \<Longrightarrow> around P ms r (W, clear_strikes q s)"
  by (rule around_update) (auto simp: clear_strikes_def wired_def)

lemma ring_call:
  assumes a: "around P ms r (W, s)" and n: "(W(nd_self s \<mapsto> s)) q = Some n"
    and h: "handle_request P quiet req ((), n) = ((reply, x), ((), n))" and good: "\<not> starts_with ''ERR'' reply" "valid reply"
  shows "call_peer (ring_net P ms) q req valid (W, s) = ((CGood, reply), (W, clear_strikes q s))"
  using ring_net_reply [OF n h] good by (simp add: call_peer_def report_call_def)

lemma not_err [simp]: "\<not> starts_with ''ERR'' (''PONG '' @ x)" "\<not> starts_with ''ERR'' ''OK''"
  by (simp_all add: starts_with_def)

lemma ring_ping:
  assumes a: "around P ms r (W, s)" and q: "q \<in> set ms"
  shows "\<exists>reply. call_peer (ring_net P ms) q ''PING'' is_pong (W, s) = ((CGood, reply), (W, clear_strikes q s))"
proof -
  obtain n where n: "(W(nd_self s \<mapsto> s)) q = Some n" "\<not> nd_orphaned n" using around_member [OF a q] by metis
  from ring_call [OF a n(1) handle_ping [OF n(2)]] show ?thesis by (auto simp: is_pong_def starts_with_def)
qed

lemma wired_pred:
  assumes "wired_ring P ms r W" "W p = Some s" "nd_has_pred s"
  shows "others ms p \<noteq> []" "nd_pred s = last (others ms p)" "nd_pred s \<in> set ms" "valid_peer P (nd_pred s)"
proof -
  note f = wired_facts [OF assms(1,2)]
  have "predecessor_of (peer_id p) ms = Some (nd_pred s)" "length ms > 1" using f(2) assms(3) by (auto simp: wired_def)
  with predecessor_others [OF f(4,1)] show l: "nd_pred s = last (others ms p)" by simp
  show ne: "others ms p \<noteq> []" using ring_length_others [OF f(1)] \<open>length ms > 1\<close> by auto
  show m: "nd_pred s \<in> set ms" using l set_others [OF f(4,1)] last_in_set [OF ne] by auto
  with assms(1) show "valid_peer P (nd_pred s)" by (simp add: wired_ring_def good_ring_def)
qed

lemma check_predecessor_around:
  assumes "around P ms r (W, s)"
  shows "\<exists>s'. check_predecessor (ring_net P ms) (W, s) = (W, s') \<and> around P ms r (W, s')"
proof (cases "nd_has_pred s \<and> nd_pred s \<noteq> nd_self s")
  case False
  then show ?thesis using assms by (auto simp: check_predecessor_def Let_def)
next
  case True
  have "wired_ring P ms r (W(nd_self s \<mapsto> s))" using assms by (simp add: around_def)
  from wired_pred(3) [OF this, of "nd_self s" s] True have "nd_pred s \<in> set ms" by simp
  from ring_ping [OF assms this] True around_clear [OF assms] show ?thesis
    by (auto simp: check_predecessor_def Let_def)
qed

lemma wired_fit:
  assumes "wired_ring P ms r W" "W p = Some s"
  shows "neighbours_fit P (neighbours_of s)"
proof -
  note f = wired_facts [OF assms]
  have valid: "\<forall>m\<in>set ms. valid_peer P m" using assms(1) by (simp add: wired_ring_def good_ring_def)
  have sub: "set (nd_succs s) \<subseteq> set ms" using f(8) set_others [OF f(4,1)] f(1) by (auto dest: in_set_takeD)
  have "length (nd_succs s) \<le> max r 1" unfolding f(8) by auto
  moreover have "1 \<le> length (nd_succs s)" unfolding f(8) using f(6) by (cases "others ms p"; cases r) auto
  ultimately show ?thesis
    using f(7) valid sub wired_pred(4) [OF assms] f(6) by (auto simp: neighbours_fit_def neighbours_of_def MAX_SUCCESSORS_def)
qed

lemma wired_merge:
  assumes "wired_ring P ms r W" "W p = Some s" "W (hd (nd_succs s)) = Some n"
  shows "merge_successors p (hd (nd_succs s)) (nd_succs n) r = nd_succs s"
proof -
  note f = wired_facts [OF assms(1,2)] and g = wired_facts [OF assms(1,3)]
  show ?thesis
  proof (cases "others ms p")
    case Nil
    then have "nd_succs s = [p]" using f(8) by simp
    moreover with assms(2,3) have "n = s" by simp
    ultimately show ?thesis by (simp add: merge_successors_def)
  next
    case (Cons q L)
    then have q: "hd (nd_succs s) = q" using f(9) by simp
    with Cons others_next [OF f(4,1)] g(8) have n: "nd_succs n = take r (L @ [p])" by simp
    have "distinct (q # L)" "p \<notin> set (q # L)" "set (q # L) \<subseteq> set ms"
      using set_others [OF f(4,1)] Cons by auto
    moreover then have "\<forall>x\<in>set L. peer_id x \<noteq> peer_id p"
      using ring_ok_inj [OF f(4)] f(1) by fastforce
    ultimately have "merge_loop p r [q] (take r (L @ [p])) = take r ([q] @ L)"
      using f(6) by (intro merge_loop_take) auto
    then show ?thesis using Cons f(8) q n by (simp add: merge_successors_def)
  qed
qed

lemma wired_no_candidate:
  assumes "wired_ring P ms r W" "W p = Some s" "W (hd (nd_succs s)) = Some n" "nd_self s' = p"
  shows "closer_candidate (hd (nd_succs s)) (sent (neighbours_of n)) s' = (None, [])"
proof -
  note f = wired_facts [OF assms(1,2)] and g = wired_facts [OF assms(1,3)]
  have "nd_pred n = p" if "nd_has_pred n"
  proof -
    note np = wired_pred [OF assms(1,3) that]
    have "others ms p \<noteq> []" using np(1) ring_length_others [OF f(1)] ring_length_others [OF g(1)] by auto
    then obtain q L where "others ms p = q # L" by (cases "others ms p") auto
    with f(9) others_next [OF f(4,1)] have "others ms (hd (nd_succs s)) = L @ [p]" by simp
    with np(2) show ?thesis by simp
  qed
  then show ?thesis by (auto simp: closer_candidate_def sent_def neighbours_of_def assms(4))
qed

lemma around_take:
  assumes "around P ms r (W, s)" "merge_successors (nd_self s) succ (nb_succs nb) (nd_r s) = nd_succs s"
    "nd_fingers s ! 0 = hd (nd_succs s)" "nd_fingers s \<noteq> []"
  shows "around P ms r (W, emit es (take_neighbours succ nb s))"
proof -
  have "(nd_fingers s)[0 := hd (nd_succs s)] = nd_fingers s" using assms(3,4) by (metis list_update_id)
  then have k: "take_neighbours succ nb s = remember_all (rev (nd_succs s)) s"
    by (simp add: take_neighbours_def assms(2))
  have nf: "nd_next_finger (remember_all ps s) = nd_next_finger s" for ps
    unfolding remember_all_def by (induction ps arbitrary: s) simp_all
  show ?thesis unfolding k by (rule around_update [OF assms(1)]) (auto simp: emit_def wired_def nf)
qed

lemma notify_around:
  assumes "around P ms r (W, s)"
  shows "\<exists>s'. notify_successor (ring_net P ms) (W, s) = (W, s') \<and> around P ms r (W, s')"
proof (cases "hd (nd_succs s) = nd_self s")
  case True
  then show ?thesis using assms by (simp add: notify_successor_def Let_def)
next
  case False
  let ?p = "nd_self s" and ?q = "hd (nd_succs s)"
  have w: "wired_ring P ms r (W(?p \<mapsto> s))" using assms by (simp add: around_def)
  note f = wired_facts [OF w, of ?p s, simplified]
  have ne: "others ms ?p \<noteq> []" using f(9) False by auto
  then obtain L where L: "others ms ?p = ?q # L" using f(9) by (cases "others ms ?p") auto
  note nx = others_next [OF f(4,1) L]
  obtain n where n: "(W(?p \<mapsto> s)) ?q = Some n" "wired ms r ?q n" "\<not> nd_orphaned n" "nd_self n = ?q"
    using around_member [OF assms conjunct1 [OF nx]] by blast
  have "length ms > 1" using ring_length_others [OF f(1)] L by simp
  then have hp: "nd_has_pred n" using n(2) by (simp add: wired_def)
  then have pr: "nd_pred n = ?p" using wired_pred(2) [OF w n(1)] nx by simp
  have "peer_id ?p \<noteq> peer_id ?q" using ring_ok_inj [OF f(4) f(1)] nx False by metis
  then have "handle_request P quiet (''NOTIFY '' @ peer_words ?p) ((), n) = ((''OK'', None), ((), n))"
    using False n(4) by (intro handle_notify_known [OF f(3,5) n(3) hp pr]) auto
  from ring_call [OF assms n(1) this, of is_ok] False around_clear [OF assms]
  show ?thesis by (simp add: notify_successor_def Let_def is_ok_def)
qed

lemma stabilize_around:
  assumes "around P ms r (W, s)"
  shows "\<exists>s'. stabilize P (ring_net P ms) (W, s) = (W, s') \<and> around P ms r (W, s')"
proof -
  let ?p = "nd_self s" and ?t = "ring_net P ms" and ?q = "hd (nd_succs s)" and ?s1 = "clear_strikes (hd (nd_succs s)) s"
  have w: "wired_ring P ms r (W(?p \<mapsto> s))" using assms by (simp add: around_def)
  have sp: "(W(?p \<mapsto> s)) ?p = Some s" by simp
  note f = wired_facts [OF w sp]
  have "?q \<in> set ms" using f(1,9) set_others [OF f(4,1)] by (cases "others ms ?p") auto
  then obtain n where n: "(W(?p \<mapsto> s)) ?q = Some n" "\<not> nd_orphaned n" using around_member [OF assms] by metis
  define nb where "nb = sent (neighbours_of n)"
  have pn: "parse_neighbours P (render_neighbours (neighbours_of n)) = Some nb"
    unfolding nb_def by (rule neighbours_wire [OF f(3) wired_fit [OF w n(1)]])
  have call: "call_peer ?t ?q ''NEIGHBOURS'' (\<lambda>line. parse_neighbours P line \<noteq> None) (W, s) =
      ((CGood, render_neighbours (neighbours_of n)), (W, ?s1))"
    by (rule ring_call [OF assms n(1) handle_neighbours [OF n(2)] render_not_err]) (simp add: pn)
  have cs: "nd_self ?s1 = ?p" "nd_r ?s1 = r" "nd_succs ?s1 = nd_succs s" "nd_fingers ?s1 = nd_fingers s"
    using f(2) by (simp_all add: clear_strikes_def wired_def)
  have cc: "closer_candidate ?q nb ?s1 = (None, [])"
    unfolding nb_def by (rule wired_no_candidate [OF w sp n(1) cs(1)])
  have "nb_succs nb = nd_succs n" by (simp add: nb_def sent_def neighbours_of_def)
  then have a: "around P ms r (W, emit [] (take_neighbours ?q nb ?s1))"
    using wired_merge [OF w sp n(1)] f(10,11) by (intro around_take around_clear assms) (auto simp: cs ID_BITS_def)
  have "stabilize_pass P ?t (W, s) = (False, notify_successor ?t (W, emit [] (take_neighbours ?q nb ?s1)))"
    by (simp add: stabilize_pass_def call cs pn cc verify_candidate_def Let_def del: not_None_eq)
  then have "stabilize P ?t (W, s) = notify_successor ?t (W, emit [] (take_neighbours ?q nb ?s1))"
    by (simp add: stabilize_def)
  with notify_around [OF a] show ?thesis by simp
qed

lemma fill_fingers_same:
  assumes "\<And>m. i \<le> m \<Longrightarrow> m < j \<Longrightarrow> m < length fs \<Longrightarrow> fs ! m = found"
  shows "fill_fingers i j found fs = fs"
  using assms by (intro nth_equalityI) (auto simp: fill_fingers_def)

lemma fix_next_finger_around:
  assumes "around P ms r (W, s)"
  shows "\<exists>s'. fix_next_finger P (ring_net P ms) (W, s) = (W, s') \<and> around P ms r (W, s')"
proof -
  let ?p = "nd_self s" and ?t = "ring_net P ms" and ?i = "nd_next_finger s" and ?a = "peer_id (nd_self s)"
  have w: "wired_ring P ms r (W(?p \<mapsto> s))" using assms by (simp add: around_def)
  have sp: "(W(?p \<mapsto> s)) ?p = Some s" by simp
  note f = wired_facts [OF w sp]
  have i: "1 \<le> ?i" "?i < ID_BITS" using f(2) by (simp_all add: wired_def)
  have "\<exists>r. around P ms r (W, s)" using assms by blast
  from members.lookup_finds_owner [OF this f(1), of "finger_start ?a ?i"]
  obtain res where res: "lookup P ?t ?p (finger_start ?a ?i) (W, s) = (res, (W, s))" "lr_ok res"
    "successor_of (finger_start ?a ?i) ms = Some (lr_owner res)" by blast
  define found where "found = lr_owner res"
  define j where "j = (let j = fill_end ?a (peer_id found) ?i in if j = ?i then ?i + 1 else j)"
  have fm: "found \<in> set ms" using res(3) successor_of_max [OF f(4), of "finger_start ?a ?i"] by (auto simp: found_def)
  have own: "peer_id found = ?a \<longrightarrow> found = ?p" using ring_ok_inj [OF f(4) fm f(1)] by blast
  have tab: "successor_of (finger_start ?a m) ms = Some (nd_fingers s ! m)" if "m < ID_BITS" for m
    using f(2) build_fingers_some [OF f(4), of ?a] that by (metis option.inject wired_def)
  have "nd_fingers s ! m = found" if "?i \<le> m" "m < j" "m < length (nd_fingers s)" for m
  proof (cases "m = ?i")
    case True
    then show ?thesis using tab [OF i(2)] res(3) by (simp add: found_def)
  next
    case False
    then have "m < fill_end ?a (peer_id found) ?i" using that by (auto simp: j_def Let_def split: if_splits)
    from fill_end_within [OF that(1) this] have m: "m < ID_BITS" "in_range_oc (finger_start ?a m) ?a (peer_id found)" by auto
    from fill_same_owner [OF f(4) that(1) m(1) res(3) [folded found_def] m(2)] tab [OF m(1)] show ?thesis by simp
  qed
  then have "fill_fingers ?i j found (nd_fingers s) = nd_fingers s" by (rule fill_fingers_same)
  moreover have "(nd_fingers s)[0 := hd (nd_succs s)] = nd_fingers s" using f(10) by (metis list_update_id)
  ultimately have "apply_finger ?i res s = remember found (s\<lparr>nd_fingers := nd_fingers s, nd_next_finger := (if j \<ge> ID_BITS then 1 else j)\<rparr>)"
    using res(2) own unfolding apply_finger_def Let_def found_def [symmetric] j_def [unfolded Let_def, symmetric] by auto
  moreover have "?i < j" using fill_end_ge [of ?i ?a "peer_id found"] by (auto simp: j_def Let_def)
  ultimately have "around P ms r (W, apply_finger ?i res s)"
    using i by (intro around_update [OF assms]) (auto simp: wired_def ID_BITS_def)
  then show ?thesis by (simp add: fix_next_finger_def res(1) Let_def)
qed


lemma ring_round_wired:
  assumes "wired_ring P ms r W"
  shows "wired_ring P ms r (ring_round P ms p W)"
proof (cases "W p")
  case None
  then show ?thesis using assms by (simp add: ring_round_def)
next
  case (Some s)
  let ?W = "W(p := None)" and ?t = "ring_net P ms"
  have w: "wired ms r p s" and self: "nd_self s = p" "\<not> nd_orphaned s" using assms Some by (auto simp: wired_ring_def wired_def)
  have "?W(p \<mapsto> s) = W" using Some by auto
  then have "around P ms r (?W, s)" using assms self(1) by (simp add: around_def)
  moreover define s1 where "s1 = s\<lparr>nd_counters := (nd_counters s)\<lparr>ct_rounds := Suc (ct_rounds (nd_counters s))\<rparr>\<rparr>"
  ultimately have "around P ms r (?W, s1)" by (elim around_update) (auto simp: s1_def wired_def)
  from stabilize_around [OF this] obtain s2 where s2: "stabilize P ?t (?W, s1) = (?W, s2)" "around P ms r (?W, s2)" by blast
  from check_predecessor_around [OF s2(2)] obtain s3 where s3: "check_predecessor ?t (?W, s2) = (?W, s3)" "around P ms r (?W, s3)" by blast
  from fix_next_finger_around [OF s3(2)] obtain s4 where s4: "fix_next_finger P ?t (?W, s3) = (?W, s4)" "around P ms r (?W, s4)" by blast
  have "maintenance_round P ?t (?W, s) = (?W, s4)"
    using self(2) s2(1) s3(1) s4(1) by (simp add: maintenance_round_def Let_def s1_def [symmetric])
  moreover have "nd_self s4 = p"
  proof -
    have "wired_ring P ms r (?W(nd_self s4 \<mapsto> s4))" using s4(2) by (simp add: around_def)
    then have "dom (?W(nd_self s4 \<mapsto> s4)) = dom W" using assms by (simp add: wired_ring_def)
    then have "p \<in> dom (?W(nd_self s4 \<mapsto> s4))" using Some by auto
    then show ?thesis by (auto split: if_splits)
  qed
  ultimately show ?thesis using s4(2) Some by (simp add: ring_round_def around_def)
qed

text \<open>
  C8. A correct ring is a fixed point of maintenance: when every member's tables are those of the
  membership list, any sequence of maintenance rounds, run by any members in any order, leaves
  every member's successor list, predecessor and fingers as they were, evicts nobody and
  orphans nobody.
\<close>

theorem correct_ring_stays_correct:
  assumes "wired_ring P ms r W"
  shows "wired_ring P ms r (fold (ring_round P ms) ps W)"
  using assms by (induction ps arbitrary: W) (simp_all add: ring_round_wired)

lemma wired_start:
  assumes "good_ring P ms" "1 \<le> r" "r \<le> MAX_SUCCESSORS"
  shows "wired_ring P ms r (\<lambda>p. if p \<in> set ms then init_wired ms (node_init p r) else None)"
proof -
  have ring: "ring_ok ms" using assms(1) by (simp add: good_ring_def)
  have "\<exists>s. init_wired ms (node_init p r) = Some s \<and> wired ms r p s" if p: "p \<in> set ms" for p
  proof -
    obtain xs ys where s: "ms = xs @ p # ys" "\<And>q. q \<in> set xs \<Longrightarrow> peer_id q < peer_id p" "\<And>q. q \<in> set ys \<Longrightarrow> peer_id p < peer_id q"
      using ring_split [OF ring p] by metis
    then have o: "others ms p = ys @ xs" using others_split by blast
    obtain fs where fs: "build_fingers (peer_id p) ms = Some fs" "length fs = ID_BITS"
      "\<And>i. i < ID_BITS \<Longrightarrow> successor_of (finger_start (peer_id p) i) ms = Some (fs ! i)"
      using build_fingers_some [OF ring] by metis
    obtain st where st: "init_wired ms (node_init p r) = Some st" "nd_self st = p" "nd_r st = r"
      "nd_succs st = (let L = take r (ys @ xs) in if L = [] then [p] else L)" "nd_fingers st = fs[0 := hd (nd_succs st)]"
      "nd_has_pred st = (length ms > 1)" "nd_has_pred st \<longrightarrow> nd_pred st = last (ys @ xs)" "\<not> nd_orphaned st" "node_inv st"
      using init_wired_eq [OF ring s fs(1), of r] by blast
    have succs: "nd_succs st = wired_successors p r ms" unfolding st(4) wired_successors_others [OF ring p] o ..
    have "hd (nd_succs st) = hd (others ms p @ [p])"
      unfolding st(4) o [symmetric] Let_def using assms(2) by (cases "others ms p"; cases r) auto
    then have "fs ! 0 = hd (nd_succs st)" using fs(3) [of 0] first_finger [OF ring p] by (simp add: finger_start_zero ID_BITS_def)
    then have "nd_fingers st = fs" using st(5) by (metis list_update_id)
    moreover have "predecessor_of (peer_id p) ms = Some (nd_pred st)" if "nd_has_pred st"
      using that st(6,7) predecessor_others [OF ring p] o by simp
    moreover have "1 \<le> nd_next_finger st \<and> nd_next_finger st < ID_BITS" using st(9) by (simp add: node_inv_def)
    ultimately show ?thesis using st(1,2,3,6,8) succs fs(1) by (auto simp: wired_def)
  qed
  then have "\<forall>p\<in>set ms. \<exists>s. init_wired ms (node_init p r) = Some s \<and> wired ms r p s" by blast
  then show ?thesis using assms by (force simp: wired_ring_def split: if_splits)
qed

definition sample_ring :: "Peer list" where
  "sample_ring = [sample_peer 3 9001, sample_peer 9 9002]"

definition sample_world :: ring_world where
  "sample_world = (\<lambda>p. if p \<in> set sample_ring then init_wired sample_ring (node_init p 8) else None)"

lemma sample_world_wired: "wired_ring sample_platform sample_ring 8 sample_world"
  unfolding sample_world_def
proof (rule wired_start)
  show "good_ring sample_platform sample_ring"
    by (simp add: sample_ring_def good_ring_def sample_platform_ok ring_ok_def valid_peer_def sample_peer_def valid_loopback)
qed (simp_all add: MAX_SUCCESSORS_def)

theorem correct_ring_stays_correct_witness:
  "wired_ring sample_platform sample_ring 8
     (fold (ring_round sample_platform sample_ring) [sample_peer 9 9002, sample_peer 3 9001] sample_world)"
  by (rule correct_ring_stays_correct [OF sample_world_wired])

text \<open>
  The members themselves route correctly: on a ring whose members are wired from the
  membership list, a lookup sent to any member, for any key, ends at the key's owner within
  \<^verbatim>\<open>MAX_REQUESTS\<close> requests and changes no member.
\<close>

theorem members_route_correctly:
  assumes "wired_ring P ms r (W(nd_self s \<mapsto> s))" "start \<in> set ms"
  shows "\<exists>res. lookup P (ring_net P ms) start k (W, s) = (res, (W, s)) \<and> lr_ok res \<and>
    successor_of k ms = Some (lr_owner res) \<and> requests res \<le> MAX_REQUESTS"
  by (rule members.lookup_finds_owner) (use assms in \<open>auto simp: around_def\<close>)

theorem members_route_correctly_witness:
  "\<exists>s res. sample_world (sample_peer 3 9001) = Some s \<and>
     lookup sample_platform (ring_net sample_platform sample_ring) (sample_peer 9 9002) 7 (sample_world, s) =
       (res, (sample_world, s)) \<and> lr_owner res = sample_peer 9 9002"
proof -
  have dom: "dom sample_world = set sample_ring" and wired: "\<And>p s. sample_world p = Some s \<Longrightarrow> wired sample_ring 8 p s"
    using sample_world_wired unfolding wired_ring_def by blast+
  have m: "sample_peer 3 9001 \<in> set sample_ring" "sample_peer 9 9002 \<in> set sample_ring" by (simp_all add: sample_ring_def)
  then obtain s where s: "sample_world (sample_peer 3 9001) = Some s" using dom by blast
  have "nd_self s = sample_peer 3 9001" using wired [OF s] by (simp only: wired_def)
  then have "sample_world(nd_self s \<mapsto> s) = sample_world" using fun_upd_idem [of sample_world, OF s] by (simp only:)
  then have "wired_ring sample_platform sample_ring 8 (sample_world(nd_self s \<mapsto> s))" using sample_world_wired by (simp only:)
  from members_route_correctly [OF this m(2), of 7] obtain res where
    res: "lookup sample_platform (ring_net sample_platform sample_ring) (sample_peer 9 9002) 7 (sample_world, s) = (res, (sample_world, s))"
    "successor_of 7 sample_ring = Some (lr_owner res)" by blast
  have "successor_of 7 sample_ring = Some (sample_peer 9 9002)" by (simp add: sample_ring_def successor_of_def sample_peer_def)
  with res s show ?thesis by auto
qed

text \<open>
  A node's NEIGHBOURS reply arrives as it was sent: parsing the rendered line gives back the
  predecessor, if there is one, and the whole successor list in order.
\<close>

theorem neighbours_roundtrip:
  assumes "platform_ok P" "neighbours_fit P n"
  shows "parse_neighbours P (render_neighbours n) = Some (sent n)"
  by (rule neighbours_wire [OF assms])

theorem neighbours_roundtrip_witness:
  "parse_neighbours sample_platform (render_neighbours \<lparr>nb_has_pred = False, nb_pred = sample_peer 1 2, nb_succs = [sample_peer 3 9001, sample_peer 9 9002]\<rparr>) =
   Some \<lparr>nb_has_pred = False, nb_pred = empty_peer, nb_succs = [sample_peer 3 9001, sample_peer 9 9002]\<rparr>"
proof -
  let ?n = "\<lparr>nb_has_pred = False, nb_pred = sample_peer 1 2, nb_succs = [sample_peer 3 9001, sample_peer 9 9002]\<rparr>"
  have "neighbours_fit sample_platform ?n"
    by (simp add: neighbours_fit_def MAX_SUCCESSORS_def valid_peer_def sample_peer_def valid_loopback)
  from neighbours_roundtrip [OF sample_platform_ok this] show ?thesis by (simp add: sent_def)
qed

end
