(* ===== verification/Chunk.thy ===== *)
theory Chunk
  imports Stabilize_Ring Store
begin

text \<open>
  \<^verbatim>\<open>src/chunk.h\<close> and \<^verbatim>\<open>src/chunk.cpp\<close>: storing, replicating and reading chunks. A process is a record
  with its store, a snapshot of its ring members and its counters. What the file system, the
  clock and the thread scheduler do is an argument: the order in which the copies of a write
  finish, and how many have finished when the waiting coordinator looks. The latency histogram
  and the times in the log line are left out.
\<close>

section \<open>Processes and frames\<close>

definition RF :: nat where "RF = 3"
definition DEFAULT_W :: nat where "DEFAULT_W = 2"
definition MAX_BODIES :: nat where "MAX_BODIES = 32"
definition MAX_HAVE_KEYS :: nat where "MAX_HAVE_KEYS = 20"
definition DEFAULT_GC_GRACE_S :: int where "DEFAULT_GC_GRACE_S = 7200"

record Frame =
  fr_line :: string
  fr_body :: string

type_synonym 'w frame_transport = "'w \<Rightarrow> Peer \<Rightarrow> string \<Rightarrow> string \<Rightarrow> (Delivery \<times> Frame) \<times> 'w"

record ChunkNode =
  cn_store :: "ChunkStore option"
  cn_members :: "NodeState list"
  cn_bodies :: nat
  cn_copies_short :: nat
  cn_gc_key :: string
  cn_gc_grace :: int
  cn_dropped_chunks :: nat
  cn_dropped_bytes :: nat
  cn_kept_young :: nat
  cn_log :: "string list"

text \<open>The copies of one write: how many are confirmed and failed, and the failures in words.\<close>

record Tally =
  ta_confirmed :: nat
  ta_failed :: nat
  ta_failures :: string

text \<open>What is left to do after a PUT has been answered: the copies still running.\<close>

record PutAfter =
  pa_tally :: Tally
  pa_running :: "Peer list"
  pa_key :: string
  pa_body :: string
  pa_total :: nat

record ChunkHandled =
  ch_reply :: string
  ch_body :: string
  ch_after :: "PutAfter option"
  ch_hold :: bool

definition chunk_reply :: "string \<Rightarrow> ChunkHandled" where
  "chunk_reply line = \<lparr>ch_reply = line, ch_body = [], ch_after = None, ch_hold = False\<rparr>"

section \<open>Body slots\<close>

text \<open>
  \<^verbatim>\<open>hold_body\<close> in its indivisible steps: the increment that returns the old value, the decrement
  of a thread that found every slot taken, and the decrement of a holder's destructor.
\<close>

definition slot_claim :: "ChunkNode \<Rightarrow> bool \<times> ChunkNode" where
  "slot_claim n = (cn_bodies n < MAX_BODIES, n\<lparr>cn_bodies := cn_bodies n + 1\<rparr>)"

definition slot_release :: "ChunkNode \<Rightarrow> ChunkNode" where
  "slot_release n = n\<lparr>cn_bodies := cn_bodies n - 1\<rparr>"

definition hold_body :: "ChunkNode \<Rightarrow> bool \<times> ChunkNode" where
  "hold_body n = (case slot_claim n of (granted, n) \<Rightarrow> if granted then (True, n) else (False, slot_release n))"

section \<open>Replica sets\<close>

fun distinct_loop :: "nat \<Rightarrow> Peer list \<Rightarrow> Peer list \<Rightarrow> Peer list" where
  "distinct_loop rf out [] = out"
| "distinct_loop rf out (p # ps) =
     (if length out \<ge> rf then out
      else distinct_loop rf (if \<exists>q\<in>set out. same_process p q then out else out @ [p]) ps)"

definition distinct_processes :: "nat \<Rightarrow> Peer list \<Rightarrow> Peer list" where
  "distinct_processes rf from_owner = distinct_loop rf [] from_owner"

definition replica_set :: "nat \<Rightarrow> NodeState \<Rightarrow> Peer list" where
  "replica_set rf member = distinct_processes rf (nd_self member # nd_succs member)"

fun member_loop :: "Id \<Rightarrow> NodeState \<Rightarrow> NodeState list \<Rightarrow> NodeState" where
  "member_loop k best [] = best"
| "member_loop k best (m # ms) =
     member_loop k (if peer_id (nd_self m) - k < peer_id (nd_self best) - k then m else best) ms"

text \<open>\<open>None\<close>: \<^verbatim>\<open>members.front()\<close> of an empty list.\<close>

definition member_for :: "NodeState list \<Rightarrow> Id \<Rightarrow> NodeState option" where
  "member_for members k = (case members of [] \<Rightarrow> None | m # _ \<Rightarrow> Some (member_loop k m members))"

section \<open>Coordinating a write\<close>

definition parse_w :: "string \<Rightarrow> nat option" where
  "parse_w word = (if word = ''1'' then Some 1 else if word = ''2'' then Some 2 else if word = ''3'' then Some 3 else None)"

definition fail_copy :: "Peer \<Rightarrow> string \<Rightarrow> Tally \<Rightarrow> Tally" where
  "fail_copy to why t =
     t\<lparr>ta_failed := ta_failed t + 1,
       ta_failures := ta_failures t @ (if ta_failures t = [] then [] else ''; '') @ peer_address to @ '' '' @ why\<rparr>"

text \<open>
  One copy's thread, from its send to its entry in the tally; or no thread could be started.
\<close>

record Schedule =
  sc_order :: "Peer list"
  sc_seen :: nat
  sc_no_thread :: "Peer \<Rightarrow> bool"

definition copy_job ::
  "'w frame_transport \<Rightarrow> (Peer \<Rightarrow> bool) \<Rightarrow> string \<Rightarrow> string \<Rightarrow> Peer \<Rightarrow> Tally \<times> 'w \<Rightarrow> Tally \<times> 'w"
where
  "copy_job send no_thread store_line body to tw =
     (case tw of (tally, w) \<Rightarrow>
        if no_thread to then (fail_copy to ''no thread'' tally, w)
        else case send w to store_line body of
          ((d, ans), w) \<Rightarrow>
            (if d = Ok \<and> fr_line ans = ''OK'' then tally\<lparr>ta_confirmed := ta_confirmed tally + 1\<rparr>
             else fail_copy to (if d = Ok then fr_line ans else delivery_name d) tally, w))"

definition run_copies ::
  "'w frame_transport \<Rightarrow> (Peer \<Rightarrow> bool) \<Rightarrow> string \<Rightarrow> string \<Rightarrow> Peer list \<Rightarrow> Tally \<times> 'w \<Rightarrow> Tally \<times> 'w"
where
  "run_copies send no_thread store_line body order tw = fold (copy_job send no_thread store_line body) order tw"

definition store_line :: "string \<Rightarrow> string \<Rightarrow> string" where
  "store_line key body = ''STORE '' @ key @ '' '' @ to_string (length body)"

definition wait_over :: "nat \<Rightarrow> nat \<Rightarrow> Tally \<Rightarrow> bool" where
  "wait_over w n t \<longleftrightarrow>
     ta_confirmed t \<ge> w \<or> int (ta_confirmed t) + (int n - int (ta_confirmed t) - int (ta_failed t)) < int w"

definition put_reply :: "nat \<Rightarrow> Tally \<Rightarrow> string" where
  "put_reply w t =
     take MAX_LINE
       (if ta_confirmed t \<ge> w then ''OK '' @ to_string (ta_confirmed t)
        else ''ERR only '' @ to_string (ta_confirmed t) @ '' of '' @ to_string w @ '' copies stored: '' @ ta_failures t)"

definition first_tally :: "PutResult \<Rightarrow> Tally" where
  "first_tally local =
     (if local = Stored \<or> local = AlreadyHeld then \<lparr>ta_confirmed = 1, ta_failed = 0, ta_failures = []\<rparr>
      else \<lparr>ta_confirmed = 0, ta_failed = 1, ta_failures = ''local disk error''\<rparr>)"

text \<open>
  \<open>None\<close>: the arguments are not an execution: the order is not an order of this write's copies,
  or the coordinator is said to look before its wait is over; or the process has no members.
\<close>

definition coordinate ::
  "platform \<Rightarrow> 'w frame_transport \<Rightarrow> PutIo \<Rightarrow> int \<Rightarrow> Schedule \<Rightarrow> string \<Rightarrow> nat \<Rightarrow> string \<Rightarrow> ChunkStore \<Rightarrow>
   'w \<times> ChunkNode \<Rightarrow> (ChunkHandled \<times> 'w \<times> ChunkNode) option"
where
  "coordinate P send io now sched key w body store wn =
     (case wn of (world, n) \<Rightarrow>
      (case store_put P io now key body store of
         (local, store) \<Rightarrow>
           let n = n\<lparr>cn_store := Some store\<rparr> in
           if local \<in> {BadKey, TooLarge, HashMismatch} then Some (chunk_reply (''ERR '' @ put_result_name local), world, n)
           else case member_for (cn_members n) (case id_from_key key of None \<Rightarrow> 0 | Some k \<Rightarrow> k) of
             None \<Rightarrow> None
           | Some m \<Rightarrow>
               let copies = replica_set RF m;
                   n_copies = length copies;
                   (tally, world) = run_copies send (sc_no_thread sched) (store_line key body) body
                     (take (sc_seen sched) (sc_order sched)) (first_tally local, world)
               in if \<not> distinct (sc_order sched) \<or> set (sc_order sched) \<noteq> set (tl copies) \<or> \<not> wait_over w n_copies tally then None
                  else Some (\<lparr>ch_reply = put_reply w tally, ch_body = [],
                              ch_after = Some \<lparr>pa_tally = tally, pa_running = drop (sc_seen sched) (sc_order sched),
                                               pa_key = key, pa_body = body, pa_total = n_copies\<rparr>,
                              ch_hold = False\<rparr>, world, n)))"

definition coordinate_after ::
  "'w frame_transport \<Rightarrow> (Peer \<Rightarrow> bool) \<Rightarrow> PutAfter \<Rightarrow> 'w \<times> ChunkNode \<Rightarrow> 'w \<times> ChunkNode"
where
  "coordinate_after send no_thread a wn =
     (case run_copies send no_thread (store_line (pa_key a) (pa_body a)) (pa_body a) (pa_running a) (pa_tally a, fst wn) of
        (t, world) \<Rightarrow>
          let n = snd wn;
              n = (if ta_confirmed t < RF then n\<lparr>cn_copies_short := cn_copies_short n + 1\<rparr> else n)
          in (world, n\<lparr>cn_log := cn_log n @
                [''put '' @ pa_key a @ '': '' @ to_string (ta_confirmed t) @ '' of '' @ to_string (pa_total a) @ '' copies'' @
                 (if ta_failed t \<noteq> 0 then '', '' @ to_string (ta_failed t) @ '' failed'' else [])]\<rparr>))"

section \<open>Answering a chunk request\<close>

definition is_chunk_request :: "string \<Rightarrow> bool" where
  "is_chunk_request line \<longleftrightarrow>
     first_word line \<in> {''PUT'', ''STORE'', ''GET'', ''HAVE'', ''DIGEST'', ''KEYS'', ''DROP''}"

definition keys_digest :: "platform \<Rightarrow> string list \<Rightarrow> string" where
  "keys_digest P keys = to_string (length keys) @ '' '' @ chunk_key P (concat (map (\<lambda>k. k @ [CHR 0x0A]) keys))"

fun secret_diff :: "byte \<Rightarrow> string \<Rightarrow> string \<Rightarrow> byte" where
  "secret_diff diff (a # as) (b # bs) = secret_diff (or diff (xor (of_char a) (of_char b))) as bs"
| "secret_diff diff _ _ = diff"

definition same_secret :: "string \<Rightarrow> string \<Rightarrow> bool" where
  "same_secret a b \<longleftrightarrow> length a = length b \<and> secret_diff 0 a b = 0"

text \<open>What the system answers while one request is handled; the \<open>i\<close>-th key of a DROP reads the clock and unlinks its file.\<close>

record ChunkIo =
  ci_put :: PutIo
  ci_opens :: bool
  ci_reads :: bool
  ci_now :: "nat \<Rightarrow> int"
  ci_unlinks :: "nat \<Rightarrow> bool"

definition bad_key_reply :: string where
  "bad_key_reply = ''ERR key must be 40 lowercase hexadecimal characters''"

definition handle_store :: "platform \<Rightarrow> ChunkIo \<Rightarrow> string \<Rightarrow> string \<Rightarrow> ChunkStore \<Rightarrow> string \<times> ChunkStore" where
  "handle_store P io key body store =
     (case store_put P (ci_put io) (ci_now io 0) key body store of
        (r, store) \<Rightarrow> (if r = Stored \<or> r = AlreadyHeld then ''OK'' else ''ERR '' @ put_result_name r, store))"

definition handle_get :: "ChunkIo \<Rightarrow> string \<Rightarrow> ChunkStore \<Rightarrow> ChunkNode \<Rightarrow> ChunkHandled \<times> ChunkNode" where
  "handle_get io key store n =
     (case hold_body n of
        (False, n) \<Rightarrow> (chunk_reply ''ERR busy'', n)
      | (True, n) \<Rightarrow>
          (case store_get (ci_opens io) (ci_reads io) store key of
             GFound body \<Rightarrow>
               (\<lparr>ch_reply = ''CHUNK '' @ to_string (length body), ch_body = body, ch_after = None, ch_hold = True\<rparr>, n)
           | GMissing \<Rightarrow> (chunk_reply ''MISSING'', slot_release n)
           | GBadKey \<Rightarrow> (chunk_reply bad_key_reply, slot_release n)
           | GIoError \<Rightarrow> (chunk_reply ''ERR disk error'', slot_release n)))"

definition handle_have :: "string list \<Rightarrow> ChunkStore \<Rightarrow> string" where
  "handle_have keys store =
     (if list_all valid_key keys then ''HAVE '' @ map (\<lambda>k. if store_has store k then CHR ''1'' else CHR ''0'') keys
      else bad_key_reply)"

definition handle_digest :: "platform \<Rightarrow> string \<Rightarrow> string \<Rightarrow> ChunkStore \<Rightarrow> string" where
  "handle_digest P a b store =
     (case (id_from_hex a, id_from_hex b) of
        (Some f, Some t) \<Rightarrow> ''DIGEST '' @ keys_digest P (store_keys_in_arc store f t)
      | _ \<Rightarrow> ''ERR malformed DIGEST'')"

definition grace_seconds :: "int \<Rightarrow> int" where
  "grace_seconds ms = (if ms \<ge> 0 then ms div 1000 else - (- ms div 1000))"

definition handle_keys :: "ChunkIo \<Rightarrow> int \<Rightarrow> string \<Rightarrow> ChunkStore \<Rightarrow> string \<times> ChunkStore" where
  "handle_keys io grace after store =
     (if after \<noteq> ''-'' \<and> \<not> valid_key after then (bad_key_reply, store)
      else let store = (if after = ''-'' then store_forget_old (ci_now io 0) grace store else store);
               page = store_keys_after store (if after = ''-'' then [] else after) MAX_HAVE_KEYS
           in (''KEYS '' @ to_string (length page) @ '' '' @ to_string_int (grace_seconds grace) @
               concat (map (\<lambda>k. '' '' @ k) page), store))"

text \<open>The loop over a DROP's keys: the answer's bits, the bytes freed, and the counters.\<close>

fun drop_loop ::
  "ChunkIo \<Rightarrow> int \<Rightarrow> nat \<Rightarrow> string list \<Rightarrow> string \<times> nat \<Rightarrow> ChunkStore \<times> ChunkNode \<Rightarrow> (string \<times> nat) \<times> ChunkStore \<times> ChunkNode"
where
  "drop_loop io grace i [] acc sn = (acc, sn)"
| "drop_loop io grace i (key # keys) (bits, freed) (store, n) =
     (case store_drop (ci_unlinks io i) (ci_now io i) grace key store of
        ((r, bytes), store) \<Rightarrow>
          let n = (if r = Dropped
                   then n\<lparr>cn_dropped_chunks := cn_dropped_chunks n + 1, cn_dropped_bytes := cn_dropped_bytes n + bytes\<rparr>
                   else if r = TooYoung then n\<lparr>cn_kept_young := cn_kept_young n + 1\<rparr> else n)
          in drop_loop io grace (Suc i) keys
               (bits @ [if r = Dropped then CHR ''1'' else CHR ''0''], if r = Dropped then freed + bytes else freed) (store, n))"

definition handle_drop :: "ChunkIo \<Rightarrow> string \<Rightarrow> string list \<Rightarrow> ChunkStore \<Rightarrow> ChunkNode \<Rightarrow> string \<times> ChunkStore \<times> ChunkNode" where
  "handle_drop io secret keys store n =
     (if cn_gc_key n = [] then (''ERR deletion is not enabled on this node'', store, n)
      else if \<not> same_secret secret (cn_gc_key n) then (''ERR wrong collection key'', store, n)
      else if \<not> list_all valid_key keys then (bad_key_reply, store, n)
      else case drop_loop io (cn_gc_grace n) 0 keys ([], 0) (store, n) of
        ((bits, freed), (store, n)) \<Rightarrow> (''DROPPED '' @ bits @ '' '' @ to_string freed, store, n))"

definition handle_chunk_request ::
  "platform \<Rightarrow> 'w frame_transport \<Rightarrow> ChunkIo \<Rightarrow> Schedule \<Rightarrow> Frame \<Rightarrow> 'w \<times> ChunkNode \<Rightarrow>
   (ChunkHandled \<times> 'w \<times> ChunkNode) option"
where
  "handle_chunk_request P send io sched request wn =
     (case wn of (world, n) \<Rightarrow>
      let w = split_single_spaces (fr_line request); verb = hd w in
      if verb = [] then Some (chunk_reply ''ERR empty request'', world, n)
      else case cn_store n of
        None \<Rightarrow> Some (chunk_reply ''ERR this node keeps no chunks'', world, n)
      | Some store \<Rightarrow>
          if verb = ''PUT'' \<and> length w = 4 then
            (if \<not> valid_key (w ! 1) then Some (chunk_reply bad_key_reply, world, n)
             else case parse_w (w ! 2) of
               None \<Rightarrow> Some (chunk_reply ''ERR w must be 1, 2 or 3'', world, n)
             | Some copies \<Rightarrow> coordinate P send (ci_put io) (ci_now io 0) sched (w ! 1) copies (fr_body request) store (world, n))
          else if verb = ''STORE'' \<and> length w = 3 then
            (case handle_store P io (w ! 1) (fr_body request) store of
               (line, store) \<Rightarrow> Some (chunk_reply line, world, n\<lparr>cn_store := Some store\<rparr>))
          else if verb = ''GET'' \<and> length w = 2 then
            (case handle_get io (w ! 1) store n of (h, n) \<Rightarrow> Some (h, world, n))
          else if verb = ''HAVE'' \<and> 2 \<le> length w \<and> length w \<le> 1 + MAX_HAVE_KEYS then
            Some (chunk_reply (handle_have (tl w) store), world, n)
          else if verb = ''DIGEST'' \<and> length w = 3 then
            Some (chunk_reply (handle_digest P (w ! 1) (w ! 2) store), world, n)
          else if verb = ''KEYS'' \<and> length w = 2 then
            (case handle_keys io (cn_gc_grace n) (w ! 1) store of
               (line, store) \<Rightarrow> Some (chunk_reply line, world, n\<lparr>cn_store := Some store\<rparr>))
          else if verb = ''DROP'' \<and> 3 \<le> length w \<and> length w \<le> 2 + MAX_HAVE_KEYS then
            (case handle_drop io (w ! 1) (drop 2 w) store n of
               (line, store, n) \<Rightarrow> Some (chunk_reply line, world, n\<lparr>cn_store := Some store\<rparr>))
          else Some (chunk_reply ''ERR malformed chunk request'', world, n))"

section \<open>The client side\<close>

definition unreachable :: "Delivery \<Rightarrow> bool" where
  "unreachable d \<longleftrightarrow> d = Refused \<or> d = Timeout \<or> d = Closed"

text \<open>The part of the namer's successor list from the owner on, or all of it if it does not name the owner.\<close>

definition from_owner_on :: "Peer \<Rightarrow> Peer list \<Rightarrow> Peer list" where
  "from_owner_on own succs =
     (let rest = dropWhile (\<lambda>p. \<not> same_node p own) succs in if rest = [] then succs else rest)"

definition fallbacks :: "platform \<Rightarrow> 'w transport \<Rightarrow> LookupResult \<Rightarrow> bool \<Rightarrow> 'w \<Rightarrow> Peer list \<times> 'w" where
  "fallbacks P route r owner_unreachable w =
     (let namer = last (lr_path r);
          w = (if owner_unreachable then snd (route w namer (suspect_request (lr_owner r))) else w)
      in case route w namer ''NEIGHBOURS'' of
           ((d, line), w) \<Rightarrow>
             (case (if d = Ok then parse_neighbours P line else None) of
                None \<Rightarrow> ([], w)
              | Some nb \<Rightarrow>
                  (filter (\<lambda>p. \<not> same_process p (lr_owner r))
                     (distinct_processes RF (from_owner_on (lr_owner r) (nb_succs nb))), w)))"

definition lookup_failure :: "LookupResult \<Rightarrow> string" where
  "lookup_failure r = ''lookup failed ('' @ lookup_error_name (lr_error r) @ ''): '' @ lr_message r"

definition join_message :: "string \<Rightarrow> string \<Rightarrow> string" where
  "join_message message what = message @ (if message = [] then [] else ''; '') @ what"

record PutOutcome =
  po_ok :: bool
  po_copies :: int
  po_message :: string
  po_coordinator :: Peer
  po_attempts :: nat
  po_key :: string

text \<open>\<^verbatim>\<open>std::atoi\<close> where its result is defined: optional sign, then digits up to the first other character.\<close>

definition atoi :: "string \<Rightarrow> int" where
  "atoi s =
     (let s = dropWhile is_space s;
          negative = (s \<noteq> [] \<and> hd s = CHR ''-'');
          ds = (if s \<noteq> [] \<and> (hd s = CHR ''-'' \<or> hd s = CHR ''+'') then tl s else s);
          v = (case digits_from 0 (takeWhile is_digit ds) of None \<Rightarrow> 0 | Some v \<Rightarrow> int v)
      in if negative then - v else v)"

definition put_line :: "string \<Rightarrow> nat \<Rightarrow> string \<Rightarrow> string" where
  "put_line key w body = ''PUT '' @ key @ '' '' @ to_string w @ '' '' @ to_string (length body)"

text \<open>
  The loop over the coordinators: the queue is what is left of \<^verbatim>\<open>candidates\<close>; the first failure
  past which another may be tried asks, once, for the rest of the replica set.
\<close>

function put_loop ::
  "platform \<Rightarrow> 'w transport \<Rightarrow> 'w frame_transport \<Rightarrow> LookupResult \<Rightarrow> string \<Rightarrow> string \<Rightarrow> bool \<Rightarrow> Peer list \<Rightarrow> PutOutcome \<Rightarrow>
   'w \<Rightarrow> PutOutcome \<times> 'w"
where
  "put_loop P route send r line body asked [] out w = (out, w)"
| "put_loop P route send r line body asked (to # queue) out w =
     (case send w to line body of
        ((d, ans), w) \<Rightarrow>
          let out = out\<lparr>po_attempts := po_attempts out + 1, po_coordinator := to\<rparr> in
          if d = Ok \<and> starts_with ''OK '' (fr_line ans)
          then (out\<lparr>po_ok := True, po_copies := atoi (drop 3 (fr_line ans)), po_message := []\<rparr>, w)
          else let out = out\<lparr>po_message := join_message (po_message out)
                 (peer_address to @ '': '' @ (if d = Ok then fr_line ans else delivery_name d))\<rparr> in
            if d = Ok \<and> fr_line ans \<noteq> ''ERR busy'' then (out, w)
            else if asked then put_loop P route send r line body True queue out w
            else case fallbacks P route r (unreachable d) w of
              (more_peers, w) \<Rightarrow> put_loop P route send r line body True (queue @ more_peers) out w)"
  by pat_completeness auto
termination
  by (relation "measures [\<lambda>(_, _, _, _, _, _, asked, _, _, _). if asked then 0 else 1, \<lambda>(_, _, _, _, _, _, _, queue, _, _). length queue]") auto

definition put_chunk ::
  "platform \<Rightarrow> 'w transport \<Rightarrow> 'w frame_transport \<Rightarrow> Peer \<Rightarrow> string \<Rightarrow> nat \<Rightarrow> nat \<Rightarrow> 'w \<Rightarrow> PutOutcome \<times> 'w"
where
  "put_chunk P route send start body w retries world =
     (let key = chunk_key P body;
          k = (case id_from_key key of None \<Rightarrow> 0 | Some k \<Rightarrow> k);
          out = \<lparr>po_ok = False, po_copies = 0, po_message = [], po_coordinator = empty_peer, po_attempts = 0, po_key = key\<rparr>
      in case lookup_with_recovery P route start k retries world of
           (r, world) \<Rightarrow>
             if \<not> lr_ok r then (out\<lparr>po_message := lookup_failure r\<rparr>, world)
             else put_loop P route send r (put_line key w body) body False [lr_owner r] out world)"

record GetOutcome =
  go_ok :: bool
  go_body :: string
  go_message :: string
  go_served_by :: Peer
  go_tried :: "string list"

definition get_verdict :: "platform \<Rightarrow> string \<Rightarrow> Delivery \<Rightarrow> Frame \<Rightarrow> string option" where
  "get_verdict P key d ans =
     (if d \<noteq> Ok then Some (delivery_name d)
      else if \<not> starts_with ''CHUNK '' (fr_line ans) then Some (fr_line ans)
      else if chunk_key P (fr_body ans) \<noteq> key then Some ''bytes do not hash to the key''
      else None)"

function get_loop ::
  "platform \<Rightarrow> 'w transport \<Rightarrow> 'w frame_transport \<Rightarrow> LookupResult \<Rightarrow> string \<Rightarrow> bool \<Rightarrow> Peer list \<Rightarrow> GetOutcome \<Rightarrow> 'w \<Rightarrow>
   GetOutcome \<times> 'w"
where
  "get_loop P route send r key asked [] out w = (out\<lparr>go_message := fold (\<lambda>t m. join_message m t) (go_tried out) (go_message out)\<rparr>, w)"
| "get_loop P route send r key asked (p # queue) out w =
     (case send w p (''GET '' @ key) [] of
        ((d, ans), w) \<Rightarrow>
          (case get_verdict P key d ans of
             None \<Rightarrow> (out\<lparr>go_ok := True, go_body := fr_body ans, go_served_by := p,
                         go_tried := go_tried out @ [peer_address p @ '': ok'']\<rparr>, w)
           | Some what \<Rightarrow>
               let out = out\<lparr>go_tried := go_tried out @ [peer_address p @ '': '' @ what]\<rparr> in
               if asked then get_loop P route send r key True queue out w
               else case fallbacks P route r (unreachable d) w of
                 (more_peers, w) \<Rightarrow> get_loop P route send r key True (queue @ more_peers) out w))"
  by pat_completeness auto
termination
  by (relation "measures [\<lambda>(_, _, _, _, _, asked, _, _, _). if asked then 0 else 1, \<lambda>(_, _, _, _, _, _, queue, _, _). length queue]") auto

definition get_chunk ::
  "platform \<Rightarrow> 'w transport \<Rightarrow> 'w frame_transport \<Rightarrow> Peer \<Rightarrow> string \<Rightarrow> nat \<Rightarrow> 'w \<Rightarrow> GetOutcome \<times> 'w"
where
  "get_chunk P route send start key retries w =
     (let out = \<lparr>go_ok = False, go_body = [], go_message = [], go_served_by = empty_peer, go_tried = []\<rparr> in
      case (if valid_key key then id_from_key key else None) of
        None \<Rightarrow> (out\<lparr>go_message := ''key must be 40 lowercase hexadecimal characters''\<rparr>, w)
      | Some k \<Rightarrow>
          (case lookup_with_recovery P route start k retries w of
             (r, w) \<Rightarrow>
               if \<not> lr_ok r then (out\<lparr>go_message := lookup_failure r\<rparr>, w)
               else get_loop P route send r key False [lr_owner r] out w))"

end
