(* ===== verification/Manifest.thy ===== *)
theory Manifest
  imports Chunk
begin

text \<open>
  The manifests of \<^verbatim>\<open>src/transfer.h\<close> and \<^verbatim>\<open>src/transfer.cpp\<close>: their text form, the tree built over a
  file's chunks, and the walk from a root key to the flat list of chunks. Byte counts are natural
  numbers; where the code adds 64-bit numbers without a check, the sum is taken modulo \<open>2 ^ 64\<close>.
\<close>

section \<open>Numbers\<close>

definition U64_MAX :: nat where
  "U64_MAX = 18446744073709551615"

definition wrap64 :: "nat \<Rightarrow> nat" where
  "wrap64 n = n mod (U64_MAX + 1)"

fun u64_digits :: "nat \<Rightarrow> string \<Rightarrow> nat option" where
  "u64_digits v [] = Some v"
| "u64_digits v (c # cs) =
     (if \<not> is_digit c then None
      else let d = digit_val c in if v > (U64_MAX - d) div 10 then None else u64_digits (v * 10 + d) cs)"

definition parse_number :: "string \<Rightarrow> nat option" where
  "parse_number s =
     (if s = [] \<or> length s > 20 then None
      else if length s > 1 \<and> hd s = CHR ''0'' then None
      else u64_digits 0 s)"

definition header_number :: "string \<Rightarrow> string \<Rightarrow> nat option" where
  "header_number line name =
     (if \<not> starts_with (name @ '' '') line then None else parse_number (drop (length name + 1) line))"

section \<open>The text form\<close>

definition MANIFEST_FANOUT :: nat where "MANIFEST_FANOUT = 8192"
definition MAX_MANIFEST_DEPTH :: nat where "MAX_MANIFEST_DEPTH = 4"

datatype ManifestKind = Data | Index

record ManifestEntry =
  me_key :: string
  me_bytes :: nat

record Manifest =
  mf_size :: nat
  mf_chunk :: nat
  mf_kind :: ManifestKind
  mf_entries :: "ManifestEntry list"

abbreviation newline :: string where "newline \<equiv> [CHR 0x0A]"

definition kind_line :: "ManifestKind \<Rightarrow> string" where
  "kind_line k = (case k of Data \<Rightarrow> ''kind data'' | Index \<Rightarrow> ''kind index'')"

definition entry_text :: "ManifestEntry \<Rightarrow> string" where
  "entry_text e = me_key e @ '' '' @ to_string (me_bytes e)"

definition manifest_lines :: "Manifest \<Rightarrow> string list" where
  "manifest_lines m =
     ''chordfs-manifest 1'' # (''size '' @ to_string (mf_size m)) # (''chunk '' @ to_string (mf_chunk m)) #
     kind_line (mf_kind m) # (''entries '' @ to_string (length (mf_entries m))) # map entry_text (mf_entries m)"

definition format_manifest :: "Manifest \<Rightarrow> string" where
  "format_manifest m = concat (map (\<lambda>l. l @ newline) (manifest_lines m))"

definition parse_kind :: "string \<Rightarrow> ManifestKind option" where
  "parse_kind line = (if line = ''kind data'' then Some Data else if line = ''kind index'' then Some Index else None)"

definition parse_entry :: "string \<Rightarrow> ManifestEntry option" where
  "parse_entry l =
     (if length l < 42 \<or> l ! 40 \<noteq> CHR '' '' \<or> \<not> valid_key (take 40 l) then None
      else map_option (\<lambda>b. \<lparr>me_key = take 40 l, me_bytes = b\<rparr>) (parse_number (drop 41 l)))"

text \<open>The loop over the entry lines; \<open>i\<close> is the index of the line, \<open>acc\<close> the bytes so far.\<close>

fun parse_entry_lines :: "nat \<Rightarrow> nat \<Rightarrow> string list \<Rightarrow> string + ManifestEntry list \<times> nat" where
  "parse_entry_lines i acc [] = Inr ([], acc)"
| "parse_entry_lines i acc (l # ls) =
     (case parse_entry l of
        None \<Rightarrow> Inl (''bad entry on line '' @ to_string (i + 1))
      | Some e \<Rightarrow>
          if me_bytes e > U64_MAX - acc then Inl ''the entries' byte counts overflow''
          else case parse_entry_lines (i + 1) (acc + me_bytes e) ls of
            Inl why \<Rightarrow> Inl why
          | Inr (es, tot) \<Rightarrow> Inr (e # es, tot))"

definition entry_fits :: "ManifestKind \<Rightarrow> nat \<Rightarrow> bool \<Rightarrow> nat \<Rightarrow> bool" where
  "entry_fits kind chunk final b \<longleftrightarrow>
     (case kind of
        Data \<Rightarrow> (if final then b \<ge> 1 \<and> b \<le> chunk else b = chunk)
      | Index \<Rightarrow> b \<ge> 1 \<and> (final \<or> b mod chunk = 0))"

fun first_misfit :: "ManifestKind \<Rightarrow> nat \<Rightarrow> nat \<Rightarrow> ManifestEntry list \<Rightarrow> nat option" where
  "first_misfit kind chunk i [] = None"
| "first_misfit kind chunk i (e # es) =
     (if entry_fits kind chunk (es = []) (me_bytes e) then first_misfit kind chunk (i + 1) es else Some i)"

definition parse_body :: "nat \<Rightarrow> nat \<Rightarrow> ManifestKind \<Rightarrow> string list \<Rightarrow> string + Manifest" where
  "parse_body fsize chunk kind ls =
     (case parse_entry_lines 5 0 ls of
        Inl why \<Rightarrow> Inl why
      | Inr (entries, tot) \<Rightarrow>
          if tot \<noteq> fsize then Inl (''the entries add up to '' @ to_string tot @ '' bytes, not '' @ to_string fsize)
          else case first_misfit kind chunk 0 entries of
            Some i \<Rightarrow> Inl (''entry '' @ to_string (i + 1) @ '' has the wrong byte count for a '' @
                           (case kind of Data \<Rightarrow> ''data'' | Index \<Rightarrow> ''index'') @ '' manifest'')
          | None \<Rightarrow>
              if kind = Index \<and> entries = [] then Inl ''an index manifest lists no manifests''
              else Inr \<lparr>mf_size = fsize, mf_chunk = chunk, mf_kind = kind, mf_entries = entries\<rparr>)"

definition not_manifest :: string where
  "not_manifest = ''not a manifest: the first line is not '' @ [CHR 0x27] @ ''chordfs-manifest 1'' @ [CHR 0x27]"

definition parse_manifest :: "string \<Rightarrow> string + Manifest" where
  "parse_manifest text =
     (let lines_total = count_list text (CHR 0x0A); lines = getlines (CHR 0x0A) text in
      if \<not> starts_with (''chordfs-manifest 1'' @ newline) text
      then Inl not_manifest
      else if last text \<noteq> CHR 0x0A then Inl ''the manifest does not end with a newline''
      else if lines_total < 5 then Inl ''the manifest header is incomplete''
      else if lines_total - 5 > MANIFEST_FANOUT
      then Inl (''the manifest has more than '' @ to_string MANIFEST_FANOUT @ '' entries'')
      else if lines ! 0 \<noteq> ''chordfs-manifest 1'' then Inl not_manifest
      else case header_number (lines ! 1) ''size'' of
        None \<Rightarrow> Inl ''bad size line''
      | Some fsize \<Rightarrow>
          (case header_number (lines ! 2) ''chunk'' of
             None \<Rightarrow> Inl (''bad chunk line (the chunk size must be 1 to '' @ to_string MAX_CHUNK @ '')'')
           | Some chunk \<Rightarrow>
               if chunk = 0 \<or> chunk > MAX_CHUNK
               then Inl (''bad chunk line (the chunk size must be 1 to '' @ to_string MAX_CHUNK @ '')'')
               else case parse_kind (lines ! 3) of
                 None \<Rightarrow> Inl ''bad kind line''
               | Some kind \<Rightarrow>
                   if header_number (lines ! 4) ''entries'' \<noteq> Some (length lines - 5)
                   then Inl ''the entries line does not match the number of entries''
                   else parse_body fsize chunk kind (drop 5 lines)))"

section \<open>The tree over a file\<close>

record ManifestTree =
  mt_blobs :: "string list"
  mt_root_key :: string
  mt_depth :: nat

function cut_level :: "nat \<Rightarrow> 'a list \<Rightarrow> 'a list list" where
  "cut_level n xs = (if xs = [] then [] else if n = 0 then [xs] else take n xs # cut_level n (drop n xs))"
  by auto
termination by (relation "measure (\<lambda>(_, xs). length xs)") auto

declare cut_level.simps [simp del]

text \<open>The manifest over one part of a level, and the entry that stands for it on the next level.\<close>

definition part_manifest :: "nat \<Rightarrow> ManifestKind \<Rightarrow> ManifestEntry list \<Rightarrow> Manifest" where
  "part_manifest chunk kind es =
     \<lparr>mf_size = fold (\<lambda>e n. wrap64 (n + me_bytes e)) es 0, mf_chunk = chunk, mf_kind = kind, mf_entries = es\<rparr>"

definition part_entry :: "platform \<Rightarrow> nat \<Rightarrow> ManifestKind \<Rightarrow> ManifestEntry list \<Rightarrow> ManifestEntry" where
  "part_entry P chunk kind es =
     \<lparr>me_key = chunk_key P (format_manifest (part_manifest chunk kind es)), me_bytes = mf_size (part_manifest chunk kind es)\<rparr>"

lemma cut_level_length: "0 < n \<Longrightarrow> length (cut_level n xs) * n < length xs + n"
proof (induction n xs rule: cut_level.induct)
  case (1 n xs)
  show ?case
  proof (cases "xs = []")
    case True
    then show ?thesis using 1(2) by (simp add: cut_level.simps)
  next
    case False
    then have "cut_level n xs = take n xs # cut_level n (drop n xs)" using 1(2) by (subst cut_level.simps) simp
    moreover have "length (cut_level n (drop n xs)) * n < length (drop n xs) + n" using 1 False by simp
    ultimately show ?thesis using False 1(2) by (cases "length xs \<le> n") (auto simp: cut_level.simps)
  qed
qed

function build_levels ::
  "platform \<Rightarrow> nat \<Rightarrow> nat \<Rightarrow> nat \<Rightarrow> ManifestKind \<Rightarrow> ManifestEntry list \<Rightarrow> ManifestTree \<Rightarrow> ManifestTree"
where
  "build_levels P fsize chunk fanout kind level tree =
     (let tree = tree\<lparr>mt_depth := mt_depth tree + 1\<rparr>; fanout = max 2 fanout in
      if length level \<le> fanout
      then let root = format_manifest \<lparr>mf_size = fsize, mf_chunk = chunk, mf_kind = kind, mf_entries = level\<rparr>
           in tree\<lparr>mt_blobs := mt_blobs tree @ [root], mt_root_key := chunk_key P root\<rparr>
      else build_levels P fsize chunk fanout Index (map (part_entry P chunk kind) (cut_level fanout level))
             (tree\<lparr>mt_blobs := mt_blobs tree @ map (format_manifest \<circ> part_manifest chunk kind) (cut_level fanout level)\<rparr>))"
  by auto
termination
proof (relation "measure (\<lambda>(_, _, _, _, _, level, _). length level)", goal_cases)
  case (2 P fsize chunk fanout kind level tree x xa)
  then have "length (cut_level xa level) * xa < length level + xa" "2 \<le> xa" "xa < length level" using cut_level_length [of xa level] by auto
  then have "length (cut_level xa level) * xa < 2 * length level" by linarith
  moreover have "length (cut_level xa level) * 2 \<le> length (cut_level xa level) * xa" using \<open>2 \<le> xa\<close> by (rule mult_le_mono2)
  ultimately have "length (cut_level xa level) < length level" by linarith
  then show ?case by simp
qed simp

declare build_levels.simps [simp del]

definition build_manifests :: "platform \<Rightarrow> ManifestEntry list \<Rightarrow> nat \<Rightarrow> nat \<Rightarrow> nat \<Rightarrow> ManifestTree" where
  "build_manifests P chunks fsize chunk fanout =
     build_levels P fsize chunk (max 2 (min fanout MANIFEST_FANOUT)) Data chunks
       \<lparr>mt_blobs = [], mt_root_key = [], mt_depth = 0\<rparr>"

section \<open>From a root key to the chunks\<close>

text \<open>Fetching a chunk: the world it runs in may change with every call.\<close>

type_synonym 'w get_fn = "'w \<Rightarrow> string \<Rightarrow> GetOutcome \<times> 'w"

text \<open>
  Up to \<open>attempts\<close> tries; \<open>stop n\<close> is what the shared flag reads after the \<open>n\<close>-th failure. The waits
  between the tries are left out.
\<close>

function get_attempts :: "'w get_fn \<Rightarrow> string \<Rightarrow> nat \<Rightarrow> (nat \<Rightarrow> bool) \<Rightarrow> nat \<Rightarrow> 'w \<Rightarrow> (GetOutcome \<times> nat) \<times> 'w" where
  "get_attempts get key attempts stop used w =
     (case get w key of
        (g, w) \<Rightarrow>
          if go_ok g \<or> used \<ge> attempts \<or> stop used then ((g, used), w)
          else get_attempts get key attempts stop (used + 1) w)"
  by auto
termination by (relation "measure (\<lambda>(_, _, attempts, _, used, _). attempts - used)") auto

declare get_attempts.simps [simp del]

record ChunkRef =
  cr_key :: string
  cr_offset :: nat
  cr_bytes :: nat

record Resolved =
  rs_ok :: bool
  rs_message :: string
  rs_size :: nat
  rs_chunk :: nat
  rs_chunks :: "ChunkRef list"
  rs_depth :: nat
  rs_manifests :: nat
  rs_manifest_keys :: "string list"

record Pending =
  pn_key :: string
  pn_offset :: nat
  pn_bytes :: nat

text \<open>Where each entry's bytes start: at the end of the entry before.\<close>

fun place :: "nat \<Rightarrow> ManifestEntry list \<Rightarrow> (string \<times> nat \<times> nat) list" where
  "place offset [] = []"
| "place offset (e # es) = (me_key e, offset, me_bytes e) # place (wrap64 (offset + me_bytes e)) es"

definition add_entries :: "Manifest \<Rightarrow> nat \<Rightarrow> Resolved \<Rightarrow> Pending list \<Rightarrow> Resolved \<times> Pending list" where
  "add_entries m offset r todo =
     (case mf_kind m of
        Data \<Rightarrow> (r\<lparr>rs_chunks := rs_chunks r @
                   map (\<lambda>(k, ofs, b). \<lparr>cr_key = k, cr_offset = ofs, cr_bytes = b\<rparr>) (place offset (mf_entries m))\<rparr>, todo)
      | Index \<Rightarrow> (r, todo @ map (\<lambda>(k, ofs, b). \<lparr>pn_key = k, pn_offset = ofs, pn_bytes = b\<rparr>) (place offset (mf_entries m))))"

definition resolve_fail :: "Resolved \<Rightarrow> string \<Rightarrow> Resolved" where
  "resolve_fail r message = r\<lparr>rs_message := message\<rparr>"

text \<open>
  One manifest of a level at \<open>depth\<close>: fetched, parsed, compared with what its parent said, and its
  entries added. The flag says that the walk may go on.
\<close>

definition resolve_one ::
  "'w get_fn \<Rightarrow> nat \<Rightarrow> nat \<Rightarrow> Pending \<Rightarrow> Resolved \<times> Pending list \<Rightarrow> 'w \<Rightarrow> (bool \<times> Resolved \<times> Pending list) \<times> 'w"
where
  "resolve_one get attempts depth p rt w =
     (case rt of (r, todo) \<Rightarrow>
        if depth > MAX_MANIFEST_DEPTH
        then ((False, resolve_fail r (''manifest '' @ pn_key p @ '' is deeper than '' @ to_string MAX_MANIFEST_DEPTH @ '' levels''), todo), w)
        else case get_attempts get (pn_key p) attempts (\<lambda>_. False) 1 w of
          ((g, _), w) \<Rightarrow>
            if \<not> go_ok g then ((False, resolve_fail r (''manifest '' @ pn_key p @ '': '' @ go_message g), todo), w)
            else case parse_manifest (go_body g) of
              Inl why \<Rightarrow> ((False, resolve_fail r (''manifest '' @ pn_key p @ '': '' @ why), todo), w)
            | Inr m \<Rightarrow>
                let r = r\<lparr>rs_manifests := rs_manifests r + 1, rs_manifest_keys := rs_manifest_keys r @ [pn_key p]\<rparr>;
                    r = (if depth = 1 then r\<lparr>rs_size := mf_size m, rs_chunk := mf_chunk m\<rparr> else r)
                in if depth \<noteq> 1 \<and> mf_size m \<noteq> pn_bytes p
                   then ((False, resolve_fail r (''manifest '' @ pn_key p @ '' covers '' @ to_string (mf_size m) @
                           '' bytes; its parent says '' @ to_string (pn_bytes p)), todo), w)
                   else if depth \<noteq> 1 \<and> mf_chunk m \<noteq> rs_chunk r
                   then ((False, resolve_fail r (''manifest '' @ pn_key p @ '' uses a different chunk size from the root's''), todo), w)
                   else ((True, add_entries m (pn_offset p) (r\<lparr>rs_depth := max (rs_depth r) depth\<rparr>) todo), w))"

fun resolve_level ::
  "'w get_fn \<Rightarrow> nat \<Rightarrow> nat \<Rightarrow> Pending list \<Rightarrow> Resolved \<times> Pending list \<Rightarrow> 'w \<Rightarrow> (bool \<times> Resolved \<times> Pending list) \<times> 'w"
where
  "resolve_level get attempts depth [] rt w = ((True, rt), w)"
| "resolve_level get attempts depth (p # ps) rt w =
     (case resolve_one get attempts depth p rt w of
        ((False, rt), w) \<Rightarrow> ((False, rt), w)
      | ((True, rt), w) \<Rightarrow> resolve_level get attempts depth ps rt w)"

text \<open>The levels from \<open>depth\<close> on; a manifest below the deepest level ends the walk with an error.\<close>

function resolve_levels :: "'w get_fn \<Rightarrow> nat \<Rightarrow> nat \<Rightarrow> Pending list \<Rightarrow> Resolved \<Rightarrow> 'w \<Rightarrow> Resolved \<times> 'w" where
  "resolve_levels get attempts depth level r w =
     (if level = [] then (r\<lparr>rs_ok := True\<rparr>, w)
      else case resolve_level get attempts depth level (r, []) w of
        ((False, r, _), w) \<Rightarrow> (r, w)
      | ((True, r, todo), w) \<Rightarrow>
          if depth > MAX_MANIFEST_DEPTH then (r, w) else resolve_levels get attempts (depth + 1) todo r w)"
  by auto
termination by (relation "measure (\<lambda>(_, _, depth, _, _, _). MAX_MANIFEST_DEPTH + 1 - depth)") auto

declare resolve_levels.simps [simp del]

definition resolve_manifest :: "'w get_fn \<Rightarrow> string \<Rightarrow> nat \<Rightarrow> 'w \<Rightarrow> Resolved \<times> 'w" where
  "resolve_manifest get root_key attempts w =
     (let r = \<lparr>rs_ok = False, rs_message = [], rs_size = 0, rs_chunk = 0, rs_chunks = [], rs_depth = 0, rs_manifests = 0,
               rs_manifest_keys = []\<rparr>
      in if \<not> valid_key root_key
         then (resolve_fail r ''the root key is not 40 lowercase hexadecimal characters'', w)
         else resolve_levels get attempts 1 [\<lparr>pn_key = root_key, pn_offset = 0, pn_bytes = 0\<rparr>] r w)"

end
