(* ===== verification/Manifest_Text.thy ===== *)
theory Manifest_Text
  imports Manifest
begin

text \<open>
  The text form of a manifest has one spelling: what \<^verbatim>\<open>parse_manifest\<close> accepts is what
  \<^verbatim>\<open>format_manifest\<close> writes.
\<close>

section \<open>The text form has one spelling\<close>

lemma u64_digits_iff:
  "v \<le> U64_MAX \<Longrightarrow> u64_digits v s = Some n \<longleftrightarrow> digits_from v s = Some n \<and> n \<le> U64_MAX"
proof (induction s arbitrary: v)
  case (Cons c s)
  show ?case
  proof (cases "is_digit c")
    case True
    then have d: "digit_val c \<le> 9" using digit_val_less [OF True] by linarith
    have div: "(U64_MAX - digit_val c) div 10 < v \<longleftrightarrow> U64_MAX < v * 10 + digit_val c"
      using d by (auto simp: U64_MAX_def)
    show ?thesis
    proof (cases "U64_MAX < v * 10 + digit_val c")
      case wraps: True
      have "digits_from v (c # s) = Some n \<Longrightarrow> U64_MAX < n"
      proof -
        assume "digits_from v (c # s) = Some n"
        then have "(v * 10 + digit_val c) * 10 ^ length s \<le> n" using True digits_from_ge by simp
        moreover have "v * 10 + digit_val c \<le> (v * 10 + digit_val c) * 10 ^ length s" by simp
        ultimately show "U64_MAX < n" using wraps by linarith
      qed
      then show ?thesis using wraps True div by (auto simp: Let_def)
    next
      case False
      then show ?thesis using True div Cons.IH [of "v * 10 + digit_val c"] by (simp add: Let_def)
    qed
  qed simp
qed auto

lemma parse_number_iff: "parse_number s = Some v \<longleftrightarrow> v \<le> U64_MAX \<and> s = to_string v"
proof
  assume "parse_number s = Some v"
  then show "v \<le> U64_MAX \<and> s = to_string v"
    by (auto simp: parse_number_def u64_digits_iff to_string_of_digits split: if_splits)
next
  assume v: "v \<le> U64_MAX \<and> s = to_string v"
  then have "length (to_string v) \<le> 20" by (intro to_string_length_le) (auto simp: U64_MAX_def)
  moreover have "1 < length (to_string v) \<Longrightarrow> hd (to_string v) \<noteq> CHR ''0''"
    using to_string_hd_zero [of v] to_string.simps [of v] by (auto split: if_splits)
  ultimately show "parse_number s = Some v" using v by (auto simp: parse_number_def u64_digits_iff)
qed

interpretation manifest_number: strict_codec to_string parse_number "\<lambda>n. n \<le> U64_MAX"
  by unfold_locales (simp_all add: parse_number_iff)

lemma starts_with_iff: "starts_with p s \<longleftrightarrow> (\<exists>r. s = p @ r)"
  by (auto simp: starts_with_def) (metis append_take_drop_id)

lemma header_number_iff: "header_number l nm = Some v \<longleftrightarrow> v \<le> U64_MAX \<and> l = nm @ '' '' @ to_string v"
  by (auto simp: header_number_def starts_with_iff parse_number_iff)

definition entry_ok :: "ManifestEntry \<Rightarrow> bool" where
  "entry_ok e \<longleftrightarrow> valid_key (me_key e) \<and> me_bytes e \<le> U64_MAX"

lemma parse_entry_iff: "parse_entry l = Some e \<longleftrightarrow> entry_ok e \<and> l = entry_text e"
proof
  assume p: "parse_entry l = Some e"
  then have l: "42 \<le> length l" "l ! 40 = CHR '' ''" "valid_key (take 40 l)" and
    e: "e = \<lparr>me_key = take 40 l, me_bytes = me_bytes e\<rparr>" "parse_number (drop 41 l) = Some (me_bytes e)"
    by (auto simp: parse_entry_def split: if_splits)
  have "l = take 40 l @ l ! 40 # drop 41 l" using l(1) id_take_nth_drop [of 40 l] by simp
  then show "entry_ok e \<and> l = entry_text e" using e(2) l(2,3) unfolding parse_number_iff
    by (subst e(1), subst (2) e(1)) (simp add: entry_ok_def entry_text_def)
next
  assume e: "entry_ok e \<and> l = entry_text e"
  then have "length (me_key e) = 40" by (simp add: entry_ok_def valid_key_def)
  moreover have "1 \<le> length (to_string (me_bytes e))" by (simp add: Suc_le_eq)
  ultimately show "parse_entry l = Some e"
    using e by (auto simp: parse_entry_def entry_text_def entry_ok_def nth_append parse_number_iff)
qed

interpretation entry_codec: strict_codec entry_text parse_entry entry_ok
  by unfold_locales (simp_all add: parse_entry_iff)

lemma entry_texts_inj: "list_all entry_ok xs \<Longrightarrow> list_all entry_ok ys \<Longrightarrow> map entry_text xs = map entry_text ys \<Longrightarrow> ys = xs"
  by (rule map_inj_on [of entry_text]) (auto simp: list_all_iff inj_on_def entry_codec.enc_inj)

definition bytes_of :: "ManifestEntry list \<Rightarrow> nat" where
  "bytes_of es = sum_list (map me_bytes es)"

lemma bytes_of_simps [simp]:
  "bytes_of [] = 0" "bytes_of (e # es) = me_bytes e + bytes_of es" "bytes_of (xs @ ys) = bytes_of xs + bytes_of ys"
  by (simp_all add: bytes_of_def)

lemma parse_entry_lines_iff:
  "acc \<le> U64_MAX \<Longrightarrow> parse_entry_lines i acc ls = Inr (es, tot) \<longleftrightarrow>
     list_all entry_ok es \<and> ls = map entry_text es \<and> tot = acc + bytes_of es \<and> tot \<le> U64_MAX"
proof (induction ls arbitrary: i acc es)
  case (Cons l ls)
  show ?case
  proof (cases "parse_entry l")
    case None
    then have "l \<noteq> entry_text e" if "entry_ok e" for e using that by (metis parse_entry_iff option.distinct(1))
    then have "l # ls \<noteq> map entry_text es" if "list_all entry_ok es" using that by (cases es) auto
    then show ?thesis using None by auto
  next
    case (Some e)
    then have l: "entry_ok e" "l = entry_text e" by (simp_all add: parse_entry_iff)
    have head: "l # ls = map entry_text es \<and> list_all entry_ok es \<longleftrightarrow>
        (\<exists>es'. es = e # es' \<and> list_all entry_ok es' \<and> ls = map entry_text es')"
      using l entry_codec.enc_inj [of e] by (cases es) auto
    show ?thesis
    proof (cases "me_bytes e > U64_MAX - acc")
      case True
      then have "\<not> acc + bytes_of (e # es') \<le> U64_MAX" for es' using Cons.prems by simp
      then show ?thesis using Some True head by auto
    next
      case False
      then have "parse_entry_lines (i + 1) (acc + me_bytes e) ls = Inr (es', tot) \<longleftrightarrow>
          list_all entry_ok es' \<and> ls = map entry_text es' \<and> tot = acc + bytes_of (e # es') \<and> tot \<le> U64_MAX" for es'
        using Cons.IH [of "acc + me_bytes e" "i + 1" es'] Cons.prems by (simp add: add.assoc)
      moreover have "parse_entry_lines i acc (l # ls) = Inr (es, tot) \<longleftrightarrow>
          (\<exists>es'. es = e # es' \<and> parse_entry_lines (i + 1) (acc + me_bytes e) ls = Inr (es', tot))"
        using Some False by (auto split: sum.splits)
      ultimately show ?thesis using head by auto
    qed
  qed
qed auto

text \<open>Every entry of a manifest has the byte count its place allows.\<close>

fun shape_ok :: "ManifestKind \<Rightarrow> nat \<Rightarrow> ManifestEntry list \<Rightarrow> bool" where
  "shape_ok kind chunk [] \<longleftrightarrow> True"
| "shape_ok kind chunk (e # es) \<longleftrightarrow> entry_fits kind chunk (es = []) (me_bytes e) \<and> shape_ok kind chunk es"

lemma first_misfit_None [simp]: "first_misfit kind chunk i es = None \<longleftrightarrow> shape_ok kind chunk es"
  by (induction es arbitrary: i) auto

definition manifest_ok :: "Manifest \<Rightarrow> bool" where
  "manifest_ok m \<longleftrightarrow> mf_size m \<le> U64_MAX \<and> 1 \<le> mf_chunk m \<and> mf_chunk m \<le> MAX_CHUNK \<and>
     length (mf_entries m) \<le> MANIFEST_FANOUT \<and> list_all entry_ok (mf_entries m) \<and>
     bytes_of (mf_entries m) = mf_size m \<and> shape_ok (mf_kind m) (mf_chunk m) (mf_entries m) \<and>
     (mf_kind m = Index \<longrightarrow> mf_entries m \<noteq> [])"

lemma parse_body_iff:
  "parse_body n chunk kind ls = Inr m \<longleftrightarrow>
     mf_size m = n \<and> mf_chunk m = chunk \<and> mf_kind m = kind \<and> ls = map entry_text (mf_entries m) \<and>
     list_all entry_ok (mf_entries m) \<and> bytes_of (mf_entries m) = n \<and> n \<le> U64_MAX \<and>
     shape_ok kind chunk (mf_entries m) \<and> (kind = Index \<longrightarrow> mf_entries m \<noteq> [])"
proof (cases "parse_entry_lines 5 0 ls")
  case (Inl a)
  then have "parse_entry_lines 5 0 ls \<noteq> Inr (mf_entries m, bytes_of (mf_entries m))" by simp
  then show ?thesis using Inl unfolding parse_body_def by (subst (asm) parse_entry_lines_iff) auto
next
  case (Inr r)
  obtain es tot where r: "r = (es, tot)" by (metis surj_pair)
  then have e: "list_all entry_ok es" "ls = map entry_text es" "tot = bytes_of es" "tot \<le> U64_MAX"
    using Inr parse_entry_lines_iff [of 0 5 ls es tot] by auto
  have code: "parse_body n chunk kind ls = Inr m \<longleftrightarrow>
      tot = n \<and> shape_ok kind chunk es \<and> (kind = Index \<longrightarrow> es \<noteq> []) \<and>
      m = \<lparr>mf_size = n, mf_chunk = chunk, mf_kind = kind, mf_entries = es\<rparr>"
    using first_misfit_None [of kind chunk 0 es]
    by (cases "first_misfit kind chunk 0 es") (auto simp: parse_body_def Inr r simp del: first_misfit_None)
  have same: "ls = map entry_text (mf_entries m) \<and> list_all entry_ok (mf_entries m) \<longleftrightarrow> mf_entries m = es"
    using e(1,2) entry_texts_inj [OF e(1)] by auto
  show ?thesis unfolding code using same e(3,4) by (cases m) auto
qed

text \<open>Lines, each ended by a newline, and back.\<close>

definition unlines :: "string list \<Rightarrow> string" where
  "unlines ls = concat (map (\<lambda>l. l @ newline) ls)"

lemma unlines_simps [simp]: "unlines [] = []" "unlines (l # ls) = l @ CHR 0x0A # unlines ls"
  by (simp_all add: unlines_def)

lemma unlines_last: "ls \<noteq> [] \<Longrightarrow> last (unlines ls) = CHR 0x0A"
  by (cases ls rule: rev_cases) (auto simp: unlines_def)

lemma unlines_count: "list_all (\<lambda>l. CHR 0x0A \<notin> set l) ls \<Longrightarrow> count_list (unlines ls) (CHR 0x0A) = length ls"
  by (induction ls) auto

lemma split_on_unlines: "list_all (\<lambda>l. CHR 0x0A \<notin> set l) ls \<Longrightarrow> split_on (CHR 0x0A) (unlines ls) = ls @ [[]]"
  by (induction ls) (auto simp: split_on_append_sep)

lemma getlines_unlines: "list_all (\<lambda>l. CHR 0x0A \<notin> set l) ls \<Longrightarrow> getlines (CHR 0x0A) (unlines ls) = ls"
  by (cases ls) (simp_all add: getlines_def split_on_unlines del: unlines_simps(2) split_on_Cons, simp)

lemma lines_of_text:
  assumes "s \<noteq> []" "last s = CHR 0x0A"
  obtains ls where "s = unlines ls" "list_all (\<lambda>l. CHR 0x0A \<notin> set l) ls"
proof -
  have "\<exists>ls. s = unlines ls \<and> list_all (\<lambda>l. CHR 0x0A \<notin> set l) ls" using assms
  proof (induction "length s" arbitrary: s rule: less_induct)
    case less
    then have "CHR 0x0A \<in> set s" by (metis last_in_set)
    then obtain l rest where t: "s = l @ CHR 0x0A # rest" "CHR 0x0A \<notin> set l" by (metis split_list_first)
    show ?case
    proof (cases "rest = []")
      case True
      then show ?thesis using t by (intro exI [of _ "[l]"]) simp
    next
      case False
      then have "\<exists>ls. rest = unlines ls \<and> list_all (\<lambda>l. CHR 0x0A \<notin> set l) ls" using less t by simp
      then obtain ls where "rest = unlines ls" "list_all (\<lambda>l. CHR 0x0A \<notin> set l) ls" by blast
      then show ?thesis using t by (intro exI [of _ "l # ls"]) simp
    qed
  qed
  then show ?thesis using that by blast
qed

lemma manifest_lines_plain: "manifest_ok m \<Longrightarrow> list_all (\<lambda>l. CHR 0x0A \<notin> set l) (manifest_lines m)"
  by (auto simp: manifest_lines_def kind_line_def manifest_ok_def list_all_iff entry_text_def entry_ok_def split: ManifestKind.splits)

lemma format_unlines: "format_manifest m = unlines (manifest_lines m)"
  by (simp add: format_manifest_def unlines_def)

lemma first_five: "5 \<le> length ls \<Longrightarrow> ls = [ls ! 0, ls ! 1, ls ! 2, ls ! 3, ls ! 4] @ drop 5 ls"
  by (auto simp: Suc_le_length_iff eval_nat_numeral)

lemma manifest_exact_iff: "parse_manifest s = Inr m \<longleftrightarrow> manifest_ok m \<and> s = format_manifest m"
proof
  assume p: "parse_manifest s = Inr m"
  then have pre: "starts_with (''chordfs-manifest 1'' @ newline) s" "last s = CHR 0x0A"
    by (auto simp: parse_manifest_def Let_def split: if_splits)
  moreover from this have "s \<noteq> []" by (auto simp: starts_with_def)
  ultimately obtain ls where ls: "s = unlines ls" "list_all (\<lambda>l. CHR 0x0A \<notin> set l) ls"
    using lines_of_text by blast
  then have lines: "getlines (CHR 0x0A) s = ls" "count_list s (CHR 0x0A) = length ls"
    by (simp_all add: getlines_unlines unlines_count)
  have h: "5 \<le> length ls" "length ls \<le> 5 + MANIFEST_FANOUT" "ls ! 0 = ''chordfs-manifest 1''"
      "header_number (ls ! 1) ''size'' = Some (mf_size m)" "header_number (ls ! 2) ''chunk'' = Some (mf_chunk m)"
      "1 \<le> mf_chunk m" "mf_chunk m \<le> MAX_CHUNK" "parse_kind (ls ! 3) = Some (mf_kind m)"
      "header_number (ls ! 4) ''entries'' = Some (length ls - 5)"
      "parse_body (mf_size m) (mf_chunk m) (mf_kind m) (drop 5 ls) = Inr m"
    using p unfolding parse_manifest_def Let_def lines
    by (auto split: if_splits option.splits simp: parse_body_iff)
  note body = h(10) [unfolded parse_body_iff]
  have "ls = [ls ! 0, ls ! 1, ls ! 2, ls ! 3, ls ! 4] @ drop 5 ls" using h(1) by (rule first_five)
  moreover have "ls ! 3 = kind_line (mf_kind m)" using h(8) by (auto simp: parse_kind_def kind_line_def split: if_splits)
  moreover have len: "length ls - 5 = length (mf_entries m)" using body by (metis length_drop length_map)
  ultimately have "ls = manifest_lines m" using body h(3-5) h(9) [unfolded len]
    unfolding header_number_iff manifest_lines_def by simp
  then show "manifest_ok m \<and> s = format_manifest m"
    using body h(2,6,7) ls(1) len by (auto simp: manifest_ok_def format_unlines)
next
  assume m: "manifest_ok m \<and> s = format_manifest m"
  have lines: "getlines (CHR 0x0A) s = manifest_lines m" "count_list s (CHR 0x0A) = length (manifest_lines m)" "last s = CHR 0x0A"
    using m manifest_lines_plain [of m]
    by (simp_all add: format_unlines getlines_unlines unlines_count unlines_last) (simp add: manifest_lines_def unlines_last del: unlines_simps)
  have "parse_body (mf_size m) (mf_chunk m) (mf_kind m) (map entry_text (mf_entries m)) = Inr m"
    using m by (simp add: parse_body_iff manifest_ok_def)
  moreover have "parse_kind (kind_line k) = Some k" for k by (cases k) (simp_all add: parse_kind_def kind_line_def)
  moreover have "header_number (''size '' @ to_string (mf_size m)) ''size'' = Some (mf_size m)"
      "header_number (''chunk '' @ to_string (mf_chunk m)) ''chunk'' = Some (mf_chunk m)"
      "header_number (''entries '' @ to_string (length (mf_entries m))) ''entries'' = Some (length (mf_entries m))"
    using m by (auto simp: header_number_iff manifest_ok_def U64_MAX_def MAX_CHUNK_def MANIFEST_FANOUT_def)
  moreover have "starts_with (''chordfs-manifest 1'' @ newline) s"
    using m by (simp add: format_unlines manifest_lines_def starts_with_def)
  ultimately show "parse_manifest s = Inr m" using m
    unfolding parse_manifest_def Let_def lines by (simp add: manifest_lines_def manifest_ok_def del: append.simps)
qed

interpretation manifest_codec: strict_codec format_manifest "\<lambda>s. case parse_manifest s of Inl _ \<Rightarrow> None | Inr m \<Rightarrow> Some m" manifest_ok
  by unfold_locales (auto simp: manifest_exact_iff split: sum.splits, metis Inl_Inr_False manifest_exact_iff, metis Inr_inject manifest_exact_iff)

text \<open>
  C22. A manifest has one spelling: the reader accepts a text as a manifest just when that manifest is well
  formed and the text is what the writer writes for it, byte for byte.
\<close>

theorem manifest_exact: "parse_manifest s = Inr m \<longleftrightarrow> manifest_ok m \<and> s = format_manifest m"
  by (rule manifest_exact_iff)

end
