(* ===== verification/Manifest_Tree.thy ===== *)
theory Manifest_Tree
  imports Manifest_Text "HOL-Library.Multiset"
begin

text \<open>
  The tree of manifests over a file: the chunks of a file that resolved tile it, the depth of a
  tree is the least that holds its chunks, and a tree built over a file's chunks resolves to
  exactly those chunks.
\<close>

section \<open>The chunks of a resolved file tile it\<close>

text \<open>A run of \<open>b\<close> bytes from \<open>start\<close> on, cut into chunks: offset and length of each.\<close>

definition tiles :: "nat \<Rightarrow> nat \<Rightarrow> nat \<Rightarrow> (nat \<times> nat) list" where
  "tiles chunk start b = map (\<lambda>i. (start + i * chunk, min chunk (b - i * chunk))) [0..<(b + chunk - 1) div chunk]"

lemma tiles_zero [simp]: "tiles chunk start 0 = []"
  by (cases chunk) (simp_all add: tiles_def)

lemma tiles_one: "1 \<le> b \<Longrightarrow> b \<le> chunk \<Longrightarrow> tiles chunk start b = [(start, b)]"
proof -
  assume b: "1 \<le> b" "b \<le> chunk"
  then have "(b + chunk - 1) div chunk = 1" by (intro div_nat_eqI) auto
  then show ?thesis using b by (simp add: tiles_def)
qed

lemma tiles_append:
  assumes "0 < chunk" "chunk dvd a"
  shows "tiles chunk start (a + b) = tiles chunk start a @ tiles chunk (start + a) b"
proof -
  obtain k where k: "a = k * chunk" using assms(2) by (metis dvd_def mult.commute)
  have e: "a + chunk - 1 = k * chunk + (chunk - 1)" "a + b + chunk - 1 = k * chunk + (b + chunk - 1)" using assms(1) k by simp_all
  have "(k * chunk + (chunk - 1)) div chunk = k" by (subst div_mult_self3) (use assms(1) in simp_all)
  moreover have "(k * chunk + (b + chunk - 1)) div chunk = k + (b + chunk - 1) div chunk"
    by (rule div_mult_self3) (use assms(1) in simp)
  ultimately have n: "(a + chunk - 1) div chunk = k" "(a + b + chunk - 1) div chunk = k + (b + chunk - 1) div chunk"
    unfolding e by fast+
  have "[0..<k + j] = [0..<k] @ map ((+) k) [0..<j]" for j by (induction j) simp_all
  then have "tiles chunk start (a + b) =
      map (\<lambda>i. (start + i * chunk, min chunk (a + b - i * chunk))) [0..<k] @
      map (\<lambda>i. (start + (k + i) * chunk, min chunk (a + b - (k + i) * chunk))) [0..<(b + chunk - 1) div chunk]"
    unfolding tiles_def n(2) by (simp add: comp_def)
  also have "map (\<lambda>i. (start + i * chunk, min chunk (a + b - i * chunk))) [0..<k] = tiles chunk start a"
  proof -
    have "min chunk (a + b - i * chunk) = min chunk (a - i * chunk)" if "i < k" for i
    proof -
      have "(i + 1) * chunk \<le> a" using that unfolding k by (intro mult_le_mono1) simp
      then show ?thesis by simp
    qed
    then show ?thesis unfolding tiles_def n(1) by simp
  qed
  also have "map (\<lambda>i. (start + (k + i) * chunk, min chunk (a + b - (k + i) * chunk))) [0..<(b + chunk - 1) div chunk] =
      tiles chunk (start + a) b"
    by (simp add: tiles_def k algebra_simps)
  finally show ?thesis .
qed

lemma wrap64_id [simp]: "n \<le> U64_MAX \<Longrightarrow> wrap64 n = n"
  by (simp add: wrap64_def)

lemma fits_multiple: "entry_fits kind chunk False b \<Longrightarrow> chunk dvd b"
  by (auto simp: entry_fits_def split: ManifestKind.splits)

lemma place_tiles:
  assumes "0 < chunk"
  shows "shape_ok kind chunk es \<Longrightarrow> start + bytes_of es \<le> U64_MAX \<Longrightarrow>
    concat (map (\<lambda>(k, ofs, b). tiles chunk ofs b) (place start es)) = tiles chunk start (bytes_of es)"
proof (induction es arbitrary: start)
  case (Cons e es)
  then have IH: "concat (map (\<lambda>(k, ofs, b). tiles chunk ofs b) (place (start + me_bytes e) es)) =
      tiles chunk (start + me_bytes e) (bytes_of es)" by (simp add: add.assoc)
  show ?case
  proof (cases "es = []")
    case True
    then show ?thesis by simp
  next
    case False
    then have "chunk dvd me_bytes e" using Cons.prems(1) by (auto intro: fits_multiple)
    then show ?thesis using Cons.prems(2) IH assms by (simp add: tiles_append)
  qed
qed simp

lemma place_data:
  "shape_ok Data chunk es \<Longrightarrow> 0 < chunk \<Longrightarrow> x \<in> set (place start es) \<Longrightarrow> 1 \<le> snd (snd x) \<and> snd (snd x) \<le> chunk"
  by (induction es arbitrary: start) (auto simp: entry_fits_def split: if_splits)

lemma place_data_tiles:
  assumes "0 < chunk" "shape_ok Data chunk es" "start + bytes_of es \<le> U64_MAX"
  shows "map snd (place start es) = tiles chunk start (bytes_of es)"
proof -
  have "tiles chunk ofs b = [(ofs, b)]" if "(k, ofs, b) \<in> set (place start es)" for k ofs b
    using place_data [OF assms(2,1) that] by (intro tiles_one) auto
  then have "concat (map (\<lambda>(k, ofs, b). tiles chunk ofs b) (place start es)) = concat (map (\<lambda>x. [snd x]) (place start es))"
    by (intro arg_cong [where f = concat] map_cong) auto
  then show ?thesis using place_tiles [OF assms] by (simp add: concat_map_singleton)
qed

text \<open>One manifest that was read, and what it left in the result.\<close>

lemma resolve_one_ok:
  assumes "resolve_one get attempts depth p (r, todo) w = ((True, r', todo'), w')"
  obtains m and g :: GetOutcome and r1 where "manifest_ok m" "depth \<le> MAX_MANIFEST_DEPTH" "go_ok g" "go_body g = format_manifest m"
    "depth \<noteq> 1 \<longrightarrow> mf_size m = pn_bytes p \<and> mf_chunk m = rs_chunk r"
    "rs_size r1 = (if depth = 1 then mf_size m else rs_size r)" "rs_chunk r1 = mf_chunk m"
    "rs_chunks r1 = rs_chunks r" "rs_depth r1 = max (rs_depth r) depth" "rs_ok r1 = rs_ok r"
    "(r', todo') = add_entries m (pn_offset p) r1 todo"
proof -
  obtain g used w1 where g: "get_attempts get (pn_key p) attempts (\<lambda>_. False) 1 w = ((g, used), w1)" by (metis surj_pair)
  obtain m where m: "go_ok g" "parse_manifest (go_body g) = Inr m" and d: "depth \<le> MAX_MANIFEST_DEPTH"
    using assms g by (auto simp: resolve_one_def split: if_splits sum.splits)
  let ?r = "r\<lparr>rs_manifests := rs_manifests r + 1, rs_manifest_keys := rs_manifest_keys r @ [pn_key p]\<rparr>"
  let ?r = "if depth = 1 then ?r\<lparr>rs_size := mf_size m, rs_chunk := mf_chunk m\<rparr> else ?r"
  have fit: "depth \<noteq> 1 \<longrightarrow> mf_size m = pn_bytes p \<and> mf_chunk m = rs_chunk r"
    and res: "(r', todo') = add_entries m (pn_offset p) (?r\<lparr>rs_depth := max (rs_depth ?r) depth\<rparr>) todo"
    using assms g m d by (auto simp: resolve_one_def Let_def split: if_splits)
  show ?thesis
  proof (rule that [OF _ d m(1) _ fit _ _ _ _ _ res])
    show "manifest_ok m" "go_body g = format_manifest m" using m(2) by (simp_all add: manifest_exact_iff)
  qed (use fit in auto)
qed

abbreviation chunk_spans :: "Resolved \<Rightarrow> (nat \<times> nat) list" where
  "chunk_spans r \<equiv> map (\<lambda>c. (cr_offset c, cr_bytes c)) (rs_chunks r)"

definition todo_spans :: "nat \<Rightarrow> Pending list \<Rightarrow> (nat \<times> nat) list" where
  "todo_spans chunk todo = concat (map (\<lambda>p. tiles chunk (pn_offset p) (pn_bytes p)) todo)"

lemma todo_spans_append: "todo_spans chunk (xs @ ys) = todo_spans chunk xs @ todo_spans chunk ys"
  by (simp add: todo_spans_def)

definition in_range :: "Pending \<Rightarrow> bool" where
  "in_range p \<longleftrightarrow> pn_offset p + pn_bytes p \<le> U64_MAX"

lemma place_in_range: "start + bytes_of es \<le> U64_MAX \<Longrightarrow> (k, ofs, b) \<in> set (place start es) \<Longrightarrow> ofs + b \<le> U64_MAX"
  by (induction es arbitrary: start) (auto simp flip: add.assoc)

lemma add_entries_spans:
  assumes "manifest_ok m" "start + mf_size m \<le> U64_MAX" "add_entries m start r todo = (r', todo')"
    "list_all in_range todo"
  shows "mset (chunk_spans r') + mset (todo_spans (mf_chunk m) todo') =
      mset (chunk_spans r) + mset (todo_spans (mf_chunk m) todo) + mset (tiles (mf_chunk m) start (mf_size m))"
    and "list_all in_range todo'" "rs_size r' = rs_size r" "rs_chunk r' = rs_chunk r" "rs_depth r' = rs_depth r"
proof -
  note ok = assms(1) [unfolded manifest_ok_def]
  let ?c = "mf_chunk m" and ?p = "place start (mf_entries m)"
  have c: "0 < ?c" and size: "bytes_of (mf_entries m) = mf_size m" using ok by auto
  have data: "map snd ?p = tiles ?c start (mf_size m)" if "mf_kind m = Data"
    using that ok place_data_tiles [of ?c "mf_entries m" start] assms(2) by simp
  have refs: "map (\<lambda>c. (cr_offset c, cr_bytes c)) (map (\<lambda>(k, ofs, b). \<lparr>cr_key = k, cr_offset = ofs, cr_bytes = b\<rparr>) ?p) = map snd ?p"
    by (simp add: case_prod_beta')
  have index: "todo_spans ?c (map (\<lambda>(k, ofs, b). \<lparr>pn_key = k, pn_offset = ofs, pn_bytes = b\<rparr>) ?p) = tiles ?c start (mf_size m)"
    using place_tiles [OF c, of "mf_kind m" "mf_entries m" start] ok assms(2)
    by (auto simp: todo_spans_def comp_def case_prod_beta')
  show "mset (chunk_spans r') + mset (todo_spans ?c todo') =
      mset (chunk_spans r) + mset (todo_spans ?c todo) + mset (tiles ?c start (mf_size m))"
  proof (cases "mf_kind m")
    case Data
    then show ?thesis using assms(3) refs data by (auto simp: add_entries_def simp del: mset_map)
  next
    case Index
    then show ?thesis using assms(3) by (auto simp: add_entries_def todo_spans_append simp flip: index)
  qed
  show "list_all in_range todo'"
    using assms(2-4) size place_in_range [of start "mf_entries m"]
    by (cases "mf_kind m") (auto simp: add_entries_def list_all_iff in_range_def)
  show "rs_size r' = rs_size r" "rs_chunk r' = rs_chunk r" "rs_depth r' = rs_depth r"
    using assms(3) by (auto simp: add_entries_def split: ManifestKind.splits)
qed

lemma resolve_level_spans:
  assumes "resolve_level get attempts depth ps (r, todo) w = ((True, r', todo'), w')"
    "depth \<noteq> 1" "list_all in_range ps" "list_all in_range todo"
  shows "mset (chunk_spans r') + mset (todo_spans (rs_chunk r) todo') =
      mset (chunk_spans r) + mset (todo_spans (rs_chunk r) todo) + mset (todo_spans (rs_chunk r) ps) \<and>
    list_all in_range todo' \<and> rs_size r' = rs_size r \<and> rs_chunk r' = rs_chunk r"
  using assms
proof (induction ps arbitrary: r todo w)
  case (Cons p ps)
  obtain r1 todo1 w1 where one: "resolve_one get attempts depth p (r, todo) w = ((True, r1, todo1), w1)"
    and rest: "resolve_level get attempts depth ps (r1, todo1) w1 = ((True, r', todo'), w')"
    using Cons.prems(1) by (auto split: prod.splits bool.splits)
  from one obtain m r0 where m: "manifest_ok m" "mf_size m = pn_bytes p" "mf_chunk m = rs_chunk r"
      "rs_size r0 = rs_size r" "rs_chunk r0 = rs_chunk r" "rs_chunks r0 = rs_chunks r"
      "(r1, todo1) = add_entries m (pn_offset p) r0 todo"
    using Cons.prems(2) by (elim resolve_one_ok) auto
  have "pn_offset p + mf_size m \<le> U64_MAX" using Cons.prems(3) m(2) by (simp add: in_range_def)
  note add = add_entries_spans [OF m(1) this m(7) [symmetric] Cons.prems(4)]
  then have "mset (chunk_spans r') + mset (todo_spans (rs_chunk r) todo') =
      mset (chunk_spans r1) + mset (todo_spans (rs_chunk r) todo1) + mset (todo_spans (rs_chunk r) ps) \<and>
      list_all in_range todo' \<and> rs_size r' = rs_size r1 \<and> rs_chunk r' = rs_chunk r1"
    using Cons.IH [OF rest Cons.prems(2)] Cons.prems(3) m(5) by simp
  then show ?case using add m by (simp add: todo_spans_def)
qed (simp add: todo_spans_def)

lemma resolve_level_not_ok:
  "resolve_level get attempts depth ps (r, todo) w = ((go, r', todo'), w') \<Longrightarrow> rs_ok r' = rs_ok r"
proof (induction ps arbitrary: r todo w)
  case (Cons p ps)
  obtain go1 r1 todo1 w1 where one: "resolve_one get attempts depth p (r, todo) w = ((go1, r1, todo1), w1)" by (metis surj_pair)
  then have "rs_ok r1 = rs_ok r"
    by (auto simp: resolve_one_def resolve_fail_def Let_def add_entries_def split: if_splits prod.splits sum.splits ManifestKind.splits)
  then show ?case using Cons one by (cases go1) auto
qed simp

lemma resolve_levels_spans:
  assumes "resolve_levels get attempts depth level r w = (r', w')" "rs_ok r'" "\<not> rs_ok r" "1 < depth" "list_all in_range level"
  shows "mset (chunk_spans r') = mset (chunk_spans r) + mset (todo_spans (rs_chunk r) level) \<and>
    rs_size r' = rs_size r \<and> rs_chunk r' = rs_chunk r"
  using assms
proof (induction get attempts depth level r w rule: resolve_levels.induct)
  case (1 get attempts depth level r w)
  show ?case
  proof (cases "level = []")
    case True
    then show ?thesis using "1.prems" by (auto simp: resolve_levels.simps todo_spans_def)
  next
    case False
    obtain go r1 todo w1 where lev: "resolve_level get attempts depth level (r, []) w = ((go, r1, todo), w1)" by (metis surj_pair)
    have nok: "\<not> rs_ok r1" using resolve_level_not_ok [OF lev] "1.prems"(3) by simp
    then have g: "go" "depth \<le> MAX_MANIFEST_DEPTH" and rest: "resolve_levels get attempts (depth + 1) todo r1 w1 = (r', w')"
      using "1.prems"(1,2) False lev by (auto simp: resolve_levels.simps [of _ _ depth] split: bool.splits if_splits)
    note step = resolve_level_spans [OF lev [unfolded g(1) [THEN eqTrueI]] _ "1.prems"(5)]
    have "mset (chunk_spans r') = mset (chunk_spans r1) + mset (todo_spans (rs_chunk r1) todo) \<and>
        rs_size r' = rs_size r1 \<and> rs_chunk r' = rs_chunk r1"
      using "1.IH" [OF False lev [symmetric] refl] g nok rest "1.prems"(2) step "1.prems"(4)
      by (simp add: not_less del: mset_map)
    then show ?thesis using step "1.prems"(4) by (simp add: todo_spans_def)
  qed
qed

lemma resolved_spans:
  assumes "resolve_manifest get root attempts w = (r, w')" "rs_ok r"
  shows "mset (map (\<lambda>c. (cr_offset c, cr_bytes c)) (rs_chunks r)) = mset (tiles (rs_chunk r) 0 (rs_size r)) \<and>
    1 \<le> rs_chunk r \<and> rs_chunk r \<le> MAX_CHUNK \<and> rs_size r \<le> U64_MAX"
proof -
  let ?p = "\<lparr>pn_key = root, pn_offset = 0, pn_bytes = 0\<rparr>"
  obtain r0 where levels: "resolve_levels get attempts 1 [?p] r0 w = (r, w')" and r0: "\<not> rs_ok r0" "rs_chunks r0 = []"
    using assms by (auto simp: resolve_manifest_def Let_def resolve_fail_def split: if_splits)
  obtain go r1 todo w1 where lev: "resolve_level get attempts 1 [?p] (r0, []) w = ((go, r1, todo), w1)" by (metis surj_pair)
  have nok: "\<not> rs_ok r1" using resolve_level_not_ok [OF lev] r0(1) by simp
  have "(r, w') = (case ((go, r1, todo), w1) of ((False, r, _), w) \<Rightarrow> (r, w) | ((True, r, todo), w) \<Rightarrow>
      if 1 > MAX_MANIFEST_DEPTH then (r, w) else resolve_levels get attempts (1 + 1) todo r w)"
    unfolding lev [symmetric] levels [symmetric] by (subst resolve_levels.simps) simp
  then have go: go and rest: "resolve_levels get attempts (1 + 1) todo r1 w1 = (r, w')"
    using nok assms(2) by (auto split: bool.splits if_splits)
  have "resolve_one get attempts 1 ?p (r0, []) w = ((True, r1, todo), w1)" using lev go by (auto split: prod.splits bool.splits)
  then obtain m r2 where m: "manifest_ok m" "rs_size r2 = mf_size m" "rs_chunk r2 = mf_chunk m" "rs_chunks r2 = []"
      "(r1, todo) = add_entries m 0 r2 []"
    using r0 by (elim resolve_one_ok) auto
  have "0 + mf_size m \<le> U64_MAX" using m(1) by (simp add: manifest_ok_def)
  from add_entries_spans [OF m(1) this m(5) [symmetric]]
  have add: "mset (chunk_spans r1) + mset (todo_spans (mf_chunk m) todo) = mset (tiles (mf_chunk m) 0 (mf_size m))"
      "list_all in_range todo" "rs_size r1 = mf_size m" "rs_chunk r1 = mf_chunk m"
    using m(2-4) by (simp_all add: todo_spans_def)
  show ?thesis using resolve_levels_spans [OF rest assms(2) nok _ add(2)] add m(1) by (simp add: manifest_ok_def)
qed

text \<open>
  C21. A file that resolved is tiled by its chunks: whatever the network answered, the chunks listed
  are those of offsets \<open>0\<close>, \<open>chunk\<close>, \<open>2 * chunk\<close> and so on up to the size in the root, each once and each full
  except the one at the end, so that no byte is written twice, none is left out and no offset wraps.
\<close>

theorem resolve_tiles:
  assumes "resolve_manifest get root attempts w = (r, w')" "rs_ok r"
  shows "mset (map (\<lambda>c. (cr_offset c, cr_bytes c)) (rs_chunks r)) = mset (tiles (rs_chunk r) 0 (rs_size r)) \<and>
    1 \<le> rs_chunk r \<and> rs_chunk r \<le> MAX_CHUNK \<and> rs_size r \<le> U64_MAX"
  by (rule resolved_spans [OF assms])

section \<open>The tree over a file\<close>

lemma cut_level_Cons: "xs \<noteq> [] \<Longrightarrow> 0 < n \<Longrightarrow> cut_level n xs = take n xs # cut_level n (drop n xs)"
  by (subst cut_level.simps) simp

lemma cut_level_Nil [simp]: "cut_level n [] = []"
  by (subst cut_level.simps) simp

lemma cut_level_induct [consumes 1, case_names Nil Cons]:
  assumes "0 < n" "P []" "\<And>xs. 0 < n \<Longrightarrow> xs \<noteq> [] \<Longrightarrow> P (drop n xs) \<Longrightarrow> P xs"
  shows "P xs"
  using assms by (induction xs rule: length_induct) (metis diff_less length_drop length_greater_0_conv)

lemma concat_cut_level: "0 < n \<Longrightarrow> concat (cut_level n xs) = xs"
  by (induction xs rule: cut_level_induct) (simp_all add: cut_level_Cons)

lemma cut_level_parts: "0 < n \<Longrightarrow> p \<in> set (cut_level n xs) \<Longrightarrow> p \<noteq> [] \<and> length p \<le> n"
  by (induction xs rule: cut_level_induct) (auto simp: cut_level_Cons)

lemma cut_level_length_le: "0 < n \<Longrightarrow> length (cut_level n xs) \<le> k \<longleftrightarrow> length xs \<le> k * n"
proof (induction xs arbitrary: k rule: cut_level_induct)
  case (Cons xs)
  show ?case
  proof (cases k)
    case (Suc j)
    then show ?thesis using Cons.hyps Cons.IH [of j] by (simp add: cut_level_Cons le_diff_conv add.commute)
  qed (simp add: cut_level_Cons Cons.hyps)
qed simp

text \<open>The depth is the least that holds the chunks: \<open>fanout ^ depth\<close> of them.\<close>

lemma build_levels_deeper: "mt_depth tree < mt_depth (build_levels P n chunk fanout kind level tree)"
proof (induction P n chunk fanout kind level tree rule: build_levels.induct)
  case (1 P n chunk fanout kind level tree)
  show ?case using "1.IH" [OF refl refl] by (subst build_levels.simps) (auto simp: Let_def)
qed

lemma build_levels_depth:
  "2 \<le> fanout \<Longrightarrow> mt_depth (build_levels P n chunk fanout kind level tree) \<le> mt_depth tree + Suc d \<longleftrightarrow>
     length level \<le> fanout ^ Suc d"
proof (induction P n chunk fanout kind level tree arbitrary: d rule: build_levels.induct)
  case (1 P n chunk fanout kind level tree)
  have f: "max 2 fanout = fanout" using "1.prems" by simp
  show ?case
  proof (cases "length level \<le> fanout")
    case True
    also have "fanout \<le> fanout * fanout ^ d" using mult_le_mono2 [of 1 "fanout ^ d" fanout] "1.prems" by simp
    finally have "length level \<le> fanout ^ Suc d" by simp
    then show ?thesis using True by (subst build_levels.simps) (simp add: f Let_def)
  next
    case False
    let ?t = "build_levels P n chunk fanout Index (map (part_entry P chunk kind) (cut_level fanout level))
        (tree\<lparr>mt_depth := mt_depth tree + 1, mt_blobs := mt_blobs tree @ map (format_manifest \<circ> part_manifest chunk kind) (cut_level fanout level)\<rparr>)"
    have step: "build_levels P n chunk fanout kind level tree = ?t" using False by (subst build_levels.simps) (simp add: f Let_def)
    have IH: "mt_depth ?t \<le> mt_depth tree + 1 + Suc d \<longleftrightarrow> length (cut_level fanout level) \<le> fanout ^ Suc d" for d
      using "1.IH" [OF refl refl, of d] False "1.prems" by (simp add: f Let_def)
    show ?thesis
    proof (cases d)
      case 0
      have "mt_depth tree + 1 < mt_depth ?t" by (rule le_less_trans [OF _ build_levels_deeper]) simp
      then show ?thesis using step False 0 by simp
    next
      case (Suc e)
      then show ?thesis using step IH [of e] cut_level_length_le [of fanout level "fanout ^ Suc e"] "1.prems"
        by (simp add: mult.commute)
    qed
  qed
qed

text \<open>A level of the tree: its entries are well formed, have the right sizes and add up within 64 bits.\<close>

definition level_ok :: "ManifestKind \<Rightarrow> nat \<Rightarrow> ManifestEntry list \<Rightarrow> bool" where
  "level_ok kind chunk es \<longleftrightarrow> list_all entry_ok es \<and> shape_ok kind chunk es \<and> bytes_of es \<le> U64_MAX"

lemma fits_final: "entry_fits kind chunk False b \<Longrightarrow> 0 < chunk \<Longrightarrow> entry_fits kind chunk True b"
  by (auto simp: entry_fits_def split: ManifestKind.splits)

lemma fits_positive: "entry_fits kind chunk final b \<Longrightarrow> 0 < chunk \<Longrightarrow> 1 \<le> b"
  by (auto simp: entry_fits_def split: ManifestKind.splits if_splits)

lemma shape_ok_append:
  "shape_ok kind chunk (xs @ ys) \<Longrightarrow> 0 < chunk \<Longrightarrow>
     shape_ok kind chunk xs \<and> shape_ok kind chunk ys \<and> (ys \<noteq> [] \<longrightarrow> chunk dvd bytes_of xs)"
proof (induction xs)
  case (Cons x xs)
  then show ?case by (cases "ys = []"; cases "xs = []") (auto intro: fits_final fits_multiple dvd_add)
qed simp

lemma shape_ok_positive: "shape_ok kind chunk es \<Longrightarrow> 0 < chunk \<Longrightarrow> es \<noteq> [] \<Longrightarrow> 1 \<le> bytes_of es"
  by (cases es) (auto dest: fits_positive)

lemma level_ok_append: "level_ok kind chunk (xs @ ys) \<Longrightarrow> 0 < chunk \<Longrightarrow> level_ok kind chunk xs \<and> level_ok kind chunk ys"
  using shape_ok_append [of kind chunk xs ys] by (auto simp: level_ok_def)

lemma part_size: "bytes_of es \<le> U64_MAX \<Longrightarrow> mf_size (part_manifest chunk kind es) = bytes_of es"
proof -
  have "n + bytes_of es \<le> U64_MAX \<Longrightarrow> fold (\<lambda>e n. wrap64 (n + me_bytes e)) es n = n + bytes_of es" for n
    by (induction es arbitrary: n) (auto simp: add.assoc)
  then show "bytes_of es \<le> U64_MAX \<Longrightarrow> ?thesis" by (simp add: part_manifest_def)
qed

lemma part_fields [simp]:
  "mf_entries (part_manifest chunk kind es) = es" "mf_chunk (part_manifest chunk kind es) = chunk"
  "mf_kind (part_manifest chunk kind es) = kind"
  by (simp_all add: part_manifest_def)

lemma part_manifest_ok:
  assumes "level_ok kind chunk es" "es \<noteq> []" "length es \<le> MANIFEST_FANOUT" "1 \<le> chunk" "chunk \<le> MAX_CHUNK"
  shows "manifest_ok (part_manifest chunk kind es)"
proof -
  have "mf_size (part_manifest chunk kind es) = bytes_of es" using assms(1) by (simp add: part_size level_ok_def)
  then show ?thesis using assms by (simp add: manifest_ok_def level_ok_def)
qed

lemma parts_level_ok:
  assumes "platform_ok P" "0 < chunk" "0 < fanout"
  shows "level_ok kind chunk es \<Longrightarrow> level_ok Index chunk (map (part_entry P chunk kind) (cut_level fanout es)) \<and>
    bytes_of (map (part_entry P chunk kind) (cut_level fanout es)) = bytes_of es \<and>
    list_all (level_ok kind chunk) (cut_level fanout es)"
  using assms(3)
proof (induction es rule: cut_level_induct)
  case (Cons es)
  let ?x = "take fanout es" and ?y = "drop fanout es"
  have lv: "level_ok kind chunk (?x @ ?y)" using Cons.prems by simp
  have x: "level_ok kind chunk ?x" and y: "level_ok kind chunk ?y" using level_ok_append [OF lv assms(2)] by simp_all
  have nil: "cut_level fanout ?y = [] \<longleftrightarrow> ?y = []" using assms(3) by (cases "?y = []") (simp_all add: cut_level_Cons)
  have e: "part_entry P chunk kind ?x = \<lparr>me_key = chunk_key P (format_manifest (part_manifest chunk kind ?x)), me_bytes = bytes_of ?x\<rparr>"
    using x by (simp add: part_entry_def part_size level_ok_def)
  have bytes: "bytes_of es = bytes_of ?x + bytes_of ?y" by (metis append_take_drop_id bytes_of_simps(3))
  have dvd: "?y \<noteq> [] \<longrightarrow> chunk dvd bytes_of ?x" and pos: "1 \<le> bytes_of ?x"
    using shape_ok_append [of kind chunk ?x ?y] shape_ok_positive [of kind chunk ?x] lv x Cons.hyps assms(2)
    by (auto simp: level_ok_def)
  have parts: "cut_level fanout es = ?x # cut_level fanout ?y" using Cons.hyps by (simp add: cut_level_Cons)
  have fit: "entry_ok (part_entry P chunk kind ?x)" "entry_fits Index chunk (?y = []) (me_bytes (part_entry P chunk kind ?x))"
      "me_bytes (part_entry P chunk kind ?x) = bytes_of ?x"
    using x dvd pos assms(1) unfolding e by (auto simp: level_ok_def entry_ok_def valid_chunk_key entry_fits_def)
  have "bytes_of es \<le> U64_MAX" using Cons.prems by (simp add: level_ok_def)
  then show ?case using Cons.IH [OF y] fit bytes nil x unfolding parts level_ok_def by simp
qed (simp add: level_ok_def)

section \<open>What was built resolves\<close>

text \<open>While \<open>I\<close> holds of the world, which fetching does not end, every blob of \<open>bs\<close> can be fetched under its key.\<close>

definition serves :: "platform \<Rightarrow> 'w get_fn \<Rightarrow> ('w \<Rightarrow> bool) \<Rightarrow> string set \<Rightarrow> bool" where
  "serves P get I bs \<longleftrightarrow>
     (\<forall>w key. I w \<longrightarrow> I (snd (get w key))) \<and>
     (\<forall>w. I w \<longrightarrow> (\<forall>b\<in>bs. go_ok (fst (get w (chunk_key P b))) \<and> go_body (fst (get w (chunk_key P b))) = b))"

abbreviation refs :: "nat \<Rightarrow> ManifestEntry list \<Rightarrow> ChunkRef list" where
  "refs start es \<equiv> map (\<lambda>(k, ofs, b). \<lparr>cr_key = k, cr_offset = ofs, cr_bytes = b\<rparr>) (place start es)"

abbreviation pends :: "nat \<Rightarrow> ManifestEntry list \<Rightarrow> Pending list" where
  "pends start es \<equiv> map (\<lambda>(k, ofs, b). \<lparr>pn_key = k, pn_offset = ofs, pn_bytes = b\<rparr>) (place start es)"

lemma place_append:
  "start + bytes_of (xs @ ys) \<le> U64_MAX \<Longrightarrow> place start (xs @ ys) = place start xs @ place (start + bytes_of xs) ys"
  by (induction xs arbitrary: start) (auto simp: add.assoc)

lemma get_attempts_served:
  assumes "serves P get I bs" "b \<in> bs" "I w"
  obtains g w' where "get_attempts get (chunk_key P b) attempts stop 1 w = ((g, 1), w')" "go_ok g" "go_body g = b" "I w'"
proof -
  obtain g w' where g: "get w (chunk_key P b) = (g, w')" by (metis surj_pair)
  then have "go_ok g" "go_body g = b" "I w'" using assms unfolding serves_def by (metis fst_conv snd_conv)+
  moreover from this g have "get_attempts get (chunk_key P b) attempts stop 1 w = ((g, 1), w')"
    by (subst get_attempts.simps) simp
  ultimately show ?thesis using that by blast
qed

text \<open>A served manifest is read: the result it leaves.\<close>

definition note_manifest :: "string \<Rightarrow> nat \<Rightarrow> Manifest \<Rightarrow> Resolved \<Rightarrow> Resolved" where
  "note_manifest key depth m r =
     r\<lparr>rs_size := (if depth = 1 then mf_size m else rs_size r), rs_chunk := (if depth = 1 then mf_chunk m else rs_chunk r),
       rs_manifests := rs_manifests r + 1, rs_manifest_keys := rs_manifest_keys r @ [key], rs_depth := max (rs_depth r) depth\<rparr>"

lemma resolve_one_served:
  assumes "serves P get I bs" "format_manifest m \<in> bs" "I w" "manifest_ok m" "depth \<le> MAX_MANIFEST_DEPTH"
    "pn_key p = chunk_key P (format_manifest m)" "depth \<noteq> 1 \<longrightarrow> mf_size m = pn_bytes p \<and> mf_chunk m = rs_chunk r"
  obtains w' where "resolve_one get attempts depth p (r, todo) w =
    ((True, add_entries m (pn_offset p) (note_manifest (pn_key p) depth m r) todo), w')" "I w'"
proof -
  obtain g w' where g: "get_attempts get (pn_key p) attempts (\<lambda>_. False) 1 w = ((g, 1), w')" "go_ok g" "go_body g = format_manifest m" "I w'"
    using get_attempts_served [OF assms(1-3)] assms(6) by metis
  then have "parse_manifest (go_body g) = Inr m" using assms(4) by (simp add: manifest_exact_iff)
  then show ?thesis using g assms(5,7) that [of w']
    by (cases r; cases "depth = 1") (simp_all add: resolve_one_def note_manifest_def Let_def not_less)
qed

text \<open>All the manifests over the parts of a level are read, one after the other.\<close>

definition read_parts :: "platform \<Rightarrow> nat \<Rightarrow> ManifestKind \<Rightarrow> nat \<Rightarrow> nat \<Rightarrow> ManifestEntry list list \<Rightarrow> Resolved \<Rightarrow> Resolved" where
  "read_parts P chunk kind depth start parts r =
     r\<lparr>rs_chunks := rs_chunks r @ (if kind = Data then refs start (concat parts) else []),
       rs_depth := (if parts = [] then rs_depth r else max (rs_depth r) depth), rs_manifests := rs_manifests r + length parts,
       rs_manifest_keys := rs_manifest_keys r @ map (\<lambda>p. chunk_key P (format_manifest (part_manifest chunk kind p))) parts\<rparr>"

lemma resolve_level_served:
  assumes "serves P get I bs" "depth \<noteq> 1" "depth \<le> MAX_MANIFEST_DEPTH"
  shows "I w \<Longrightarrow> list_all (\<lambda>p. format_manifest (part_manifest chunk kind p) \<in> bs \<and> manifest_ok (part_manifest chunk kind p)) parts \<Longrightarrow>
    start + bytes_of (concat parts) \<le> U64_MAX \<Longrightarrow> rs_chunk r = chunk \<Longrightarrow>
    \<exists>w'. I w' \<and> resolve_level get attempts depth (pends start (map (part_entry P chunk kind) parts)) (r, todo) w =
      ((True, read_parts P chunk kind depth start parts r, todo @ (if kind = Index then pends start (concat parts) else [])), w')"
proof (induction parts arbitrary: start r todo w)
  case Nil
  then show ?case by (simp add: read_parts_def)
next
  case (Cons es parts)
  let ?m = "part_manifest chunk kind es"
  let ?p = "\<lparr>pn_key = chunk_key P (format_manifest ?m), pn_offset = start, pn_bytes = mf_size ?m\<rparr>"
  let ?r = "read_parts P chunk kind depth start [es] r"
    and ?todo = "todo @ (if kind = Index then pends start es else [])"
  have m: "format_manifest ?m \<in> bs" "manifest_ok ?m" using Cons.prems(2) by simp_all
  have size: "mf_size ?m = bytes_of es" using Cons.prems(3) by (intro part_size) simp
  have pl: "place start (es @ concat parts) = place start es @ place (start + bytes_of es) (concat parts)"
    using Cons.prems(3) by (intro place_append) simp
  obtain w1 where I1: "I w1" and "resolve_one get attempts depth ?p (r, todo) w =
      ((True, add_entries ?m start (note_manifest (pn_key ?p) depth ?m r) todo), w1)"
    by (rule resolve_one_served [OF assms(1) m(1) Cons.prems(1) m(2) assms(3), of ?p r attempts todo]) (simp_all add: Cons.prems(4))
  moreover have "add_entries ?m start (note_manifest (pn_key ?p) depth ?m r) todo = (?r, ?todo)"
    using assms(2) by (cases kind) (simp_all add: add_entries_def note_manifest_def read_parts_def)
  ultimately have one: "resolve_one get attempts depth ?p (r, todo) w = ((True, ?r, ?todo), w1)" by simp
  have "rs_chunk ?r = chunk" using Cons.prems(4) by (simp add: read_parts_def)
  then obtain w' where I': "I w'" and rest:
    "resolve_level get attempts depth (pends (start + bytes_of es) (map (part_entry P chunk kind) parts)) (?r, ?todo) w1 =
      ((True, read_parts P chunk kind depth (start + bytes_of es) parts ?r,
        ?todo @ (if kind = Index then pends (start + bytes_of es) (concat parts) else [])), w')"
    using Cons.IH [OF I1, of "start + bytes_of es" ?r ?todo] Cons.prems(2,3) by (auto simp: add.assoc)
  have pe: "pends start (map (part_entry P chunk kind) (es # parts)) = ?p # pends (start + bytes_of es) (map (part_entry P chunk kind) parts)"
    using size Cons.prems(3) by (simp add: part_entry_def)
  have rp: "read_parts P chunk kind depth (start + bytes_of es) parts ?r = read_parts P chunk kind depth start (es # parts) r"
    using pl by (simp add: read_parts_def)
  have td: "?todo @ (if kind = Index then pends (start + bytes_of es) (concat parts) else []) =
      todo @ (if kind = Index then pends start (concat (es # parts)) else [])" using pl by simp
  show ?case unfolding pe using one rest [unfolded rp td] I' by (intro exI [of _ w']) (simp only: resolve_level.simps prod.case bool.case)
qed

lemma resolve_levels_step:
  assumes "resolve_level get attempts depth level (r, []) w = ((True, r', todo), w')" "level \<noteq> []" "depth \<le> MAX_MANIFEST_DEPTH"
  shows "resolve_levels get attempts depth level r w = resolve_levels get attempts (depth + 1) todo r' w'"
  using assms by (subst resolve_levels.simps) (simp add: not_less)

lemma build_levels_blobs: "set (mt_blobs tree) \<subseteq> set (mt_blobs (build_levels P n chunk fanout kind level tree))"
proof (induction P n chunk fanout kind level tree rule: build_levels.induct)
  case (1 P n chunk fanout kind level tree)
  show ?case using "1.IH" [OF refl refl] by (subst build_levels.simps) (auto simp: Let_def)
qed

text \<open>
  How far the walk from the root of a finished tree has come when it reaches a level: as deep as the
  levels above it, everything above it read, and the level's entries next.
\<close>

definition walk_at :: "platform \<Rightarrow> ManifestTree \<Rightarrow> ManifestTree \<Rightarrow> nat \<Rightarrow> nat \<Rightarrow> ManifestKind \<Rightarrow> ManifestEntry list \<Rightarrow> Resolved \<Rightarrow> bool" where
  "walk_at P tree done n chunk kind level r \<longleftrightarrow>
     \<not> rs_ok r \<and> rs_message r = [] \<and> rs_size r = n \<and> rs_chunk r = chunk \<and> mt_depth done = mt_depth tree + rs_depth r \<and>
     rs_chunks r = (if kind = Data then refs 0 level else []) \<and> rs_manifests r = length (rs_manifest_keys r) \<and>
     mset (map (chunk_key P) (mt_blobs done)) = mset (map (chunk_key P) (mt_blobs tree)) + mset (rs_manifest_keys r)"

definition fresh_result :: Resolved where
  "fresh_result = \<lparr>rs_ok = False, rs_message = [], rs_size = 0, rs_chunk = 0, rs_chunks = [], rs_depth = 0, rs_manifests = 0,
               rs_manifest_keys = []\<rparr>"

lemma root_key_valid: "platform_ok P \<Longrightarrow> valid_key (mt_root_key (build_levels P n chunk fanout kind level tree))"
proof (induction P n chunk fanout kind level tree rule: build_levels.induct)
  case (1 P n chunk fanout kind level tree)
  show ?case using "1.IH" [OF refl refl] "1.prems" by (subst build_levels.simps) (auto simp: Let_def valid_chunk_key)
qed

lemma build_levels_resolve:
  assumes "platform_ok P" "1 \<le> chunk" "chunk \<le> MAX_CHUNK"
  shows "2 \<le> fanout \<Longrightarrow> fanout \<le> MANIFEST_FANOUT \<Longrightarrow> level_ok kind chunk level \<Longrightarrow> bytes_of level = n \<Longrightarrow>
    (kind = Index \<longrightarrow> level \<noteq> []) \<Longrightarrow> done = build_levels P n chunk fanout kind level tree \<Longrightarrow>
    serves P get I (set (mt_blobs done)) \<Longrightarrow> I w \<Longrightarrow> mt_depth done \<le> mt_depth tree + MAX_MANIFEST_DEPTH \<Longrightarrow>
    \<exists>r w'. I w' \<and> walk_at P tree done n chunk kind level r \<and>
      resolve_levels get attempts 1 [\<lparr>pn_key = mt_root_key done, pn_offset = 0, pn_bytes = 0\<rparr>] fresh_result w =
      resolve_levels get attempts (rs_depth r + 1) (if kind = Index then pends 0 level else []) r w'"
  using assms
proof (induction P n chunk fanout kind level tree arbitrary: w rule: build_levels.induct)
  case (1 P n chunk fanout kind level tree)
  let ?root = "\<lparr>pn_key = mt_root_key done, pn_offset = 0, pn_bytes = 0\<rparr>"
  have f: "max 2 fanout = fanout" using "1.prems"(1) by simp
  show ?case
  proof (cases "length level \<le> fanout")
    case True
    let ?m = "\<lparr>mf_size = n, mf_chunk = chunk, mf_kind = kind, mf_entries = level\<rparr>"
    have d: "done = tree\<lparr>mt_depth := mt_depth tree + 1, mt_blobs := mt_blobs tree @ [format_manifest ?m],
        mt_root_key := chunk_key P (format_manifest ?m)\<rparr>"
      using True "1.prems"(6) by (subst (asm) build_levels.simps) (simp add: f Let_def)
    have m: "manifest_ok ?m" using "1.prems" True by (auto simp: manifest_ok_def level_ok_def)
    let ?r = "read_parts P chunk kind 1 0 [] (note_manifest (mt_root_key done) 1 ?m fresh_result)
        \<lparr>rs_chunks := (if kind = Data then refs 0 level else [])\<rparr>"
    obtain w1 where I1: "I w1" and "resolve_one get attempts 1 ?root (fresh_result, []) w =
        ((True, add_entries ?m 0 (note_manifest (mt_root_key done) 1 ?m fresh_result) []), w1)"
      by (rule resolve_one_served [OF "1.prems"(7) _ "1.prems"(8) m, of 1 ?root fresh_result attempts "[]"])
        (simp_all add: d MAX_MANIFEST_DEPTH_def)
    moreover have "add_entries ?m 0 (note_manifest (mt_root_key done) 1 ?m fresh_result) [] =
        (?r, if kind = Index then pends 0 level else [])"
      by (cases kind) (simp_all add: add_entries_def note_manifest_def fresh_result_def read_parts_def)
    ultimately have "resolve_level get attempts 1 [?root] (fresh_result, []) w = ((True, ?r, if kind = Index then pends 0 level else []), w1)"
      by simp
    then have "resolve_levels get attempts 1 [?root] fresh_result w =
        resolve_levels get attempts (1 + 1) (if kind = Index then pends 0 level else []) ?r w1"
      by (rule resolve_levels_step) (simp_all add: MAX_MANIFEST_DEPTH_def)
    moreover have "walk_at P tree done n chunk kind level ?r" "rs_depth ?r = 1"
      by (auto simp: walk_at_def d note_manifest_def fresh_result_def read_parts_def)
    ultimately show ?thesis using I1 by metis
  next
    case False
    let ?parts = "cut_level fanout level"
    let ?es = "map (part_entry P chunk kind) ?parts"
    let ?tree = "tree\<lparr>mt_depth := mt_depth tree + 1, mt_blobs := mt_blobs tree @ map (format_manifest \<circ> part_manifest chunk kind) ?parts\<rparr>"
    have d: "done = build_levels P n chunk fanout Index ?es ?tree"
      using False "1.prems"(6) by (subst (asm) build_levels.simps) (simp add: f Let_def)
    have pos: "0 < fanout" "0 < chunk" using "1.prems" by simp_all
    have parts: "level_ok Index chunk ?es" "bytes_of ?es = n" "list_all (level_ok kind chunk) ?parts"
      using parts_level_ok [OF "1.prems"(10) pos(2,1) "1.prems"(3)] "1.prems"(4) by simp_all
    have "level \<noteq> []" using False by auto
    then have ne: "?parts \<noteq> []" using pos by (simp add: cut_level_Cons)
    have deep: "mt_depth tree + 1 < mt_depth done" unfolding d by (rule le_less_trans [OF _ build_levels_deeper]) simp
    obtain r w1 where I1: "I w1" and walk: "walk_at P ?tree done n chunk Index ?es r"
      and top: "resolve_levels get attempts 1 [?root] fresh_result w = resolve_levels get attempts (rs_depth r + 1) (pends 0 ?es) r w1"
      using "1.IH" [OF refl refl, unfolded f, of w] False "1.prems" parts ne d by auto
    have depth: "mt_depth done = mt_depth tree + 1 + rs_depth r" "rs_depth r + 1 \<noteq> 1" "rs_depth r + 1 \<le> MAX_MANIFEST_DEPTH"
      using walk deep "1.prems"(9) by (auto simp: walk_at_def)
    let ?r = "read_parts P chunk kind (rs_depth r + 1) 0 ?parts r"
    have "manifest_ok (part_manifest chunk kind p)" if "p \<in> set ?parts" for p
      using cut_level_parts [OF pos(1) that] parts(3) "1.prems"(2,11,12) that by (intro part_manifest_ok) (auto simp: list_all_iff)
    moreover have "format_manifest (part_manifest chunk kind p) \<in> set (mt_blobs done)" if "p \<in> set ?parts" for p
      unfolding d using that by (intro subsetD [OF build_levels_blobs]) simp
    ultimately have "list_all (\<lambda>p. format_manifest (part_manifest chunk kind p) \<in> set (mt_blobs done) \<and> manifest_ok (part_manifest chunk kind p)) ?parts"
      by (simp add: list_all_iff)
    moreover have "0 + bytes_of (concat ?parts) \<le> U64_MAX" "rs_chunk r = chunk" and flat: "concat ?parts = level"
      using "1.prems"(3) walk pos(1) by (simp_all add: concat_cut_level level_ok_def walk_at_def)
    ultimately obtain w2 where I2: "I w2" and "resolve_level get attempts (rs_depth r + 1) (pends 0 ?es) (r, []) w1 =
        ((True, ?r, if kind = Index then pends 0 level else []), w2)"
      using resolve_level_served [OF "1.prems"(7) depth(2,3) I1, of chunk kind ?parts 0 r attempts "[]"] by (auto simp: flat)
    then have step: "resolve_levels get attempts (rs_depth r + 1) (pends 0 ?es) r w1 =
        resolve_levels get attempts (rs_depth r + 1 + 1) (if kind = Index then pends 0 level else []) ?r w2"
      using ne depth(3) by (intro resolve_levels_step) (auto simp: neq_Nil_conv)
    have "walk_at P tree done n chunk kind level ?r" "rs_depth ?r = rs_depth r + 1"
      using walk depth(1) ne flat by (auto simp: walk_at_def read_parts_def comp_def)
    then show ?thesis using top step I2 by (intro exI [of _ ?r] exI [of _ w2]) simp
  qed
qed

lemma built_tree_resolves:
  assumes "platform_ok P" "1 \<le> chunk" "chunk \<le> MAX_CHUNK" "level_ok Data chunk chunks"
    and tree: "tree = build_manifests P chunks (bytes_of chunks) chunk fanout" "mt_depth tree \<le> MAX_MANIFEST_DEPTH"
    and "serves P get I (set (mt_blobs tree))" "I w"
  shows "\<exists>r w'. I w' \<and> resolve_manifest get (mt_root_key tree) attempts w = (r, w') \<and> rs_ok r \<and> rs_chunks r = refs 0 chunks \<and>
    rs_size r = bytes_of chunks \<and> rs_chunk r = chunk \<and> rs_depth r = mt_depth tree \<and> rs_manifests r = length (mt_blobs tree) \<and>
    mset (rs_manifest_keys r) = mset (map (chunk_key P) (mt_blobs tree))"
proof -
  let ?f = "max 2 (min fanout MANIFEST_FANOUT)" and ?t0 = "\<lparr>mt_blobs = [], mt_root_key = [], mt_depth = 0\<rparr>"
  have t: "tree = build_levels P (bytes_of chunks) chunk ?f Data chunks ?t0" using tree(1) by (simp add: build_manifests_def)
  have f: "2 \<le> ?f" "?f \<le> MANIFEST_FANOUT" by (simp_all add: MANIFEST_FANOUT_def)
  obtain r w' where I: "I w'" and walk: "walk_at P ?t0 tree (bytes_of chunks) chunk Data chunks r"
    and top: "resolve_levels get attempts 1 [\<lparr>pn_key = mt_root_key tree, pn_offset = 0, pn_bytes = 0\<rparr>] fresh_result w =
      resolve_levels get attempts (rs_depth r + 1) [] r w'"
    using build_levels_resolve [OF assms(1-3) f assms(4) refl _ t assms(7,8), of attempts] tree(2) by auto
  have "resolve_levels get attempts (rs_depth r + 1) [] r w' = (r\<lparr>rs_ok := True\<rparr>, w')" by (subst resolve_levels.simps) simp
  moreover have "valid_key (mt_root_key tree)" unfolding t using root_key_valid [OF assms(1)] .
  ultimately have "resolve_manifest get (mt_root_key tree) attempts w = (r\<lparr>rs_ok := True\<rparr>, w')"
    using top by (simp add: resolve_manifest_def fresh_result_def)
  moreover have keys: "mset (map (chunk_key P) (mt_blobs tree)) = mset (rs_manifest_keys r)" using walk by (simp add: walk_at_def)
  ultimately show ?thesis using I walk mset_eq_length [OF keys] by (auto simp: walk_at_def)
qed

section \<open>A concrete file\<close>

text \<open>
  A server of blobs, and a file of three chunks under a fan-out of two. The digest looks at the end of
  the text, where manifests differ.
\<close>

definition blob_server :: "platform \<Rightarrow> string list \<Rightarrow> 'w get_fn" where
  "blob_server P blobs w key =
     (case find (\<lambda>b. chunk_key P b = key) blobs of
        Some b \<Rightarrow> (\<lparr>go_ok = True, go_body = b, go_message = [], go_served_by = empty_peer, go_tried = []\<rparr>, w)
      | None \<Rightarrow> (\<lparr>go_ok = False, go_body = [], go_message = ''not found'', go_served_by = empty_peer, go_tried = []\<rparr>, w))"

lemma blob_server_serves: "distinct (map (chunk_key P) blobs) \<Longrightarrow> serves P (blob_server P blobs) (\<lambda>_. True) (set blobs)"
proof -
  assume d: "distinct (map (chunk_key P) blobs)"
  have "find (\<lambda>b'. chunk_key P b' = chunk_key P b) blobs = Some b" if "b \<in> set blobs" for b
    using that d by (induction blobs) auto
  then show ?thesis by (simp add: serves_def blob_server_def)
qed

definition tail_platform :: platform where
  "tail_platform = sample_platform\<lparr>SHA1 := (\<lambda>s. take 20 (map (\<lambda>c. of_nat (of_char c)) (rev s) @ replicate 20 0))\<rparr>"

lemma tail_platform_ok: "platform_ok tail_platform"
  using sample_platform_ok by (auto simp: platform_ok_def tail_platform_def)

definition sample_chunks :: "ManifestEntry list" where
  "sample_chunks = map (\<lambda>(c, b). \<lparr>me_key = replicate 40 c, me_bytes = b\<rparr>) [(CHR ''a'', 4), (CHR ''b'', 4), (CHR ''c'', 2)]"

definition sample_tree :: ManifestTree where
  "sample_tree = build_manifests tail_platform sample_chunks 10 4 2"

lemma hex_letters: "is_lower_hex CHR ''a''" "is_lower_hex CHR ''b''" "is_lower_hex CHR ''c''"
  by code_simp+

lemma sample_chunks_ok: "level_ok Data 4 sample_chunks"
  by (simp add: level_ok_def sample_chunks_def entry_ok_def entry_fits_def valid_key_def U64_MAX_def hex_letters list_all_iff)

lemma tail_key_suffix: "length t = 20 \<Longrightarrow> chunk_key tail_platform (s @ t) = chunk_key tail_platform t"
  by (simp add: chunk_key_def sha1_def tail_platform_def)

lemma tail_key_manifest:
  assumes "mf_entries m = es @ [\<lparr>me_key = k, me_bytes = b\<rparr>]" "length k = 40" "b < 10"
  shows "chunk_key tail_platform (format_manifest m) = chunk_key tail_platform (drop 23 k @ [CHR '' '', digit_char b, CHR 0x0A])"
proof -
  obtain s where "format_manifest m = s @ k @ [CHR '' '', digit_char b, CHR 0x0A]"
    using assms by (simp add: format_manifest_def manifest_lines_def entry_text_def to_string.simps [of b])
  moreover have "k = take 23 k @ drop 23 k" by simp
  ultimately obtain s where "format_manifest m = s @ drop 23 k @ [CHR '' '', digit_char b, CHR 0x0A]" by (metis append.assoc)
  then show ?thesis using assms(2) tail_key_suffix [of "drop 23 k @ [CHR '' '', digit_char b, CHR 0x0A]" s] by simp
qed

lemma sample_tree_blobs:
  defines "m1 \<equiv> part_manifest 4 Data (take 2 sample_chunks)" and "m2 \<equiv> part_manifest 4 Data (drop 2 sample_chunks)"
  shows "mt_blobs sample_tree = [format_manifest m1, format_manifest m2, format_manifest \<lparr>mf_size = 10, mf_chunk = 4, mf_kind = Index,
      mf_entries = [\<lparr>me_key = chunk_key tail_platform (format_manifest m1), me_bytes = 8\<rparr>,
                    \<lparr>me_key = chunk_key tail_platform (format_manifest m2), me_bytes = 2\<rparr>]\<rparr>]" "mt_depth sample_tree = 2"
proof -
  let ?root = "\<lparr>mf_size = 10, mf_chunk = 4, mf_kind = Index,
      mf_entries = [\<lparr>me_key = chunk_key tail_platform (format_manifest m1), me_bytes = 8\<rparr>,
                    \<lparr>me_key = chunk_key tail_platform (format_manifest m2), me_bytes = 2\<rparr>]\<rparr>"
  have "cut_level 2 sample_chunks = [take 2 sample_chunks, drop 2 sample_chunks]"
    by (simp add: sample_chunks_def cut_level_Cons)
  moreover have "mf_size m1 = 8" "mf_size m2 = 2" unfolding m1_def m2_def
    by (subst part_size; simp add: sample_chunks_def U64_MAX_def)+
  moreover have "length sample_chunks = 3" by (simp add: sample_chunks_def)
  ultimately have eq: "sample_tree = \<lparr>mt_blobs = [format_manifest m1, format_manifest m2, format_manifest ?root],
      mt_root_key = chunk_key tail_platform (format_manifest ?root), mt_depth = 2\<rparr>"
    unfolding sample_tree_def build_manifests_def m1_def m2_def
    by (subst build_levels.simps, subst build_levels.simps) (simp add: part_entry_def MANIFEST_FANOUT_def Let_def)
  show "mt_blobs sample_tree = [format_manifest m1, format_manifest m2, format_manifest ?root]" unfolding eq by simp
  show "mt_depth sample_tree = 2" unfolding eq by simp
qed

lemma sample_tree_distinct: "distinct (map (chunk_key tail_platform) (mt_blobs sample_tree))"
proof -
  let ?k = "\<lambda>c b. chunk_key tail_platform (replicate 17 c @ [CHR '' '', digit_char b, CHR 0x0A])"
  have m: "chunk_key tail_platform (format_manifest (part_manifest 4 Data (take 2 sample_chunks))) = ?k (CHR ''b'') 4"
    "chunk_key tail_platform (format_manifest (part_manifest 4 Data (drop 2 sample_chunks))) = ?k (CHR ''c'') 2"
    using tail_key_manifest [of "part_manifest 4 Data (take 2 sample_chunks)" "[\<lparr>me_key = replicate 40 (CHR ''a''), me_bytes = 4\<rparr>]" "replicate 40 (CHR ''b'')" 4]
      tail_key_manifest [of "part_manifest 4 Data (drop 2 sample_chunks)" "[]" "replicate 40 (CHR ''c'')" 2]
    by (simp_all add: sample_chunks_def)
  have "length (?k (CHR ''c'') 2) = 40" by (simp add: chunk_key_def sha1_length tail_platform_ok)
  then have r: "chunk_key tail_platform (format_manifest \<lparr>mf_size = 10, mf_chunk = 4, mf_kind = Index,
      mf_entries = [\<lparr>me_key = x, me_bytes = 8\<rparr>, \<lparr>me_key = ?k (CHR ''c'') 2, me_bytes = 2\<rparr>]\<rparr>) =
      chunk_key tail_platform (drop 23 (?k (CHR ''c'') 2) @ [CHR '' '', digit_char 2, CHR 0x0A])" for x
    by (intro tail_key_manifest [where es = "[\<lparr>me_key = x, me_bytes = 8\<rparr>]"]) simp_all
  have "distinct [?k (CHR ''b'') 4, ?k (CHR ''c'') 2,
      chunk_key tail_platform (drop 23 (?k (CHR ''c'') 2) @ [CHR '' '', digit_char 2, CHR 0x0A])]" by code_simp
  then show ?thesis by (simp only: sample_tree_blobs list.map m r)
qed

lemma sample_tree_count: "length (mt_blobs sample_tree) = 3"
  by (simp add: sample_tree_blobs(1))

lemma sample_tree_served: "serves tail_platform (blob_server tail_platform (mt_blobs sample_tree)) (\<lambda>_. True) (set (mt_blobs sample_tree))"
  by (rule blob_server_serves [OF sample_tree_distinct])

lemma sample_bytes: "bytes_of sample_chunks = 10"
  by (simp add: sample_chunks_def)

text \<open>
  C20. What was stored can be read back: the manifests built over a file's chunks lead from the root
  key to exactly those chunks, in their order and each at the sum of the lengths before it, as long
  as every manifest can be fetched under its hash and the tree is no deeper than a reader accepts.
\<close>

theorem build_then_resolve:
  assumes "platform_ok P" "1 \<le> chunk" "chunk \<le> MAX_CHUNK" "level_ok Data chunk chunks"
    and tree: "tree = build_manifests P chunks (bytes_of chunks) chunk fanout" "mt_depth tree \<le> MAX_MANIFEST_DEPTH"
    and "serves P get I (set (mt_blobs tree))" "I w"
  shows "\<exists>r w'. I w' \<and> resolve_manifest get (mt_root_key tree) attempts w = (r, w') \<and> rs_ok r \<and> rs_chunks r = refs 0 chunks \<and>
    rs_size r = bytes_of chunks \<and> rs_chunk r = chunk \<and> rs_depth r = mt_depth tree \<and> rs_manifests r = length (mt_blobs tree) \<and>
    mset (rs_manifest_keys r) = mset (map (chunk_key P) (mt_blobs tree))"
  by (rule built_tree_resolves [OF assms])

theorem build_then_resolve_witness:
  "\<exists>r. resolve_manifest (blob_server tail_platform (mt_blobs sample_tree)) (mt_root_key sample_tree) 3 () = (r, ()) \<and>
     rs_ok r \<and> rs_chunks r = refs 0 sample_chunks \<and> rs_size r = 10 \<and> rs_depth r = 2 \<and> rs_manifests r = 3"
proof -
  have "sample_tree = build_manifests tail_platform sample_chunks (bytes_of sample_chunks) 4 2"
    by (simp add: sample_tree_def sample_bytes)
  from build_then_resolve [OF tail_platform_ok _ _ sample_chunks_ok this _ sample_tree_served TrueI, of 3 "()"]
  show ?thesis by (auto simp: sample_tree_blobs(2) sample_tree_count sample_bytes MAX_CHUNK_def MAX_MANIFEST_DEPTH_def)
qed

theorem resolve_tiles_witness:
  "\<exists>r. resolve_manifest (blob_server tail_platform (mt_blobs sample_tree)) (mt_root_key sample_tree) 3 () = (r, ()) \<and>
     mset (map (\<lambda>c. (cr_offset c, cr_bytes c)) (rs_chunks r)) = mset (tiles 4 0 10)"
proof -
  have "sample_tree = build_manifests tail_platform sample_chunks (bytes_of sample_chunks) 4 2"
    by (simp add: sample_tree_def sample_bytes)
  from built_tree_resolves [OF tail_platform_ok _ _ sample_chunks_ok this _ sample_tree_served TrueI, of 3 "()"]
  obtain r where r: "resolve_manifest (blob_server tail_platform (mt_blobs sample_tree)) (mt_root_key sample_tree) 3 () = (r, ())"
      "rs_ok r" "rs_size r = 10" "rs_chunk r = 4"
    by (auto simp: sample_tree_blobs(2) sample_bytes MAX_CHUNK_def MAX_MANIFEST_DEPTH_def)
  then show ?thesis using resolve_tiles [OF r(1,2)] by metis
qed

text \<open>
  C40. The depth of a file's manifests is exact: at most \<open>d\<close> levels just when the chunks number at most
  \<open>fanout ^ d\<close>. With the fan-out of 8192 and chunks of 512 KiB every size below \<open>2 ^ 64\<close> needs at most the
  four levels a reader accepts.
\<close>

theorem build_depth_exact:
  assumes "2 \<le> fanout" "fanout \<le> MANIFEST_FANOUT" "1 \<le> d"
  shows "(mt_depth (build_manifests P chunks n chunk fanout) \<le> d \<longleftrightarrow> length chunks \<le> fanout ^ d) \<and>
    (length chunks \<le> (U64_MAX + MAX_CHUNK - 1) div MAX_CHUNK \<longrightarrow>
       mt_depth (build_manifests P chunks n chunk MANIFEST_FANOUT) \<le> MAX_MANIFEST_DEPTH)"
proof -
  have depth: "mt_depth (build_manifests P chunks n chunk f) \<le> Suc k \<longleftrightarrow> length chunks \<le> f ^ Suc k"
    if "2 \<le> f" "f \<le> MANIFEST_FANOUT" for f k
    using that build_levels_depth [of f P n chunk Data chunks "\<lparr>mt_blobs = [], mt_root_key = [], mt_depth = 0\<rparr>" k]
    by (simp add: build_manifests_def)
  obtain k where "d = Suc k" using assms(3) by (cases d) auto
  then have "mt_depth (build_manifests P chunks n chunk fanout) \<le> d \<longleftrightarrow> length chunks \<le> fanout ^ d" using depth assms by simp
  moreover have "length chunks \<le> (U64_MAX + MAX_CHUNK - 1) div MAX_CHUNK \<longrightarrow>
      mt_depth (build_manifests P chunks n chunk MANIFEST_FANOUT) \<le> MAX_MANIFEST_DEPTH"
    using depth [of MANIFEST_FANOUT 3] by (simp add: MAX_MANIFEST_DEPTH_def MANIFEST_FANOUT_def U64_MAX_def MAX_CHUNK_def)
  ultimately show ?thesis by blast
qed

theorem build_depth_exact_witness:
  "mt_depth sample_tree \<le> 2 \<and> \<not> mt_depth sample_tree \<le> 1"
  using build_depth_exact [of 2 2 tail_platform sample_chunks 10 4] build_depth_exact [of 2 1 tail_platform sample_chunks 10 4]
  by (simp add: sample_tree_def MANIFEST_FANOUT_def sample_chunks_def)

end
