(* ===== verification/Pool.thy ===== *)
theory Pool
  imports Manifest_Tree
begin

text \<open>
  The worker pool of \<^verbatim>\<open>src/transfer.cpp\<close> (\<^verbatim>\<open>run_pool\<close>): threads that take the next index from one
  atomic counter until the indices or a shared stop flag end the work. An execution is a sequence
  of steps, each naming the thread that moves; the atomic operations of the code are one step each.
\<close>

section \<open>The pool\<close>

text \<open>
  Where a thread is in its loop: before it reads the stop flag, between that and the counter, in a
  job, between a failed job and setting the flag, or out of the loop.
\<close>

datatype Worker = Checking | Taking | Running nat | Failing | Quit

record 's Pool =
  pl_next :: nat
  pl_stop :: bool
  pl_workers :: "Worker list"
  pl_state :: 's

text \<open>
  A job changes the shared state and says whether it went well; \<open>None\<close> is a job that is still running
  after what its environment \<open>'e\<close> supplied. The job runs in one step: jobs share nothing but the
  failure message, which has its own lock, and what the world behind them answers.
\<close>

type_synonym ('e, 's) job = "nat \<Rightarrow> 'e \<Rightarrow> 's \<Rightarrow> (bool \<times> 's) option"

definition work_step :: "nat \<Rightarrow> ('e, 's) job \<Rightarrow> nat \<times> 'e \<Rightarrow> 's Pool \<Rightarrow> 's Pool" where
  "work_step n job te p =
     (case te of (t, e) \<Rightarrow>
        if t \<ge> length (pl_workers p) then p
        else case pl_workers p ! t of
          Checking \<Rightarrow> p\<lparr>pl_workers := (pl_workers p)[t := (if pl_stop p then Quit else Taking)]\<rparr>
        | Taking \<Rightarrow> p\<lparr>pl_workers := (pl_workers p)[t := (if pl_next p \<ge> n then Quit else Running (pl_next p))],
                     pl_next := pl_next p + 1\<rparr>
        | Running i \<Rightarrow>
            (case job i e (pl_state p) of
               None \<Rightarrow> p
             | Some (ok, s) \<Rightarrow> p\<lparr>pl_workers := (pl_workers p)[t := (if ok then Checking else Failing)], pl_state := s\<rparr>)
        | Failing \<Rightarrow> p\<lparr>pl_workers := (pl_workers p)[t := Checking], pl_stop := True\<rparr>
        | Quit \<Rightarrow> p)"

text \<open>The number of threads: as many as the system started, or the calling thread alone.\<close>

definition pool_threads :: "nat \<Rightarrow> int \<Rightarrow> nat \<Rightarrow> nat" where
  "pool_threads n workers started = max 1 (min started (min n (nat (max 1 workers))))"

definition pool_start :: "nat \<Rightarrow> 's \<Rightarrow> 's Pool" where
  "pool_start k s = \<lparr>pl_next = 0, pl_stop = False, pl_workers = replicate k Checking, pl_state = s\<rparr>"

definition pool_done :: "'s Pool \<Rightarrow> bool" where
  "pool_done p \<longleftrightarrow> list_all (\<lambda>w. w = Quit) (pl_workers p)"

text \<open>The whole call; \<open>None\<close> when the steps given do not bring every thread to its end.\<close>

definition run_pool ::
  "nat \<Rightarrow> int \<Rightarrow> nat \<Rightarrow> ('e, 's) job \<Rightarrow> (nat \<times> 'e) list \<Rightarrow> 's \<Rightarrow> (bool \<times> 's) option"
where
  "run_pool n workers started job steps s =
     (let p = fold (work_step n job) steps (pool_start (pool_threads n workers started) s)
      in if pool_done p then Some (\<not> pl_stop p, pl_state p) else None)"

section \<open>What a finished run did\<close>

text \<open>The jobs a sequence of steps ran to their end, in that order, with what each was given and said.\<close>

fun jobs_run :: "nat \<Rightarrow> ('e, 's) job \<Rightarrow> (nat \<times> 'e) list \<Rightarrow> 's Pool \<Rightarrow> (nat \<times> 'e \<times> bool) list" where
  "jobs_run n job [] p = []"
| "jobs_run n job (te # tes) p =
     (case pl_workers p ! fst te of
        Running i \<Rightarrow>
          if fst te < length (pl_workers p)
          then (case job i (snd te) (pl_state p) of None \<Rightarrow> [] | Some (ok, _) \<Rightarrow> [(i, snd te, ok)])
          else []
      | _ \<Rightarrow> []) @ jobs_run n job tes (work_step n job te p)"

text \<open>The index a thread is working on, if any, and those all threads are working on.\<close>

fun index_of :: "Worker \<Rightarrow> nat multiset" where
  "index_of (Running i) = {#i#}"
| "index_of w = {#}"

definition running :: "'s Pool \<Rightarrow> nat multiset" where
  "running p = sum_list (map index_of (pl_workers p))"

text \<open>
  The invariant of the pool, over the jobs that have run so far: every index below the counter is in
  a job or has been through one, and none twice; a failure is on its way to the stop flag or in it.
\<close>

definition pool_inv :: "nat \<Rightarrow> (nat \<times> 'e \<times> bool) list \<Rightarrow> 's Pool \<Rightarrow> bool" where
  "pool_inv n hist p \<longleftrightarrow>
     mset (map fst hist) + running p = mset [0..<min n (pl_next p)] \<and>
     ((\<exists>x\<in>set hist. \<not> snd (snd x)) \<longleftrightarrow> pl_stop p \<or> Failing \<in> set (pl_workers p)) \<and>
     (Quit \<in> set (pl_workers p) \<longrightarrow> pl_stop p \<or> n \<le> pl_next p)"

lemma sum_list_update:
  fixes f :: "'a \<Rightarrow> 'b multiset"
  shows "t < length xs \<Longrightarrow> sum_list (map f (xs[t := y])) + f (xs ! t) = sum_list (map f xs) + f y"
proof (induction xs arbitrary: t)
  case (Cons x xs)
  then show ?case by (cases t) (auto simp: algebra_simps)
qed simp

lemma running_update:
  "t < length (pl_workers p) \<Longrightarrow> pl_workers q = (pl_workers p)[t := y] \<Longrightarrow>
     running q + index_of (pl_workers p ! t) = running p + index_of y"
  by (simp add: running_def sum_list_update)

lemma in_set_update:
  "t < length xs \<Longrightarrow> xs ! t \<noteq> x \<Longrightarrow> y \<noteq> x \<Longrightarrow> x \<in> set (xs[t := y]) \<longleftrightarrow> x \<in> set xs"
  by (metis in_set_conv_nth length_list_update nth_list_update_eq nth_list_update_neq)

lemma in_set_updated: "t < length xs \<Longrightarrow> x \<in> set (xs[t := x])"
  by (rule set_update_memI)

lemma pool_inv_start: "pool_inv n [] (pool_start k s)"
proof -
  have "sum_list (replicate k ({#} :: nat multiset)) = {#}" by (induction k) auto
  then show ?thesis by (simp add: pool_inv_def pool_start_def running_def)
qed

abbreviation ran_here :: "('e, 's) job \<Rightarrow> nat \<times> 'e \<Rightarrow> 's Pool \<Rightarrow> (nat \<times> 'e \<times> bool) list" where
  "ran_here job te p \<equiv>
     (case pl_workers p ! fst te of
        Running i \<Rightarrow>
          if fst te < length (pl_workers p)
          then (case job i (snd te) (pl_state p) of None \<Rightarrow> [] | Some (ok, _) \<Rightarrow> [(i, snd te, ok)])
          else []
      | _ \<Rightarrow> [])"

lemma pool_inv_step:
  assumes inv: "pool_inv n hist p"
  shows "pool_inv n (hist @ ran_here job te p) (work_step n job te p)"
proof (cases "fst te < length (pl_workers p)")
  case False
  then show ?thesis using inv by (auto simp: work_step_def split: prod.splits Worker.splits)
next
  case True
  obtain t e where te: "te = (t, e)" by (cases te)
  then have t: "t < length (pl_workers p)" using True by simp
  note run = running_update [OF t] and same = in_set_update [OF t]
  show ?thesis
  proof (cases "pl_workers p ! t")
    case Checking
    let ?q = "p\<lparr>pl_workers := (pl_workers p)[t := (if pl_stop p then Quit else Taking)]\<rparr>"
    have "running ?q = running p" using run [of ?q "if pl_stop p then Quit else Taking"] Checking by simp
    moreover have "Failing \<in> set (pl_workers ?q) \<longleftrightarrow> Failing \<in> set (pl_workers p)" using same [of Failing] Checking by simp
    moreover have "Quit \<in> set (pl_workers ?q) \<Longrightarrow> Quit \<in> set (pl_workers p) \<or> pl_stop p" using same [of Quit Taking] Checking
      by (simp split: if_splits)
    ultimately show ?thesis using inv Checking t te by (auto simp: work_step_def pool_inv_def)
  next
    case Taking
    let ?q = "work_step n job te p"
    have q: "pl_workers ?q = (pl_workers p)[t := (if pl_next p \<ge> n then Quit else Running (pl_next p))]" "pl_next ?q = pl_next p + 1"
        "pl_stop ?q = pl_stop p" using Taking t te by (simp_all add: work_step_def)
    have "running ?q = running p + (if pl_next p \<ge> n then {#} else {#pl_next p#})" using run [OF q(1)] Taking by (simp split: if_splits)
    moreover have "mset [0..<min n (pl_next p + 1)] = mset [0..<min n (pl_next p)] + (if pl_next p \<ge> n then {#} else {#pl_next p#})"
    proof (cases "pl_next p \<ge> n")
      case False
      then have "min n (pl_next p + 1) = Suc (pl_next p)" "min n (pl_next p) = pl_next p" by simp_all
      then show ?thesis using False by (simp only: upt_Suc) simp
    qed (simp add: min_def)
    moreover have "Failing \<in> set (pl_workers ?q) \<longleftrightarrow> Failing \<in> set (pl_workers p)"
      unfolding q(1) by (rule same) (simp_all add: Taking)
    moreover have "Quit \<in> set (pl_workers ?q) \<Longrightarrow> Quit \<in> set (pl_workers p) \<or> n \<le> pl_next p"
      unfolding q(1) using same [of Quit "Running (pl_next p)"] Taking by (simp split: if_splits)
    moreover have "ran_here job te p = []" using Taking te by simp
    ultimately show ?thesis using inv q(2,3) by (auto simp: pool_inv_def)
  next
    case (Running i)
    show ?thesis
    proof (cases "job i e (pl_state p)")
      case None
      then show ?thesis using inv Running t te by (simp add: work_step_def)
    next
      case (Some r)
      obtain ok s where r: "r = (ok, s)" by (cases r)
      let ?q = "p\<lparr>pl_workers := (pl_workers p)[t := (if ok then Checking else Failing)], pl_state := s\<rparr>"
      have q: "work_step n job te p = ?q" using Some r Running t te by (simp add: work_step_def)
      have "running ?q + {#i#} = running p" using run [of ?q "if ok then Checking else Failing"] Running by simp
      then have "running p = add_mset i (running ?q)" by simp
      moreover have "Failing \<in> set (pl_workers ?q) \<longleftrightarrow> Failing \<in> set (pl_workers p) \<or> \<not> ok"
        using same [of Failing Checking] in_set_updated [OF t] Running by simp
      moreover have "Quit \<in> set (pl_workers ?q) \<longleftrightarrow> Quit \<in> set (pl_workers p)" using same [of Quit] Running by simp
      moreover have "ran_here job te p = [(i, e, ok)]" using Running Some r t te by simp
      ultimately show ?thesis using inv unfolding q by (simp add: pool_inv_def bex_Un) blast
    qed
  next
    case Failing
    let ?q = "p\<lparr>pl_workers := (pl_workers p)[t := Checking], pl_stop := True\<rparr>"
    have "running ?q = running p" using run [of ?q Checking] Failing by simp
    moreover have "Failing \<in> set (pl_workers p)" using Failing t by (metis nth_mem)
    moreover have "Quit \<in> set (pl_workers ?q) \<longleftrightarrow> Quit \<in> set (pl_workers p)" using same [of Quit] Failing by simp
    ultimately show ?thesis using inv Failing t te by (simp add: work_step_def pool_inv_def)
  next
    case Quit
    then show ?thesis using inv t te by (simp add: work_step_def)
  qed
qed

lemma pool_inv_run:
  "pool_inv n hist p \<Longrightarrow> pool_inv n (hist @ jobs_run n job tes p) (fold (work_step n job) tes p)"
proof (induction tes arbitrary: hist p)
  case (Cons te tes)
  from Cons.IH [OF pool_inv_step [OF Cons.prems, of te job]] show ?case by simp
qed simp

text \<open>A history replayed on the state, each job saying what the history says it said.\<close>

fun replay_jobs :: "('e, 's) job \<Rightarrow> (nat \<times> 'e \<times> bool) list \<Rightarrow> 's \<Rightarrow> 's option" where
  "replay_jobs job [] s = Some s"
| "replay_jobs job ((i, e, ok) # hist) s =
     (case job i e s of Some (ok', s') \<Rightarrow> if ok' = ok then replay_jobs job hist s' else None | None \<Rightarrow> None)"

lemma work_step_state:
  "pl_state (work_step n job te p) =
     (case pl_workers p ! fst te of
        Running i \<Rightarrow> if fst te < length (pl_workers p)
          then (case job i (snd te) (pl_state p) of None \<Rightarrow> pl_state p | Some (_, s) \<Rightarrow> s) else pl_state p
      | _ \<Rightarrow> pl_state p)"
  by (cases te) (auto simp: work_step_def split: Worker.splits option.splits)

lemma replay_jobs_run:
  "replay_jobs job (jobs_run n job tes p) (pl_state p) = Some (pl_state (fold (work_step n job) tes p))"
proof (induction tes arbitrary: p)
  case (Cons te tes)
  show ?case using Cons.IH [of "work_step n job te p"]
    by (auto simp: work_step_state split: Worker.splits option.splits)
qed simp

lemma ran_here_cases: "ran_here job te p = [] \<or> (\<exists>i ok. ran_here job te p = [(i, snd te, ok)])"
  by (auto split: Worker.splits option.splits)

lemma jobs_run_envs: "x \<in> set (jobs_run n job tes p) \<Longrightarrow> fst (snd x) \<in> snd ` set tes"
proof (induction tes arbitrary: p)
  case (Cons te tes)
  let ?rest = "jobs_run n job tes (work_step n job te p)"
  consider "jobs_run n job (te # tes) p = ?rest" | i ok where "jobs_run n job (te # tes) p = (i, snd te, ok) # ?rest"
    using ran_here_cases [where job = job and te = te and p = p] by (auto simp only: jobs_run.simps append.simps)
  then show ?case
  proof cases
    case 1
    then have "x \<in> set ?rest" using Cons.prems by (simp only:)
    then show ?thesis using Cons.IH by (metis image_insert insertI2 list.simps(15))
  next
    case 2
    then have "x = (i, snd te, ok) \<or> x \<in> set ?rest" using Cons.prems by (simp only: list.set insert_iff)
    then show ?thesis using Cons.IH by (metis fst_conv image_insert insertI1 insertI2 list.simps(15) snd_conv)
  qed
qed simp

lemma quit_not_running: "pool_done p \<Longrightarrow> running p = {#}"
proof -
  assume "pool_done p"
  moreover have "list_all (\<lambda>w. w = Quit) ws \<Longrightarrow> sum_list (map index_of ws) = {#}" for ws by (induction ws) auto
  ultimately show ?thesis by (simp add: running_def pool_done_def)
qed

lemma work_step_threads [simp]: "length (pl_workers (work_step n job te p)) = length (pl_workers p)"
  by (cases te) (auto simp: work_step_def split: Worker.splits option.splits)

lemma fold_threads [simp]: "length (pl_workers (fold (work_step n job) tes p)) = length (pl_workers p)"
  by (induction tes arbitrary: p) auto

lemma run_pool_history:
  assumes "run_pool n workers started job steps s = Some (ok, s')"
  obtains hist where "replay_jobs job hist s = Some s'" "distinct (map fst hist)" "set (map fst hist) \<subseteq> {..<n}"
    "ok \<longleftrightarrow> (\<forall>x\<in>set hist. snd (snd x))" "ok \<Longrightarrow> mset (map fst hist) = mset [0..<n]"
    "\<And>x. x \<in> set hist \<Longrightarrow> fst (snd x) \<in> snd ` set steps"
proof -
  let ?start = "pool_start (pool_threads n workers started) s"
  let ?hist = "jobs_run n job steps ?start" and ?p = "fold (work_step n job) steps ?start"
  have d: "pool_done ?p" "ok = (\<not> pl_stop ?p)" "s' = pl_state ?p"
    using assms by (auto simp: run_pool_def Let_def split: if_splits)
  have inv: "pool_inv n ?hist ?p" using pool_inv_run [OF pool_inv_start, where job = job and tes = steps] by simp
  have ran: "mset (map fst ?hist) = mset [0..<min n (pl_next ?p)]"
    using inv quit_not_running [OF d(1)] by (simp add: pool_inv_def)
  have some: "pl_workers ?p \<noteq> []" by (rule notI, drule arg_cong [where f = length]) (simp add: pool_start_def pool_threads_def)
  have all: "list_all (\<lambda>w. w = Quit) (pl_workers ?p)" using d(1) by (simp add: pool_done_def)
  have quit: "Quit \<in> set (pl_workers ?p)" and none: "Failing \<notin> set (pl_workers ?p)"
    using some all by (cases "pl_workers ?p"; auto simp: list_all_iff)+
  show ?thesis
  proof (rule that [of ?hist])
    show "replay_jobs job ?hist s = Some s'" using replay_jobs_run [of job n steps ?start] d(3) by (simp add: pool_start_def)
    show "distinct (map fst ?hist)" using mset_eq_imp_distinct_iff [OF ran] by simp
    show "set (map fst ?hist) \<subseteq> {..<n}" using mset_eq_setD [OF ran] by auto
    show "ok \<longleftrightarrow> (\<forall>x\<in>set ?hist. snd (snd x))" using inv none d(2) by (auto simp: pool_inv_def)
    show "mset (map fst ?hist) = mset [0..<n]" if ok using that ran inv quit d(2) by (auto simp: pool_inv_def min_def)
  qed (rule jobs_run_envs)
qed

section \<open>The pool comes to an end\<close>

fun weight :: "Worker \<Rightarrow> nat" where
  "weight Quit = 0"
| "weight Taking = 1"
| "weight Checking = 2"
| "weight Failing = 3"
| "weight (Running _) = 4"

definition pool_measure :: "nat \<Rightarrow> 's Pool \<Rightarrow> nat" where
  "pool_measure n p = 4 * (n - pl_next p) + sum_list (map weight (pl_workers p))"

definition never_hangs :: "('e, 's) job \<Rightarrow> bool" where
  "never_hangs job \<longleftrightarrow> (\<forall>i e s. job i e s \<noteq> None)"

lemma weight_update:
  "t < length xs \<Longrightarrow> sum_list (map weight (xs[t := y])) + weight (xs ! t) = sum_list (map weight xs) + weight y"
proof (induction xs arbitrary: t)
  case (Cons x xs)
  then show ?case by (cases t) auto
qed simp

lemma work_step_quit: "t \<ge> length (pl_workers p) \<or> pl_workers p ! t = Quit \<Longrightarrow> work_step n job (t, e) p = p"
  by (auto simp: work_step_def)

lemma work_step_decreases:
  assumes "never_hangs job" "t < length (pl_workers p)" "pl_workers p ! t \<noteq> Quit"
  shows "pool_measure n (work_step n job (t, e) p) < pool_measure n p"
proof (cases "pl_workers p ! t")
  case (Running i)
  obtain ok s where "job i e (pl_state p) = Some (ok, s)" using assms(1) by (metis never_hangs_def not_None_eq surj_pair)
  then show ?thesis using Running assms(2) weight_update [OF assms(2), of "if ok then Checking else Failing"]
    by (auto simp: work_step_def pool_measure_def split: if_splits)
next
  case Taking
  then show ?thesis using assms(2) weight_update [OF assms(2), of "if pl_next p \<ge> n then Quit else Running (pl_next p)"]
    by (auto simp: work_step_def pool_measure_def split: if_splits)
next
  case Checking
  then show ?thesis using assms(2) weight_update [OF assms(2), of "if pl_stop p then Quit else Taking"]
    by (auto simp: work_step_def pool_measure_def split: if_splits)
next
  case Failing
  then show ?thesis using assms(2) weight_update [OF assms(2), of Checking] by (simp add: work_step_def pool_measure_def)
qed (use assms(3) in simp)

lemma fold_measure_le: "never_hangs job \<Longrightarrow> pool_measure n (fold (work_step n job) tes p) \<le> pool_measure n p"
proof (induction tes arbitrary: p)
  case (Cons te tes)
  obtain t e where te: "te = (t, e)" by (cases te)
  have "pool_measure n (work_step n job te p) \<le> pool_measure n p"
    unfolding te using work_step_decreases [OF Cons.prems, of t p n e] work_step_quit [of p t n job e] by (metis leI le_less order_refl)
  then show ?case using Cons.IH [OF Cons.prems, of "work_step n job te p"] by simp
qed simp

lemma work_step_other: "t \<noteq> u \<Longrightarrow> pl_workers (work_step n job (u, e) p) ! t = pl_workers p ! t"
  by (auto simp: work_step_def split: Worker.splits option.splits)

lemma round_decreases:
  assumes "never_hangs job" "t < length (pl_workers p)" "pl_workers p ! t \<noteq> Quit" "t \<in> fst ` set tes"
  shows "pool_measure n (fold (work_step n job) tes p) < pool_measure n p"
  using assms(2-4)
proof (induction tes arbitrary: p)
  case (Cons te tes)
  obtain u e where te: "te = (u, e)" by (cases te)
  show ?case
  proof (cases "u = t")
    case True
    have "pool_measure n (work_step n job te p) < pool_measure n p"
      unfolding te using work_step_decreases [OF assms(1)] Cons.prems True by simp
    then show ?thesis using fold_measure_le [OF assms(1), of n tes "work_step n job te p"] by simp
  next
    case False
    then have "pool_measure n (fold (work_step n job) tes (work_step n job te p)) < pool_measure n (work_step n job te p)"
      using Cons.prems te by (intro Cons.IH) (auto simp: work_step_other)
    then show ?thesis using fold_measure_le [OF assms(1), of n "[te]" p] by simp
  qed
qed simp

lemma done_stays: "pool_done p \<Longrightarrow> fold (work_step n job) tes p = p"
proof (induction tes)
  case (Cons te tes)
  then have "work_step n job te p = p"
    by (cases te) (auto simp: pool_done_def list_all_iff intro!: work_step_quit, meson leI nth_mem)
  then show ?case using Cons by simp
qed simp

lemma rounds_finish:
  assumes "never_hangs job"
  shows "\<forall>r\<in>set rounds. {..<length (pl_workers p)} \<subseteq> fst ` set r \<Longrightarrow> pool_measure n p \<le> length rounds \<Longrightarrow>
    pool_done (fold (work_step n job) (concat rounds) p)"
proof (induction rounds arbitrary: p)
  case Nil
  then have "sum_list (map weight (pl_workers p)) = 0" by (simp add: pool_measure_def)
  then have "\<forall>w\<in>set (pl_workers p). weight w = 0" by (simp add: sum_list_eq_0_iff)
  moreover have "weight w = 0 \<longleftrightarrow> w = Quit" for w by (cases w) auto
  ultimately show ?case by (simp add: pool_done_def list_all_iff)
next
  case (Cons r rounds)
  let ?q = "fold (work_step n job) r p"
  show ?case
  proof (cases "pool_done p")
    case True
    then show ?thesis by (simp only: done_stays)
  next
    case False
    then obtain t where "t < length (pl_workers p)" "pl_workers p ! t \<noteq> Quit" by (auto simp: pool_done_def list_all_length)
    then have "pool_measure n ?q < pool_measure n p" using Cons.prems(1) by (intro round_decreases [OF assms]) auto
    then show ?thesis using Cons.IH [of ?q] Cons.prems by simp
  qed
qed

section \<open>The properties\<close>

text \<open>
  C32. However its threads interleave, a finished run of the pool did each job at most once, its effect on
  the shared state is that of the jobs one after another, and it reports success just when every job
  it ran succeeded, in which case every index from 0 to \<open>n - 1\<close> was done exactly once.
\<close>

theorem pool_each_job_once:
  assumes "run_pool n workers started job steps s = Some (ok, s')"
  shows "\<exists>hist. replay_jobs job hist s = Some s' \<and> distinct (map fst hist) \<and> set (map fst hist) \<subseteq> {..<n} \<and>
    (ok \<longleftrightarrow> (\<forall>x\<in>set hist. snd (snd x))) \<and> (ok \<longrightarrow> set (map fst hist) = {..<n})"
proof (rule run_pool_history [OF assms])
  fix hist
  assume h: "replay_jobs job hist s = Some s'" "distinct (map fst hist)" "set (map fst hist) \<subseteq> {..<n}"
    "ok \<longleftrightarrow> (\<forall>x\<in>set hist. snd (snd x))" "ok \<Longrightarrow> mset (map fst hist) = mset [0..<n]"
  then have "ok \<longrightarrow> set (map fst hist) = {..<n}" using mset_eq_setD by fastforce
  then show ?thesis using h(1-4) by blast
qed

text \<open>Two threads, three jobs that count up.\<close>

definition sample_job :: "(unit, nat) job" where
  "sample_job i e s = Some (True, s + i)"

definition sample_rounds :: "(nat \<times> unit) list list" where
  "sample_rounds = replicate 16 [(0, ()), (1, ())]"

lemma sample_pool: "run_pool 3 2 2 sample_job (concat sample_rounds) 0 = Some (True, 3)"
  by code_simp

theorem pool_each_job_once_witness:
  "\<exists>hist. replay_jobs sample_job hist 0 = Some 3 \<and> distinct (map fst hist) \<and> set (map fst hist) = {..<3}"
  using pool_each_job_once [OF sample_pool] by auto

text \<open>
  C33. The pool comes to an end: if no job hangs, then after \<open>4 * n + 2 * k\<close> rounds in which each of its
  \<open>k\<close> threads moves at least once, in any order, every thread has left its loop and the call returns.
\<close>

theorem pool_finishes:
  assumes "never_hangs job" "\<forall>r\<in>set rounds. {..<pool_threads n workers started} \<subseteq> fst ` set r"
    "4 * n + 2 * pool_threads n workers started \<le> length rounds"
  shows "\<exists>ok s'. run_pool n workers started job (concat rounds) s = Some (ok, s')"
proof -
  let ?start = "pool_start (pool_threads n workers started) s"
  have "sum_list (replicate k (2 :: nat)) = 2 * k" for k by (induction k) auto
  then have "pool_measure n ?start = 4 * n + 2 * pool_threads n workers started"
    by (simp add: pool_measure_def pool_start_def)
  then have "pool_done (fold (work_step n job) (concat rounds) ?start)"
    using assms by (intro rounds_finish) (simp_all add: pool_start_def)
  then show ?thesis by (simp add: run_pool_def Let_def)
qed

theorem pool_finishes_witness: "\<exists>ok s'. run_pool 3 2 2 sample_job (concat sample_rounds) 0 = Some (ok, s')"
proof (rule pool_finishes)
  show "never_hangs sample_job" by (simp add: never_hangs_def sample_job_def)
  have "pool_threads 3 2 2 = 2" by code_simp
  moreover have "{..<2} = {0, 1 :: nat}" by auto
  ultimately show "\<forall>r\<in>set sample_rounds. {..<pool_threads 3 2 2} \<subseteq> fst ` set r"
    "4 * 3 + 2 * pool_threads 3 2 2 \<le> length sample_rounds"
    by (simp_all add: sample_rounds_def)
qed

end
