(* ===== verification/File_Transfer.thy ===== *)
theory File_Transfer
  imports Pool
begin

text \<open>
  Whole files through the ring: \<^verbatim>\<open>upload_file\<close> and \<^verbatim>\<open>download_file\<close> of \<^verbatim>\<open>src/transfer.cpp\<close> with the
  helpers they call. What the operating system answers, the clock, the interleaving of the worker
  threads and what they see in the stop flag are arguments. The file system is a map from paths to
  contents; \<^verbatim>\<open>lstat\<close>-like facts about a path are arguments too.
\<close>

definition CHUNK_ATTEMPTS :: nat where "CHUNK_ATTEMPTS = 3"
definition MAX_WORKERS :: int where "MAX_WORKERS = 64"
definition DEFAULT_CHUNK_SIZE :: nat where "DEFAULT_CHUNK_SIZE = 512 * 1024"
definition DEFAULT_WORKERS :: int where "DEFAULT_WORKERS = 8"

section \<open>Files\<close>

definition parent_of :: "string \<Rightarrow> string" where
  "parent_of path =
     (if CHR ''/'' \<notin> set path then ''.''
      else let parent = rev (tl (dropWhile (\<lambda>c. c \<noteq> CHR ''/'') (rev path)))
           in if parent = [] then ''/'' else parent)"

text \<open>
  The results of successive \<^verbatim>\<open>pread\<close> and \<^verbatim>\<open>pwrite\<close> calls: bytes (none at the end of the file), an
  interrupted call, or an error with its text. A write moves at least one byte unless it ends the
  loop. \<open>None\<close> is a loop that goes on after the calls listed.
\<close>

datatype PreadResult = Bytes string | ReadInterrupted | ReadFailed string
datatype PwriteResult = Wrote nat | WriteInterrupted | WriteEnded string

fun pread_all :: "nat \<Rightarrow> string \<Rightarrow> PreadResult list \<Rightarrow> (string + string) option" where
  "pread_all len got [] = (if length got < len then None else Some (Inr got))"
| "pread_all len got (r # rs) =
     (if length got \<ge> len then Some (Inr got)
      else case r of
        ReadInterrupted \<Rightarrow> pread_all len got rs
      | ReadFailed e \<Rightarrow> Some (Inl e)
      | Bytes b \<Rightarrow> if b = [] then Some (Inr got) else pread_all len (got @ take (len - length got) b) rs)"

definition write_at :: "nat \<Rightarrow> string \<Rightarrow> string \<Rightarrow> string" where
  "write_at ofs b f = take ofs (f @ replicate (ofs - length f) (CHR 0x00)) @ b @ drop (ofs + length b) f"

fun pwrite_all :: "string \<Rightarrow> nat \<Rightarrow> PwriteResult list \<Rightarrow> string \<Rightarrow> (string option \<times> string) option" where
  "pwrite_all rest ofs [] f = (if rest = [] then Some (None, f) else None)"
| "pwrite_all rest ofs (r # rs) f =
     (if rest = [] then Some (None, f)
      else case r of
        WriteInterrupted \<Rightarrow> pwrite_all rest ofs rs f
      | WriteEnded e \<Rightarrow> Some (Some e, f)
      | Wrote k \<Rightarrow>
          let k = max 1 (min k (length rest)) in pwrite_all (drop k rest) (ofs + k) rs (write_at ofs (take k rest) f))"

section \<open>Attempts\<close>

type_synonym 'w put_fn = "'w \<Rightarrow> string \<Rightarrow> PutOutcome \<times> 'w"

function put_attempts :: "'w put_fn \<Rightarrow> string \<Rightarrow> nat \<Rightarrow> (nat \<Rightarrow> bool) \<Rightarrow> nat \<Rightarrow> 'w \<Rightarrow> (PutOutcome \<times> nat) \<times> 'w" where
  "put_attempts put body attempts stop used w =
     (case put w body of
        (p, w) \<Rightarrow>
          if po_ok p \<or> used \<ge> attempts \<or> stop used then ((p, used), w)
          else put_attempts put body attempts stop (used + 1) w)"
  by auto
termination by (relation "measure (\<lambda>(_, _, attempts, _, used, _). attempts - used)") auto

declare put_attempts.simps [simp del]

definition tried_list :: "GetOutcome \<Rightarrow> string" where
  "tried_list g = fold (\<lambda>t s. s @ (if s = [] then [] else ''; '') @ t) (go_tried g) []"

section \<open>The state of a transfer\<close>

record TransferOptions =
  to_workers :: int
  to_chunk :: nat
  to_fanout :: nat
  to_for_signals :: bool
  to_log :: bool
  to_on_chunk :: bool

record ChunkTiming =
  ct_index :: nat
  ct_bytes :: nat
  ct_micros :: int
  ct_attempts :: nat
  ct_tried :: nat
  ct_ok :: bool

definition empty_timing :: ChunkTiming where
  "empty_timing = \<lparr>ct_index = 0, ct_bytes = 0, ct_micros = 0, ct_attempts = 0, ct_tried = 0, ct_ok = False\<rparr>"

text \<open>
  What the workers of a transfer share: the ring behind them, the keys of an upload or the part
  file of a download, the timings, the first failure, and what was logged and told.
\<close>

record 'w Shared =
  sh_world :: 'w
  sh_keys :: "string list"
  sh_part :: string
  sh_timings :: "ChunkTiming list"
  sh_failure :: string
  sh_log :: "string list"
  sh_told :: "ChunkTiming list"

text \<open>What happens around one job: an exception, the stop flag after each attempt, what reading from an offset and writing gives, the clock.\<close>

record JobEnv =
  je_throws :: bool
  je_stop :: "nat \<Rightarrow> bool"
  je_reads :: "nat \<Rightarrow> PreadResult list"
  je_writes :: "PwriteResult list"
  je_micros :: int

definition failure_set :: "string \<Rightarrow> 'w Shared \<Rightarrow> bool \<times> 'w Shared" where
  "failure_set why s = (False, if sh_failure s = [] then s\<lparr>sh_failure := why\<rparr> else s)"

definition log_line :: "TransferOptions \<Rightarrow> string \<Rightarrow> 'w Shared \<Rightarrow> 'w Shared" where
  "log_line opt line s = (if to_log opt then s\<lparr>sh_log := sh_log s @ [line]\<rparr> else s)"

definition tell :: "TransferOptions \<Rightarrow> ChunkTiming \<Rightarrow> 'w Shared \<Rightarrow> 'w Shared" where
  "tell opt t s = (if to_on_chunk opt then s\<lparr>sh_told := sh_told s @ [t]\<rparr> else s)"

definition shared_start :: "'w \<Rightarrow> nat \<Rightarrow> string \<Rightarrow> 'w Shared" where
  "shared_start w n part =
     \<lparr>sh_world = w, sh_keys = replicate n [], sh_part = part, sh_timings = replicate n empty_timing, sh_failure = [],
      sh_log = [], sh_told = []\<rparr>"

definition worker_message :: "'w Shared \<Rightarrow> string" where
  "worker_message s = (if sh_failure s = [] then ''a worker failed'' else sh_failure s)"

section \<open>Upload\<close>

record UploadOutcome =
  uo_ok :: bool
  uo_message :: string
  uo_root_key :: string
  uo_size :: nat
  uo_chunks :: nat
  uo_manifests :: nat
  uo_depth :: nat
  uo_timings :: "ChunkTiming list"

record FileStat =
  st_regular :: bool
  st_size :: nat
  st_mtime :: "int \<times> int"

text \<open>The system around an upload: open and \<^verbatim>\<open>fstat\<close>, and how each pool of threads ran.\<close>

record UploadOs =
  us_open :: "string option"
  us_before :: "FileStat option"
  us_after :: "FileStat option"
  us_started :: nat
  us_steps :: "(nat \<times> JobEnv) list"
  us_manifest_started :: nat
  us_manifest_steps :: "(nat \<times> JobEnv) list"

definition upload_job :: "'w put_fn \<Rightarrow> string \<Rightarrow> TransferOptions \<Rightarrow> nat \<Rightarrow> (JobEnv, 'w Shared) job" where
  "upload_job put path opt fsize i e s =
     (if je_throws e then Some (False, s)
      else let ofs = i * to_chunk opt; len = min (to_chunk opt) (fsize - ofs) in
      case pread_all len [] (je_reads e ofs) of
        None \<Rightarrow> None
      | Some (Inl err) \<Rightarrow> Some (failure_set (''reading chunk '' @ to_string i @ '': '' @ err) s)
      | Some (Inr body) \<Rightarrow>
          if length body \<noteq> len then Some (failure_set (path @ '' shrank while it was being read'') s)
          else case put_attempts put body CHUNK_ATTEMPTS (je_stop e) 1 (sh_world s) of
            ((p, used), w) \<Rightarrow>
              let t = \<lparr>ct_index = i, ct_bytes = len, ct_micros = je_micros e, ct_attempts = used, ct_tried = po_attempts p, ct_ok = po_ok p\<rparr>;
                  s = tell opt t (s\<lparr>sh_world := w, sh_timings := (sh_timings s)[i := t]\<rparr>)
              in if \<not> po_ok p then Some (failure_set (''chunk '' @ to_string i @ '': '' @ po_message p) s)
                 else let s = s\<lparr>sh_keys := (sh_keys s)[i := po_key p]\<rparr> in
                      Some (True, if used > 1 \<or> po_attempts p > 1
                                  then log_line opt (''chunk '' @ to_string i @ '' stored after '' @ to_string used @ '' attempt(s) and '' @
                                         to_string (po_attempts p) @ '' coordinator(s)'') s
                                  else s))"

definition manifest_job :: "'w put_fn \<Rightarrow> string list \<Rightarrow> (JobEnv, 'w Shared) job" where
  "manifest_job put blobs i e s =
     (if je_throws e then Some (False, s)
      else case put_attempts put (blobs ! i) CHUNK_ATTEMPTS (je_stop e) 1 (sh_world s) of
        ((p, _), w) \<Rightarrow>
          let s = s\<lparr>sh_world := w\<rparr> in
          if po_ok p then Some (True, s)
          else Some (failure_set (''manifest '' @ to_string (i + 1) @ '' of '' @ to_string (length blobs) @ '': '' @ po_message p) s))"

definition upload_entries :: "string list \<Rightarrow> nat \<Rightarrow> nat \<Rightarrow> ManifestEntry list" where
  "upload_entries keys fsize chunk = map (\<lambda>i. \<lparr>me_key = keys ! i, me_bytes = min chunk (fsize - i * chunk)\<rparr>) [0..<length keys]"

definition upload_fail :: "UploadOutcome \<Rightarrow> string \<Rightarrow> UploadOutcome" where
  "upload_fail out message = out\<lparr>uo_message := message\<rparr>"

text \<open>The second half: the manifests over the stored chunks, built and stored.\<close>

definition upload_manifests ::
  "platform \<Rightarrow> 'w put_fn \<Rightarrow> TransferOptions \<Rightarrow> UploadOs \<Rightarrow> 'w Shared \<Rightarrow> UploadOutcome \<Rightarrow> (UploadOutcome \<times> 'w Shared) option"
where
  "upload_manifests P put opt os s out =
     (let tree = build_manifests P (upload_entries (sh_keys s) (uo_size out) (to_chunk opt)) (uo_size out) (to_chunk opt) (to_fanout opt) in
      if mt_depth tree > MAX_MANIFEST_DEPTH
      then Some (upload_fail out (''at a fan-out of '' @ to_string (to_fanout opt) @ '' this file needs '' @ to_string (mt_depth tree) @
                   '' levels of manifests; a reader accepts '' @ to_string MAX_MANIFEST_DEPTH), s)
      else case run_pool (length (mt_blobs tree)) (to_workers opt) (us_manifest_started os) (manifest_job put (mt_blobs tree))
                  (us_manifest_steps os) s of
        None \<Rightarrow> None
      | Some (ok, s) \<Rightarrow>
          if \<not> ok then Some (upload_fail out (worker_message s), s)
          else Some (out\<lparr>uo_ok := True, uo_root_key := mt_root_key tree, uo_manifests := length (mt_blobs tree), uo_depth := mt_depth tree\<rparr>, s))"

definition options_fault :: "TransferOptions \<Rightarrow> string option" where
  "options_fault opt =
     (if to_workers opt < 1 \<or> to_workers opt > MAX_WORKERS then Some (''workers must be 1 to '' @ to_string_int MAX_WORKERS)
      else if to_chunk opt < 1 \<or> to_chunk opt > MAX_CHUNK then Some (''the chunk size must be 1 to '' @ to_string MAX_CHUNK)
      else if to_fanout opt < 2 \<or> to_fanout opt > MANIFEST_FANOUT then Some (''the fan-out must be 2 to '' @ to_string MANIFEST_FANOUT)
      else None)"

definition upload_file ::
  "platform \<Rightarrow> string \<Rightarrow> 'w put_fn \<Rightarrow> TransferOptions \<Rightarrow> UploadOs \<Rightarrow> 'w \<Rightarrow> (UploadOutcome \<times> 'w Shared) option"
where
  "upload_file P path put opt os w =
     (let out = \<lparr>uo_ok = False, uo_message = [], uo_root_key = [], uo_size = 0, uo_chunks = 0, uo_manifests = 0, uo_depth = 0, uo_timings = []\<rparr>;
          s0 = shared_start w 0 []
      in case options_fault opt of
        Some why \<Rightarrow> Some (upload_fail out why, s0)
      | None \<Rightarrow>
          (case us_open os of
             Some err \<Rightarrow> Some (upload_fail out (''cannot open '' @ path @ '': '' @ err), s0)
           | None \<Rightarrow>
               (case us_before os of
                  None \<Rightarrow> Some (upload_fail out (path @ '' is not a regular file''), s0)
                | Some before \<Rightarrow>
                    if \<not> st_regular before then Some (upload_fail out (path @ '' is not a regular file''), s0)
                    else let n = (st_size before + to_chunk opt - 1) div to_chunk opt; out = out\<lparr>uo_size := st_size before, uo_chunks := n\<rparr> in
                    case run_pool n (to_workers opt) (us_started os) (upload_job put path opt (st_size before)) (us_steps os) (shared_start w n []) of
                      None \<Rightarrow> None
                    | Some (ok, s) \<Rightarrow>
                        let out = out\<lparr>uo_timings := sh_timings s\<rparr>;
                            unchanged = (case us_after os of None \<Rightarrow> False
                              | Some after \<Rightarrow> st_size after = st_size before \<and> st_mtime after = st_mtime before)
                        in if \<not> ok then Some (upload_fail out (worker_message s), s)
                           else if \<not> unchanged then Some (upload_fail out (path @ '' changed while it was being read''), s)
                           else upload_manifests P put opt os s out)))"

section \<open>Download\<close>

record DownloadOutcome =
  do_ok :: bool
  do_message :: string
  do_size :: nat
  do_chunks :: nat
  do_manifests :: nat
  do_depth :: nat
  do_timings :: "ChunkTiming list"

text \<open>The path a signal handler may remove, and the flag that says it may.\<close>

record PartFile =
  g_part_path :: string
  g_part_live :: bool

type_synonym files = "string \<rightharpoonup> string"

definition remove_part_file :: "PartFile \<Rightarrow> files \<Rightarrow> files" where
  "remove_part_file g fs = (if g_part_live g then fs(g_part_path g := None) else fs)"

text \<open>
  The system around a download: what \<^verbatim>\<open>stat\<close> says of the destination, the process and call numbers
  in the part file's name, and an error text for each call that failed.
\<close>

record DownloadOs =
  os_is_dir :: bool
  os_pid :: nat
  os_counter :: nat
  os_open :: "string option"
  os_truncate :: "string option"
  os_started :: nat
  os_steps :: "(nat \<times> JobEnv) list"
  os_fsync :: "string option"
  os_close :: "string option"
  os_rename :: "string option"
  os_fsync_dir :: bool

definition part_name :: "DownloadOs \<Rightarrow> string \<Rightarrow> string" where
  "part_name os dest = dest @ ''.part-'' @ to_string (os_pid os) @ ''-'' @ to_string (os_counter os)"

text \<open>Whichever way the job of a chunk ends, the caller's \<^verbatim>\<open>on_chunk\<close> is told how it went.\<close>

definition told :: "TransferOptions \<Rightarrow> nat \<Rightarrow> bool \<times> 'w Shared \<Rightarrow> bool \<times> 'w Shared" where
  "told opt i r = (case r of (ok, s) \<Rightarrow> (ok, tell opt (sh_timings s ! i) s))"

definition download_job :: "'w get_fn \<Rightarrow> ChunkRef list \<Rightarrow> TransferOptions \<Rightarrow> (JobEnv, 'w Shared) job" where
  "download_job get chunks opt i e s =
     (if je_throws e then Some (False, s)
      else let c = chunks ! i in
      case get_attempts get (cr_key c) CHUNK_ATTEMPTS (je_stop e) 1 (sh_world s) of
        ((g, used), w) \<Rightarrow>
          let t = \<lparr>ct_index = i, ct_bytes = cr_bytes c, ct_micros = 0, ct_attempts = used, ct_tried = length (go_tried g), ct_ok = False\<rparr>;
              s = s\<lparr>sh_world := w, sh_timings := (sh_timings s)[i := t]\<rparr>
          in if \<not> go_ok g
             then Some (told opt i (failure_set (''chunk '' @ to_string i @ '' ('' @ cr_key c @ ''): '' @ go_message g) s))
             else if length (go_body g) \<noteq> cr_bytes c
             then Some (told opt i (failure_set (''chunk '' @ to_string i @ '' is '' @ to_string (length (go_body g)) @
                          '' bytes; the manifest says '' @ to_string (cr_bytes c)) s))
             else case pwrite_all (go_body g) (cr_offset c) (je_writes e) (sh_part s) of
               None \<Rightarrow> None
             | Some (Some err, f) \<Rightarrow> Some (told opt i (failure_set (''writing chunk '' @ to_string i @ '': '' @ err) (s\<lparr>sh_part := f\<rparr>)))
             | Some (None, f) \<Rightarrow>
                 let s = s\<lparr>sh_part := f, sh_timings := (sh_timings s)[i := t\<lparr>ct_micros := je_micros e, ct_ok := True\<rparr>]\<rparr>;
                     s = (if used > 1 \<or> length (go_tried g) > 1
                          then log_line opt (''chunk '' @ to_string i @ '' after '' @ to_string used @ '' attempt(s): '' @ tried_list g) s
                          else s)
                 in Some (told opt i (True, s)))"

definition download_fail :: "DownloadOutcome \<Rightarrow> string \<Rightarrow> DownloadOutcome" where
  "download_fail out message = out\<lparr>do_message := message\<rparr>"

text \<open>The part file is closed and removed, and the signal handler told that there is none.\<close>

definition abandon ::
  "TransferOptions \<Rightarrow> string \<Rightarrow> string \<Rightarrow> DownloadOutcome \<Rightarrow> 'w Shared \<Rightarrow> files \<Rightarrow> PartFile \<Rightarrow>
     (DownloadOutcome \<times> 'w Shared) \<times> files \<times> PartFile"
where
  "abandon opt part why out s fs g =
     ((download_fail out why, s), fs(part := None), if to_for_signals opt then g\<lparr>g_part_live := False\<rparr> else g)"

text \<open>Step 4: flush, close, rename into place, flush the directory.\<close>

definition download_finish ::
  "TransferOptions \<Rightarrow> DownloadOs \<Rightarrow> string \<Rightarrow> string \<Rightarrow> DownloadOutcome \<Rightarrow> 'w Shared \<Rightarrow> files \<Rightarrow> PartFile \<Rightarrow>
     (DownloadOutcome \<times> 'w Shared) \<times> files \<times> PartFile"
where
  "download_finish opt os part dest out s fs g =
     (case (os_fsync os, os_close os, os_rename os) of
        (Some err, _, _) \<Rightarrow> abandon opt part (''cannot flush '' @ part @ '': '' @ err) out s fs g
      | (None, Some err, _) \<Rightarrow> abandon opt part (''cannot close '' @ part @ '': '' @ err) out s fs g
      | (None, None, Some err) \<Rightarrow> abandon opt part (''cannot rename '' @ part @ '' to '' @ dest @ '': '' @ err) out s fs g
      | (None, None, None) \<Rightarrow>
          let fs = fs(dest := fs part, part := None);
              g = (if to_for_signals opt then g\<lparr>g_part_live := False\<rparr> else g);
              s = (if os_fsync_dir os then s
                   else log_line opt (''warning: '' @ parent_of dest @ '' could not be flushed; the new name may not survive a power cut'') s)
          in ((out\<lparr>do_ok := True\<rparr>, s), fs, g))"

text \<open>Steps 2 and 3: the part file, and the chunks written into it.\<close>

definition download_chunks ::
  "'w get_fn \<Rightarrow> string \<Rightarrow> TransferOptions \<Rightarrow> DownloadOs \<Rightarrow> Resolved \<Rightarrow> DownloadOutcome \<Rightarrow> 'w Shared \<Rightarrow> files \<Rightarrow> PartFile \<Rightarrow>
     ((DownloadOutcome \<times> 'w Shared) \<times> files \<times> PartFile) option"
where
  "download_chunks get dest opt os r out s fs g =
     (let part = part_name os dest in
      if to_for_signals opt \<and> length part \<ge> 4096 then Some ((download_fail out ''the destination path is too long'', s), fs, g)
      else let g = (if to_for_signals opt then \<lparr>g_part_path = part, g_part_live = True\<rparr> else g) in
      case (if fs part \<noteq> None then Some ''File exists'' else os_open os) of
        Some err \<Rightarrow> Some (abandon opt part (''cannot create '' @ part @ '': '' @ err) out s fs g)
      | None \<Rightarrow>
          (case os_truncate os of
             Some err \<Rightarrow> Some (abandon opt part (''cannot size '' @ part @ '': '' @ err) out s (fs(part \<mapsto> [])) g)
           | None \<Rightarrow>
               let n = length (rs_chunks r);
                   s = s\<lparr>sh_part := replicate (rs_size r) (CHR 0x00), sh_timings := replicate n empty_timing\<rparr>
               in case run_pool n (to_workers opt) (os_started os) (download_job get (rs_chunks r) opt) (os_steps os) s of
                 None \<Rightarrow> None
               | Some (ok, s) \<Rightarrow>
                   let fs = fs(part \<mapsto> sh_part s); out = out\<lparr>do_timings := sh_timings s\<rparr> in
                   if \<not> ok then Some (abandon opt part (worker_message s) out s fs g)
                   else Some (download_finish opt os part dest out s fs g)))"

definition download_file ::
  "string \<Rightarrow> string \<Rightarrow> 'w get_fn \<Rightarrow> TransferOptions \<Rightarrow> DownloadOs \<Rightarrow> 'w \<Rightarrow> files \<Rightarrow> PartFile \<Rightarrow>
     ((DownloadOutcome \<times> 'w Shared) \<times> files \<times> PartFile) option"
where
  "download_file root_key dest get opt os w fs g =
     (let out = \<lparr>do_ok = False, do_message = [], do_size = 0, do_chunks = 0, do_manifests = 0, do_depth = 0, do_timings = []\<rparr>;
          s = shared_start w 0 []
      in if to_workers opt < 1 \<or> to_workers opt > MAX_WORKERS
         then Some ((download_fail out (''workers must be 1 to '' @ to_string_int MAX_WORKERS), s), fs, g)
         else if os_is_dir os then Some ((download_fail out (dest @ '' is a directory''), s), fs, g)
         else case resolve_manifest get root_key CHUNK_ATTEMPTS w of
           (r, w) \<Rightarrow>
             let s = s\<lparr>sh_world := w\<rparr> in
             if \<not> rs_ok r then Some ((download_fail out (rs_message r), s), fs, g)
             else let out = out\<lparr>do_size := rs_size r, do_chunks := length (rs_chunks r), do_manifests := rs_manifests r, do_depth := rs_depth r\<rparr>;
                      s = log_line opt (''manifest '' @ root_key @ '': '' @ to_string (rs_size r) @ '' bytes, '' @
                            to_string (length (rs_chunks r)) @ '' chunks, '' @ to_string (rs_manifests r) @ '' manifest(s)'') s
                  in download_chunks get dest opt os r out s fs g)"

end
