(* ===== verification/Chunk_Props.thy ===== *)
theory Chunk_Props
  imports Chunk
begin

text \<open>
  What the chunk plane promises: replica sets on distinct processes, acknowledged writes that
  really have their copies, reads that are always verified, deletion only with the key, and a
  bound on the bodies in memory.
\<close>

section \<open>Replica sets\<close>

definition process :: "Peer \<Rightarrow> string \<times> nat" where
  "process p = (peer_ip p, peer_port p)"

lemma same_process_iff: "same_process p q \<longleftrightarrow> process p = process q"
  by (simp add: same_process_def process_def)

lemma distinct_loop_spec:
  assumes "distinct (map process out)"
  shows "distinct (map process (distinct_loop rf out ps)) \<and> length (distinct_loop rf out ps) \<le> max rf (length out) \<and>
    set (distinct_loop rf out ps) \<subseteq> set out \<union> set ps \<and> (\<exists>added. distinct_loop rf out ps = out @ added) \<and>
    (length (distinct_loop rf out ps) < rf \<longrightarrow> process ` set ps \<subseteq> process ` set (distinct_loop rf out ps))"
  using assms
proof (induction rf out ps rule: distinct_loop.induct)
  case (2 rf out p ps)
  show ?case
  proof (cases "length out \<ge> rf")
    case True
    then show ?thesis using 2 by auto
  next
    case False
    define out' where "out' = (if \<exists>q\<in>set out. same_process p q then out else out @ [p])"
    have d: "distinct (map process out')" using "2.prems" by (auto simp: out'_def same_process_iff)
    have p: "process p \<in> process ` set out'" by (force simp: out'_def same_process_iff)
    note ih = "2.IH" [OF False d [unfolded out'_def], folded out'_def]
    have e: "distinct_loop rf out (p # ps) = distinct_loop rf out' ps" using False by (simp add: out'_def)
    have pre: "\<exists>added. distinct_loop rf out' ps = out @ added" using ih by (force simp: out'_def split: if_splits)
    then have "process p \<in> process ` set (distinct_loop rf out' ps)" using p ih by (metis UnI1 image_Un set_append)
    then show ?thesis
      unfolding e using ih pre False by (auto simp: out'_def split: if_splits)
  qed
qed simp

text \<open>
  A replica set is at most \<open>rf\<close> members of pairwise distinct processes, the owner first, taken
  from the owner and its successor list; and when it is smaller than \<open>rf\<close> it already covers
  every process of that list.
\<close>

theorem replica_set_spec:
  assumes "1 \<le> rf"
  shows "hd (replica_set rf m) = nd_self m \<and> distinct (map process (replica_set rf m)) \<and> length (replica_set rf m) \<le> rf \<and>
    set (replica_set rf m) \<subseteq> insert (nd_self m) (set (nd_succs m)) \<and>
    (length (replica_set rf m) < rf \<longrightarrow> process ` set (nd_succs m) \<subseteq> process ` set (replica_set rf m))"
proof -
  have "replica_set rf m = distinct_loop rf [nd_self m] (nd_succs m)"
    using assms by (simp add: replica_set_def distinct_processes_def)
  then show ?thesis using distinct_loop_spec [of "[nd_self m]" rf "nd_succs m"] assms by (auto simp: max_def)
qed

theorem replica_set_spec_witness:
  "hd (replica_set 3 (node_init (sample_peer 3 9001) 8)) = sample_peer 3 9001"
  using replica_set_spec [of 3 "node_init (sample_peer 3 9001) 8"] by (simp add: node_init_def)

section \<open>Body slots\<close>

text \<open>
  Threads claim, undo and release slots in any order. Ghost counters say how many hold a slot and
  how many have still to undo a claim that found every slot taken.
\<close>

inductive slot_run :: "ChunkNode \<Rightarrow> nat \<Rightarrow> nat \<Rightarrow> bool" where
  sr_start: "cn_bodies n = 0 \<Longrightarrow> slot_run n 0 0"
| sr_granted: "slot_run n held undoing \<Longrightarrow> slot_claim n = (True, n') \<Longrightarrow> slot_run n' (Suc held) undoing"
| sr_full: "slot_run n held undoing \<Longrightarrow> slot_claim n = (False, n') \<Longrightarrow> slot_run n' held (Suc undoing)"
| sr_undo: "slot_run n held (Suc undoing) \<Longrightarrow> slot_run (slot_release n) held undoing"
| sr_release: "slot_run n (Suc held) undoing \<Longrightarrow> slot_run (slot_release n) held undoing"

lemma slot_run_count: "slot_run n held undoing \<Longrightarrow> cn_bodies n = held + undoing \<and> held \<le> MAX_BODIES"
  by (induction rule: slot_run.induct) (auto simp: slot_claim_def slot_release_def)

text \<open>
  However the threads interleave, at most \<^verbatim>\<open>MAX_BODIES\<close> of them hold a chunk body, and the counter
  is exact: it counts the holders and the claims still to be undone, so that when no claim is in
  flight a slot is refused only when all are taken.
\<close>

theorem body_slots_bounded:
  assumes "slot_run n held undoing"
  shows "held \<le> MAX_BODIES \<and> cn_bodies n = held + undoing \<and> (fst (slot_claim n) = (held + undoing < MAX_BODIES))"
  using slot_run_count [OF assms] by (simp add: slot_claim_def)

definition sample_process :: ChunkNode where
  "sample_process =
     \<lparr>cn_store = Some empty_store, cn_members = [node_init (sample_peer 3 9001) 8], cn_bodies = 0, cn_copies_short = 0,
      cn_gc_key = ''secret'', cn_gc_grace = 1000, cn_dropped_chunks = 0, cn_dropped_bytes = 0, cn_kept_young = 0, cn_log = []\<rparr>"

theorem body_slots_bounded_witness:
  "fst (slot_claim (snd (slot_claim sample_process)))"
proof -
  have "slot_run sample_process 0 0" by (rule sr_start) (simp add: sample_process_def)
  then have "slot_run (snd (slot_claim sample_process)) (Suc 0) 0"
    by (rule sr_granted) (simp add: slot_claim_def sample_process_def MAX_BODIES_def)
  from body_slots_bounded [OF this] show ?thesis by (simp add: MAX_BODIES_def)
qed

section \<open>Secrets\<close>

lemma of_char_byte_inj: "(of_char a :: byte) = of_char b \<longleftrightarrow> a = b"
proof -
  have u: "unat (of_char c :: byte) = of_char c" for c
  proof -
    have "(of_char c :: byte) = of_nat (of_char c)" by (simp add: of_nat_of_char)
    moreover have "(of_char c :: nat) < 256" by (rule nat_of_char_less_256)
    ultimately show ?thesis by (simp add: unsigned_of_nat take_bit_nat_eq_self del: of_nat_of_char)
  qed
  show ?thesis
  proof
    assume "(of_char a :: byte) = of_char b"
    then have "(of_char a :: nat) = of_char b" using u by metis
    then show "a = b" by simp
  qed simp
qed

lemma xor_byte_zero: "xor (x :: byte) y = 0 \<longleftrightarrow> x = y"
proof
  assume "xor x y = 0"
  then have "xor (xor x y) y = y" by simp
  then show "x = y" by (simp add: xor.assoc)
qed simp

lemma secret_diff_zero: "length a = length b \<Longrightarrow> secret_diff d a b = 0 \<longleftrightarrow> d = 0 \<and> a = b"
proof (induction d a b rule: secret_diff.induct)
  case (1 d a as b bs)
  have "(xor (of_char a) (of_char b) :: byte) = 0 \<longleftrightarrow> a = b" by (simp add: xor_byte_zero of_char_byte_inj)
  then show ?case using 1 by (auto simp: or_eq_0_iff)
qed auto

text \<open>
  C3. The comparison that looks at every byte decides equality: two secrets are taken for the same
  exactly when they are equal.
\<close>

theorem same_secret_eq: "same_secret a b \<longleftrightarrow> a = b"
  by (auto simp: same_secret_def secret_diff_zero)

section \<open>A world of processes\<close>

text \<open>
  Every other process of the system by its address, and a transport that hands a frame to the
  process it is for. Each process's disk and clock behave as \<open>ios\<close> says.
\<close>

type_synonym process_world = "string \<times> nat \<rightharpoonup> ChunkNode"

definition no_send :: "'w frame_transport" where
  "no_send w to line body = ((Failed, \<lparr>fr_line = [], fr_body = []\<rparr>), w)"

definition no_schedule :: Schedule where
  "no_schedule = \<lparr>sc_order = [], sc_seen = 0, sc_no_thread = (\<lambda>_. False)\<rparr>"

definition chunk_net :: "platform \<Rightarrow> (string \<times> nat \<Rightarrow> ChunkIo) \<Rightarrow> process_world frame_transport" where
  "chunk_net P ios W to line body =
     (case W (process to) of
        None \<Rightarrow> ((Refused, \<lparr>fr_line = [], fr_body = []\<rparr>), W)
      | Some n \<Rightarrow>
          (case handle_chunk_request P no_send (ios (process to)) no_schedule \<lparr>fr_line = line, fr_body = body\<rparr> ((), n) of
             None \<Rightarrow> ((Failed, \<lparr>fr_line = [], fr_body = []\<rparr>), W)
           | Some (h, _, n) \<Rightarrow> ((Ok, \<lparr>fr_line = ch_reply h, fr_body = ch_body h\<rparr>), W(process to \<mapsto> n))))"

definition node_holds :: "string \<Rightarrow> ChunkNode \<Rightarrow> bool" where
  "node_holds key n \<longleftrightarrow> (case cn_store n of None \<Rightarrow> False | Some s \<Rightarrow> store_has s key)"

definition node_ok :: "platform \<Rightarrow> ChunkNode \<Rightarrow> bool" where
  "node_ok P n \<longleftrightarrow> (case cn_store n of None \<Rightarrow> True | Some s \<Rightarrow> store_inv P s)"

definition world_ok :: "platform \<Rightarrow> process_world \<Rightarrow> bool" where
  "world_ok P W \<longleftrightarrow> (\<forall>a n. W a = Some n \<longrightarrow> node_ok P n)"

definition world_holds :: "string \<Rightarrow> process_world \<Rightarrow> (string \<times> nat) set" where
  "world_holds key W = {a. \<exists>n. W a = Some n \<and> node_holds key n}"

lemma put_keeps_keys: "set (cs_keys s) \<subseteq> set (cs_keys (snd (store_put P io now key body s)))"
  by (auto simp: store_put_def put_check_def put_file_def put_index_def Let_def split: if_splits prod.splits bool.splits)

lemma put_holds: "fst (store_put P io now key body s) \<in> {Stored, AlreadyHeld} \<Longrightarrow> store_has (snd (store_put P io now key body s)) key"
  using put_fresh [of P io now key body s] by (simp add: fresh_def store_has_def)

lemma split_store_line:
  assumes "valid_key key"
  shows "split_single_spaces (store_line key body) = [''STORE'', key, to_string (length body)]"
proof -
  have e: "store_line key body = ''STORE'' @ CHR '' '' # key @ CHR '' '' # to_string (length body)"
    by (simp add: store_line_def)
  have k: "CHR '' '' \<notin> set key" using assms by simp
  have s: "CHR '' '' \<notin> set ''STORE''" and n: "CHR '' '' \<notin> set (to_string (length body))" by simp_all
  show ?thesis unfolding e by (simp only: split_words_append [OF s] split_words_append [OF k] split_words_last [OF n])
qed

text \<open>A STORE at one process: what it answers, and that it forgets nothing.\<close>

lemma store_request:
  assumes "valid_key key" "cn_store n = Some st"
  shows "\<exists>st'. handle_chunk_request P no_send io no_schedule \<lparr>fr_line = store_line key body, fr_body = body\<rparr> ((), n) =
      Some (chunk_reply (fst (handle_store P io key body st)), (), n\<lparr>cn_store := Some st'\<rparr>) \<and>
    set (cs_keys st) \<subseteq> set (cs_keys st') \<and> (store_inv P st \<longrightarrow> store_inv P st') \<and>
    (fst (handle_store P io key body st) = ''OK'' \<longrightarrow> store_has st' key)"
proof -
  let ?p = "store_put P (ci_put io) (ci_now io 0) key body st"
  have h: "handle_store P io key body st = (if fst ?p = Stored \<or> fst ?p = AlreadyHeld then ''OK'' else ''ERR '' @ put_result_name (fst ?p), snd ?p)"
    by (simp add: handle_store_def split: prod.splits)
  have "handle_chunk_request P no_send io no_schedule \<lparr>fr_line = store_line key body, fr_body = body\<rparr> ((), n) =
      Some (chunk_reply (fst (handle_store P io key body st)), (), n\<lparr>cn_store := Some (snd ?p)\<rparr>)"
    using assms(2) by (simp add: handle_chunk_request_def split_store_line [OF assms(1)] Let_def h)
  moreover have "store_has (snd ?p) key" if "fst (handle_store P io key body st) = ''OK''"
    using that put_holds [of P "ci_put io" "ci_now io 0" key body st] by (simp add: h split: if_splits)
  ultimately show ?thesis using put_keeps_keys store_put_inv by blast
qed

lemma chunk_net_store:
  assumes "valid_key key" "chunk_net P ios W to (store_line key body) body = ((d, ans), W')"
  shows "world_holds k W \<subseteq> world_holds k W'" "world_ok P W \<Longrightarrow> world_ok P W'"
    "d = Ok \<Longrightarrow> fr_line ans = ''OK'' \<Longrightarrow> process to \<in> world_holds key W'"
proof -
  have "world_holds k W \<subseteq> world_holds k W' \<and> (world_ok P W \<longrightarrow> world_ok P W') \<and>
    (d = Ok \<longrightarrow> fr_line ans = ''OK'' \<longrightarrow> process to \<in> world_holds key W')"
  proof (cases "W (process to)")
    case None
    then show ?thesis using assms(2) by (auto simp: chunk_net_def)
  next
    case (Some n)
    show ?thesis
    proof (cases "cn_store n")
      case None
      have "handle_chunk_request P no_send (ios (process to)) no_schedule \<lparr>fr_line = store_line key body, fr_body = body\<rparr> ((), n) =
        Some (chunk_reply ''ERR this node keeps no chunks'', (), n)"
        using None by (simp add: handle_chunk_request_def split_store_line [OF assms(1)] Let_def)
      moreover have "W(process to \<mapsto> n) = W" using Some by auto
      ultimately show ?thesis using assms(2) Some by (auto simp: chunk_net_def chunk_reply_def)
    next
      case st: (Some st)
      obtain st' where r: "handle_chunk_request P no_send (ios (process to)) no_schedule \<lparr>fr_line = store_line key body, fr_body = body\<rparr> ((), n) =
        Some (chunk_reply (fst (handle_store P (ios (process to)) key body st)), (), n\<lparr>cn_store := Some st'\<rparr>)"
        "set (cs_keys st) \<subseteq> set (cs_keys st')" "store_inv P st \<longrightarrow> store_inv P st'"
        "fst (handle_store P (ios (process to)) key body st) = ''OK'' \<longrightarrow> store_has st' key"
        using store_request [OF assms(1) st, of P "ios (process to)" body] by blast
      have W': "W' = W(process to \<mapsto> n\<lparr>cn_store := Some st'\<rparr>)" "fr_line ans = fst (handle_store P (ios (process to)) key body st)"
        using assms(2) Some r(1) by (auto simp: chunk_net_def chunk_reply_def)
      have "store_inv P st" if "world_ok P W" using that Some st unfolding world_ok_def node_ok_def by (metis option.simps(5))
      with r(3) have "world_ok P W \<longrightarrow> world_ok P W'" by (auto simp: W' world_ok_def node_ok_def)
      moreover have "world_holds k W \<subseteq> world_holds k W'"
        using r(2) Some st by (auto simp: W' world_holds_def node_holds_def store_has_def)
      moreover have "fr_line ans = ''OK'' \<longrightarrow> process to \<in> world_holds key W'"
        using r(4) by (auto simp: W' world_holds_def node_holds_def)
      ultimately show ?thesis by blast
    qed
  qed
  then show "world_holds k W \<subseteq> world_holds k W'" "world_ok P W \<Longrightarrow> world_ok P W'"
    "d = Ok \<Longrightarrow> fr_line ans = ''OK'' \<Longrightarrow> process to \<in> world_holds key W'" by auto
qed

text \<open>Each copy a run of copies confirms is at another process of the list.\<close>

lemma copy_job_hold:
  assumes "valid_key key" "copy_job (chunk_net P ios) no_thread (store_line key body) body to (t, W) = (t', W')"
  shows "(\<forall>k. world_holds k W \<subseteq> world_holds k W') \<and> (world_ok P W \<longrightarrow> world_ok P W') \<and>
    (ta_confirmed t' = ta_confirmed t \<or> ta_confirmed t' = ta_confirmed t + 1 \<and> process to \<in> world_holds key W')"
proof (cases "no_thread to")
  case True
  then show ?thesis using assms(2) by (auto simp: copy_job_def fail_copy_def)
next
  case False
  obtain d ans W1 where c: "chunk_net P ios W to (store_line key body) body = ((d, ans), W1)" by (metis surj_pair)
  have "W' = W1" "t' = (if d = Ok \<and> fr_line ans = ''OK'' then t\<lparr>ta_confirmed := ta_confirmed t + 1\<rparr>
      else fail_copy to (if d = Ok then fr_line ans else delivery_name d) t)"
    using assms(2) False c by (simp_all add: copy_job_def)
  then show ?thesis using chunk_net_store [OF assms(1) c] by (auto simp: fail_copy_def)
qed

lemma run_copies_hold:
  assumes "valid_key key" "distinct (map process order)"
    "run_copies (chunk_net P ios) no_thread (store_line key body) body order (t, W) = (t', W')"
  shows "\<exists>A. A \<subseteq> process ` set order \<and> A \<subseteq> world_holds key W' \<and> ta_confirmed t' = ta_confirmed t + card A \<and>
    (\<forall>k. world_holds k W \<subseteq> world_holds k W') \<and> (world_ok P W \<longrightarrow> world_ok P W')"
  using assms(2,3)
proof (induction order arbitrary: t W)
  case Nil
  then show ?case by (intro exI [of _ "{}"]) (simp add: run_copies_def)
next
  case (Cons to order)
  obtain t1 W1 where j: "copy_job (chunk_net P ios) no_thread (store_line key body) body to (t, W) = (t1, W1)" by (metis surj_pair)
  note cj = copy_job_hold [OF assms(1) j]
  have rest: "run_copies (chunk_net P ios) no_thread (store_line key body) body order (t1, W1) = (t', W')"
    using Cons.prems(2) j by (simp add: run_copies_def)
  have d: "distinct (map process order)" "process to \<notin> process ` set order" using Cons.prems(1) by auto
  obtain A where A: "A \<subseteq> process ` set order" "A \<subseteq> world_holds key W'" "ta_confirmed t' = ta_confirmed t1 + card A"
    "\<forall>k. world_holds k W1 \<subseteq> world_holds k W'" "world_ok P W1 \<longrightarrow> world_ok P W'"
    using Cons.IH [OF d(1) rest] by blast
  have mono: "\<forall>k. world_holds k W \<subseteq> world_holds k W'" "world_ok P W \<longrightarrow> world_ok P W'" using cj A(4,5) by blast+
  show ?case
  proof (cases "ta_confirmed t1 = ta_confirmed t")
    case True
    then show ?thesis using A mono by (intro exI [of _ A]) auto
  next
    case False
    have "finite A" using A(1) finite_surj by blast
    then have "card (insert (process to) A) = card A + 1" using A(1) d(2) by (metis Suc_eq_plus1 card_insert_disjoint subsetD)
    then show ?thesis using A mono False cj by (intro exI [of _ "insert (process to) A"]) auto
  qed
qed

section \<open>Acknowledged writes\<close>

lemma put_reply_ok: "starts_with ''OK '' (put_reply w t) \<Longrightarrow> w \<le> ta_confirmed t"
  by (auto simp: put_reply_def starts_with_def MAX_LINE_def split: if_splits)

lemma replica_rest:
  assumes "distinct (sc_order sched)" "set (sc_order sched) = set (tl (replica_set RF m))"
  shows "distinct (map process (sc_order sched))" "process (nd_self m) \<notin> process ` set (sc_order sched)"
proof -
  have "replica_set RF m = distinct_loop RF [nd_self m] (nd_succs m)"
    by (simp add: replica_set_def distinct_processes_def RF_def)
  with distinct_loop_spec [of "[nd_self m]" RF "nd_succs m"]
  obtain added where r: "replica_set RF m = nd_self m # added" "distinct (map process (nd_self m # added))" by auto
  then have "inj_on process (set added)" "process (nd_self m) \<notin> process ` set added" by (auto simp: distinct_map)
  with r(1) assms show "distinct (map process (sc_order sched))" "process (nd_self m) \<notin> process ` set (sc_order sched)"
    by (auto simp: distinct_map)
qed


text \<open>A concrete write: one process, its own copy, nobody else in the ring.\<close>

lemma sample_store_put:
  "\<exists>st. store_put sample_platform good_io 50 sample_key sample_chunk empty_store = (Stored, st)"
  using sample_put by (metis prod.collapse)


section \<open>The coordinator's wait\<close>

lemma copy_job_counts:
  "copy_job send nt line body to (t, w) = (t', w') \<Longrightarrow>
     ta_confirmed t' + ta_failed t' = ta_confirmed t + ta_failed t + 1 \<and> ta_confirmed t \<le> ta_confirmed t' \<and> ta_failed t \<le> ta_failed t'"
  by (auto simp: copy_job_def fail_copy_def split: if_splits prod.splits)

lemma run_copies_counts:
  "run_copies send nt line body order (t, w) = (t', w') \<Longrightarrow>
     ta_confirmed t' + ta_failed t' = ta_confirmed t + ta_failed t + length order \<and> ta_confirmed t \<le> ta_confirmed t' \<and> ta_failed t \<le> ta_failed t'"
  unfolding run_copies_def
proof (induction order arbitrary: t w)
  case (Cons to order)
  obtain t1 w1 where j: "copy_job send nt line body to (t, w) = (t1, w1)" by (metis surj_pair)
  from Cons.IH [of t1 w1] Cons.prems copy_job_counts [OF j] j show ?case by simp
qed simp



section \<open>Reads\<close>

lemma get_loop_verified:
  "get_loop P route send r key asked queue out w = (out', w') \<Longrightarrow> (go_ok out \<longrightarrow> chunk_key P (go_body out) = key) \<Longrightarrow>
     go_ok out' \<longrightarrow> chunk_key P (go_body out') = key"
proof (induction P route send r key asked queue out w arbitrary: out' w' rule: get_loop.induct)
  case (2 P route send r key asked p queue out w)
  obtain d ans w1 where s: "send w p (''GET '' @ key) [] = ((d, ans), w1)" by (metis surj_pair)
  show ?case
  proof (cases "get_verdict P key d ans")
    case None
    then have "chunk_key P (fr_body ans) = key" by (auto simp: get_verdict_def split: if_splits)
    then show ?thesis using "2.prems"(1) s None by auto
  next
    case (Some what)
    obtain ps w2 where f: "fallbacks P route r (unreachable d) w1 = (ps, w2)" by (metis surj_pair)
    show ?thesis
      using "2.prems" s Some f "2.IH"(1) [OF s [symmetric] refl Some refl] "2.IH"(2) [OF s [symmetric] refl Some refl _ f [symmetric]]
      by (auto simp: Let_def split: if_splits)
  qed
qed auto

lemma get_chunk_checked:
  assumes "get_chunk P route send start key retries w = (out, w')" "go_ok out"
  shows "chunk_key P (go_body out) = key \<and> valid_key key"
proof -
  have "valid_key key" using assms by (auto simp: get_chunk_def Let_def split: if_splits)
  moreover obtain k where k: "id_from_key key = Some k"
    using assms by (cases "id_from_key key") (auto simp: get_chunk_def Let_def split: if_splits)
  moreover obtain r w1 where l: "lookup_with_recovery P route start k retries w = (r, w1)" by (metis surj_pair)
  moreover have "lr_ok r" using assms calculation by (auto simp: get_chunk_def Let_def split: if_splits)
  ultimately have "get_loop P route send r key False [lr_owner r]
      \<lparr>go_ok = False, go_body = [], go_message = [], go_served_by = empty_peer, go_tried = []\<rparr> w1 = (out, w')"
    using assms(1) by (simp add: get_chunk_def Let_def)
  from get_loop_verified [OF this] assms(2) \<open>valid_key key\<close> show ?thesis by simp
qed

text \<open>
  C27. Reads are verified: whatever the ring and the replicas answer, a successful read returns bytes
  that hash to the key that was asked for, and the key is well formed.
\<close>

theorem get_chunk_verified:
  assumes "get_chunk P route send start key retries w = (out, w')" "go_ok out"
  shows "chunk_key P (go_body out) = key \<and> valid_key key"
  by (rule get_chunk_checked [OF assms])

lemma get_loop_finds:
  assumes "\<And>w p. send w p (''GET '' @ key) [] = (f p, w)"
  shows "(\<exists>p\<in>set queue. get_verdict P key (fst (f p)) (snd (f p)) = None) \<Longrightarrow> go_ok (fst (get_loop P route send r key True queue out w))"
proof (induction queue arbitrary: out w)
  case (Cons p queue)
  obtain d ans where f: "f p = (d, ans)" by (metis surj_pair)
  show ?case
  proof (cases "get_verdict P key d ans")
    case None
    then show ?thesis using assms f by simp
  next
    case (Some what)
    with Cons.prems f have "\<exists>p\<in>set queue. get_verdict P key (fst (f p)) (snd (f p)) = None" by auto
    from Cons.IH [OF this] Some assms f show ?thesis by (simp add: Let_def)
  qed
qed simp


text \<open>A ring of one whose only process is asked over the wire, for concrete reads.\<close>

definition sample_route :: "unit transport" where
  "sample_route w to req = ((Ok, reply_line \<lparr>step_owner = True, step_peer = sample_peer 3 9001\<rparr>), w)"

definition sample_send :: "unit frame_transport" where
  "sample_send w to line body =
     ((Ok, \<lparr>fr_line = ''CHUNK 5'', fr_body = sample_chunk\<rparr>), w)"

lemma sample_lookup:
  "lookup_with_recovery sample_platform sample_route (sample_peer 3 9001) k 2 () =
     (empty_result\<lparr>lr_path := [sample_peer 3 9001], lr_owner := sample_peer 3 9001\<rparr>, ())"
proof -
  let ?p = "sample_peer 3 9001" and ?st = "\<lparr>step_owner = True, step_peer = sample_peer 3 9001\<rparr>"
  have "valid_peer sample_platform (step_peer ?st)"
    by (simp add: valid_peer_def sample_peer_def valid_loopback)
  from parse_reply_line [OF sample_platform_ok this]
  have p: "parse_reply sample_platform (reply_line ?st) = Inr (True, ?p)" by simp
  have "in_range_oc k (peer_id ?p) (peer_id ?p)" by (simp add: in_range_oc_gap)
  from lookup_loop_owner [where transport = sample_route, OF _ reply_line_not_err p this, of "()" "find_successor_request k" "()" 64 empty_result]
  have "lookup sample_platform sample_route ?p k () = (empty_result\<lparr>lr_path := [?p], lr_owner := ?p\<rparr>, ())"
    by (simp add: lookup_def MAX_REQUESTS_def sample_route_def empty_result_def)
  then show ?thesis by (simp add: lookup_with_recovery_def numeral_2_eq_2 lr_ok_def empty_result_def)
qed

lemma sample_verdict: "get_verdict sample_platform sample_key Ok \<lparr>fr_line = ''CHUNK 5'', fr_body = sample_chunk\<rparr> = None"
  by (simp add: get_verdict_def starts_with_def sample_key_def)

lemma sample_key_id: "\<exists>k. id_from_key sample_key = Some k"
  using id_from_key_sha1 [OF sample_platform_ok, of sample_chunk] by (auto simp: sample_key_def chunk_key_def)


lemma sample_get:
  "\<exists>out w'. get_chunk sample_platform sample_route sample_send (sample_peer 3 9001) sample_key 2 () = (out, w') \<and> go_ok out"
proof -
  obtain k where k: "id_from_key sample_key = Some k" using sample_key_id by blast
  show ?thesis using k sample_lookup [of k]
    by (simp add: get_chunk_def sample_key_valid Let_def lr_ok_def empty_result_def sample_send_def sample_verdict)
qed

theorem get_chunk_verified_witness:
  "\<exists>out w'. get_chunk sample_platform sample_route sample_send (sample_peer 3 9001) sample_key 2 () = (out, w') \<and>
     chunk_key sample_platform (go_body out) = sample_key"
proof -
  obtain out w' where g: "get_chunk sample_platform sample_route sample_send (sample_peer 3 9001) sample_key 2 () = (out, w')" "go_ok out"
    using sample_get by blast
  from get_chunk_verified [OF g] g(1) show ?thesis by blast
qed

section \<open>Deletion\<close>

lemma drop_other:
  assumes "store_drop u now grace key s = ((r, b), s')" "k \<in> set (cs_keys s)"
  shows "k \<in> set (cs_keys s') \<and> written_at s' k = written_at s k \<or> k = key \<and> now - written_at s k \<ge> grace"
  using assms by (auto simp: store_drop_def Let_def written_at_def split: if_splits option.splits)

lemma drop_loop_removed:
  "drop_loop io grace i keys acc (s, n) = (acc', (s', n')) \<Longrightarrow> k \<in> set (cs_keys s) \<Longrightarrow> k \<notin> set (cs_keys s') \<Longrightarrow>
     k \<in> set keys \<and> (\<exists>j. ci_now io j - written_at s k \<ge> grace)"
proof (induction keys arbitrary: i acc s n)
  case (Cons key keys)
  obtain bits freed where acc: "acc = (bits, freed)" by (metis surj_pair)
  obtain r b s1 where d: "store_drop (ci_unlinks io i) (ci_now io i) grace key s = ((r, b), s1)" by (metis surj_pair)
  obtain acc1 n1 where rest: "drop_loop io grace (Suc i) keys acc1 (s1, n1) = (acc', (s', n'))"
    using Cons.prems(1) d by (auto simp: acc Let_def)
  show ?case
  proof (cases "k \<in> set (cs_keys s1) \<and> written_at s1 k = written_at s k")
    case True
    then show ?thesis using Cons.IH [OF rest] Cons.prems(3) by auto
  next
    case False
    then show ?thesis using drop_other [OF d Cons.prems(2)] by auto
  qed
qed auto

lemma drop_loop_node: "drop_loop io grace i keys acc (s, n) = (acc', (s', n')) \<Longrightarrow> cn_gc_key n' = cn_gc_key n"
proof (induction keys arbitrary: i acc s n)
  case (Cons key keys)
  obtain bits freed where "acc = (bits, freed)" by (metis surj_pair)
  with Cons show ?case by (auto simp: Let_def split: prod.splits if_splits)
qed auto

lemma handle_keys_kept: "handle_keys io grace after s = (line, s') \<Longrightarrow> cs_keys s' = cs_keys s"
  by (auto simp: handle_keys_def store_forget_old_def Let_def split: if_splits)

lemma handle_get_store: "handle_get io key s n = (h, n') \<Longrightarrow> cn_store n' = cn_store n"
  by (auto simp: handle_get_def hold_body_def slot_claim_def slot_release_def split: if_splits GetResult.splits)

lemma coordinate_kept:
  assumes "coordinate P send io now sched key w body st (world, n) = Some (h, world', n')"
  shows "\<exists>st'. cn_store n' = Some st' \<and> set (cs_keys st) \<subseteq> set (cs_keys st')"
proof -
  obtain local st1 where put: "store_put P io now key body st = (local, st1)" by (metis surj_pair)
  have "cn_store n' = Some st1"
    using assms by (auto simp: coordinate_def put Let_def split: if_splits option.splits prod.splits)
  then show ?thesis using put_keeps_keys [of st P io now key body] put by auto
qed

lemma removed_by_drop:
  assumes "handle_chunk_request P send io sched req (world, n) = Some (h, world', n')" "cn_store n = Some st"
    and "store_has st key" "\<not> node_holds key n'"
  shows "\<exists>keys. split_single_spaces (fr_line req) = ''DROP'' # cn_gc_key n # keys \<and> cn_gc_key n \<noteq> [] \<and> key \<in> set keys \<and>
    (\<exists>j. ci_now io j - written_at st key \<ge> cn_gc_grace n)"
proof -
  let ?w = "split_single_spaces (fr_line req)"
  have kept: False if "cn_store n' = Some st'" "set (cs_keys st) \<subseteq> set (cs_keys st')" for st'
    using assms(3,4) that by (auto simp: node_holds_def store_has_def)
  have same: "cn_store n' \<noteq> cn_store n" using kept [of st] assms(2) by auto
  show ?thesis
  proof (cases "hd ?w = ''DROP'' \<and> 3 \<le> length ?w \<and> length ?w \<le> 2 + MAX_HAVE_KEYS")
    case False
    have False
    proof (cases "hd ?w = ''PUT'' \<and> length ?w = 4")
      case True
      then show False
        using assms(1,2) same kept
        by (auto simp: handle_chunk_request_def Let_def split: if_splits option.splits dest!: coordinate_kept)
    next
      case put: False
      show False
        using assms(1,2) same kept put False handle_keys_kept handle_get_store
          put_keeps_keys [of st P "ci_put io" "ci_now io 0" "?w ! 1" "fr_body req"]
        by (auto simp: handle_chunk_request_def handle_store_def Let_def split: if_splits prod.splits)
    qed
    then show ?thesis ..
  next
    case True
    obtain line st' n1 where d: "handle_drop io (?w ! 1) (drop 2 ?w) st n = (line, st', n1)" by (metis surj_pair)
    have n': "n' = n1\<lparr>cn_store := Some st'\<rparr>"
      using assms(1,2) True d by (auto simp: handle_chunk_request_def Let_def split: if_splits)
    have gone: "key \<notin> set (cs_keys st')" using assms(4) n' by (simp add: node_holds_def store_has_def)
    have held: "key \<in> set (cs_keys st)" using assms(3) by (simp add: store_has_def)
    have auth: "cn_gc_key n \<noteq> []" "?w ! 1 = cn_gc_key n"
      using d gone held by (auto simp: handle_drop_def same_secret_eq split: if_splits)
    obtain bits freed n2 where l: "drop_loop io (cn_gc_grace n) 0 (drop 2 ?w) ([], 0) (st, n) = ((bits, freed), (st', n2))"
      using d gone held by (auto simp: handle_drop_def split: if_splits prod.splits)
    from drop_loop_removed [OF l held gone] have r: "key \<in> set (drop 2 ?w)" "\<exists>j. ci_now io j - written_at st key \<ge> cn_gc_grace n" by auto
    have "?w = hd ?w # ?w ! 1 # drop 2 ?w" using True by (cases ?w; cases "tl ?w") auto
    with True auth r show ?thesis by metis
  qed
qed


definition sample_io :: ChunkIo where
  "sample_io = \<lparr>ci_put = good_io, ci_opens = True, ci_reads = True, ci_now = (\<lambda>_. 5000), ci_unlinks = (\<lambda>_. True)\<rparr>"

definition holding_process :: ChunkNode where
  "holding_process = sample_process\<lparr>cn_store := Some (snd (store_put sample_platform good_io 50 sample_key sample_chunk empty_store))\<rparr>"


section \<open>Store, then get\<close>

text \<open>
  C31. What STORE accepts GET returns: after a process has answered OK to a STORE of a chunk, a GET of
  its key, with a free body slot and a readable disk, answers a CHUNK whose bytes hash to the key and whose
  length is the one announced.
\<close>

theorem store_then_get:
  assumes "handle_chunk_request P send io sched \<lparr>fr_line = store_line key body, fr_body = body\<rparr> (world, n) = Some (h, world', n')"
    and "ch_reply h = ''OK''" "cn_store n = Some st" "store_inv P st" "valid_key key"
    and "cn_bodies n' < MAX_BODIES" "ci_opens io'" "ci_reads io'"
  shows "\<exists>g n''. handle_chunk_request P send io' sched' \<lparr>fr_line = ''GET '' @ key, fr_body = []\<rparr> (world', n') = Some (g, world', n'') \<and>
    ch_reply g = ''CHUNK '' @ to_string (length (ch_body g)) \<and> chunk_key P (ch_body g) = key \<and> ch_hold g"
proof -
  let ?p = "store_put P (ci_put io) (ci_now io 0) key body st"
  have n': "n' = n\<lparr>cn_store := Some (snd ?p)\<rparr>" and ok: "fst ?p \<in> {Stored, AlreadyHeld}"
    using assms(1-3) split_store_line [OF assms(5), of body]
    by (auto simp: handle_chunk_request_def handle_store_def Let_def chunk_reply_def split: if_splits prod.splits)
  have inv: "store_inv P (snd ?p)" by (rule store_put_inv [OF assms(4)])
  then have "cs_files (snd ?p) key \<noteq> None" using put_holds [OF ok] by (simp add: store_inv_def store_has_def)
  then obtain b where b: "cs_files (snd ?p) key = Some b" "chunk_key P b = key" "length b \<le> MAX_CHUNK"
    using inv by (auto simp: store_inv_def)
  have sp: "split_single_spaces (''GET '' @ key) = [''GET'', key]"
    using split_words_append [of "''GET''" key] assms(5) by simp
  have "store_get (ci_opens io') (ci_reads io') (snd ?p) key = GFound b"
    using assms(5,7,8) b by (simp add: store_get_def)
  then show ?thesis
    using sp assms(6) b unfolding n'
    by (simp add: handle_chunk_request_def handle_get_def hold_body_def slot_claim_def Let_def)
qed


theorem store_then_get_witness:
  "\<exists>h w n' g n''. handle_chunk_request sample_platform no_send sample_io no_schedule
       \<lparr>fr_line = store_line sample_key sample_chunk, fr_body = sample_chunk\<rparr> ((), sample_process) = Some (h, w, n') \<and>
     handle_chunk_request sample_platform no_send sample_io no_schedule \<lparr>fr_line = ''GET '' @ sample_key, fr_body = []\<rparr> (w, n') =
       Some (g, w, n'') \<and> chunk_key sample_platform (ch_body g) = sample_key"
proof -
  have st: "cn_store sample_process = Some empty_store" by (simp add: sample_process_def)
  have "fst (handle_store sample_platform sample_io sample_key sample_chunk empty_store) = ''OK''"
  proof -
    have "fst (store_put sample_platform good_io 5000 sample_key sample_chunk empty_store) = Stored"
      using sample_key_valid sample_chunk_small
      by (simp add: store_put_def put_check_def put_file_def good_io_def empty_store_def Let_def) (simp add: sample_key_def)
    then show ?thesis by (auto simp: handle_store_def sample_io_def split: prod.splits)
  qed
  with store_request [OF sample_key_valid st, of sample_platform sample_io sample_chunk] obtain st' where
    r: "handle_chunk_request sample_platform no_send sample_io no_schedule \<lparr>fr_line = store_line sample_key sample_chunk, fr_body = sample_chunk\<rparr>
      ((), sample_process) = Some (chunk_reply ''OK'', (), sample_process\<lparr>cn_store := Some st'\<rparr>)" by auto
  have "\<exists>g n''. handle_chunk_request sample_platform no_send sample_io no_schedule \<lparr>fr_line = ''GET '' @ sample_key, fr_body = []\<rparr>
      ((), sample_process\<lparr>cn_store := Some st'\<rparr>) = Some (g, (), n'') \<and>
    ch_reply g = ''CHUNK '' @ to_string (length (ch_body g)) \<and> chunk_key sample_platform (ch_body g) = sample_key \<and> ch_hold g"
    by (rule store_then_get [OF r _ st empty_store_inv sample_key_valid])
      (simp_all add: chunk_reply_def sample_process_def MAX_BODIES_def sample_io_def)
  with r show ?thesis by blast
qed

end
