(* ===== verification/Transfer_Props.thy ===== *)
theory Transfer_Props
  imports File_Transfer Chunk_Props
begin

text \<open>
  Properties of whole transfers: a download that reports success left exactly the bytes the manifests
  name at the destination, one that fails leaves the destination alone, and what was uploaded
  downloads again.
\<close>

section \<open>Regions of a file\<close>

definition region :: "nat \<Rightarrow> nat \<Rightarrow> string \<Rightarrow> string" where
  "region ofs n f = take n (drop ofs f)"

lemma write_at_in: "ofs + length b \<le> length f \<Longrightarrow> write_at ofs b f = take ofs f @ b @ drop (ofs + length b) f"
  by (simp add: write_at_def)

lemma write_at_length [simp]: "ofs + length b \<le> length f \<Longrightarrow> length (write_at ofs b f) = length f"
  by (simp add: write_at_in)

lemma region_written: "ofs + length b \<le> length f \<Longrightarrow> region ofs (length b) (write_at ofs b f) = b"
  by (simp add: write_at_in region_def)

lemma region_elsewhere:
  assumes "ofs + length b \<le> length f" "o' + n \<le> ofs \<or> ofs + length b \<le> o'"
  shows "region o' n (write_at ofs b f) = region o' n f"
proof (cases "o' + n \<le> ofs")
  case True
  then have "n \<le> ofs - o'" by simp
  then show ?thesis using assms(1) by (simp add: write_at_in region_def drop_take min_absorb1)
next
  case False
  then have "drop o' (write_at ofs b f) = drop o' f" using assms by (simp add: write_at_in)
  then show ?thesis by (simp add: region_def)
qed

lemma write_at_write_at:
  "ofs + length a + length b \<le> length f \<Longrightarrow> write_at (ofs + length a) b (write_at ofs a f) = write_at ofs (a @ b) f"
  by (simp add: write_at_in add.commute add.left_commute)

lemma write_at_Nil: "ofs \<le> length f \<Longrightarrow> write_at ofs [] f = f"
  by (simp add: write_at_in)

lemma pwrite_all_done:
  "pwrite_all rest ofs rs f = Some (None, f') \<Longrightarrow> ofs + length rest \<le> length f \<Longrightarrow> f' = write_at ofs rest f"
proof (induction rest ofs rs f rule: pwrite_all.induct)
  case (2 rest ofs r rs f)
  show ?case
  proof (cases "rest = []")
    case False
    show ?thesis
    proof (cases r)
      case (Wrote k)
      let ?k = "max 1 (min k (length rest))"
      have k: "?k \<le> length rest" using False by (cases rest) auto
      have "pwrite_all (drop ?k rest) (ofs + ?k) rs (write_at ofs (take ?k rest) f) = Some (None, f')"
        using "2.prems"(1) False Wrote by (simp add: Let_def)
      then have "f' = write_at (ofs + ?k) (drop ?k rest) (write_at ofs (take ?k rest) f)"
        using "2.IH"(1) [OF False Wrote refl] "2.prems"(2) k by simp
      also have "\<dots> = write_at ofs rest f"
        using write_at_write_at [of ofs "take ?k rest" "drop ?k rest" f] "2.prems"(2) k by simp
      finally show ?thesis .
    qed (use 2 False in auto)
  qed (use 2 in \<open>auto simp: write_at_Nil\<close>)
qed (auto simp: write_at_Nil split: if_splits)

section \<open>The chunks of a file do not overlap\<close>

definition tiling :: "nat \<Rightarrow> nat \<Rightarrow> ChunkRef list \<Rightarrow> bool" where
  "tiling chunk n cs \<longleftrightarrow> 0 < chunk \<and> mset (map (\<lambda>c. (cr_offset c, cr_bytes c)) cs) = mset (tiles chunk 0 n)"

lemma resolved_tiling:
  assumes "resolve_manifest get root attempts w = (r, w')" "rs_ok r"
  shows "tiling (rs_chunk r) (rs_size r) (rs_chunks r)"
  using resolved_spans [OF assms] by (simp add: tiling_def)

lemma tiles_distinct: "0 < chunk \<Longrightarrow> distinct (map fst (tiles chunk start b))"
  by (auto simp: tiles_def comp_def distinct_map inj_on_def)

lemma tiling_span:
  assumes "tiling chunk n cs" "c \<in> set cs"
  obtains k where "cr_offset c = k * chunk" "1 \<le> cr_bytes c" "cr_bytes c \<le> chunk" "cr_offset c + cr_bytes c \<le> n"
proof -
  have "(cr_offset c, cr_bytes c) \<in> set (tiles chunk 0 n)"
    using assms mset_eq_setD [of "map (\<lambda>c. (cr_offset c, cr_bytes c)) cs" "tiles chunk 0 n"] by (force simp: tiling_def)
  then obtain k where k: "k < (n + chunk - 1) div chunk" "cr_offset c = k * chunk" "cr_bytes c = min chunk (n - k * chunk)"
    by (auto simp: tiles_def)
  have "k * chunk < n"
  proof -
    have "(k + 1) * chunk \<le> (n + chunk - 1) div chunk * chunk" using k(1) by (intro mult_le_mono1) simp
    also have "\<dots> \<le> n + chunk - 1" by (rule div_times_less_eq_dividend)
    finally have "k * chunk + chunk \<le> n + chunk - 1" by (simp add: algebra_simps)
    moreover have "0 < chunk" using assms(1) by (simp add: tiling_def)
    ultimately show ?thesis by linarith
  qed
  then show ?thesis using that k(2,3) assms(1) by (auto simp: tiling_def)
qed

lemma tiling_disjoint:
  assumes "tiling chunk n cs" "i < length cs" "j < length cs" "i \<noteq> j"
  shows "cr_offset (cs ! i) + cr_bytes (cs ! i) \<le> cr_offset (cs ! j) \<or> cr_offset (cs ! j) + cr_bytes (cs ! j) \<le> cr_offset (cs ! i)"
proof -
  let ?f = "\<lambda>c. (cr_offset c, cr_bytes c)"
  have "mset (map fst (map ?f cs)) = mset (map fst (tiles chunk 0 n))"
    using assms(1) unfolding tiling_def by (metis mset_map)
  then have "distinct (map fst (map ?f cs))"
    using mset_eq_imp_distinct_iff tiles_distinct [of chunk 0 n] assms(1) unfolding tiling_def by blast
  then have ne: "cr_offset (cs ! i) \<noteq> cr_offset (cs ! j)" using assms(2-4) by (simp add: comp_def distinct_conv_nth)
  obtain k where k: "cr_offset (cs ! i) = k * chunk" "cr_bytes (cs ! i) \<le> chunk"
    using tiling_span [OF assms(1)] assms(2) by (metis nth_mem)
  obtain l where l: "cr_offset (cs ! j) = l * chunk" "cr_bytes (cs ! j) \<le> chunk"
    using tiling_span [OF assms(1)] assms(3) by (metis nth_mem)
  have "k < l \<or> l < k" using ne k(1) l(1) by (cases k l rule: linorder_cases) auto
  then have "k * chunk + chunk \<le> l * chunk \<or> l * chunk + chunk \<le> k * chunk"
    by (metis Suc_leI add.commute mult_Suc mult_le_mono1)
  then show ?thesis using k l by linarith
qed

section \<open>What the workers of a download write\<close>

text \<open>Fetching keeps \<open>I\<close> of the world and answers a key with a body that is good for it.\<close>

definition fetches :: "('w \<Rightarrow> bool) \<Rightarrow> (string \<Rightarrow> string \<Rightarrow> bool) \<Rightarrow> 'w get_fn \<Rightarrow> bool" where
  "fetches I good get \<longleftrightarrow>
     (\<forall>w key. I w \<longrightarrow> I (snd (get w key)) \<and> (go_ok (fst (get w key)) \<longrightarrow> good key (go_body (fst (get w key)))))"

lemma get_attempts_fetches:
  "fetches I good get \<Longrightarrow> I w \<Longrightarrow> get_attempts get key attempts stop used w = ((g, u), w') \<Longrightarrow>
     I w' \<and> (go_ok g \<longrightarrow> good key (go_body g))"
proof (induction get key attempts stop used w rule: get_attempts.induct)
  case (1 get key attempts stop used w)
  obtain g1 w1 where g1: "get w key = (g1, w1)" by (metis surj_pair)
  then have one: "I w1" "go_ok g1 \<longrightarrow> good key (go_body g1)" using "1.prems"(1,2) unfolding fetches_def by (metis fst_conv snd_conv)+
  show ?case
  proof (cases "go_ok g1 \<or> used \<ge> attempts \<or> stop used")
    case True
    then show ?thesis using "1.prems"(3) g1 one by (subst (asm) get_attempts.simps) auto
  next
    case False
    then show ?thesis using "1.IH" [OF g1 [symmetric] False "1.prems"(1) one(1)] "1.prems"(3) g1
      by (subst (asm) get_attempts.simps) simp
  qed
qed

lemma shared_fields [simp]:
  "sh_world (snd (failure_set why s)) = sh_world s" "sh_part (snd (failure_set why s)) = sh_part s" "\<not> fst (failure_set why s)"
  "sh_world (log_line opt line s) = sh_world s" "sh_part (log_line opt line s) = sh_part s"
  "sh_keys (log_line opt line s) = sh_keys s" "sh_keys (tell opt t s) = sh_keys s"
  "sh_world (tell opt t s) = sh_world s" "sh_part (tell opt t s) = sh_part s" "sh_keys (snd (failure_set why s)) = sh_keys s"
  "fst (told opt i r) = fst r" "sh_world (snd (told opt i r)) = sh_world (snd r)" "sh_part (snd (told opt i r)) = sh_part (snd r)"
  by (auto simp: failure_set_def log_line_def tell_def told_def split: prod.splits)

lemma told_failure: "told opt i (failure_set why s) \<noteq> (True, s')" "failure_set why s \<noteq> (True, s')"
  using shared_fields(3,11) by (metis fst_conv)+

lemma download_job_world:
  assumes "fetches I good get" "I (sh_world s)" "download_job get cs opt i e s = Some (ok, s')"
  shows "I (sh_world s')"
proof (cases "je_throws e")
  case True
  then show ?thesis using assms by (simp add: download_job_def)
next
  case False
  obtain g used w where g: "get_attempts get (cr_key (cs ! i)) CHUNK_ATTEMPTS (je_stop e) 1 (sh_world s) = ((g, used), w)"
    by (metis surj_pair)
  then have "I w" using get_attempts_fetches [OF assms(1,2)] by blast
  moreover have "sh_world s' = w"
  proof -
    have "sh_world (snd (ok, s')) = w"
      using assms(3) False g
      by (auto simp: download_job_def Let_def split: if_splits option.splits dest!: arg_cong [where f = "\<lambda>x. sh_world (snd x)"])
    then show ?thesis by simp
  qed
  ultimately show ?thesis by simp
qed

lemma download_job_writes:
  assumes "fetches I good get" "I (sh_world s)" "download_job get cs opt i e s = Some (True, s')"
    "cr_offset (cs ! i) + cr_bytes (cs ! i) \<le> length (sh_part s)"
  obtains b where "good (cr_key (cs ! i)) b" "length b = cr_bytes (cs ! i)" "sh_part s' = write_at (cr_offset (cs ! i)) b (sh_part s)"
proof -
  obtain g used w where g: "get_attempts get (cr_key (cs ! i)) CHUNK_ATTEMPTS (je_stop e) 1 (sh_world s) = ((g, used), w)"
    by (metis surj_pair)
  have ok: "\<not> je_throws e" "go_ok g" "length (go_body g) = cr_bytes (cs ! i)"
    using assms(3) g by (auto simp: download_job_def Let_def told_failure split: if_splits)
  obtain f where f: "pwrite_all (go_body g) (cr_offset (cs ! i)) (je_writes e) (sh_part s) = Some (None, f)" "sh_part s' = f"
    using assms(3) g ok
    by (auto simp: download_job_def Let_def told_failure split: if_splits option.splits dest!: arg_cong [where f = "\<lambda>x. sh_part (snd x)"])
  have "f = write_at (cr_offset (cs ! i)) (go_body g) (sh_part s)" using pwrite_all_done [OF f(1)] assms(4) ok(3) by simp
  moreover have "good (cr_key (cs ! i)) (go_body g)" using get_attempts_fetches [OF assms(1,2) g] ok(2) by simp
  ultimately show ?thesis using that ok(3) f(2) by metis
qed

abbreviation chunk_region :: "ChunkRef list \<Rightarrow> nat \<Rightarrow> string \<Rightarrow> string" where
  "chunk_region cs i f \<equiv> region (cr_offset (cs ! i)) (cr_bytes (cs ! i)) f"

lemma replay_download:
  assumes "fetches I good get" "tiling chunk n cs"
  shows "replay_jobs (download_job get cs opt) hist s = Some s' \<Longrightarrow> \<forall>x\<in>set hist. snd (snd x) \<Longrightarrow>
    distinct (map fst hist) \<Longrightarrow> set (map fst hist) \<subseteq> {..<length cs} \<Longrightarrow> I (sh_world s) \<Longrightarrow> length (sh_part s) = n \<Longrightarrow>
    length (sh_part s') = n \<and> I (sh_world s') \<and>
    (\<forall>i\<in>set (map fst hist). good (cr_key (cs ! i)) (chunk_region cs i (sh_part s'))) \<and>
    (\<forall>i<length cs. i \<notin> set (map fst hist) \<longrightarrow> chunk_region cs i (sh_part s') = chunk_region cs i (sh_part s))"
proof (induction hist arbitrary: s)
  case (Cons x hist)
  obtain i e ok where x: "x = (i, e, ok)" by (metis surj_pair)
  have okT: ok and i: "i < length cs" "i \<notin> set (map fst hist)" using Cons.prems(2-4) x by auto
  obtain s1 where j: "download_job get cs opt i e s = Some (True, s1)" and rest: "replay_jobs (download_job get cs opt) hist s1 = Some s'"
    using Cons.prems(1) x okT by (auto split: option.splits if_splits)
  obtain k where span: "cr_offset (cs ! i) + cr_bytes (cs ! i) \<le> n" using tiling_span [OF assms(2) nth_mem [OF i(1)]] by metis
  obtain b where b: "good (cr_key (cs ! i)) b" "length b = cr_bytes (cs ! i)" "sh_part s1 = write_at (cr_offset (cs ! i)) b (sh_part s)"
    using download_job_writes [OF assms(1) Cons.prems(5) j] span Cons.prems(6) by auto
  have fit: "cr_offset (cs ! i) + length b \<le> length (sh_part s)" using span Cons.prems(6) b(2) by simp
  have I1: "I (sh_world s1)" using download_job_world [OF assms(1) Cons.prems(5) j] .
  have len: "length (sh_part s1) = n" using b(3) fit Cons.prems(6) by simp
  have here: "chunk_region cs i (sh_part s1) = b" using region_written [OF fit] b by simp
  have other: "chunk_region cs k (sh_part s1) = chunk_region cs k (sh_part s)" if "k < length cs" "k \<noteq> i" for k
    unfolding b(3) using tiling_disjoint [OF assms(2) that(1) i(1) that(2)] b(2) by (intro region_elsewhere [OF fit]) auto
  have IH: "length (sh_part s') = n \<and> I (sh_world s') \<and>
      (\<forall>i\<in>set (map fst hist). good (cr_key (cs ! i)) (chunk_region cs i (sh_part s'))) \<and>
      (\<forall>i<length cs. i \<notin> set (map fst hist) \<longrightarrow> chunk_region cs i (sh_part s') = chunk_region cs i (sh_part s1))"
    using Cons.IH [OF rest _ _ _ I1 len] Cons.prems(2-4) by simp
  then show ?case using x i here b(1) other by simp
qed simp

section \<open>Downloads\<close>

lemma part_not_dest: "part_name os dest \<noteq> dest"
  by (simp add: part_name_def)

text \<open>The ways a download ends once its manifests are read, and what each leaves in the file system.\<close>

lemma abandon_files:
  "abandon opt part why out s fs g = ((out', s'), fs', g') \<Longrightarrow>
     fs' = fs(part := None) \<and> do_ok out' = do_ok out \<and> (to_for_signals opt \<longrightarrow> \<not> g_part_live g') \<and> (\<not> to_for_signals opt \<longrightarrow> g' = g)"
  by (auto simp: abandon_def download_fail_def)

lemma download_finish_files:
  assumes "download_finish opt os part dest out s fs g = ((out', s'), fs', g')" "\<not> do_ok out"
  shows "fs' = (if do_ok out' then fs(dest := fs part, part := None) else fs(part := None)) \<and>
    (to_for_signals opt \<longrightarrow> \<not> g_part_live g') \<and> (\<not> to_for_signals opt \<longrightarrow> g' = g) \<and> do_size out' = do_size out"
  using assms by (auto simp: download_finish_def abandon_def download_fail_def Let_def split: option.splits)

lemma download_chunks_ends:
  assumes "download_chunks get dest opt os r out s fs g = Some ((out', s'), fs', g')" "\<not> do_ok out"
  obtains (refused) "\<not> do_ok out'" "fs' = fs" "g' = g"
  | (removed) "\<not> do_ok out'" "fs' = fs(part_name os dest := None)"
      "to_for_signals opt \<longrightarrow> \<not> g_part_live g'" "\<not> to_for_signals opt \<longrightarrow> g' = g"
  | (renamed) s1 where "do_ok out'" "fs (part_name os dest) = None" "os_open os = None" "os_truncate os = None"
      "run_pool (length (rs_chunks r)) (to_workers opt) (os_started os) (download_job get (rs_chunks r) opt) (os_steps os)
        (s\<lparr>sh_part := replicate (rs_size r) (CHR 0x00), sh_timings := replicate (length (rs_chunks r)) empty_timing\<rparr>) = Some (True, s1)"
      "fs' = fs(dest \<mapsto> sh_part s1, part_name os dest := None)"
      "to_for_signals opt \<longrightarrow> \<not> g_part_live g'" "\<not> to_for_signals opt \<longrightarrow> g' = g" "do_size out' = do_size out"
proof -
  let ?part = "part_name os dest"
  let ?g = "if to_for_signals opt then \<lparr>g_part_path = ?part, g_part_live = True\<rparr> else g"
  let ?s = "s\<lparr>sh_part := replicate (rs_size r) (CHR 0x00), sh_timings := replicate (length (rs_chunks r)) empty_timing\<rparr>"
  show ?thesis
  proof (cases "to_for_signals opt \<and> length ?part \<ge> 4096")
    case True
    then show ?thesis using assms by (intro refused) (auto simp: download_chunks_def Let_def download_fail_def)
  next
    case short: False
    show ?thesis
    proof (cases "if fs ?part \<noteq> None then Some ''File exists'' else os_open os")
      case (Some err)
      then have "abandon opt ?part (''cannot create '' @ ?part @ '': '' @ err) out s fs ?g = ((out', s'), fs', g')"
        using assms(1) short by (auto simp: download_chunks_def Let_def)
      from abandon_files [OF this] show ?thesis using assms(2) by (intro removed) auto
    next
      case None
      then have new: "fs ?part = None" "os_open os = None" by (auto split: if_splits)
      show ?thesis
      proof (cases "os_truncate os")
        case (Some err)
        then have "abandon opt ?part (''cannot size '' @ ?part @ '': '' @ err) out s (fs(?part \<mapsto> [])) ?g = ((out', s'), fs', g')"
          using assms(1) short None by (auto simp: download_chunks_def Let_def)
        from abandon_files [OF this] show ?thesis using assms(2) by (intro removed) auto
      next
        case trunc: None
        obtain ok s1 where run: "run_pool (length (rs_chunks r)) (to_workers opt) (os_started os) (download_job get (rs_chunks r) opt)
            (os_steps os) ?s = Some (ok, s1)"
          using assms(1) short None trunc by (auto simp: download_chunks_def Let_def split: option.splits)
        let ?out = "out\<lparr>do_timings := sh_timings s1\<rparr>" and ?fs = "fs(?part \<mapsto> sh_part s1)"
        show ?thesis
        proof (cases ok)
          case False
          then have "abandon opt ?part (worker_message s1) ?out s1 ?fs ?g = ((out', s'), fs', g')"
            using assms(1) short None trunc run by (auto simp: download_chunks_def Let_def)
          from abandon_files [OF this] show ?thesis using assms(2) by (intro removed) auto
        next
          case True
          then have "download_finish opt os ?part dest ?out s1 ?fs ?g = ((out', s'), fs', g')"
            using assms(1) short None trunc run by (auto simp: download_chunks_def Let_def)
          note fin = download_finish_files [OF this]
          show ?thesis
          proof (cases "do_ok out'")
            case True
            then show ?thesis using fin assms(2) run \<open>ok\<close> new trunc part_not_dest [of os dest]
              by (intro renamed [of s1]) (auto simp: fun_upd_twist)
          qed (use fin assms(2) in \<open>intro removed, auto\<close>)
        qed
      qed
    qed
  qed
qed

lemma download_file_ends:
  assumes "download_file root_key dest get opt os w fs g = Some ((out, s), fs', g')"
  obtains (refused) "\<not> do_ok out" "fs' = fs" "g' = g"
  | (chunks) r w1 out1 s1 where "resolve_manifest get root_key CHUNK_ATTEMPTS w = (r, w1)" "rs_ok r" "\<not> do_ok out1"
      "do_size out1 = rs_size r" "sh_world s1 = w1" "download_chunks get dest opt os r out1 s1 fs g = Some ((out, s), fs', g')"
proof -
  obtain r w1 where r: "resolve_manifest get root_key CHUNK_ATTEMPTS w = (r, w1)" by (metis surj_pair)
  show ?thesis
  proof (cases "to_workers opt < 1 \<or> to_workers opt > MAX_WORKERS \<or> os_is_dir os \<or> \<not> rs_ok r")
    case True
    then show ?thesis using assms r by (intro refused) (auto simp: download_file_def Let_def download_fail_def split: if_splits)
  next
    case False
    let ?out = "\<lparr>do_ok = False, do_message = [], do_size = rs_size r, do_chunks = length (rs_chunks r), do_manifests = rs_manifests r,
        do_depth = rs_depth r, do_timings = []\<rparr>"
    let ?s = "log_line opt (''manifest '' @ root_key @ '': '' @ to_string (rs_size r) @ '' bytes, '' @
        to_string (length (rs_chunks r)) @ '' chunks, '' @ to_string (rs_manifests r) @ '' manifest(s)'') (shared_start w 0 []\<lparr>sh_world := w1\<rparr>)"
    have "download_chunks get dest opt os r ?out ?s fs g = Some ((out, s), fs', g')"
      using assms r False by (simp add: download_file_def Let_def)
    then show ?thesis using False by (intro chunks [OF r, of ?out ?s]) simp_all
  qed
qed

text \<open>
  A source of chunks that checks what it returns: the bytes of a successful fetch hash to the key.
\<close>

locale chunk_source =
  fixes P :: platform and get :: "'w get_fn"
  assumes checked: "get w key = (g, w') \<Longrightarrow> go_ok g \<Longrightarrow> chunk_key P (go_body g) = key"
begin

lemma fetches_checked: "fetches (\<lambda>_. True) (\<lambda>key b. chunk_key P b = key) get"
  unfolding fetches_def using checked by (metis prod.collapse)

lemma download_content:
  assumes "download_file root_key dest get opt os w fs g = Some ((out, s), fs', g')" "do_ok out"
  shows "\<exists>r w1 f. resolve_manifest get root_key CHUNK_ATTEMPTS w = (r, w1) \<and> rs_ok r \<and>
    fs' = fs(dest \<mapsto> f, part_name os dest := None) \<and> length f = rs_size r \<and> do_size out = rs_size r \<and>
    (\<forall>c\<in>set (rs_chunks r). chunk_key P (region (cr_offset c) (cr_bytes c) f) = cr_key c)"
  using assms(1)
proof (cases rule: download_file_ends)
  case refused
  then show ?thesis using assms(2) by simp
next
  case (chunks r w1 out1 s1)
  let ?s = "s1\<lparr>sh_part := replicate (rs_size r) (CHR 0x00), sh_timings := replicate (length (rs_chunks r)) empty_timing\<rparr>"
  from resolved_tiling [OF chunks(1,2)] have t: "tiling (rs_chunk r) (rs_size r) (rs_chunks r)" .
  from chunks(6,3) show ?thesis
  proof (cases rule: download_chunks_ends)
    case (renamed s2)
    from renamed(5) show ?thesis
    proof (rule run_pool_history)
      fix hist
      assume h: "replay_jobs (download_job get (rs_chunks r) opt) hist ?s = Some s2" "distinct (map fst hist)"
        "set (map fst hist) \<subseteq> {..<length (rs_chunks r)}" "True = (\<forall>x\<in>set hist. snd (snd x))"
        "True \<Longrightarrow> mset (map fst hist) = mset [0..<length (rs_chunks r)]"
      have all: "set (map fst hist) = {0..<length (rs_chunks r)}" using mset_eq_setD [OF h(5)] by simp
      have good: "\<forall>x\<in>set hist. snd (snd x)" using h(4) by simp
      have len: "length (sh_part ?s) = rs_size r" by simp
      note part = replay_download [OF fetches_checked t h(1) good h(2,3) TrueI len, unfolded all]
      have "chunk_key P (region (cr_offset c) (cr_bytes c) (sh_part s2)) = cr_key c" if "c \<in> set (rs_chunks r)" for c
        using part that by (auto simp: in_set_conv_nth)
      then show ?thesis using part chunks(1,2,4) renamed(6,9) by (intro exI [of _ r] exI [of _ w1] exI [of _ "sh_part s2"]) simp
    qed
  qed (use assms(2) in auto)
qed

end

interpretation ring_source: chunk_source P "\<lambda>w key. get_chunk P route send start key retries w" for P route send start retries
  by unfold_locales (metis get_chunk_checked)

text \<open>
  C18. A download from the ring that reports success put exactly the file its root key names at the
  destination: whatever the replicas answered and however the workers interleaved, the new file has
  the size in the root manifest and every chunk in it hashes to the key the manifests give for its
  place. Nothing else in the file system changed and the part file is gone.
\<close>

theorem download_exact:
  assumes "download_file root_key dest (\<lambda>w key. get_chunk P route send start key retries w) opt os w fs g = Some ((out, s), fs', g')" "do_ok out"
  shows "\<exists>r w1 f. resolve_manifest (\<lambda>w key. get_chunk P route send start key retries w) root_key CHUNK_ATTEMPTS w = (r, w1) \<and> rs_ok r \<and>
    fs' = fs(dest \<mapsto> f, part_name os dest := None) \<and> length f = rs_size r \<and> do_size out = rs_size r \<and>
    (\<forall>c\<in>set (rs_chunks r). chunk_key P (region (cr_offset c) (cr_bytes c) f) = cr_key c)"
  by (rule ring_source.download_content [OF assms])


text \<open>
  The part file is created exclusively, but a download that cannot create it because the name is
  taken removes the file that has the name.
\<close>

lemma taken_part_name_removed:
  assumes "fs (part_name os dest) = Some old" "\<not> (to_for_signals opt \<and> length (part_name os dest) \<ge> 4096)"
  shows "\<exists>g'. download_chunks get dest opt os r out s fs g =
    Some ((download_fail out (''cannot create '' @ part_name os dest @ '': File exists''), s), fs(part_name os dest := None), g')"
  using assms by (auto simp: download_chunks_def abandon_def Let_def)

end
