(* ===== verification/Round_Trip.thy ===== *)
theory Round_Trip
  imports Transfer_Props
begin

text \<open>
  What was uploaded downloads again. The ring behind the two is any store that keeps what it
  acknowledged and returns it under its key.
\<close>

section \<open>Reading the file\<close>

text \<open>The results of successive reads from position \<open>pos\<close> on are those of a file with content \<open>F\<close>.\<close>

fun reads_of :: "string \<Rightarrow> nat \<Rightarrow> PreadResult list \<Rightarrow> bool" where
  "reads_of F pos [] \<longleftrightarrow> True"
| "reads_of F pos (Bytes b # rs) \<longleftrightarrow> b = region pos (length b) F \<and> reads_of F (pos + length b) rs"
| "reads_of F pos (ReadInterrupted # rs) \<longleftrightarrow> reads_of F pos rs"
| "reads_of F pos (ReadFailed e # rs) \<longleftrightarrow> True"

lemma region_add: "region ofs (a + b) F = region ofs a F @ region (ofs + a) b F"
  by (simp add: region_def take_add add.commute)

lemma region_prefix: "b = region pos (length b) F \<Longrightarrow> take k b = region pos (length (take k b)) F"
  unfolding region_def by (metis length_take min.commute take_take)

lemma pread_all_reads:
  "pread_all len got rs = Some (Inr body) \<Longrightarrow> reads_of F (ofs + length got) rs \<Longrightarrow> got = region ofs (length got) F \<Longrightarrow>
     body = region ofs (length body) F"
proof (induction len got rs rule: pread_all.induct)
  case (1 len got)
  then show ?case by (simp split: if_splits)
next
  case (2 len got r rs)
  show ?case
  proof (cases "length got \<ge> len")
    case True
    then show ?thesis using "2.prems" by simp
  next
    case more: False
    show ?thesis
    proof (cases r)
      case (Bytes b)
      show ?thesis
      proof (cases "b = []")
        case True
        then show ?thesis using "2.prems" more Bytes by simp
      next
        case False
        let ?b = "take (len - length got) b"
        have b: "b = region (ofs + length got) (length b) F" and rest: "reads_of F (ofs + length got + length b) rs"
          using "2.prems"(2) Bytes by simp_all
        have "?b = region (ofs + length got) (length ?b) F" using region_prefix [OF b] .
        then have got: "got @ ?b = region ofs (length (got @ ?b)) F" using "2.prems"(3) unfolding length_append region_add by metis
        show ?thesis
        proof (cases "length b \<le> len - length got")
          case True
          then show ?thesis using "2.IH"(1) [OF more Bytes False] "2.prems"(1) more Bytes False got rest by (simp add: add.assoc)
        next
          case False
          then have "length (got @ ?b) = len" using more by simp
          moreover have "pread_all len g rs = Some (Inr g)" if "length g = len" for g using that by (cases rs) simp_all
          ultimately have "body = got @ ?b" using "2.prems"(1) more Bytes \<open>b \<noteq> []\<close> by simp
          then show ?thesis using got by metis
        qed
      qed
    qed (use 2 more in auto)
  qed
qed

section \<open>A store that keeps its word\<close>

definition honest :: "platform \<Rightarrow> 'w put_fn \<Rightarrow> 'w get_fn \<Rightarrow> ('w \<Rightarrow> string \<Rightarrow> bool) \<Rightarrow> bool" where
  "honest P put get stored \<longleftrightarrow>
     (\<forall>w b x. stored w x \<longrightarrow> stored (snd (put w b)) x) \<and>
     (\<forall>w b. po_ok (fst (put w b)) \<longrightarrow> po_key (fst (put w b)) = chunk_key P b \<and> stored (snd (put w b)) b) \<and>
     (\<forall>w k x. stored w x \<longrightarrow> stored (snd (get w k)) x) \<and>
     (\<forall>w b. stored w b \<longrightarrow> go_ok (fst (get w (chunk_key P b))) \<and> go_body (fst (get w (chunk_key P b))) = b)"

lemma put_attempts_honest:
  "honest P put get stored \<Longrightarrow> put_attempts put b attempts stop used w = ((p, u), w') \<Longrightarrow>
     (\<forall>x. stored w x \<longrightarrow> stored w' x) \<and> (po_ok p \<longrightarrow> po_key p = chunk_key P b \<and> stored w' b)"
proof (induction put b attempts stop used w rule: put_attempts.induct)
  case (1 put b attempts stop used w)
  obtain p1 w1 where p1: "put w b = (p1, w1)" by (metis surj_pair)
  have one: "\<forall>x. stored w x \<longrightarrow> stored w1 x" "po_ok p1 \<longrightarrow> po_key p1 = chunk_key P b \<and> stored w1 b"
    using "1.prems"(1) p1 unfolding honest_def by (metis fst_conv snd_conv)+
  show ?case
  proof (cases "po_ok p1 \<or> used \<ge> attempts \<or> stop used")
    case True
    then show ?thesis using "1.prems"(2) p1 one by (subst (asm) put_attempts.simps) auto
  next
    case False
    then have "put_attempts put b attempts stop (used + 1) w1 = ((p, u), w')"
      using "1.prems"(2) p1 by (subst (asm) put_attempts.simps) simp
    then show ?thesis using "1.IH" [OF p1 [symmetric] False "1.prems"(1)] one(1) by blast
  qed
qed

section \<open>What an upload leaves in the store\<close>

definition piece :: "nat \<Rightarrow> string \<Rightarrow> nat \<Rightarrow> string" where
  "piece chunk F i = region (i * chunk) (min chunk (length F - i * chunk)) F"

lemma upload_job_keeps:
  assumes "honest P put get stored" "upload_job put path opt n i e s = Some (ok, s')" "stored (sh_world s) x"
  shows "stored (sh_world s') x"
proof -
  have "sh_world s' = sh_world s \<or> (\<exists>b p u. put_attempts put b CHUNK_ATTEMPTS (je_stop e) 1 (sh_world s) = ((p, u), sh_world s'))"
    using assms(2) by (auto simp: upload_job_def Let_def split: if_splits option.splits sum.splits prod.splits
      dest!: arg_cong [where f = "\<lambda>x. sh_world (snd x)"])
  then show ?thesis using put_attempts_honest [OF assms(1)] assms(3) by metis
qed

lemma upload_job_stores:
  assumes "honest P put get stored" "upload_job put path opt (length F) i e s = Some (True, s')" "reads_of F (i * to_chunk opt) (je_reads e (i * to_chunk opt))"
  shows "stored (sh_world s') (piece (to_chunk opt) F i)" "sh_keys s' = (sh_keys s)[i := chunk_key P (piece (to_chunk opt) F i)]"
proof -
  let ?ofs = "i * to_chunk opt"
  let ?len = "min (to_chunk opt) (length F - ?ofs)"
  obtain body where body: "pread_all ?len [] (je_reads e ?ofs) = Some (Inr body)" "length body = ?len"
    using assms(2) by (auto simp: upload_job_def Let_def told_failure split: if_splits option.splits sum.splits prod.splits)
  then have piece: "body = piece (to_chunk opt) F i"
    using pread_all_reads [OF body(1), of F ?ofs] assms(3) by (simp add: piece_def region_def)
  obtain p u w where p: "put_attempts put body CHUNK_ATTEMPTS (je_stop e) 1 (sh_world s) = ((p, u), w)" by (metis surj_pair)
  have thr: "\<not> je_throws e" using assms(2) by (auto simp: upload_job_def split: if_splits)
  have ok: "po_ok p" using assms(2) body p thr by (auto simp: upload_job_def Let_def told_failure split: if_splits)
  have s': "sh_world s' = w" "sh_keys s' = (sh_keys s)[i := po_key p]"
    using assms(2) body p thr ok by (auto simp: upload_job_def Let_def split: if_splits)
  show "stored (sh_world s') (piece (to_chunk opt) F i)" "sh_keys s' = (sh_keys s)[i := chunk_key P (piece (to_chunk opt) F i)]"
    using put_attempts_honest [OF assms(1) p] ok s' piece by simp_all
qed

lemma replay_upload:
  assumes "honest P put get stored"
  shows "replay_jobs (upload_job put path opt (length F)) hist s = Some s' \<Longrightarrow> \<forall>x\<in>set hist. snd (snd x) \<Longrightarrow>
    distinct (map fst hist) \<Longrightarrow> set (map fst hist) \<subseteq> {..<length (sh_keys s)} \<Longrightarrow>
    \<forall>x\<in>set hist. \<forall>ofs. reads_of F ofs (je_reads (fst (snd x)) ofs) \<Longrightarrow>
    length (sh_keys s') = length (sh_keys s) \<and> (\<forall>x. stored (sh_world s) x \<longrightarrow> stored (sh_world s') x) \<and>
    (\<forall>i\<in>set (map fst hist). stored (sh_world s') (piece (to_chunk opt) F i) \<and> sh_keys s' ! i = chunk_key P (piece (to_chunk opt) F i)) \<and>
    (\<forall>i. i \<notin> set (map fst hist) \<longrightarrow> sh_keys s' ! i = sh_keys s ! i)"
proof (induction hist arbitrary: s)
  case (Cons x hist)
  obtain i e ok where x: "x = (i, e, ok)" by (metis surj_pair)
  have okT: ok and i: "i < length (sh_keys s)" "i \<notin> set (map fst hist)" using Cons.prems(2-4) x by auto
  obtain s1 where j: "upload_job put path opt (length F) i e s = Some (True, s1)"
    and rest: "replay_jobs (upload_job put path opt (length F)) hist s1 = Some s'"
    using Cons.prems(1) x okT by (auto split: option.splits if_splits)
  have rd: "reads_of F (i * to_chunk opt) (je_reads e (i * to_chunk opt))" using Cons.prems(5) x by simp
  note st = upload_job_stores [OF assms j rd]
  have keep: "\<forall>x. stored (sh_world s) x \<longrightarrow> stored (sh_world s1) x" using upload_job_keeps [OF assms j] by blast
  have "length (sh_keys s') = length (sh_keys s1) \<and> (\<forall>x. stored (sh_world s1) x \<longrightarrow> stored (sh_world s') x) \<and>
    (\<forall>i\<in>set (map fst hist). stored (sh_world s') (piece (to_chunk opt) F i) \<and> sh_keys s' ! i = chunk_key P (piece (to_chunk opt) F i)) \<and>
    (\<forall>i. i \<notin> set (map fst hist) \<longrightarrow> sh_keys s' ! i = sh_keys s1 ! i)"
    using Cons.IH [OF rest] Cons.prems(2-5) st(2) by simp
  then show ?case using st keep i x by (simp add: nth_list_update)
qed simp

lemma manifest_job_stores:
  assumes "honest P put get stored" "manifest_job put blobs i e s = Some (ok, s')"
  shows "stored (sh_world s) x \<Longrightarrow> stored (sh_world s') x" "ok \<Longrightarrow> stored (sh_world s') (blobs ! i)"
proof -
  obtain p u w where p: "put_attempts put (blobs ! i) CHUNK_ATTEMPTS (je_stop e) 1 (sh_world s) = ((p, u), w)" by (metis surj_pair)
  have "sh_world s' = (if je_throws e then sh_world s else w)"
    using assms(2) p by (auto simp: manifest_job_def Let_def split: if_splits dest!: arg_cong [where f = "\<lambda>x. sh_world (snd x)"])
  moreover have "ok \<Longrightarrow> po_ok p \<and> \<not> je_throws e"
    using assms(2) p by (auto simp: manifest_job_def Let_def told_failure split: if_splits)
  ultimately show "stored (sh_world s) x \<Longrightarrow> stored (sh_world s') x" "ok \<Longrightarrow> stored (sh_world s') (blobs ! i)"
    using put_attempts_honest [OF assms(1) p] by auto
qed

lemma replay_manifests:
  assumes "honest P put get stored"
  shows "replay_jobs (manifest_job put blobs) hist s = Some s' \<Longrightarrow> \<forall>x\<in>set hist. snd (snd x) \<Longrightarrow>
    (\<forall>x. stored (sh_world s) x \<longrightarrow> stored (sh_world s') x) \<and> (\<forall>i\<in>set (map fst hist). stored (sh_world s') (blobs ! i))"
proof (induction hist arbitrary: s)
  case (Cons x hist)
  obtain i e ok where x: "x = (i, e, ok)" by (metis surj_pair)
  have okT: ok using Cons.prems(2) x by simp
  obtain s1 where j: "manifest_job put blobs i e s = Some (True, s1)" and rest: "replay_jobs (manifest_job put blobs) hist s1 = Some s'"
    using Cons.prems(1) x okT by (auto split: option.splits if_splits)
  have IH: "(\<forall>x. stored (sh_world s1) x \<longrightarrow> stored (sh_world s') x) \<and> (\<forall>i\<in>set (map fst hist). stored (sh_world s') (blobs ! i))"
    using Cons.IH [OF rest] Cons.prems(2) by simp
  then show ?case using manifest_job_stores [OF assms j] x by simp
qed simp

section \<open>The entries over the uploaded chunks\<close>

lemma shape_ok_nth:
  "shape_ok kind chunk es \<longleftrightarrow> (\<forall>i<length es. entry_fits kind chunk (i + 1 = length es) (me_bytes (es ! i)))"
proof (induction es)
  case (Cons e es)
  show ?case unfolding shape_ok.simps Cons.IH by (auto simp: nth_Cons split: nat.splits)
qed simp

lemma ceil_div:
  assumes "0 < chunk"
  shows "i < (n + chunk - 1) div chunk \<longleftrightarrow> i * chunk < (n :: nat)"
proof -
  have "i < (n + chunk - 1) div chunk \<longleftrightarrow> Suc i * chunk \<le> n + chunk - 1" using assms by (simp add: Suc_le_eq [symmetric] less_eq_div_iff_mult_less_eq)
  also have "\<dots> \<longleftrightarrow> i * chunk < n" using assms by auto
  finally show ?thesis .
qed

lemma entries_bytes:
  assumes "0 < chunk"
  shows "sum_list (map (\<lambda>i. min chunk (n - i * chunk)) [0..<k]) = min (k * chunk) (n :: nat)"
  by (induction k) auto

lemma upload_entries_ok:
  assumes "platform_ok P" "0 < chunk" "length keys = (n + chunk - 1) div chunk" "n \<le> U64_MAX"
    "\<forall>i<length keys. keys ! i = chunk_key P (f i)"
  shows "level_ok Data chunk (upload_entries keys n chunk)" "bytes_of (upload_entries keys n chunk) = n"
proof -
  let ?es = "upload_entries keys n chunk"
  have nth: "length ?es = length keys" "\<And>i. i < length keys \<Longrightarrow> ?es ! i = \<lparr>me_key = keys ! i, me_bytes = min chunk (n - i * chunk)\<rparr>"
    by (simp_all add: upload_entries_def)
  have "\<not> length keys * chunk < n" using ceil_div [OF assms(2), of "length keys" n] assms(3) by simp
  then show bytes: "bytes_of ?es = n"
    using entries_bytes [OF assms(2), of n "length keys"] by (simp add: bytes_of_def upload_entries_def comp_def)
  have "entry_ok (?es ! i)" if "i < length keys" for i
    using that assms nth by (simp add: entry_ok_def valid_chunk_key)
  moreover have "entry_fits Data chunk (i + 1 = length keys) (me_bytes (?es ! i))" if "i < length keys" for i
  proof -
    have "i * chunk < n" "i + 1 < length keys \<Longrightarrow> (i + 1) * chunk < n"
      using that ceil_div [OF assms(2), of i n] ceil_div [OF assms(2), of "i + 1" n] assms(3) by simp_all
    then show ?thesis using that nth assms(2) by (auto simp: entry_fits_def)
  qed
  ultimately show "level_ok Data chunk ?es"
    using bytes assms(4) nth(1) unfolding level_ok_def shape_ok_nth list_all_length by simp
qed

lemma refs_length: "length (refs start es) = length es"
  by (induction es arbitrary: start) auto

lemma refs_nth:
  assumes "shape_ok Data chunk es" "0 < chunk" "bytes_of es \<le> U64_MAX" "i < length es"
  shows "refs 0 es ! i = \<lparr>cr_key = me_key (es ! i), cr_offset = i * chunk, cr_bytes = min chunk (bytes_of es - i * chunk)\<rparr>"
proof -
  have len: "length (place start es) = length es" "map fst (place start es) = map me_key es" for start
    by (induction es arbitrary: start) auto
  have snds: "map snd (place 0 es) = tiles chunk 0 (bytes_of es)" using place_data_tiles [OF assms(2,1)] assms(3) by simp
  then have "length es = length (tiles chunk 0 (bytes_of es))" by (metis len(1) length_map)
  then have "i < (bytes_of es + chunk - 1) div chunk" using assms(4) by (simp add: tiles_def)
  then have "snd (place 0 es ! i) = (i * chunk, min chunk (bytes_of es - i * chunk))"
    using arg_cong [OF snds, of "\<lambda>l. l ! i"] assms(4) len(1) by (simp add: tiles_def)
  moreover have "fst (place 0 es ! i) = me_key (es ! i)"
    using arg_cong [OF len(2) [of 0], of "\<lambda>l. l ! i"] assms(4) len(1) by simp
  ultimately show "refs 0 es ! i = \<lparr>cr_key = me_key (es ! i), cr_offset = i * chunk, cr_bytes = min chunk (bytes_of es - i * chunk)\<rparr>"
    using assms(4) len(1) by (simp add: case_prod_beta')
qed

lemma pieces_determine:
  assumes "0 < chunk" "length f = length F" "\<And>i. i * chunk < length F \<Longrightarrow> piece chunk f i = piece chunk F i"
  shows "f = F"
proof (rule nth_equalityI)
  fix x assume x: "x < length f"
  let ?i = "x div chunk"
  have lo: "?i * chunk \<le> x" by simp
  have hi: "x < ?i * chunk + chunk" using assms(1) by (metis add.commute dividend_less_div_times)
  obtain m where m: "x = ?i * chunk + m" using lo by (metis le_add_diff_inverse)
  then have lt: "m < min chunk (length F - ?i * chunk)" using hi x assms(2) by linarith
  have nth: "piece chunk G ?i ! m = G ! x" if "length G = length F" for G
  proof -
    have "?i * chunk \<le> length G" using lo x that assms(2) by linarith
    then have "piece chunk G ?i ! m = G ! (?i * chunk + m)" using lt that unfolding piece_def region_def by simp
    then show ?thesis using m by simp
  qed
  have "piece chunk f ?i = piece chunk F ?i" using assms(3) [of ?i] lo x assms(2) by simp
  then show "f ! x = F ! x" using nth [OF assms(2)] nth [OF refl] by simp
qed (rule assms(2))

section \<open>What a finished upload has stored\<close>

lemma run_pool_all:
  assumes "run_pool n workers started job steps s = Some (True, s')"
  obtains hist where "replay_jobs job hist s = Some s'" "\<forall>x\<in>set hist. snd (snd x)" "distinct (map fst hist)"
    "set (map fst hist) = {..<n}" "\<forall>x\<in>set hist. fst (snd x) \<in> snd ` set steps"
proof (rule run_pool_history [OF assms])
  fix hist
  assume h: "replay_jobs job hist s = Some s'" "distinct (map fst hist)" "True = (\<forall>x\<in>set hist. snd (snd x))"
    "True \<Longrightarrow> mset (map fst hist) = mset [0..<n]" "\<And>x. x \<in> set hist \<Longrightarrow> fst (snd x) \<in> snd ` set steps"
  then have "set (map fst hist) = {..<n}" using mset_eq_setD [OF h(4)] by (auto simp: atLeast0LessThan)
  then show ?thesis using that h by blast
qed

lemma upload_stored:
  assumes "platform_ok P" "honest P put get stored" "upload_file P path put opt os w = Some (out, s)" "uo_ok out"
    "us_before os = Some st" "st_size st = length F" "length F \<le> U64_MAX"
    "\<forall>e\<in>snd ` set (us_steps os). \<forall>ofs. reads_of F ofs (je_reads e ofs)"
  obtains keys tree where "1 \<le> to_chunk opt" "to_chunk opt \<le> MAX_CHUNK"
    "length keys = (length F + to_chunk opt - 1) div to_chunk opt"
    "\<forall>i<length keys. keys ! i = chunk_key P (piece (to_chunk opt) F i) \<and> stored (sh_world s) (piece (to_chunk opt) F i)"
    "tree = build_manifests P (upload_entries keys (length F) (to_chunk opt)) (length F) (to_chunk opt) (to_fanout opt)"
    "mt_depth tree \<le> MAX_MANIFEST_DEPTH" "uo_root_key out = mt_root_key tree" "\<forall>b\<in>set (mt_blobs tree). stored (sh_world s) b"
proof -
  let ?n = "(length F + to_chunk opt - 1) div to_chunk opt"
  have fault: "options_fault opt = None" using assms(3,4) by (auto simp: upload_file_def Let_def upload_fail_def split: option.splits)
  obtain s1 where run: "run_pool ?n (to_workers opt) (us_started os) (upload_job put path opt (length F)) (us_steps os) (shared_start w ?n []) = Some (True, s1)"
    and rest: "upload_manifests P put opt os s1 \<lparr>uo_ok = False, uo_message = [], uo_root_key = [], uo_size = length F, uo_chunks = ?n,
        uo_manifests = 0, uo_depth = 0, uo_timings = sh_timings s1\<rparr> = Some (out, s)"
    using assms(3-6) fault by (auto simp: upload_file_def Let_def upload_fail_def split: option.splits if_splits)
  obtain hist where h: "replay_jobs (upload_job put path opt (length F)) hist (shared_start w ?n []) = Some s1"
      "\<forall>x\<in>set hist. snd (snd x)" "distinct (map fst hist)" "set (map fst hist) = {..<?n}" "\<forall>x\<in>set hist. fst (snd x) \<in> snd ` set (us_steps os)"
    by (rule run_pool_all [OF run])
  have "\<forall>x\<in>set hist. \<forall>ofs. reads_of F ofs (je_reads (fst (snd x)) ofs)" using h(5) assms(8) by blast
  note up = replay_upload [OF assms(2) h(1-3) _ this, unfolded h(4)]
  have keys: "length (sh_keys s1) = ?n" "\<forall>i<?n. stored (sh_world s1) (piece (to_chunk opt) F i) \<and> sh_keys s1 ! i = chunk_key P (piece (to_chunk opt) F i)"
    using up by (simp_all add: shared_start_def)
  let ?tree = "build_manifests P (upload_entries (sh_keys s1) (length F) (to_chunk opt)) (length F) (to_chunk opt) (to_fanout opt)"
  from rest have tree: "mt_depth ?tree \<le> MAX_MANIFEST_DEPTH" "uo_root_key out = mt_root_key ?tree"
    and run2: "run_pool (length (mt_blobs ?tree)) (to_workers opt) (us_manifest_started os) (manifest_job put (mt_blobs ?tree)) (us_manifest_steps os) s1 = Some (True, s)"
    using assms(4) by (auto simp: upload_manifests_def Let_def upload_fail_def split: option.splits if_splits)
  obtain hist2 where h2: "replay_jobs (manifest_job put (mt_blobs ?tree)) hist2 s1 = Some s" "\<forall>x\<in>set hist2. snd (snd x)"
      "set (map fst hist2) = {..<length (mt_blobs ?tree)}"
    by (rule run_pool_all [OF run2])
  from replay_manifests [OF assms(2) h2(1,2)]
  have kept: "\<forall>x. stored (sh_world s1) x \<longrightarrow> stored (sh_world s) x" "\<forall>b\<in>set (mt_blobs ?tree). stored (sh_world s) b"
    unfolding h2(3) by (auto simp: in_set_conv_nth)
  show ?thesis
    using that [of "sh_keys s1" ?tree] fault keys kept tree by (auto simp: options_fault_def split: if_splits)
qed

section \<open>A calm system\<close>

text \<open>No call of the operating system fails, no worker throws, and the part file's name is free.\<close>

definition calm_env :: "JobEnv \<Rightarrow> bool" where
  "calm_env e \<longleftrightarrow> \<not> je_throws e \<and> (\<forall>err. WriteEnded err \<notin> set (je_writes e))"

definition calm :: "TransferOptions \<Rightarrow> DownloadOs \<Rightarrow> string \<Rightarrow> files \<Rightarrow> bool" where
  "calm opt os dest fs \<longleftrightarrow> 1 \<le> to_workers opt \<and> to_workers opt \<le> MAX_WORKERS \<and> \<not> os_is_dir os \<and> fs (part_name os dest) = None \<and>
     \<not> (to_for_signals opt \<and> length (part_name os dest) \<ge> 4096) \<and> os_open os = None \<and> os_truncate os = None \<and>
     os_fsync os = None \<and> os_close os = None \<and> os_rename os = None \<and> (\<forall>e\<in>snd ` set (os_steps os). calm_env e)"

lemma pwrite_all_calm: "\<forall>err. WriteEnded err \<notin> set rs \<Longrightarrow> pwrite_all rest ofs rs f = Some (x, f') \<Longrightarrow> x = None"
proof (induction rest ofs rs f rule: pwrite_all.induct)
  case (2 rest ofs r rs f)
  then show ?case by (cases r) (auto simp: Let_def split: if_splits)
qed (auto split: if_splits)

lemma get_attempts_answered:
  assumes "go_ok (fst (get w key))"
  shows "get_attempts get key attempts stop 1 w = ((fst (get w key), 1), snd (get w key))"
  using assms by (subst get_attempts.simps) (simp add: case_prod_beta)

lemma download_job_calm:
  assumes "go_ok (fst (get (sh_world s) (cr_key (cs ! i))))" "length (go_body (fst (get (sh_world s) (cr_key (cs ! i))))) = cr_bytes (cs ! i)"
    "calm_env e" "download_job get cs opt i e s = Some (ok, s')"
  shows ok
proof -
  let ?g = "fst (get (sh_world s) (cr_key (cs ! i)))"
  note ga = get_attempts_answered [of get "sh_world s" "cr_key (cs ! i)", OF assms(1), of CHUNK_ATTEMPTS "je_stop e"]
  obtain x f where w: "pwrite_all (go_body ?g) (cr_offset (cs ! i)) (je_writes e) (sh_part s) = Some (x, f)"
    using assms ga by (cases "pwrite_all (go_body ?g) (cr_offset (cs ! i)) (je_writes e) (sh_part s)")
      (auto simp: download_job_def Let_def calm_env_def)
  have "x = None" using pwrite_all_calm [OF _ w] assms(3) by (simp add: calm_env_def)
  then show ?thesis using assms w ga by (auto simp: download_job_def Let_def calm_env_def told_def)
qed

lemma replay_download_calm:
  assumes "fetches I good get" "\<And>i w. i < length cs \<Longrightarrow> I w \<Longrightarrow> go_ok (fst (get w (cr_key (cs ! i))))"
    "\<And>i b. i < length cs \<Longrightarrow> good (cr_key (cs ! i)) b \<Longrightarrow> length b = cr_bytes (cs ! i)"
  shows "replay_jobs (download_job get cs opt) hist s = Some s' \<Longrightarrow> set (map fst hist) \<subseteq> {..<length cs} \<Longrightarrow>
    \<forall>x\<in>set hist. calm_env (fst (snd x)) \<Longrightarrow> I (sh_world s) \<Longrightarrow> \<forall>x\<in>set hist. snd (snd x)"
proof (induction hist arbitrary: s)
  case (Cons x hist)
  obtain i e ok where x: "x = (i, e, ok)" by (metis surj_pair)
  obtain s1 where j: "download_job get cs opt i e s = Some (ok, s1)" and rest: "replay_jobs (download_job get cs opt) hist s1 = Some s'"
    using Cons.prems(1) x by (auto split: option.splits if_splits)
  have i: "i < length cs" using Cons.prems(2) x by simp
  have g: "go_ok (fst (get (sh_world s) (cr_key (cs ! i))))" using assms(2) [OF i Cons.prems(4)] .
  then have "good (cr_key (cs ! i)) (go_body (fst (get (sh_world s) (cr_key (cs ! i)))))"
    using assms(1) Cons.prems(4) unfolding fetches_def by blast
  then have ok using download_job_calm [OF g assms(3) [OF i] _ j] Cons.prems(3) x by simp
  moreover have "I (sh_world s1)" using download_job_world [OF assms(1) Cons.prems(4) j] .
  ultimately show ?case using Cons.IH [OF rest] Cons.prems(2,3) x by simp
qed simp

lemma download_calm:
  assumes "calm opt os dest fs" "resolve_manifest get root_key CHUNK_ATTEMPTS w = (r, w1)" "rs_ok r"
    "download_file root_key dest get opt os w fs g = Some ((out, s), fs', g')"
  obtains s0 s1 ok where "sh_world s0 = w1" "run_pool (length (rs_chunks r)) (to_workers opt) (os_started os)
    (download_job get (rs_chunks r) opt) (os_steps os) s0 = Some (ok, s1)" "do_ok out = ok"
proof -
  let ?s = "log_line opt (''manifest '' @ root_key @ '': '' @ to_string (rs_size r) @ '' bytes, '' @
      to_string (length (rs_chunks r)) @ '' chunks, '' @ to_string (rs_manifests r) @ '' manifest(s)'') (shared_start w 0 []\<lparr>sh_world := w1\<rparr>)
      \<lparr>sh_part := replicate (rs_size r) (CHR 0x00), sh_timings := replicate (length (rs_chunks r)) empty_timing\<rparr>"
  obtain ok s1 where run: "run_pool (length (rs_chunks r)) (to_workers opt) (os_started os) (download_job get (rs_chunks r) opt) (os_steps os) ?s = Some (ok, s1)"
    using assms by (auto simp: download_file_def download_chunks_def calm_def Let_def split: option.splits)
  then have "do_ok out = ok"
    using assms by (auto simp: download_file_def download_chunks_def calm_def Let_def abandon_def download_fail_def download_finish_def split: if_splits)
  then show ?thesis by (intro that [OF _ run]) simp_all
qed

section \<open>There and back\<close>

text \<open>A source and a list of chunks that fit a file: each chunk is fetched as the piece of the file at its place.\<close>

definition fits_file :: "('w \<Rightarrow> bool) \<Rightarrow> (string \<Rightarrow> string \<Rightarrow> bool) \<Rightarrow> 'w get_fn \<Rightarrow> nat \<Rightarrow> string \<Rightarrow> ChunkRef list \<Rightarrow> bool" where
  "fits_file I good get c F cs \<longleftrightarrow> 0 < c \<and> fetches I good get \<and> length cs = (length F + c - 1) div c \<and>
     (\<forall>i<length cs. cr_offset (cs ! i) = i * c \<and> cr_bytes (cs ! i) = length (piece c F i) \<and>
        (\<forall>b. good (cr_key (cs ! i)) b \<longrightarrow> b = piece c F i) \<and> (\<forall>w. I w \<longrightarrow> go_ok (fst (get w (cr_key (cs ! i))))))"

lemma stored_file_resolves:
  assumes "platform_ok P" "honest P put get stored" "1 \<le> c" "c \<le> MAX_CHUNK" "length F \<le> U64_MAX"
    and n: "length keys = (length F + c - 1) div c"
    and keys: "\<forall>i<length keys. keys ! i = chunk_key P (piece c F i) \<and> stored w (piece c F i)"
    and tree: "tree = build_manifests P (upload_entries keys (length F) c) (length F) c fanout"
      "mt_depth tree \<le> MAX_MANIFEST_DEPTH" "\<forall>b\<in>set (mt_blobs tree). stored w b"
  shows "\<exists>I good r w1. resolve_manifest get (mt_root_key tree) attempts w = (r, w1) \<and> rs_ok r \<and> I w1 \<and>
    rs_size r = length F \<and> fits_file I good get c F (rs_chunks r)"
proof -
  let ?es = "upload_entries keys (length F) c" and ?B = "set (mt_blobs tree) \<union> piece c F ` {..<length keys}"
  define I where "I w \<longleftrightarrow> (\<forall>b\<in>?B. stored w b)" for w
  define good where "good key b \<longleftrightarrow> (\<forall>i<length keys. key = chunk_key P (piece c F i) \<longrightarrow> b = piece c F i)" for key b
  have c0: "0 < c" using assms(3) by simp
  have es: "level_ok Data c ?es" "bytes_of ?es = length F"
    using upload_entries_ok [OF assms(1) c0 n assms(5), of "piece c F"] keys by auto
  have I0: "I w" using tree(3) keys by (auto simp: I_def)
  have step: "I w \<Longrightarrow> I (snd (get w key))" for w key using assms(2) unfolding honest_def I_def by blast
  have hit: "go_ok (fst (get w (chunk_key P b))) \<and> go_body (fst (get w (chunk_key P b))) = b" if "I w" "b \<in> ?B" for w b
    using assms(2) that unfolding honest_def I_def by blast
  have sv: "serves P get I (set (mt_blobs tree))" unfolding serves_def using step hit by blast
  have tr: "tree = build_manifests P ?es (bytes_of ?es) c fanout" using tree(1) es(2) by simp
  obtain r w1 where r: "resolve_manifest get (mt_root_key tree) attempts w = (r, w1)" "rs_ok r" "I w1"
      "rs_chunks r = refs 0 ?es" "rs_size r = length F"
    using built_tree_resolves [OF assms(1,3,4) es(1) tr tree(2) sv, of w attempts] I0 es(2) by auto
  have shape: "shape_ok Data c ?es" "bytes_of ?es \<le> U64_MAX" using es(1) by (simp_all add: level_ok_def)
  have len: "length (rs_chunks r) = length keys" using r(4) refs_length [of 0 ?es] by (simp add: upload_entries_def)
  have at: "rs_chunks r ! i = \<lparr>cr_key = chunk_key P (piece c F i), cr_offset = i * c, cr_bytes = length (piece c F i)\<rparr>"
    if "i < length keys" for i
    using that refs_nth [OF shape(1) c0 shape(2), of i] keys es(2) r(4) by (simp add: upload_entries_def piece_def region_def)
  have good_piece: "b = piece c F i" if "i < length keys" "good (chunk_key P (piece c F i)) b" for i b using that by (auto simp: good_def)
  have answers: "go_ok (fst (get w (chunk_key P (piece c F i))))" if "i < length keys" "I w" for i w using hit [OF that(2)] that(1) by simp
  have "good key (go_body (fst (get w key)))" if "I w" for w key using hit [OF that] by (auto simp: good_def)
  then have "fetches I good get" using step by (simp add: fetches_def)
  then have "fits_file I good get c F (rs_chunks r)"
    using c0 n len at good_piece answers unfolding fits_file_def by simp
  then show ?thesis using r(1-3,5) by blast
qed

lemma fitting_download_content:
  assumes "resolve_manifest get root attempts w = (r, w1)" "rs_ok r" "I w1" "rs_size r = length F" "fits_file I good get c F (rs_chunks r)"
    "run_pool (length (rs_chunks r)) workers started (download_job get (rs_chunks r) opt) steps s0 = Some (True, s1)"
    "sh_world s0 = w1" "length (sh_part s0) = length F"
  shows "sh_part s1 = F"
proof -
  let ?cs = "rs_chunks r"
  note fits = assms(5) [unfolded fits_file_def]
  have t: "tiling (rs_chunk r) (rs_size r) ?cs" using resolved_tiling [OF assms(1,2)] .
  obtain hist where h: "replay_jobs (download_job get ?cs opt) hist s0 = Some s1" "\<forall>x\<in>set hist. snd (snd x)" "distinct (map fst hist)"
      "set (map fst hist) = {..<length ?cs}"
    using assms(6) by (rule run_pool_all)
  have "fetches I good get" using fits by blast
  note part = replay_download [OF this t h(1,2,3), unfolded h(4)]
  have f: "length (sh_part s1) = length F" "\<forall>i<length ?cs. good (cr_key (?cs ! i)) (chunk_region ?cs i (sh_part s1))"
    using part assms(3,4,7,8) by simp_all
  have "piece c (sh_part s1) i = piece c F i" if "i * c < length F" for i
  proof -
    have i: "i < length ?cs" using that ceil_div [of c i "length F"] fits by simp
    then have "chunk_region ?cs i (sh_part s1) = piece c F i" using f(2) fits by blast
    then show ?thesis using fits i f(1) by (simp add: piece_def region_def)
  qed
  then show ?thesis using pieces_determine [OF _ f(1)] fits by blast
qed

lemma fitting_download_calm:
  assumes "I (sh_world s0)" "fits_file I good get c F cs" "\<forall>e\<in>snd ` set steps. calm_env e"
    "run_pool (length cs) workers started (download_job get cs opt) steps s0 = Some (ok, s1)"
  shows ok
proof -
  note fits = assms(2) [unfolded fits_file_def]
  obtain hist where h: "replay_jobs (download_job get cs opt) hist s0 = Some s1" "set (map fst hist) \<subseteq> {..<length cs}"
      "ok \<longleftrightarrow> (\<forall>x\<in>set hist. snd (snd x))" "\<forall>x\<in>set hist. fst (snd x) \<in> snd ` set steps"
    by (rule run_pool_history [OF assms(4)]) blast
  have env: "\<forall>x\<in>set hist. calm_env (fst (snd x))" using h(4) assms(3) by blast
  have fetch: "fetches I good get" using fits by blast
  have "\<forall>x\<in>set hist. snd (snd x)"
  proof (rule replay_download_calm [OF fetch _ _ h(1,2) env assms(1)])
    show "go_ok (fst (get w (cr_key (cs ! i))))" if "i < length cs" "I w" for i w using that fits by blast
    show "length b = cr_bytes (cs ! i)" if "i < length cs" "good (cr_key (cs ! i)) b" for i b using that fits by metis
  qed
  then show ?thesis using h(3) by simp
qed

text \<open>
  C1. What was uploaded downloads again. Take any store that keeps what it acknowledged and returns it
  under its key. If an upload of a file of content \<open>F\<close> reported success, then a download of the root key
  it returned, if it reports success, puts exactly \<open>F\<close> at its destination, and it does report success
  whenever the operating system does not fail it, however the workers of the two interleave.
\<close>

theorem upload_then_download:
  assumes "platform_ok P" "honest P put get stored" "upload_file P path put opt os w = Some (out, s)" "uo_ok out"
    "us_before os = Some st" "st_size st = length F" "length F \<le> U64_MAX"
    "\<forall>e\<in>snd ` set (us_steps os). \<forall>ofs. reads_of F ofs (je_reads e ofs)"
    "download_file (uo_root_key out) dest get dopt dos (sh_world s) fs g = Some ((dout, ds), fs', g')"
  shows "(do_ok dout \<longrightarrow> fs' dest = Some F) \<and> (calm dopt dos dest fs \<longrightarrow> do_ok dout)"
proof -
  obtain keys tree where "1 \<le> to_chunk opt" "to_chunk opt \<le> MAX_CHUNK" "length keys = (length F + to_chunk opt - 1) div to_chunk opt"
    "\<forall>i<length keys. keys ! i = chunk_key P (piece (to_chunk opt) F i) \<and> stored (sh_world s) (piece (to_chunk opt) F i)"
    "tree = build_manifests P (upload_entries keys (length F) (to_chunk opt)) (length F) (to_chunk opt) (to_fanout opt)"
    "mt_depth tree \<le> MAX_MANIFEST_DEPTH" and root: "uo_root_key out = mt_root_key tree" and "\<forall>b\<in>set (mt_blobs tree). stored (sh_world s) b"
    by (rule upload_stored [OF assms(1-8)])
  then obtain I good r w1 where r: "resolve_manifest get (uo_root_key out) CHUNK_ATTEMPTS (sh_world s) = (r, w1)" "rs_ok r" "I w1"
      "rs_size r = length F" "fits_file I good get (to_chunk opt) F (rs_chunks r)"
    using stored_file_resolves [OF assms(1,2) _ _ assms(7), of "to_chunk opt" keys "sh_world s" tree] unfolding root by metis
  have "fs' dest = Some F" if ok: "do_ok dout" using assms(9)
  proof (cases rule: download_file_ends)
    case (chunks r1 w2 out1 s1)
    then have r1: "r1 = r" "sh_world s1 = w1" using r(1) by simp_all
    from chunks(6,3) show ?thesis
    proof (cases rule: download_chunks_ends)
      case (renamed s2)
      have "sh_part s2 = F"
        using fitting_download_content [OF r renamed(5) [unfolded r1(1)]] r1(2) r(4) by simp
      then show ?thesis using renamed(6) part_not_dest [of dos dest] by simp
    qed (use ok in simp_all)
  qed (use ok in simp)
  moreover have "do_ok dout" if calm: "calm dopt dos dest fs"
  proof -
    obtain s0 s1 ok where run: "sh_world s0 = w1" "run_pool (length (rs_chunks r)) (to_workers dopt) (os_started dos)
        (download_job get (rs_chunks r) dopt) (os_steps dos) s0 = Some (ok, s1)" "do_ok dout = ok"
      by (rule download_calm [OF calm r(1,2) assms(9)])
    then show ?thesis using fitting_download_calm [OF _ r(5) _ run(2)] calm r(3) by (simp add: calm_def)
  qed
  ultimately show ?thesis by blast
qed

end
