(* ===== verification/Transfer_Sample.thy ===== *)
theory Transfer_Sample
  imports Round_Trip
begin

text \<open>
  Concrete transfers: a file of one chunk moved by one worker thread, through a store that is a list
  in memory and through the ring.
\<close>

section \<open>One job on one thread\<close>

definition one_worker :: "'e \<Rightarrow> (nat \<times> 'e) list" where
  "one_worker e = replicate 7 (0, e)"

lemma one_worker_runs:
  assumes "job 0 e s = Some (ok, s')"
  shows "run_pool 1 1 1 job (one_worker e) s = Some (ok, s')"
  using assms by (cases ok)
    (simp_all add: run_pool_def one_worker_def pool_threads_def pool_start_def work_step_def pool_done_def eval_nat_numeral)

lemma sample_length: "length sample_chunk = 5"
  by (simp add: sample_chunk_def)

definition sample_env :: JobEnv where
  "sample_env = \<lparr>je_throws = False, je_stop = (\<lambda>_. False), je_reads = (\<lambda>ofs. if ofs = 0 then [Bytes sample_chunk] else []),
     je_writes = [Wrote (length sample_chunk)], je_micros = 0\<rparr>"

definition sample_options :: TransferOptions where
  "sample_options = \<lparr>to_workers = 1, to_chunk = 8, to_fanout = 2, to_for_signals = True, to_log = False, to_on_chunk = False\<rparr>"

definition sample_os :: DownloadOs where
  "sample_os = \<lparr>os_is_dir = False, os_pid = 42, os_counter = 0, os_open = None, os_truncate = None, os_started = 1,
     os_steps = one_worker sample_env, os_fsync = None, os_close = None, os_rename = None, os_fsync_dir = True\<rparr>"

definition no_part :: PartFile where
  "no_part = \<lparr>g_part_path = [], g_part_live = False\<rparr>"

lemma sample_calm: "calm sample_options sample_os ''out'' Map.empty"
proof -
  have "to_string 42 = ''42''" "to_string 0 = ''0''" by code_simp+
  then show ?thesis
    by (auto simp: calm_def sample_options_def sample_os_def MAX_WORKERS_def part_name_def one_worker_def calm_env_def sample_env_def)
qed

lemma one_chunk_download:
  assumes "resolve_manifest get root CHUNK_ATTEMPTS w = (r, w1)" "rs_ok r" "I w1" "rs_size r = length sample_chunk"
    "fits_file I good get 8 sample_chunk (rs_chunks r)"
  shows "\<exists>out s fs' g'. download_file root ''out'' get sample_options sample_os w Map.empty no_part = Some ((out, s), fs', g') \<and> do_ok out"
proof -
  note fits = assms(5) [unfolded fits_file_def]
  have len: "length (rs_chunks r) = 1" using fits by (simp add: sample_chunk_def)
  have b: "cr_bytes (rs_chunks r ! 0) = length sample_chunk" using fits len by (simp add: piece_def region_def sample_chunk_def)
  have "download_job get (rs_chunks r) sample_options 0 sample_env s \<noteq> None" for s
  proof -
    obtain g u w' where g: "get_attempts get (cr_key (rs_chunks r ! 0)) CHUNK_ATTEMPTS (\<lambda>_. False) 1 (sh_world s) = ((g, u), w')" by (metis surj_pair)
    have "pwrite_all b ofs [Wrote (length sample_chunk)] f \<noteq> None" if "length b = length sample_chunk" for b ofs f
      using that by (auto simp: sample_chunk_def Let_def)
    then show ?thesis using b g by (auto simp: download_job_def sample_env_def Let_def split: option.splits)
  qed
  then have run: "\<exists>ok s'. run_pool 1 1 1 (download_job get (rs_chunks r) sample_options) (one_worker sample_env) s = Some (ok, s')" for s
    using one_worker_runs [of "download_job get (rs_chunks r) sample_options" sample_env s] by fastforce
  have fields: "to_workers sample_options = 1" "os_started sample_os = 1" "os_steps sample_os = one_worker sample_env"
    by (simp_all add: sample_options_def sample_os_def)
  have os: "os_open sample_os = None" "os_truncate sample_os = None" "\<not> (to_for_signals sample_options \<and> 4096 \<le> length (part_name sample_os ''out''))"
    using sample_calm unfolding calm_def by blast+
  have some: "download_chunks get ''out'' sample_options sample_os r out s Map.empty g \<noteq> None" for out s g
  proof -
    let ?s = "s\<lparr>sh_part := replicate (rs_size r) (CHR 0x00), sh_timings := replicate (length (rs_chunks r)) empty_timing\<rparr>"
    obtain ok s' where "run_pool 1 1 1 (download_job get (rs_chunks r) sample_options) (one_worker sample_env) ?s = Some (ok, s')"
      using run by blast
    then show ?thesis using os len by (simp add: download_chunks_def Let_def fields del: not_None_eq)
  qed
  then have "download_file root ''out'' get sample_options sample_os w Map.empty no_part \<noteq> None"
    using assms(1,2) by (simp add: download_file_def Let_def del: not_None_eq)
  then obtain out s fs' g' where d: "download_file root ''out'' get sample_options sample_os w Map.empty no_part = Some ((out, s), fs', g')"
    by (metis not_None_eq surj_pair)
  obtain s0 s1 ok where r: "sh_world s0 = w1" "run_pool (length (rs_chunks r)) (to_workers sample_options) (os_started sample_os)
      (download_job get (rs_chunks r) sample_options) (os_steps sample_os) s0 = Some (ok, s1)" "do_ok out = ok"
    by (rule download_calm [OF sample_calm assms(1,2) d])
  then have "do_ok out" using fitting_download_calm [OF _ assms(5) _ r(2)] sample_calm assms(3) by (simp add: calm_def)
  then show ?thesis using d by blast
qed

section \<open>Through a list in memory\<close>

text \<open>A store that refuses a body whose key belongs to another body it holds.\<close>

definition holder :: "platform \<Rightarrow> string list \<Rightarrow> string \<Rightarrow> string option" where
  "holder P w key = find (\<lambda>b. chunk_key P b = key) w"

definition keep_put :: "platform \<Rightarrow> string list put_fn" where
  "keep_put P w b =
     (let ok = (holder P w (chunk_key P b) \<in> {None, Some b}) in
      (\<lparr>po_ok = ok, po_copies = 1, po_message = [], po_coordinator = empty_peer, po_attempts = 1, po_key = chunk_key P b\<rparr>,
       if holder P w (chunk_key P b) = None then b # w else w))"

definition keep_get :: "platform \<Rightarrow> string list get_fn" where
  "keep_get P w key =
     (\<lparr>go_ok = holder P w key \<noteq> None, go_body = (case holder P w key of None \<Rightarrow> [] | Some b \<Rightarrow> b), go_message = [], go_served_by = empty_peer,
       go_tried = []\<rparr>, w)"

lemma keep_honest: "honest P (keep_put P) (keep_get P) (\<lambda>w b. holder P w (chunk_key P b) = Some b)"
  by (auto simp: honest_def keep_put_def keep_get_def Let_def holder_def)

definition sample_manifest :: Manifest where
  "sample_manifest = \<lparr>mf_size = 5, mf_chunk = 8, mf_kind = Data, mf_entries = [\<lparr>me_key = sample_key, me_bytes = 5\<rparr>]\<rparr>"

abbreviation sample_blob :: string where
  "sample_blob \<equiv> format_manifest sample_manifest"

lemma sample_keys_differ: "chunk_key sample_platform sample_blob \<noteq> sample_key"
proof -
  let ?head = "''chordfs-manifest 1'' @ newline @ ''s''"
  obtain rest where "sample_blob = ?head @ rest" by (simp add: format_manifest_def manifest_lines_def)
  then have "chunk_key sample_platform sample_blob = chunk_key sample_platform ?head"
    by (simp add: chunk_key_def sha1_def sample_platform_def)
  moreover have "chunk_key sample_platform ?head \<noteq> sample_key" by code_simp
  ultimately show ?thesis by simp
qed

lemma sample_root: "build_manifests sample_platform [\<lparr>me_key = sample_key, me_bytes = 5\<rparr>] 5 8 2 =
    \<lparr>mt_blobs = [sample_blob], mt_root_key = chunk_key sample_platform sample_blob, mt_depth = 1\<rparr>"
  unfolding build_manifests_def by (subst build_levels.simps) (simp add: MANIFEST_FANOUT_def Let_def sample_manifest_def)

definition sample_upload_os :: UploadOs where
  "sample_upload_os = \<lparr>us_open = None, us_before = Some \<lparr>st_regular = True, st_size = 5, st_mtime = (7, 0)\<rparr>,
     us_after = Some \<lparr>st_regular = True, st_size = 5, st_mtime = (7, 0)\<rparr>, us_started = 1, us_steps = one_worker sample_env,
     us_manifest_started = 1, us_manifest_steps = one_worker sample_env\<rparr>"

lemma sample_upload:
  "\<exists>out s. upload_file sample_platform ''in'' (keep_put sample_platform) sample_options sample_upload_os [] = Some (out, s) \<and>
     uo_ok out \<and> uo_root_key out = chunk_key sample_platform sample_blob \<and> sh_world s = [sample_blob, sample_chunk]"
proof -
  let ?put = "keep_put sample_platform" and ?k = "chunk_key sample_platform sample_blob"
  let ?p = "\<lparr>po_ok = True, po_copies = 1, po_message = [], po_coordinator = empty_peer, po_attempts = 1, po_key = sample_key\<rparr>"
  have put1: "put_attempts ?put sample_chunk a st 1 [] = ((?p, 1), [sample_chunk])" for a st
    by (subst put_attempts.simps) (simp add: keep_put_def holder_def sample_key_def)
  have put2: "put_attempts ?put sample_blob a st 1 [sample_chunk] = ((?p\<lparr>po_key := ?k\<rparr>, 1), [sample_blob, sample_chunk])" for a st
    using sample_keys_differ by (subst put_attempts.simps) (simp add: keep_put_def holder_def sample_key_def eq_commute)
  obtain s1 where "upload_job ?put ''in'' sample_options 5 0 sample_env (shared_start [] 1 []) = Some (True, s1)"
    and s1: "sh_keys s1 = [sample_key]" "sh_world s1 = [sample_chunk]"
    using put1 by (simp add: upload_job_def sample_options_def sample_env_def sample_chunk_def Let_def shared_start_def tell_def log_line_def)
  from one_worker_runs [of "upload_job ?put ''in'' sample_options 5", OF this(1)]
  have run1: "run_pool 1 1 1 (upload_job ?put ''in'' sample_options 5) (one_worker sample_env) (shared_start [] 1 []) = Some (True, s1)" .
  have "manifest_job ?put [sample_blob] 0 sample_env s1 = Some (True, s1\<lparr>sh_world := [sample_blob, sample_chunk]\<rparr>)"
    using put2 s1 by (simp add: manifest_job_def sample_env_def)
  from one_worker_runs [of "manifest_job ?put [sample_blob]", OF this]
  have run2: "run_pool 1 1 1 (manifest_job ?put [sample_blob]) (one_worker sample_env) s1 = Some (True, s1\<lparr>sh_world := [sample_blob, sample_chunk]\<rparr>)" .
  have "upload_entries (sh_keys s1) 5 8 = [\<lparr>me_key = sample_key, me_bytes = 5\<rparr>]" using s1 by (simp add: upload_entries_def)
  then show ?thesis using run1 run2 sample_root s1
    by (simp add: upload_file_def upload_manifests_def options_fault_def sample_upload_os_def sample_options_def
        MAX_WORKERS_def MAX_CHUNK_def MANIFEST_FANOUT_def MAX_MANIFEST_DEPTH_def Let_def)
qed

lemma sample_fits:
  assumes "honest sample_platform put get stored" "stored w sample_chunk" "stored w sample_blob"
  shows "\<exists>I good r w1. resolve_manifest get (chunk_key sample_platform sample_blob) CHUNK_ATTEMPTS w = (r, w1) \<and> rs_ok r \<and> I w1 \<and>
    rs_size r = length sample_chunk \<and> fits_file I good get 8 sample_chunk (rs_chunks r)"
proof -
  have p: "piece 8 sample_chunk 0 = sample_chunk" by (simp add: piece_def region_def sample_chunk_def)
  have "build_manifests sample_platform (upload_entries [sample_key] (length sample_chunk) 8) (length sample_chunk) 8 2 =
      \<lparr>mt_blobs = [sample_blob], mt_root_key = chunk_key sample_platform sample_blob, mt_depth = 1\<rparr>"
    using sample_root by (simp add: upload_entries_def sample_length)
  from stored_file_resolves [OF sample_platform_ok assms(1), of 8 sample_chunk "[sample_key]" w _ 2 CHUNK_ATTEMPTS, OF _ _ _ _ _ this [symmetric]]
  show ?thesis using assms(2,3) p by (simp add: MAX_CHUNK_def sample_length U64_MAX_def MAX_MANIFEST_DEPTH_def sample_key_def)
qed

theorem upload_then_download_witness:
  "\<exists>out s dout ds fs' g'. upload_file sample_platform ''in'' (keep_put sample_platform) sample_options sample_upload_os [] = Some (out, s) \<and>
     download_file (uo_root_key out) ''out'' (keep_get sample_platform) sample_options sample_os (sh_world s) Map.empty no_part =
       Some ((dout, ds), fs', g') \<and> do_ok dout \<and> fs' ''out'' = Some ''hello''"
proof -
  let ?get = "keep_get sample_platform"
  obtain out s where up: "upload_file sample_platform ''in'' (keep_put sample_platform) sample_options sample_upload_os [] = Some (out, s)"
      "uo_ok out" and root: "uo_root_key out = chunk_key sample_platform sample_blob" and w: "sh_world s = [sample_blob, sample_chunk]"
    using sample_upload by blast
  have "holder sample_platform (sh_world s) (chunk_key sample_platform sample_chunk) = Some sample_chunk"
      "holder sample_platform (sh_world s) (chunk_key sample_platform sample_blob) = Some sample_blob"
    using sample_keys_differ by (simp_all add: holder_def w sample_key_def)
  then obtain I good r w1 where "resolve_manifest ?get (uo_root_key out) CHUNK_ATTEMPTS (sh_world s) = (r, w1)" "rs_ok r" "I w1"
      "rs_size r = length sample_chunk" "fits_file I good ?get 8 sample_chunk (rs_chunks r)"
    using sample_fits [OF keep_honest] root by metis
  then obtain dout ds fs' g' where down: "download_file (uo_root_key out) ''out'' ?get sample_options sample_os (sh_world s) Map.empty no_part =
      Some ((dout, ds), fs', g')" "do_ok dout"
    using one_chunk_download by metis
  have "us_before sample_upload_os = Some \<lparr>st_regular = True, st_size = 5, st_mtime = (7, 0)\<rparr>" by (simp add: sample_upload_os_def)
  moreover have "\<forall>e\<in>snd ` set (us_steps sample_upload_os). \<forall>ofs. reads_of sample_chunk ofs (je_reads e ofs)"
    by (simp add: sample_upload_os_def one_worker_def sample_env_def region_def)
  ultimately have "fs' ''out'' = Some sample_chunk"
    using upload_then_download [OF sample_platform_ok keep_honest up, of _ sample_chunk] down by (simp add: sample_length U64_MAX_def)
  then show ?thesis using up(1) down by (auto simp: sample_chunk_def)
qed

section \<open>Through the ring\<close>

text \<open>One replica that holds the chunk and its manifest.\<close>

definition file_send :: "unit frame_transport" where
  "file_send w to line body =
     ((Ok, \<lparr>fr_line = ''CHUNK 5'', fr_body = (if line = ''GET '' @ sample_key then sample_chunk else sample_blob)\<rparr>), w)"

abbreviation ring_get :: "unit get_fn" where
  "ring_get \<equiv> \<lambda>w key. get_chunk sample_platform sample_route file_send (sample_peer 3 9001) key 2 w"

lemma ring_get_body:
  assumes "b = sample_chunk \<or> b = sample_blob"
  shows "go_ok (fst (ring_get w (chunk_key sample_platform b))) \<and> go_body (fst (ring_get w (chunk_key sample_platform b))) = b"
proof -
  let ?k = "chunk_key sample_platform b"
  have v: "valid_key ?k" by (rule valid_chunk_key [OF sample_platform_ok])
  obtain k where k: "id_from_key ?k = Some k" using id_from_key_sha1 [OF sample_platform_ok, of b] by (auto simp: chunk_key_def)
  have "fr_body (snd (fst (file_send () p (''GET '' @ ?k) []))) = b" for p
    using assms sample_keys_differ by (auto simp: file_send_def sample_key_def)
  then show ?thesis using k sample_lookup [of k] v
    by (simp add: get_chunk_def Let_def lr_ok_def empty_result_def file_send_def get_verdict_def starts_with_def)
qed

definition no_put :: "unit put_fn" where
  "no_put w b = (\<lparr>po_ok = False, po_copies = 0, po_message = [], po_coordinator = empty_peer, po_attempts = 0, po_key = []\<rparr>, w)"

lemma ring_honest: "honest sample_platform no_put ring_get (\<lambda>w b. b = sample_chunk \<or> b = sample_blob)"
  using ring_get_body by (simp add: honest_def no_put_def)

theorem download_exact_witness:
  "\<exists>out s fs' g' f. download_file (chunk_key sample_platform sample_blob) ''out'' ring_get sample_options sample_os () Map.empty no_part =
     Some ((out, s), fs', g') \<and> fs' ''out'' = Some f \<and> length f = do_size out"
proof -
  obtain I good r w1 where "resolve_manifest ring_get (chunk_key sample_platform sample_blob) CHUNK_ATTEMPTS () = (r, w1)" "rs_ok r" "I w1"
      "rs_size r = length sample_chunk" "fits_file I good ring_get 8 sample_chunk (rs_chunks r)"
    using sample_fits [OF ring_honest, of "()"] by auto
  then obtain out s fs' g' where down: "download_file (chunk_key sample_platform sample_blob) ''out'' ring_get sample_options sample_os () Map.empty
      no_part = Some ((out, s), fs', g')" "do_ok out"
    using one_chunk_download by metis
  from download_exact [OF down] have "\<exists>f. fs' ''out'' = Some f \<and> length f = do_size out"
    using part_not_dest [of sample_os "''out''"] by auto
  then show ?thesis using down(1) by blast
qed


end
