(* ===== verification/Collect.thy ===== *)
theory Collect
  imports Manifest_Tree Names Chunk_Props Complex_Main
begin

text \<open>
  The collector of \<^verbatim>\<open>src/collect.h\<close> and \<^verbatim>\<open>src/collect.cpp\<close>: every name and every manifest tree gives the
  live set, then each node process is asked what it holds and sent back what is not live. The
  tracker, the ring and the clock are passed in; each call may change the world behind them. Times
  are real numbers of seconds. The two listings go on for as long as pages come, so that a run may
  have no result.
\<close>

section \<open>Replies\<close>

definition parse_total :: "string \<Rightarrow> nat option" where
  "parse_total w =
     (if w = [] \<or> length w > 18 \<or> (length w > 1 \<and> hd w = CHR ''0'') then None else digits_from 0 w)"

fun entry_pairs :: "string list \<Rightarrow> (string \<times> string) list option" where
  "entry_pairs [] = Some []"
| "entry_pairs [_] = None"
| "entry_pairs (n # k # ws) =
     (if valid_name n \<and> valid_key k then map_option (\<lambda>ps. (n, k) # ps) (entry_pairs ws) else None)"

definition parse_entries_reply :: "string \<Rightarrow> (string \<times> string) list option" where
  "parse_entries_reply reply =
     (let w = split_single_spaces reply in
      if length w < 2 \<or> hd w \<noteq> ''ENTRIES'' then None
      else case parse_total (w ! 1) of
        None \<Rightarrow> None
      | Some n \<Rightarrow> if length w \<noteq> 2 + 2 * n then None else entry_pairs (drop 2 w))"

fun ascending_keys :: "string option \<Rightarrow> string list \<Rightarrow> bool" where
  "ascending_keys prev [] \<longleftrightarrow> True"
| "ascending_keys prev (k # ks) \<longleftrightarrow> valid_key k \<and> (case prev of None \<Rightarrow> True | Some p \<Rightarrow> \<not> k \<le> p) \<and> ascending_keys (Some k) ks"

definition parse_keys_reply :: "string \<Rightarrow> (string list \<times> nat) option" where
  "parse_keys_reply reply =
     (let w = split_single_spaces reply in
      if length w < 3 \<or> hd w \<noteq> ''KEYS'' then None
      else case (parse_total (w ! 1), parse_total (w ! 2)) of
        (Some n, Some g) \<Rightarrow> if length w \<noteq> 3 + n \<or> \<not> ascending_keys None (drop 3 w) then None else Some (drop 3 w, g)
      | _ \<Rightarrow> None)"

definition parse_dropped_reply :: "string \<Rightarrow> nat \<Rightarrow> (string \<times> nat) option" where
  "parse_dropped_reply reply asked =
     (let w = split_single_spaces reply in
      if length w \<noteq> 3 \<or> hd w \<noteq> ''DROPPED'' \<or> length (w ! 1) \<noteq> asked then None
      else case parse_total (w ! 2) of
        None \<Rightarrow> None
      | Some bytes \<Rightarrow> if list_all (\<lambda>c. c = CHR ''0'' \<or> c = CHR ''1'') (w ! 1) then Some (w ! 1, bytes) else None)"

section \<open>Finding every node\<close>

definition add_process :: "Peer list \<Rightarrow> Peer \<Rightarrow> Peer list" where
  "add_process ps p = (if list_ex (same_process p) ps then ps else ps @ [p])"

text \<open>The walk; the error text leaves out the reason the reader of the reply gave.\<close>

fun walk_steps ::
  "platform \<Rightarrow> 'w transport \<Rightarrow> Peer \<Rightarrow> nat \<Rightarrow> nat \<Rightarrow> Peer \<Rightarrow> Peer list \<Rightarrow> 'w \<Rightarrow> (Peer list \<times> string option) \<times> 'w"
where
  "walk_steps P route start max_steps 0 current ps w =
     ((ps, Some (''the ring walk did not close after '' @ to_string max_steps @ '' steps'')), w)"
| "walk_steps P route start max_steps (Suc n) current ps w =
     (case route w current ''NEIGHBOURS'' of
        ((d, line), w) \<Rightarrow>
          (case (if d = Ok then parse_neighbours P line else None) of
             None \<Rightarrow> ((ps, Some (''could not ask '' @ peer_address current @ '' for its successors'')), w)
           | Some nb \<Rightarrow>
               let ps = fold (\<lambda>p ps. add_process ps p) (nb_succs nb) ps in
               if nb_succs nb = [] \<or> list_ex (\<lambda>p. same_node p start) (nb_succs nb) \<or> same_node (last (nb_succs nb)) current
               then ((ps, None), w)
               else walk_steps P route start max_steps n (last (nb_succs nb)) ps w))"

definition walk_ring :: "platform \<Rightarrow> Peer \<Rightarrow> 'w transport \<Rightarrow> nat \<Rightarrow> 'w \<Rightarrow> (Peer list \<times> string option) \<times> 'w" where
  "walk_ring P start route max_steps w = walk_steps P route start max_steps max_steps start (add_process [] start) w"

section \<open>The collection\<close>

record CollectSettings =
  se_gc_key :: string
  se_dry_run :: bool
  se_deadline_s :: real
  se_upload_limit_s :: real
  se_tracker_wait_s :: real

record 'w CollectIO =
  io_entries :: "'w \<Rightarrow> string \<Rightarrow> (string + (string \<times> string) list) \<times> 'w"
  io_get :: "'w get_fn"
  io_nodes :: "'w \<Rightarrow> (Peer list \<times> string option) \<times> 'w"
  io_ask :: "'w \<Rightarrow> Peer \<Rightarrow> string \<Rightarrow> (Delivery \<times> string) \<times> 'w"
  io_now :: "'w \<Rightarrow> real \<times> 'w"

record NodeSweep =
  ns_address :: string
  ns_grace_s :: int
  ns_held :: nat
  ns_garbage :: nat
  ns_dropped :: nat
  ns_bytes :: nat
  ns_skipped :: string

record CollectReport =
  cl_ok :: bool
  cl_message :: string
  cl_names :: nat
  cl_roots :: nat
  cl_live :: nat
  cl_nodes :: "NodeSweep list"
  cl_garbage :: nat
  cl_dropped :: nat
  cl_freed :: nat
  cl_deadline_hit :: bool
  cl_mark_s :: real
  cl_sweep_s :: real

definition empty_report :: CollectReport where
  "empty_report = \<lparr>cl_ok = False, cl_message = [], cl_names = 0, cl_roots = 0, cl_live = 0, cl_nodes = [], cl_garbage = 0, cl_dropped = 0,
     cl_freed = 0, cl_deadline_hit = False, cl_mark_s = 0, cl_sweep_s = 0\<rparr>"

text \<open>Mark: every name, page after page.\<close>

partial_function (option) list_entries ::
  "('w \<Rightarrow> string \<Rightarrow> (string + (string \<times> string) list) \<times> 'w) \<Rightarrow> string \<Rightarrow> (string \<times> string) list \<Rightarrow> 'w \<Rightarrow>
     ((string + (string \<times> string) list) \<times> 'w) option"
where
  "list_entries entries after sofar w =
     (case entries w after of
        (Inl err, w) \<Rightarrow> Some (Inl err, w)
      | (Inr pg, w) \<Rightarrow> if pg = [] then Some (Inr sofar, w) else list_entries entries (fst (last pg)) (sofar @ pg) w)"

definition names_of_root :: "(string \<times> string) list \<Rightarrow> string \<Rightarrow> string" where
  "names_of_root entries rt =
     fold (\<lambda>e named. if snd e = rt then named @ (if named = [] then [] else '', '') @ fst e else named) entries []"

text \<open>Then every tree: its manifests and its chunks are live. One that cannot be read ends the collection.\<close>

fun mark_roots ::
  "'w get_fn \<Rightarrow> (string \<times> string) list \<Rightarrow> string list \<Rightarrow> string set \<Rightarrow> 'w \<Rightarrow> (string + string set) \<times> 'w"
where
  "mark_roots get entries [] live w = (Inr live, w)"
| "mark_roots get entries (rt # roots) live w =
     (case resolve_manifest get rt 3 w of
        (r, w) \<Rightarrow>
          if \<not> rs_ok r
          then (Inl (''the manifest tree of '' @ names_of_root entries rt @ '' could not be read ('' @ rs_message r @ ''); nothing was dropped''), w)
          else mark_roots get entries roots (live \<union> set (rs_manifest_keys r) \<union> cr_key ` set (rs_chunks r)) w)"

text \<open>Sweep: what a node holds, page after page, and of it what is not live.\<close>

partial_function (option) list_node ::
  "('w \<Rightarrow> Peer \<Rightarrow> string \<Rightarrow> (Delivery \<times> string) \<times> 'w) \<Rightarrow> string set \<Rightarrow> Peer \<Rightarrow> string \<Rightarrow> NodeSweep \<Rightarrow> string list \<Rightarrow> 'w \<Rightarrow>
     ((bool \<times> NodeSweep \<times> string list) \<times> 'w) option"
where
  "list_node ask live p cursor ns garbage w =
     (case ask w p (''KEYS '' @ cursor) of
        ((d, reply), w) \<Rightarrow>
          (case (if d = Ok then parse_keys_reply reply else None) of
             None \<Rightarrow> Some ((False, ns\<lparr>ns_skipped := ''could not list its chunks ('' @ take 80 reply @ '')''\<rparr>, garbage), w)
           | Some (keys, grace) \<Rightarrow>
               if keys = [] then Some ((True, ns\<lparr>ns_grace_s := int grace\<rparr>, garbage), w)
               else list_node ask live p (last keys) (ns\<lparr>ns_grace_s := int grace, ns_held := ns_held ns + length keys\<rparr>)
                      (garbage @ filter (\<lambda>k. k \<notin> live) keys) w))"

definition drop_line :: "string \<Rightarrow> string list \<Rightarrow> string" where
  "drop_line gc_key keys = ''DROP '' @ gc_key @ concat (map (\<lambda>k. '' '' @ k) keys)"

text \<open>The drops to one node, a batch at a time; the flag says that the deadline has passed.\<close>

function drop_batches ::
  "'w CollectIO \<Rightarrow> CollectSettings \<Rightarrow> real \<Rightarrow> Peer \<Rightarrow> string list \<Rightarrow> NodeSweep \<Rightarrow> 'w \<Rightarrow> (bool \<times> NodeSweep) \<times> 'w"
where
  "drop_batches io s t0 p garbage ns w =
     (if ns_skipped ns \<noteq> [] \<or> se_dry_run s \<or> garbage = [] then ((False, ns), w)
      else case io_now io w of
        (t, w) \<Rightarrow>
          if t - t0 > se_deadline_s s then ((True, ns), w)
          else let batch = take MAX_HAVE_KEYS garbage in
          case io_ask io w p (drop_line (se_gc_key s) batch) of
            ((d, reply), w) \<Rightarrow>
              (case (if d = Ok then parse_dropped_reply reply (length batch) else None) of
                 None \<Rightarrow> ((False, ns\<lparr>ns_skipped := ''DROP refused ('' @ take 80 reply @ '')''\<rparr>), w)
               | Some (bits, bytes) \<Rightarrow>
                   drop_batches io s t0 p (drop MAX_HAVE_KEYS garbage)
                     (ns\<lparr>ns_dropped := ns_dropped ns + count_list bits (CHR ''1''), ns_bytes := ns_bytes ns + bytes\<rparr>) w))"
  by auto
termination by (relation "measure (\<lambda>(_, _, _, _, garbage, _, _). length garbage)") (auto simp: MAX_HAVE_KEYS_def)

declare drop_batches.simps [simp del]

definition grace_needed :: "CollectSettings \<Rightarrow> real" where
  "grace_needed s = se_upload_limit_s s + se_tracker_wait_s s + se_deadline_s s"

text \<open>\<^verbatim>\<open>static_cast<long>\<close> of a number of seconds.\<close>

definition whole_seconds :: "real \<Rightarrow> int" where
  "whole_seconds x = (if x < 0 then \<lceil>x\<rceil> else \<lfloor>x\<rfloor>)"

definition check_grace :: "CollectSettings \<Rightarrow> bool \<Rightarrow> NodeSweep \<Rightarrow> NodeSweep" where
  "check_grace s complete_list ns =
     (if complete_list \<and> real_of_int (ns_grace_s ns) < grace_needed s
      then ns\<lparr>ns_skipped := ''its grace ('' @ to_string_int (ns_grace_s ns) @ '' s) is shorter than the upload limit, the tracker wait '' @
        ''and this collection's deadline together ('' @ to_string_int (whole_seconds (grace_needed s)) @ '' s)''\<rparr>
      else ns)"

definition sweep_node ::
  "'w CollectIO \<Rightarrow> CollectSettings \<Rightarrow> real \<Rightarrow> string set \<Rightarrow> Peer \<Rightarrow> 'w \<Rightarrow> ((bool \<times> NodeSweep) \<times> 'w) option"
where
  "sweep_node io s t0 live p w =
     (let ns = \<lparr>ns_address = peer_address p, ns_grace_s = - 1, ns_held = 0, ns_garbage = 0, ns_dropped = 0, ns_bytes = 0, ns_skipped = []\<rparr> in
      case list_node (io_ask io) live p ''-'' ns [] w of
        None \<Rightarrow> None
      | Some ((complete_list, ns, garbage), w) \<Rightarrow>
          Some (drop_batches io s t0 p garbage ((check_grace s complete_list ns)\<lparr>ns_garbage := length garbage\<rparr>) w))"

fun sweep_nodes ::
  "'w CollectIO \<Rightarrow> CollectSettings \<Rightarrow> real \<Rightarrow> string set \<Rightarrow> Peer list \<Rightarrow> CollectReport \<Rightarrow> 'w \<Rightarrow> (CollectReport \<times> 'w) option"
where
  "sweep_nodes io s t0 live [] rep w = Some (rep, w)"
| "sweep_nodes io s t0 live (p # ps) rep w =
     (case sweep_node io s t0 live p w of
        None \<Rightarrow> None
      | Some ((hit, ns), w) \<Rightarrow>
          let rep = rep\<lparr>cl_garbage := cl_garbage rep + ns_garbage ns, cl_deadline_hit := hit, cl_dropped := cl_dropped rep + ns_dropped ns,
                        cl_freed := cl_freed rep + ns_bytes ns, cl_nodes := cl_nodes rep @ [ns]\<rparr>
          in if hit then Some (rep, w) else sweep_nodes io s t0 live ps rep w)"

definition also_note :: "string \<Rightarrow> string \<Rightarrow> string" where
  "also_note message note = message @ (if message = [] then [] else ''; '') @ note"

definition collect :: "'w CollectIO \<Rightarrow> CollectSettings \<Rightarrow> 'w \<Rightarrow> (CollectReport \<times> 'w) option" where
  "collect io s w =
     (case io_now io w of
        (t0, w) \<Rightarrow>
          (case list_entries (io_entries io) [] [] w of
             None \<Rightarrow> None
           | Some (Inl err, w) \<Rightarrow> Some (empty_report\<lparr>cl_message := ''could not list the names: '' @ err\<rparr>, w)
           | Some (Inr entries, w) \<Rightarrow>
               let roots = sorted_list_of_set (snd ` set entries);
                   rep = empty_report\<lparr>cl_names := length entries, cl_roots := length roots\<rparr>
               in case mark_roots (io_get io) entries roots {} w of
                 (Inl why, w) \<Rightarrow> Some (rep\<lparr>cl_message := why\<rparr>, w)
               | (Inr live, w) \<Rightarrow>
                   (case io_now io w of
                      (t1, w) \<Rightarrow>
                        (case io_nodes io w of
                           ((ps, err), w) \<Rightarrow>
                             let rep = rep\<lparr>cl_live := card live, cl_mark_s := t1 - t0,
                                   cl_message := (case err of None \<Rightarrow> []
                                     | Some e \<Rightarrow> ''the node list may be incomplete ('' @ e @ ''); nodes missed keep their garbage'')\<rparr>
                             in case sweep_nodes io s t0 live ps rep w of
                               None \<Rightarrow> None
                             | Some (rep, w) \<Rightarrow>
                                 let rep = (if cl_deadline_hit rep
                                            then rep\<lparr>cl_message := also_note (cl_message rep) ''the deadline passed: the rest was left for the next collection''\<rparr>
                                            else rep)
                                 in (case io_now io w of (t2, w) \<Rightarrow> Some (rep\<lparr>cl_sweep_s := t2 - t0 - cl_mark_s rep, cl_ok := True\<rparr>, w))))))"

end
