(* ===== verification/World_Order.thy ===== *)
theory World_Order
  imports Manifest
begin

text \<open>
  Relations between the worlds before and after a call, such as \<open>no chunk is lost\<close>: when each single
  exchange keeps such a relation, so do a lookup with its recovery, the read of a chunk through the
  ring, and the walk of a manifest tree.
\<close>

section \<open>Lookups\<close>

locale kept_by_routing =
  fixes R :: "'w \<Rightarrow> 'w \<Rightarrow> bool" and route :: "'w transport"
  assumes R_refl: "R w w" and R_trans: "R w1 w2 \<Longrightarrow> R w2 w3 \<Longrightarrow> R w1 w3" and R_route: "R w (snd (route w p line))"
begin

lemma R_routed: "route w p line = (r, w') \<Longrightarrow> R w w'"
  using R_route [of w p line] by simp

lemma R_lookup_loop: "lookup_loop P route request k left current r w = (r', w') \<Longrightarrow> R w w'"
proof (induction left arbitrary: current r w)
  case (Suc left)
  obtain d reply w1 where c: "route w current request = ((d, reply), w1)" by (metis surj_pair)
  have "R w1 w' \<or> w1 = w'"
    using Suc.prems c by (auto simp: lookup_loop.simps(2) Let_def split: if_splits sum.splits dest: Suc.IH)
  then show ?case using R_routed [OF c] R_trans by blast
qed (simp add: R_refl)

lemma R_lookup: "lookup P route start k w = (r, w') \<Longrightarrow> R w w'"
  unfolding lookup_def by (rule R_lookup_loop)

lemma R_recovery_loop: "recovery_loop P route start k left r w = (r', w') \<Longrightarrow> R w w'"
proof (induction left arbitrary: r w)
  case (Suc left)
  let ?namer = "lr_path r ! (length (lr_path r) - 2)" and ?dead = "lr_path r ! (length (lr_path r) - 1)"
  obtain x w1 where s: "route w ?namer (suspect_request ?dead) = (x, w1)" by (metis surj_pair)
  obtain r1 w2 where l: "lookup P route start k w1 = (r1, w2)" by (metis surj_pair)
  have "R w w2" using R_routed [OF s] R_lookup [OF l] R_trans by blast
  moreover have "w' = w \<or> R w2 w'"
    using Suc.prems s l by (auto simp: Let_def split: if_splits dest: Suc.IH)
  ultimately show ?case using R_refl R_trans by blast
qed (simp add: R_refl)

lemma R_lookup_with_recovery: "lookup_with_recovery P route start k retries w = (r, w') \<Longrightarrow> R w w'"
  using R_trans by (auto simp: lookup_with_recovery_def Let_def split: prod.splits dest!: R_lookup R_recovery_loop)

lemma R_fallbacks:
  assumes "fallbacks P route r dead w = (ps, w')"
  shows "R w w'"
proof -
  let ?w = "if dead then snd (route w (last (lr_path r)) (suspect_request (lr_owner r))) else w"
  have "R w ?w" using R_route R_refl by simp
  moreover have "w' = snd (route ?w (last (lr_path r)) ''NEIGHBOURS'')"
    using assms by (auto simp: fallbacks_def Let_def split: prod.splits option.splits if_splits)
  ultimately show ?thesis using R_route R_trans by blast
qed

end

section \<open>Chunk reads\<close>

locale kept_by_chunk_reads = kept_by_routing R route
  for R :: "'w \<Rightarrow> 'w \<Rightarrow> bool" and route :: "'w transport" +
  fixes send :: "'w frame_transport"
  assumes R_send: "R w (snd (send w p (''GET '' @ key) []))"
begin

lemma R_get_loop: "get_loop P route send r key asked queue out w = (out', w') \<Longrightarrow> R w w'"
proof (induction P route' \<equiv> route send' \<equiv> send r key asked queue out w rule: get_loop.induct)
  case (2 P r key asked p queue out w)
  obtain d ans w1 where s: "send w p (''GET '' @ key) [] = ((d, ans), w1)" by (metis surj_pair)
  have R1: "R w w1" using R_send [of w p key] s by simp
  show ?case
  proof (cases "get_verdict P key d ans")
    case None
    then show ?thesis using "2.prems" s R1 by auto
  next
    case (Some what)
    obtain ps w2 where f: "fallbacks P route r (unreachable d) w1 = (ps, w2)" by (metis surj_pair)
    show ?thesis
    proof (cases asked)
      case True
      have "R w1 w'"
        by (rule "2.hyps"(1) [OF s [symmetric] refl Some refl True]) (use "2.prems" s Some True in \<open>simp add: Let_def\<close>)
      then show ?thesis using R1 R_trans by blast
    next
      case False
      have "R w2 w'"
        by (rule "2.hyps"(2) [OF s [symmetric] refl Some refl False f [symmetric]]) (use "2.prems" s Some False f in \<open>simp add: Let_def\<close>)
      then show ?thesis using R1 R_fallbacks [OF f] R_trans by blast
    qed
  qed
qed (simp add: R_refl)

lemma R_get_chunk: "get_chunk P route send start key retries w = (out, w') \<Longrightarrow> R w w'"
  using R_trans R_refl
  by (auto simp: get_chunk_def Let_def simp del: get_loop.simps split: prod.splits option.splits if_splits
      dest!: R_lookup_with_recovery R_get_loop)

end

section \<open>Reading a tree through the world\<close>

text \<open>
  A relation between worlds that one read keeps, and that composes, is kept by reading a whole tree.
\<close>

locale kept_by_reads =
  fixes R :: "'w \<Rightarrow> 'w \<Rightarrow> bool" and get :: "'w get_fn"
  assumes R_refl: "R w w" and R_trans: "R w1 w2 \<Longrightarrow> R w2 w3 \<Longrightarrow> R w1 w3" and R_get: "R w (snd (get w key))"
begin

lemma R_get_attempts: "get_attempts get key attempts stop used w = (r, w') \<Longrightarrow> R w w'"
proof (induction "attempts - used" arbitrary: used w)
  case (0 used w)
  then show ?case using R_get [of w key] by (subst (asm) get_attempts.simps) (auto split: prod.splits if_splits)
next
  case (Suc x used w)
  obtain g w1 where g: "get w key = (g, w1)" by (metis surj_pair)
  have R1: "R w w1" using R_get [of w key] g by simp
  show ?case
  proof (cases "go_ok g \<or> used \<ge> attempts \<or> stop used")
    case True
    then show ?thesis using Suc.prems g R1 by (subst (asm) get_attempts.simps) auto
  next
    case False
    then have "get_attempts get key attempts stop (used + 1) w1 = (r, w')"
      using Suc.prems g by (subst (asm) get_attempts.simps) auto
    then show ?thesis using Suc.hyps R1 R_trans by (metis Suc_eq_plus1 Suc_inject Suc_diff_Suc zero_less_diff zero_less_Suc)
  qed
qed

lemma R_resolve_one: "resolve_one get attempts depth p rt w = (r, w') \<Longrightarrow> R w w'"
proof -
  assume one: "resolve_one get attempts depth p rt w = (r, w')"
  obtain g u w1 where g: "get_attempts get (pn_key p) attempts (\<lambda>_. False) 1 w = ((g, u), w1)" by (metis surj_pair)
  have "snd (resolve_one get attempts depth p rt w) = (if depth > MAX_MANIFEST_DEPTH then w else w1)"
    by (cases rt) (auto simp: resolve_one_def g [unfolded One_nat_def] Let_def split: sum.split)
  then show ?thesis using one R_get_attempts [OF g] R_refl by (simp split: if_splits)
qed

lemma R_resolve_level: "resolve_level get attempts depth ps rt w = (r, w') \<Longrightarrow> R w w'"
proof (induction ps arbitrary: rt w)
  case (Cons p ps)
  obtain go rt1 w1 where one: "resolve_one get attempts depth p rt w = ((go, rt1), w1)" by (metis surj_pair)
  show ?case using Cons one R_resolve_one [OF one] R_trans by (cases go) auto
qed (simp add: R_refl)

lemma R_resolve_levels: "resolve_levels get attempts depth level r w = (r', w') \<Longrightarrow> R w w'"
proof (induction "MAX_MANIFEST_DEPTH + 1 - depth" arbitrary: depth level r w rule: less_induct)
  case less
  obtain go r1 todo w1 where lev: "resolve_level get attempts depth level (r, []) w = ((go, r1, todo), w1)" by (metis surj_pair)
  show ?case
  proof (cases "level = [] \<or> \<not> go \<or> depth > MAX_MANIFEST_DEPTH")
    case True
    then show ?thesis using less.prems lev R_refl R_resolve_level [OF lev]
      by (subst (asm) resolve_levels.simps) (auto split: if_splits bool.splits)
  next
    case False
    then have "resolve_levels get attempts (depth + 1) todo r1 w1 = (r', w')"
      using less.prems lev by (subst (asm) resolve_levels.simps) auto
    moreover have "MAX_MANIFEST_DEPTH + 1 - (depth + 1) < MAX_MANIFEST_DEPTH + 1 - depth" using False by linarith
    ultimately show ?thesis using less.hyps R_resolve_level [OF lev] R_trans by blast
  qed
qed

lemma R_resolve_manifest: "resolve_manifest get root_key attempts w = (r, w') \<Longrightarrow> R w w'"
  by (auto simp: resolve_manifest_def Let_def R_refl dest: R_resolve_levels split: if_splits)

end


text \<open>A chunk read through the ring is such a read.\<close>

sublocale kept_by_chunk_reads \<subseteq> ring: kept_by_reads R "\<lambda>w key. get_chunk P route send start key retries w" for P start retries
  using R_refl R_trans R_get_chunk by unfold_locales (simp, blast, metis prod.collapse)

end
