(* ===== verification/Collect_Props.thy ===== *)
theory Collect_Props
  imports Collect World_Order
begin

text \<open>
  The collector's promises: a chunk that a listed name leads to is dropped by no process, whatever
  the processes answer, and a named file that could be read before a collection can be read after it.
\<close>

section \<open>What one request can remove\<close>

lemma net_removes:
  assumes "chunk_net P ios W to line body = ((d, ans), W')" "a \<in> world_holds k W" "a \<notin> world_holds k W'"
  shows "\<exists>secret keys. split_single_spaces line = ''DROP'' # secret # keys \<and> k \<in> set keys"
proof (cases "W (process to)")
  case None
  then show ?thesis using assms by (simp add: chunk_net_def)
next
  case (Some n)
  let ?h = "handle_chunk_request P no_send (ios (process to)) no_schedule \<lparr>fr_line = line, fr_body = body\<rparr> ((), n)"
  show ?thesis
  proof (cases ?h)
    case None
    then show ?thesis using assms Some by (simp add: chunk_net_def)
  next
    case (Some r)
    obtain h n' where h: "?h = Some (h, (), n')" using Some by (cases r) auto
    then have W': "W' = W(process to \<mapsto> n')" using assms(1) \<open>W (process to) = Some n\<close> by (simp add: chunk_net_def)
    then have "a = process to" "node_holds k n" "\<not> node_holds k n'"
      using assms(2,3) \<open>W (process to) = Some n\<close> by (auto simp: world_holds_def split: if_splits)
    then obtain st where "cn_store n = Some st" "store_has st k" by (auto simp: node_holds_def split: option.splits)
    from removed_by_drop [OF h this \<open>\<not> node_holds k n'\<close>] show ?thesis by auto
  qed
qed

text \<open>
  The node processes are a part \<open>procs\<close> of the world; the tracker, the ring's tables and the clock
  are the rest. A request either reaches its process, or is lost; the answer may be lost too.
\<close>

definition asks_processes :: "platform \<Rightarrow> ('w \<Rightarrow> process_world) \<Rightarrow> 'w CollectIO \<Rightarrow> bool" where
  "asks_processes P procs io \<longleftrightarrow>
     (\<forall>w p line. procs (snd (io_ask io w p line)) = procs w \<or>
        (\<exists>ios body. procs (snd (io_ask io w p line)) = snd (chunk_net P ios (procs w) p line body)))"

definition loses_nothing :: "('w \<Rightarrow> process_world) \<Rightarrow> 'w \<Rightarrow> 'w \<Rightarrow> bool" where
  "loses_nothing procs w w' \<longleftrightarrow> (\<forall>k. world_holds k (procs w) \<subseteq> world_holds k (procs w'))"

text \<open>The calls of a collection that ask no process for anything: they lose no chunk.\<close>

definition reads_only :: "('w \<Rightarrow> process_world) \<Rightarrow> 'w CollectIO \<Rightarrow> bool" where
  "reads_only procs io \<longleftrightarrow>
     (\<forall>W after. loses_nothing procs W (snd (io_entries io W after))) \<and> (\<forall>W key. loses_nothing procs W (snd (io_get io W key))) \<and>
     (\<forall>W. loses_nothing procs W (snd (io_nodes io W))) \<and> (\<forall>W. loses_nothing procs W (snd (io_now io W)))"


lemma loses_nothing_refl [simp]: "loses_nothing procs W W"
  by (simp add: loses_nothing_def)

lemma loses_nothing_trans: "loses_nothing procs W1 W2 \<Longrightarrow> loses_nothing procs W2 W3 \<Longrightarrow> loses_nothing procs W1 W3"
  by (fastforce simp: loses_nothing_def)

context kept_by_reads
begin

lemma R_mark_roots: "mark_roots get entries roots live w = (r, w') \<Longrightarrow> R w w'"
proof (induction roots arbitrary: live w)
  case (Cons rt roots)
  obtain r1 w1 where m: "resolve_manifest get rt 3 w = (r1, w1)" by (metis surj_pair)
  show ?case using Cons.prems Cons.IH m R_resolve_manifest [OF m] R_trans by (auto split: if_splits)
qed (simp add: R_refl)

end

text \<open>The trees the mark has read are in the live set.\<close>

definition tree_keys :: "Resolved \<Rightarrow> string set" where
  "tree_keys r = set (rs_manifest_keys r) \<union> cr_key ` set (rs_chunks r)"

lemma mark_roots_live:
  "mark_roots get entries roots live w = (Inr live', w') \<Longrightarrow>
     live \<subseteq> live' \<and> (\<forall>rt\<in>set roots. \<exists>w0 r w1. resolve_manifest get rt 3 w0 = (r, w1) \<and> rs_ok r \<and> tree_keys r \<subseteq> live')"
proof (induction roots arbitrary: live w)
  case (Cons rt roots)
  obtain r1 w1 where m: "resolve_manifest get rt 3 w = (r1, w1)" by (metis surj_pair)
  have ok: "rs_ok r1" and rest: "mark_roots get entries roots (live \<union> set (rs_manifest_keys r1) \<union> cr_key ` set (rs_chunks r1)) w1 = (Inr live', w')"
    using Cons.prems unfolding mark_roots.simps m prod.case by (simp_all split: if_splits)
  from Cons.IH [OF rest] have "tree_keys r1 \<subseteq> live'" by (auto simp: tree_keys_def)
  with Cons.IH [OF rest] m ok show ?case by auto
qed simp

section \<open>The sweep\<close>

lemma list_entries_loses_nothing:
  fixes procs :: "'w \<Rightarrow> process_world"
  assumes "list_entries entries after sofar w = Some (r, w')" "\<And>W a. loses_nothing procs W (snd (entries W a))"
  shows "loses_nothing procs w w'"
proof -
  have "(\<forall>W a. loses_nothing procs W (snd (entries W a))) \<longrightarrow> loses_nothing procs w (snd (r, w'))"
  proof (rule list_entries.raw_induct [where P = "\<lambda>entries after sofar w y.
      (\<forall>W a. loses_nothing procs W (snd (entries W a))) \<longrightarrow> loses_nothing procs w (snd y)", OF _ assms(1)], intro impI)
    fix le and entries :: "'w \<Rightarrow> string \<Rightarrow> (string + (string \<times> string) list) \<times> 'w" and after sofar w y
    assume IH: "\<And>entries after sofar w y. le entries after sofar w = Some y \<Longrightarrow>
        (\<forall>W a. loses_nothing procs W (snd (entries W a))) \<longrightarrow> loses_nothing procs w (snd y)"
      and step: "(case entries w after of (Inl err, w) \<Rightarrow> Some (Inl err, w)
        | (Inr pg, w) \<Rightarrow> if pg = [] then Some (Inr sofar, w) else le entries (fst (last pg)) (sofar @ pg) w) = Some y"
      and e: "\<forall>W a. loses_nothing procs W (snd (entries W a))"
    obtain pg w1 where p: "entries w after = (pg, w1)" by (metis surj_pair)
    have l: "loses_nothing procs w w1" using e p by (metis snd_conv)
    show "loses_nothing procs w (snd y)"
    proof (cases "\<exists>ps. pg = Inr ps \<and> ps \<noteq> []")
      case True
      then obtain ps where "pg = Inr ps" "ps \<noteq> []" by blast
      then have "le entries (fst (last ps)) (sofar @ ps) w1 = Some y" using step p by simp
      from IH [OF this] e have "loses_nothing procs w1 (snd y)" by blast
      with l show ?thesis by (rule loses_nothing_trans)
    next
      case False
      then show ?thesis using step p l by (cases pg) auto
    qed
  qed
  then show ?thesis using assms(2) by simp
qed

lemma ascending_keys_valid: "ascending_keys prev ks \<Longrightarrow> list_all valid_key ks"
  by (induction prev ks rule: ascending_keys.induct) auto

lemma parse_keys_reply_valid: "parse_keys_reply reply = Some (keys, grace) \<Longrightarrow> list_all valid_key keys"
  by (auto simp: parse_keys_reply_def Let_def ascending_keys_valid split: if_splits option.splits)

lemma split_keys_line: "hd (split_single_spaces (''KEYS '' @ cursor)) = ''KEYS''"
proof -
  have d: "CHR '' '' \<notin> set ''KEYS''" by simp
  have "''KEYS '' @ cursor = ''KEYS'' @ CHR '' '' # cursor" by simp
  then show ?thesis by (simp only: split_words_append [OF d] list.sel)
qed

lemma split_key_words:
  "list_all valid_key keys \<Longrightarrow> CHR '' '' \<notin> set w \<Longrightarrow> split_single_spaces (w @ concat (map (\<lambda>k. '' '' @ k) keys)) = w # keys"
proof (induction keys arbitrary: w)
  case (Cons k keys)
  have e: "w @ concat (map (\<lambda>k. '' '' @ k) (k # keys)) = w @ CHR '' '' # k @ concat (map (\<lambda>k. '' '' @ k) keys)" by simp
  have "list_all valid_key keys" "CHR '' '' \<notin> set k" using Cons.prems(1) by simp_all
  from Cons.IH [OF this] show ?case unfolding e split_words_append [OF Cons.prems(2)] by (rule arg_cong)
qed simp

lemma split_drop_line:
  assumes "list_all valid_key keys" "CHR '' '' \<notin> set gc_key"
  shows "split_single_spaces (drop_line gc_key keys) = ''DROP'' # gc_key # keys"
proof -
  have d: "CHR '' '' \<notin> set ''DROP''" by simp
  have "drop_line gc_key keys = ''DROP'' @ CHR '' '' # gc_key @ concat (map (\<lambda>k. '' '' @ k) keys)" by (simp add: drop_line_def)
  then show ?thesis by (simp only: split_words_append [OF d] split_key_words [OF assms])
qed

text \<open>What a request that the collector sends can remove.\<close>

lemma ask_removes:
  assumes "asks_processes P procs io" "io_ask io W p line = (r, W')" "a \<in> world_holds k (procs W)" "a \<notin> world_holds k (procs W')"
  shows "\<exists>secret keys. split_single_spaces line = ''DROP'' # secret # keys \<and> k \<in> set keys"
proof -
  have ne: "procs W' \<noteq> procs W" using assms(3,4) by metis
  from assms(1) have "procs (snd (io_ask io W p line)) = procs W \<or>
      (\<exists>ios body. procs (snd (io_ask io W p line)) = snd (chunk_net P ios (procs W) p line body))"
    unfolding asks_processes_def by blast
  with ne assms(2) obtain ios body where "procs W' = snd (chunk_net P ios (procs W) p line body)" by auto
  then obtain d ans where "chunk_net P ios (procs W) p line body = ((d, ans), procs W')" by (metis prod.collapse)
  from net_removes [OF this assms(3,4)] show ?thesis .
qed

lemma ask_keys_loses_nothing:
  assumes "asks_processes P procs io" "io_ask io W p (''KEYS '' @ cursor) = (r, W')"
  shows "loses_nothing procs W W'"
  unfolding loses_nothing_def
proof (intro allI subsetI, rule ccontr)
  fix k a assume "a \<in> world_holds k (procs W)" "a \<notin> world_holds k (procs W')"
  from ask_removes [OF assms this] have "hd (split_single_spaces (''KEYS '' @ cursor)) = ''DROP''" by (metis list.sel(1))
  then show False unfolding split_keys_line by simp
qed

lemma ask_drop_keeps:
  assumes "asks_processes P procs io" "io_ask io W p (drop_line gc_key keys) = (r, W')" "list_all valid_key keys" "CHR '' '' \<notin> set gc_key"
    and "k \<notin> set keys"
  shows "world_holds k (procs W) \<subseteq> world_holds k (procs W')"
proof (rule ccontr)
  assume "\<not> world_holds k (procs W) \<subseteq> world_holds k (procs W')"
  then obtain a where "a \<in> world_holds k (procs W)" "a \<notin> world_holds k (procs W')" by blast
  from ask_removes [OF assms(1,2) this] split_drop_line [OF assms(3,4)] assms(5) show False by auto
qed

text \<open>A listing loses nothing, and what it calls garbage is not live.\<close>

definition dead_keys :: "string set \<Rightarrow> string list \<Rightarrow> bool" where
  "dead_keys live keys \<longleftrightarrow> list_all (\<lambda>k. valid_key k \<and> k \<notin> live) keys"

lemma list_node_dead:
  fixes procs :: "'w \<Rightarrow> process_world"
  assumes "list_node ask live p cursor ns garbage w = Some ((c, ns', garbage'), w')" "dead_keys live garbage"
    "\<And>W cur. loses_nothing procs W (snd (ask W p (''KEYS '' @ cur)))"
  shows "dead_keys live garbage' \<and> loses_nothing procs w w'"
proof -
  let ?P = "\<lambda>ask live p cursor ns garbage w y. dead_keys live garbage \<longrightarrow>
    (\<forall>W cur. loses_nothing procs W (snd (ask W p (''KEYS '' @ cur)))) \<longrightarrow> dead_keys live (snd (snd (fst y))) \<and> loses_nothing procs w (snd y)"
  have "?P ask live p cursor ns garbage w ((c, ns', garbage'), w')"
  proof (rule list_node.raw_induct [where P = ?P, OF _ assms(1)], intro impI)
    fix ln and ask :: "'w \<Rightarrow> Peer \<Rightarrow> string \<Rightarrow> (Delivery \<times> string) \<times> 'w" and live p cursor ns garbage w y
    assume IH: "\<And>ask live p cursor ns garbage w y. ln ask live p cursor ns garbage w = Some y \<Longrightarrow> ?P ask live p cursor ns garbage w y"
      and step: "(case ask w p (''KEYS '' @ cursor) of
        ((d, reply), w) \<Rightarrow>
          (case (if d = Ok then parse_keys_reply reply else None) of
             None \<Rightarrow> Some ((False, ns\<lparr>ns_skipped := ''could not list its chunks ('' @ take 80 reply @ '')''\<rparr>, garbage), w)
           | Some (keys, grace) \<Rightarrow>
               if keys = [] then Some ((True, ns\<lparr>ns_grace_s := int grace\<rparr>, garbage), w)
               else ln ask live p (last keys) (ns\<lparr>ns_grace_s := int grace, ns_held := ns_held ns + length keys\<rparr>)
                      (garbage @ filter (\<lambda>k. k \<notin> live) keys) w)) = Some y"
      and dead: "dead_keys live garbage" and e: "\<forall>W cur. loses_nothing procs W (snd (ask W p (''KEYS '' @ cur)))"
    obtain d reply w1 where a: "ask w p (''KEYS '' @ cursor) = ((d, reply), w1)" by (metis surj_pair)
    have l: "loses_nothing procs w w1" using e a by (metis snd_conv)
    show "dead_keys live (snd (snd (fst y))) \<and> loses_nothing procs w (snd y)"
    proof (cases "if d = Ok then parse_keys_reply reply else None")
      case None
      then show ?thesis using step a l dead by auto
    next
      case (Some kg)
      obtain keys grace where kg: "kg = (keys, grace)" by (cases kg)
      have "parse_keys_reply reply = Some (keys, grace)" using Some kg by (simp split: if_splits)
      from parse_keys_reply_valid [OF this] dead have g: "dead_keys live (garbage @ filter (\<lambda>k. k \<notin> live) keys)"
        by (auto simp: dead_keys_def list_all_iff)
      show ?thesis
      proof (cases "keys = []")
        case True
        then show ?thesis using step Some kg a l dead by auto
      next
        case False
        then have "ln ask live p (last keys) (ns\<lparr>ns_grace_s := int grace, ns_held := ns_held ns + length keys\<rparr>)
            (garbage @ filter (\<lambda>k. k \<notin> live) keys) w1 = Some y" using step Some kg a by simp
        from IH [OF this] g e have "dead_keys live (snd (snd (fst y)))" "loses_nothing procs w1 (snd y)" by blast+
        then show ?thesis using loses_nothing_trans [OF l] by blast
      qed
    qed
  qed
  then show ?thesis using assms(2,3) by simp
qed

lemma drop_batches_keeps:
  assumes "drop_batches io s t0 p garbage ns W = (r, W')" "dead_keys live garbage" "asks_processes P procs io" "reads_only procs io"
    and "CHR '' '' \<notin> set (se_gc_key s)" "k \<in> live"
  shows "world_holds k (procs W) \<subseteq> world_holds k (procs W')"
  using assms(1,2)
proof (induction "length garbage" arbitrary: garbage ns W rule: less_induct)
  case less
  obtain t W1 where now: "io_now io W = (t, W1)" by (metis surj_pair)
  let ?batch = "take MAX_HAVE_KEYS garbage"
  obtain d reply W2 where ask: "io_ask io W1 p (drop_line (se_gc_key s) ?batch) = ((d, reply), W2)" by (metis surj_pair)
  have "loses_nothing procs W (snd (io_now io W))" using assms(4) unfolding reads_only_def by blast
  then have 1: "world_holds k (procs W) \<subseteq> world_holds k (procs W1)" unfolding now by (simp add: loses_nothing_def)
  have "list_all valid_key ?batch" "k \<notin> set ?batch"
    using less.prems(2) assms(6) by (auto simp: dead_keys_def list_all_iff dest: in_set_takeD)
  from ask_drop_keeps [OF assms(3) ask this(1) assms(5) this(2)] have 2: "world_holds k (procs W1) \<subseteq> world_holds k (procs W2)" .
  show ?case
  proof (cases "ns_skipped ns \<noteq> [] \<or> se_dry_run s \<or> garbage = []")
    case True
    then show ?thesis using less.prems(1) by (subst (asm) drop_batches.simps) simp
  next
    case go: False
    show ?thesis
    proof (cases "t - t0 > se_deadline_s s")
      case True
      then show ?thesis using less.prems(1) go now 1 by (subst (asm) drop_batches.simps) simp
    next
      case False
      show ?thesis
      proof (cases "if d = Ok then parse_dropped_reply reply (length ?batch) else None")
        case None
        then show ?thesis using less.prems(1) go now 1 2 ask False by (subst (asm) drop_batches.simps) (auto simp: Let_def)
      next
        case (Some bb)
        obtain bits bytes where bb: "bb = (bits, bytes)" by (cases bb)
        have "dead_keys live (drop MAX_HAVE_KEYS garbage)" using less.prems(2) by (auto simp: dead_keys_def list_all_iff dest: in_set_dropD)
        moreover have "length (drop MAX_HAVE_KEYS garbage) < length garbage" using go by (auto simp: MAX_HAVE_KEYS_def)
        ultimately have "world_holds k (procs W2) \<subseteq> world_holds k (procs W')"
          using less.prems(1) go now ask False Some bb
          by (subst (asm) drop_batches.simps) (auto simp: Let_def intro!: less.hyps [THEN subsetD])
        then show ?thesis using 1 2 by blast
      qed
    qed
  qed
qed

lemma sweep_nodes_keeps:
  assumes "sweep_nodes io s t0 live ps rep W = Some (rep', W')" "asks_processes P procs io" "reads_only procs io"
    and "CHR '' '' \<notin> set (se_gc_key s)" "k \<in> live"
  shows "world_holds k (procs W) \<subseteq> world_holds k (procs W')"
  using assms(1)
proof (induction ps arbitrary: rep W)
  case (Cons p ps)
  obtain hit ns W1 where sw: "sweep_node io s t0 live p W = Some ((hit, ns), W1)"
    using Cons.prems by (auto split: option.splits)
  then obtain c ns0 garbage W0 ns1 where l: "list_node (io_ask io) live p ''-''
      \<lparr>ns_address = peer_address p, ns_grace_s = - 1, ns_held = 0, ns_garbage = 0, ns_dropped = 0, ns_bytes = 0, ns_skipped = []\<rparr> [] W =
        Some ((c, ns0, garbage), W0)"
    and d: "drop_batches io s t0 p garbage ns1 W0 = ((hit, ns), W1)"
    by (auto simp: sweep_node_def Let_def split: option.splits)
  have "loses_nothing procs V (snd (io_ask io V p (''KEYS '' @ cur)))" for V cur
    using ask_keys_loses_nothing [OF assms(2), of V p cur] by (cases "io_ask io V p (''KEYS '' @ cur)") simp
  from list_node_dead [OF l _ this] have g: "dead_keys live garbage" "loses_nothing procs W W0" by (simp_all add: dead_keys_def)
  have "world_holds k (procs W) \<subseteq> world_holds k (procs W1)"
    using drop_batches_keeps [OF d g(1) assms(2-5)] g(2) by (auto simp: loses_nothing_def)
  moreover have "world_holds k (procs W1) \<subseteq> world_holds k (procs W')"
    using Cons.prems sw Cons.IH by (auto simp: Let_def split: if_splits)
  ultimately show ?case by blast
qed simp


section \<open>The collection\<close>

lemma place_keys: "map fst (place start es) = map me_key es"
  by (induction es arbitrary: start) auto

lemma refs_keys: "cr_key ` set (refs start es) = me_key ` set es"
proof -
  have "map cr_key (refs start es) = map fst (place start es)" by (auto simp: comp_def split_def)
  then show ?thesis by (metis list.set_map place_keys)
qed

lemma collect_keeps:
  assumes "asks_processes P procs io" "reads_only procs io" "CHR '' '' \<notin> set (se_gc_key s)" "collect io s W = Some (rep, W')"
  shows "(\<not> cl_ok rep \<longrightarrow> loses_nothing procs W W') \<and>
    (cl_ok rep \<longrightarrow> (\<exists>entries W1. list_entries (io_entries io) [] [] (snd (io_now io W)) = Some (Inr entries, W1) \<and>
      (\<forall>e\<in>set entries. \<exists>W2 r W3. resolve_manifest (io_get io) (snd e) 3 W2 = (r, W3) \<and> rs_ok r \<and>
        (\<forall>k\<in>tree_keys r. world_holds k (procs W) \<subseteq> world_holds k (procs W')))))"
proof -
  have entries: "loses_nothing procs V (snd (io_entries io V a))" and reading: "loses_nothing procs V (snd (io_get io V key))"
    and nodes: "loses_nothing procs V (snd (io_nodes io V))" and clock: "loses_nothing procs V (snd (io_now io V))" for V a key
    using assms(2) unfolding reads_only_def by blast+
  have kept: "kept_by_reads (loses_nothing procs) (io_get io)"
    by unfold_locales (rule loses_nothing_refl, erule (1) loses_nothing_trans, rule reading)
  obtain t0 Wa where t0: "io_now io W = (t0, Wa)" by (metis surj_pair)
  obtain le Wb where le: "list_entries (io_entries io) [] [] Wa = Some (le, Wb)"
    using assms(4) t0 by (auto simp: collect_def split: option.splits)
  have b: "loses_nothing procs W Wb"
    by (rule loses_nothing_trans [OF _ list_entries_loses_nothing [OF le entries]]) (use clock [of W] t0 in simp)
  show ?thesis
  proof (cases le)
    case (Inl err)
    then show ?thesis using assms(4) t0 le b by (auto simp: collect_def empty_report_def)
  next
    case (Inr es)
    let ?roots = "sorted_list_of_set (snd ` set es)"
    obtain mr Wc where mr: "mark_roots (io_get io) es ?roots {} Wb = (mr, Wc)" by (metis surj_pair)
    have c: "loses_nothing procs W Wc"
      by (rule loses_nothing_trans [OF b kept_by_reads.R_mark_roots [OF kept mr]])
    show ?thesis
    proof (cases mr)
      case (Inl why)
      then show ?thesis using assms(4) t0 le Inr mr c by (auto simp: collect_def empty_report_def Let_def)
    next
      case live: (Inr live)
      obtain t1 Wd where t1: "io_now io Wc = (t1, Wd)" by (metis surj_pair)
      obtain ps err We where ps: "io_nodes io Wd = ((ps, err), We)" by (metis surj_pair)
      have e: "loses_nothing procs W We"
        by (rule loses_nothing_trans [OF c loses_nothing_trans]) (use clock [of Wc] nodes [of Wd] t1 ps in simp_all)
      obtain rep1 rep2 Wf where sweep: "sweep_nodes io s t0 live ps rep1 We = Some (rep2, Wf)" and W': "W' = snd (io_now io Wf)"
        and ok: "cl_ok rep"
        using assms(4) t0 le Inr mr live t1 ps by (auto simp: collect_def Let_def split: option.splits prod.splits)
      have "world_holds k (procs W) \<subseteq> world_holds k (procs W')" if "k \<in> live" for k
        using e sweep_nodes_keeps [OF sweep assms(1-3) that] clock [of Wf] W' unfolding loses_nothing_def by blast
      moreover have "\<forall>rt\<in>set ?roots. \<exists>w0 r w1. resolve_manifest (io_get io) rt 3 w0 = (r, w1) \<and> rs_ok r \<and> tree_keys r \<subseteq> live"
        using mark_roots_live [of "io_get io" es ?roots "{}" Wb live Wc] mr live by simp
      ultimately have "\<exists>W2 r W3. resolve_manifest (io_get io) (snd e) 3 W2 = (r, W3) \<and> rs_ok r \<and>
          (\<forall>k\<in>tree_keys r. world_holds k (procs W) \<subseteq> world_holds k (procs W'))" if "e \<in> set es" for e
        using that by fastforce
      then show ?thesis using ok le Inr t0 by auto
    qed
  qed
qed

text \<open>
  C4. Collection is safe for what a name leads to: when a collection has listed the names, it has read
  the whole tree of every listed one, and every process that held a manifest or a chunk of that
  tree still holds it afterwards, whatever the processes answer and whichever requests are lost. A
  collection that could not list the names or read one of the trees has dropped nothing anywhere.
\<close>

theorem collection_keeps_named_trees:
  assumes "asks_processes P procs io" "reads_only procs io" "CHR '' '' \<notin> set (se_gc_key s)" "collect io s W = Some (rep, W')"
  shows "(\<not> cl_ok rep \<longrightarrow> loses_nothing procs W W') \<and>
    (cl_ok rep \<longrightarrow> (\<exists>entries W1. list_entries (io_entries io) [] [] (snd (io_now io W)) = Some (Inr entries, W1) \<and>
      (\<forall>e\<in>set entries. \<exists>W2 r W3. resolve_manifest (io_get io) (snd e) 3 W2 = (r, W3) \<and> rs_ok r \<and>
        (\<forall>k\<in>tree_keys r. world_holds k (procs W) \<subseteq> world_holds k (procs W')))))"
  by (rule collect_keeps [OF assms])



section \<open>A concrete collection\<close>

text \<open>One name, the sample tree behind it, and one process that holds a chunk of the file.\<close>

definition sample_piece :: string where
  "sample_piece = me_key (hd sample_chunks)"

definition sample_root :: string where
  "sample_root = mt_root_key sample_tree"

definition piece_process :: ChunkNode where
  "piece_process = sample_process\<lparr>cn_store := Some (empty_store\<lparr>cs_keys := [sample_piece]\<rparr>)\<rparr>"

definition sample_collect_io :: "process_world CollectIO" where
  "sample_collect_io =
     \<lparr>io_entries = (\<lambda>W after. (Inr (if after = [] then [(''a'', sample_root)] else []), W)),
      io_get = blob_server tail_platform (mt_blobs sample_tree),
      io_nodes = (\<lambda>W. (([sample_peer 3 9001], None), W)),
      io_ask = (\<lambda>W p line. case chunk_net tail_platform (\<lambda>_. sample_io) W p line [] of ((d, ans), W') \<Rightarrow> ((d, fr_line ans), W')),
      io_now = (\<lambda>W. (0, W))\<rparr>"

definition sample_settings :: CollectSettings where
  "sample_settings = \<lparr>se_gc_key = ''secret'', se_dry_run = False, se_deadline_s = 0, se_upload_limit_s = 0, se_tracker_wait_s = 0\<rparr>"

definition piece_world :: process_world where
  "piece_world = [process (sample_peer 3 9001) \<mapsto> piece_process]"

lemma sample_io_ok: "asks_processes tail_platform (\<lambda>W. W) sample_collect_io" "reads_only (\<lambda>W. W) sample_collect_io"
  "CHR '' '' \<notin> set (se_gc_key sample_settings)"
proof -
  have "snd (io_ask sample_collect_io W p line) = snd (chunk_net tail_platform (\<lambda>_. sample_io) W p line [])" for W p line
    by (simp add: sample_collect_io_def split_def)
  then show "asks_processes tail_platform (\<lambda>W. W) sample_collect_io" unfolding asks_processes_def by blast
  have "snd (blob_server tail_platform (mt_blobs sample_tree) W key) = W" for W :: process_world and key
    by (simp add: blob_server_def split: option.split)
  then show "reads_only (\<lambda>W. W) sample_collect_io" by (simp add: reads_only_def sample_collect_io_def)
  show "CHR '' '' \<notin> set (se_gc_key sample_settings)" by (simp add: sample_settings_def)
qed

lemma sample_tree_read:
  "\<exists>r. resolve_manifest (blob_server tail_platform (mt_blobs sample_tree)) sample_root 3 (W :: process_world) = (r, W) \<and> rs_ok r \<and>
     sample_piece \<in> tree_keys r"
proof -
  let ?get = "blob_server tail_platform (mt_blobs sample_tree)"
  have "sample_tree = build_manifests tail_platform sample_chunks (bytes_of sample_chunks) 4 2"
    by (simp add: sample_tree_def sample_bytes)
  from built_tree_resolves [OF tail_platform_ok _ _ sample_chunks_ok this _ blob_server_serves [OF sample_tree_distinct] TrueI, of 3 W]
  obtain r W' where r: "resolve_manifest ?get sample_root 3 W = (r, W')" "rs_ok r" "rs_chunks r = refs 0 sample_chunks"
    by (auto simp: sample_tree_blobs(2) MAX_CHUNK_def MAX_MANIFEST_DEPTH_def sample_root_def simp del: mset_map)
  have "kept_by_reads (=) ?get" by unfold_locales (simp_all add: blob_server_def split: option.split)
  from kept_by_reads.R_resolve_manifest [OF this r(1)] have "W' = W" by simp
  moreover have "sample_piece \<in> me_key ` set sample_chunks" by (simp add: sample_piece_def sample_chunks_def)
  ultimately show ?thesis using r refs_keys [of 0 sample_chunks] by (auto simp: tree_keys_def)
qed

lemma sample_piece_valid: "valid_key sample_piece"
  by (simp add: sample_piece_def sample_chunks_def valid_key_def hex_letters list_all_iff)

lemma sample_ask:
  assumes "split_single_spaces line = [''KEYS'', after]"
  shows "io_ask sample_collect_io piece_world (sample_peer 3 9001) line =
    ((Ok, fst (handle_keys sample_io 1000 after (empty_store\<lparr>cs_keys := [sample_piece]\<rparr>))), piece_world)"
proof -
  have same: "snd (handle_keys sample_io 1000 after (empty_store\<lparr>cs_keys := [sample_piece]\<rparr>)) = empty_store\<lparr>cs_keys := [sample_piece]\<rparr>"
    by (simp add: handle_keys_def Let_def store_forget_old_def empty_store_def)
  obtain l where k: "handle_keys sample_io 1000 after (empty_store\<lparr>cs_keys := [sample_piece]\<rparr>) = (l, empty_store\<lparr>cs_keys := [sample_piece]\<rparr>)"
    using same by (metis prod.collapse)
  have "handle_chunk_request tail_platform no_send sample_io no_schedule \<lparr>fr_line = line, fr_body = []\<rparr> ((), piece_process) =
      Some (chunk_reply l, (), piece_process)"
    by (simp add: handle_chunk_request_def assms Let_def piece_process_def sample_process_def k)
  then show ?thesis by (simp add: sample_collect_io_def chunk_net_def piece_world_def k chunk_reply_def)
qed

lemma sample_listing:
  "io_ask sample_collect_io piece_world (sample_peer 3 9001) (''KEYS '' @ ''-'') = ((Ok, ''KEYS 1 1 '' @ sample_piece), piece_world)"
  "io_ask sample_collect_io piece_world (sample_peer 3 9001) (''KEYS '' @ sample_piece) = ((Ok, ''KEYS 0 1''), piece_world)"
proof -
  have n: "to_string 0 = ''0''" "to_string (Suc 0) = ''1''" by code_simp+
  have "split_single_spaces (''KEYS '' @ ''-'') = [''KEYS'', ''-'']" by simp
  from sample_ask [OF this] show "io_ask sample_collect_io piece_world (sample_peer 3 9001) (''KEYS '' @ ''-'') =
      ((Ok, ''KEYS 1 1 '' @ sample_piece), piece_world)"
    by (simp add: handle_keys_def Let_def store_keys_after_def store_forget_old_def MAX_HAVE_KEYS_def grace_seconds_def to_string_int_def n)
  have d: "CHR '' '' \<notin> set ''KEYS''" "CHR '' '' \<notin> set sample_piece" using valid_key_no_sep(1) [OF sample_piece_valid] by simp_all
  have "''KEYS '' @ sample_piece = ''KEYS'' @ CHR '' '' # sample_piece" by simp
  then have "split_single_spaces (''KEYS '' @ sample_piece) = [''KEYS'', sample_piece]"
    by (simp only: split_words_append [OF d(1)] split_words_last [OF d(2)])
  moreover have "sample_piece \<noteq> ''-''" "sample_piece \<noteq> []" by (simp_all add: sample_piece_def sample_chunks_def numeral_eq_Suc)
  ultimately show "io_ask sample_collect_io piece_world (sample_peer 3 9001) (''KEYS '' @ sample_piece) = ((Ok, ''KEYS 0 1''), piece_world)"
    using sample_ask [of "''KEYS '' @ sample_piece" sample_piece] sample_piece_valid
    by (simp add: handle_keys_def Let_def store_keys_after_def MAX_HAVE_KEYS_def grace_seconds_def to_string_int_def n)
qed

lemma sample_pages:
  "parse_keys_reply (''KEYS 1 1 '' @ sample_piece) = Some ([sample_piece], 1)" "parse_keys_reply ''KEYS 0 1'' = Some ([], 1)"
proof -
  have n: "parse_total ''0'' = Some 0" "parse_total ''1'' = Some 1" by code_simp+
  have d: "CHR '' '' \<notin> set ''KEYS''" "CHR '' '' \<notin> set ''1''" "CHR '' '' \<notin> set ''0''" "CHR '' '' \<notin> set sample_piece"
    using valid_key_no_sep(1) [OF sample_piece_valid] by simp_all
  have e: "''KEYS 1 1 '' @ sample_piece = ''KEYS'' @ CHR '' '' # ''1'' @ CHR '' '' # ''1'' @ CHR '' '' # sample_piece"
    "''KEYS 0 1'' = ''KEYS'' @ CHR '' '' # ''0'' @ CHR '' '' # ''1''" by simp_all
  have "split_single_spaces (''KEYS 1 1 '' @ sample_piece) = [''KEYS'', ''1'', ''1'', sample_piece]"
    "split_single_spaces ''KEYS 0 1'' = [''KEYS'', ''0'', ''1'']"
    unfolding e by (simp_all only: split_words_append [OF d(1)] split_words_append [OF d(2)] split_words_append [OF d(3)] split_words_last [OF d(4)]
        split_words_last [OF d(2)])
  then show "parse_keys_reply (''KEYS 1 1 '' @ sample_piece) = Some ([sample_piece], 1)" "parse_keys_reply ''KEYS 0 1'' = Some ([], 1)"
    using n sample_piece_valid by (simp_all add: parse_keys_reply_def)
qed

text \<open>The collection lists the process, finds its chunk live, and drops nothing.\<close>

lemma sample_node_listed:
  assumes "sample_piece \<in> live"
  shows "list_node (io_ask sample_collect_io) live (sample_peer 3 9001) ''-'' ns [] piece_world =
    Some ((True, ns\<lparr>ns_grace_s := 1, ns_held := ns_held ns + 1\<rparr>, []), piece_world)"
proof -
  have "list_node (io_ask sample_collect_io) live (sample_peer 3 9001) sample_piece ns' [] piece_world =
      Some ((True, ns'\<lparr>ns_grace_s := 1\<rparr>, []), piece_world)" for ns'
    by (subst list_node.simps, subst sample_listing(2)) (simp add: sample_pages)
  then show ?thesis using assms by (subst list_node.simps, subst sample_listing(1)) (simp add: sample_pages(1) [simplified])
qed

lemma sample_collected: "\<exists>rep. collect sample_collect_io sample_settings piece_world = Some (rep, piece_world) \<and> cl_ok rep"
proof -
  let ?io = sample_collect_io and ?get = "blob_server tail_platform (mt_blobs sample_tree)"
  obtain r where r: "resolve_manifest ?get sample_root 3 piece_world = (r, piece_world)" "rs_ok r" "sample_piece \<in> tree_keys r"
    using sample_tree_read by blast
  have io: "io_now ?io W = (0, W)" "io_get ?io = ?get" "io_nodes ?io W = (([sample_peer 3 9001], None), W)" for W
    by (simp_all add: sample_collect_io_def)
  have "list_entries (io_entries ?io) [] [] piece_world = Some (Inr [(''a'', sample_root)], piece_world)"
    by (subst list_entries.simps, simp add: sample_collect_io_def, subst list_entries.simps, simp)
  moreover have "mark_roots ?get es [sample_root] {} piece_world = (Inr (tree_keys r), piece_world)" for es
    by (simp add: r tree_keys_def)
  moreover have "\<exists>rep'. sweep_nodes ?io sample_settings 0 (tree_keys r) [sample_peer 3 9001] rep piece_world = Some (rep', piece_world)" for rep
  proof -
    let ?ns = "\<lparr>ns_address = peer_address (sample_peer 3 9001), ns_grace_s = - 1, ns_held = 0, ns_garbage = 0, ns_dropped = 0, ns_bytes = 0, ns_skipped = []\<rparr>"
    show ?thesis using sample_node_listed [OF r(3), of ?ns] by (simp add: sweep_node_def Let_def drop_batches.simps)
  qed
  then obtain f where "sweep_nodes ?io sample_settings 0 (tree_keys r) [sample_peer 3 9001] rep piece_world = Some (f rep, piece_world)" for rep
    by metis
  ultimately show ?thesis by (simp add: collect_def io Let_def)
qed

lemma sample_entries:
  "list_entries (io_entries sample_collect_io) [] [] (snd (io_now sample_collect_io piece_world)) = Some (Inr [(''a'', sample_root)], piece_world)"
  by (subst list_entries.simps, simp add: sample_collect_io_def, subst list_entries.simps, simp)

theorem collection_keeps_named_trees_witness:
  "\<exists>rep W' W2 r W3. collect sample_collect_io sample_settings piece_world = Some (rep, W') \<and>
     resolve_manifest (io_get sample_collect_io) sample_root 3 W2 = (r, W3) \<and> rs_ok r \<and>
     (\<forall>k\<in>tree_keys r. world_holds k piece_world \<subseteq> world_holds k W')"
proof -
  obtain rep where c: "collect sample_collect_io sample_settings piece_world = Some (rep, piece_world)" "cl_ok rep"
    using sample_collected by blast
  from collection_keeps_named_trees [OF sample_io_ok c(1)] c(2) sample_entries show ?thesis using c(1) by fastforce
qed


end
