(* ===== verification/Group.thy ===== *)
theory Group
  imports Lookup Raft Sample_Platform
begin

text \<open>
  \<^verbatim>\<open>src/group.h\<close> and \<^verbatim>\<open>src/group.cpp\<close>: the addresses of a tracker group and the client's loop over
  its replicas. The exchange, the clock and the sleep are arguments, as in the code: they read
  and change a world.
\<close>

section \<open>Addresses\<close>

record Address =
  a_ip :: string
  a_port :: nat

definition address_text :: "Address \<Rightarrow> string" where
  "address_text a = a_ip a @ '':'' @ to_string (a_port a)"

definition list_usage :: string where
  "list_usage = ''an address list is ip:port[,ip:port...]''"

fun address_loop :: "platform \<Rightarrow> Address list \<Rightarrow> string list \<Rightarrow> string + Address list" where
  "address_loop P out [] = Inr out"
| "address_loop P out (item # items) =
     (case (if item = [] then Inl [] else parse_members P item) of
        Inr [one] \<Rightarrow>
          let a = \<lparr>a_ip = peer_ip one, a_port = peer_port one\<rparr> in
          if a \<in> set out then Inl (address_text a @ '' is listed twice'')
          else address_loop P (out @ [a]) items
      | _ \<Rightarrow> Inl (''not an address: '' @ [CHR 0x27] @ item @ [CHR 0x27]))"

definition parse_address_list :: "platform \<Rightarrow> string \<Rightarrow> string + Address list" where
  "parse_address_list P s =
     (if s = [] \<or> CHR 0x0A \<in> set s then Inl list_usage
      else case address_loop P [] (getlines (CHR '','') s) of
        Inl e \<Rightarrow> Inl e
      | Inr out \<Rightarrow> if out = [] \<or> last s = CHR '','' then Inl list_usage else Inr out)"

section \<open>Asking\<close>

record 'w GroupClient =
  gc_replicas :: "Address list"
  gc_wait_ms :: Millis
  gc_pause_ms :: Millis
  gc_preferred :: nat
  gc_exchange :: "'w \<Rightarrow> Address \<Rightarrow> string \<Rightarrow> (Delivery \<times> string) \<times> 'w"
  gc_now :: "'w \<Rightarrow> Millis"
  gc_sleep :: "'w \<Rightarrow> Millis \<Rightarrow> 'w"

text \<open>
  One replica, following its redirects. The result is an answer with the replica it came from,
  or the note of what was said.
\<close>

fun follow ::
  "platform \<Rightarrow> 'w GroupClient \<Rightarrow> string \<Rightarrow> nat \<Rightarrow> Address \<Rightarrow> string \<Rightarrow> 'w \<Rightarrow> (string + Address \<times> string) \<times> 'w"
where
  "follow P g request 0 target note w = (Inl note, w)"
| "follow P g request (Suc h) target note w =
     (case gc_exchange g w target request of
        ((d, line), w) \<Rightarrow>
          if d \<noteq> Ok then (Inl (note @ address_text target @ '' '' @ delivery_name d), w)
          else if starts_with ''REDIRECT '' line then
            let note = note @ address_text target @ '' redirected to '' @ drop 9 line @ ''; '' in
            (case parse_address_list P (drop 9 line) of
               Inr [to] \<Rightarrow> follow P g request h to note w
             | _ \<Rightarrow> (Inl note, w))
          else if starts_with ''UNAVAILABLE'' line then (Inl (note @ address_text target @ '' answered '' @ line), w)
          else (Inr (target, line), w))"

text \<open>\<open>preferred\<close> after an answer: the last index holding the replica that answered.\<close>

definition prefer_replica :: "'w GroupClient \<Rightarrow> Address \<Rightarrow> 'w GroupClient" where
  "prefer_replica g target =
     fold (\<lambda>i g. if gc_replicas g ! i = target then g\<lparr>gc_preferred := i\<rparr> else g) [0..<length (gc_replicas g)] g"

text \<open>One round over the replicas, starting at \<open>k\<close>: an answer, or what was said and whether time ran out.\<close>

fun ask_round ::
  "platform \<Rightarrow> 'w GroupClient \<Rightarrow> string \<Rightarrow> Millis \<Rightarrow> nat list \<Rightarrow> string list \<Rightarrow> 'w \<Rightarrow>
     (string list + Address \<times> string) \<times> 'w"
where
  "ask_round P g request deadline [] said w = (Inl said, w)"
| "ask_round P g request deadline (k # ks) said w =
     (let n = length (gc_replicas g); first = (gc_preferred g + k) mod n in
      case follow P g request (Suc n) (gc_replicas g ! first) [] w of
        (Inr answer, w) \<Rightarrow> (Inr answer, w)
      | (Inl note, w) \<Rightarrow>
          let said = said[first := note] in
          if gc_now g w \<ge> deadline then (Inl said, w)
          else ask_round P g request deadline ks said w)"

definition said_text :: "string list \<Rightarrow> string" where
  "said_text said = fold (\<lambda>s reply. if s = [] then reply else reply @ (if reply = [] then [] else ''; '') @ s) said []"

text \<open>
  The loop of rounds, bounded by \<open>fuel\<close>; \<open>None\<close> is a loop still going when the fuel is spent. An
  answer comes with the client as it is afterwards.
\<close>

fun ask_loop ::
  "nat \<Rightarrow> platform \<Rightarrow> 'w GroupClient \<Rightarrow> string \<Rightarrow> Millis \<Rightarrow> string list \<Rightarrow> 'w \<Rightarrow>
     ((bool \<times> string \<times> 'w GroupClient) \<times> 'w) option"
where
  "ask_loop 0 P g request deadline said w = None"
| "ask_loop (Suc fuel) P g request deadline said w =
     (case ask_round P g request deadline [0..<length (gc_replicas g)] said w of
        (Inr (target, line), w) \<Rightarrow> Some ((True, line, prefer_replica g target), w)
      | (Inl said, w) \<Rightarrow>
          let left = deadline - gc_now g w in
          if left \<le> 0 then Some ((False, said_text said, g), w)
          else ask_loop fuel P g request deadline said
                 (gc_sleep g w (if left < gc_pause_ms g then left else gc_pause_ms g)))"

definition ask_group ::
  "nat \<Rightarrow> platform \<Rightarrow> 'w GroupClient \<Rightarrow> string \<Rightarrow> 'w \<Rightarrow> ((bool \<times> string \<times> 'w GroupClient) \<times> 'w) option"
where
  "ask_group fuel P g request w =
     ask_loop fuel P g request (gc_now g w + gc_wait_ms g) (replicate (length (gc_replicas g)) []) w"

section \<open>What an answer is\<close>

lemma follow_answer:
  "follow P g request h target nt w = (Inr (t, line), w') \<Longrightarrow>
     \<not> starts_with ''REDIRECT '' line \<and> \<not> starts_with ''UNAVAILABLE'' line \<and>
     (\<exists>v. gc_exchange g v t request = ((Ok, line), w'))"
proof (induction P g request h target nt w rule: follow.induct)
  case (2 P g request h target nt w)
  obtain d l w1 where x: "gc_exchange g w target request = ((d, l), w1)" by (metis prod.exhaust)
  show ?case
  proof (cases "d = Ok \<and> starts_with ''REDIRECT '' l")
    case True
    then show ?thesis
      using 2 x by (auto simp: Let_def split: sum.splits list.splits)
  next
    case False
    then show ?thesis using 2(2) x by (auto split: if_splits)
  qed
qed simp

lemma ask_round_answer:
  "ask_round P g request deadline ks said w = (Inr (t, line), w') \<Longrightarrow>
     \<not> starts_with ''REDIRECT '' line \<and> \<not> starts_with ''UNAVAILABLE'' line \<and>
     (\<exists>v. gc_exchange g v t request = ((Ok, line), w'))"
proof (induction ks arbitrary: said w)
  case (Cons k ks)
  then show ?case by (auto simp: Let_def simp del: follow.simps split: prod.splits sum.splits if_splits dest!: follow_answer)
qed simp

lemma prefer_fold:
  "\<forall>i\<in>set is. i < length (gc_replicas g) \<Longrightarrow>
     (let g' = fold (\<lambda>i g. if gc_replicas g ! i = target then g\<lparr>gc_preferred := i\<rparr> else g) is g in
      gc_replicas g' = gc_replicas g \<and>
      (gc_preferred g' = gc_preferred g \<or> gc_preferred g' < length (gc_replicas g) \<and> gc_replicas g ! gc_preferred g' = target) \<and>
      (gc_preferred g' = gc_preferred g \<or> (\<exists>i\<in>set is. gc_replicas g ! i = target)))"
proof (induction "is" rule: rev_induct)
  case (snoc i js)
  then show ?case by (auto simp: Let_def)
qed simp

lemma prefer_replicas [simp]: "gc_replicas (prefer_replica g target) = gc_replicas g"
  using prefer_fold [of "[0..<length (gc_replicas g)]" g target] by (auto simp: prefer_replica_def Let_def)

lemma prefer_bound: "gc_preferred g < length (gc_replicas g) \<Longrightarrow> gc_preferred (prefer_replica g target) < length (gc_replicas g)"
  using prefer_fold [of "[0..<length (gc_replicas g)]" g target] by (auto simp: prefer_replica_def Let_def)

lemma ask_loop_answer:
  "ask_loop fuel P g request deadline said w = Some ((True, line, g'), w') \<Longrightarrow>
     \<not> starts_with ''REDIRECT '' line \<and> \<not> starts_with ''UNAVAILABLE'' line \<and>
     (\<exists>v t. gc_exchange g v t request = ((Ok, line), w') \<and> g' = prefer_replica g t)"
proof (induction fuel arbitrary: said w)
  case (Suc fuel)
  then show ?case by (auto simp: Let_def split: prod.splits sum.splits if_splits dest!: ask_round_answer)
qed simp

text \<open>
  An answer is an answer: when asking the group succeeds, the reply is a line some replica
  really returned for this request, never a redirect and never an UNAVAILABLE, and the client
  still starts its next request at one of its replicas.
\<close>

theorem ask_group_answer:
  assumes "ask_group fuel P g request w = Some ((True, line, g'), w')" "gc_preferred g < length (gc_replicas g)"
  shows "\<not> starts_with ''REDIRECT '' line \<and> \<not> starts_with ''UNAVAILABLE'' line \<and>
    (\<exists>v t. gc_exchange g v t request = ((Ok, line), w')) \<and>
    gc_replicas g' = gc_replicas g \<and> gc_preferred g' < length (gc_replicas g')"
  using ask_loop_answer [OF assms(1) [unfolded ask_group_def]] prefer_bound [OF assms(2)] by auto

section \<open>Giving up in time\<close>

text \<open>What the loop relies on: the clock does not run back, and a sleep takes at least as long as asked.\<close>

definition clock_ok :: "'w GroupClient \<Rightarrow> bool" where
  "clock_ok g \<longleftrightarrow>
     (\<forall>w t r. gc_now g w \<le> gc_now g (snd (gc_exchange g w t r))) \<and>
     (\<forall>w ms. gc_now g w + ms \<le> gc_now g (gc_sleep g w ms)) \<and> 1 \<le> gc_pause_ms g"

lemma follow_clock:
  "clock_ok g \<Longrightarrow> gc_now g w \<le> gc_now g (snd (follow P g request h target nt w))"
proof (induction P g request h target nt w rule: follow.induct)
  case (2 P g request h target nt w)
  obtain d l w1 where x: "gc_exchange g w target request = ((d, l), w1)" by (metis prod.exhaust)
  have le: "gc_now g w \<le> gc_now g w1" using 2(2) x by (metis clock_ok_def snd_conv)
  show ?case
    using 2 x le by (auto simp: Let_def split: sum.splits list.splits intro: order_trans)
qed simp

lemma ask_round_clock:
  "clock_ok g \<Longrightarrow> gc_now g w \<le> gc_now g (snd (ask_round P g request deadline ks said w))"
proof (induction ks arbitrary: said w)
  case (Cons k ks)
  let ?n = "length (gc_replicas g)" and ?first = "(gc_preferred g + k) mod length (gc_replicas g)"
  obtain r w1 where f: "follow P g request (Suc ?n) (gc_replicas g ! ?first) [] w = (r, w1)"
    by (cases "follow P g request (Suc ?n) (gc_replicas g ! ?first) [] w")
  have le: "gc_now g w \<le> gc_now g w1" using follow_clock [OF Cons.prems, of w P request "Suc ?n"] f by (metis snd_conv)
  show ?case
    using Cons.IH [OF Cons.prems] le f
    by (cases r) (auto simp: Let_def simp del: follow.simps intro: order_trans)
qed simp

lemma ask_loop_returns:
  assumes "clock_ok g" "deadline - gc_now g w < int fuel" "0 < fuel"
  shows "ask_loop fuel P g request deadline said w \<noteq> None"
  using assms(2,3)
proof (induction fuel arbitrary: said w)
  case (Suc fuel)
  obtain r w1 where r: "ask_round P g request deadline [0..<length (gc_replicas g)] said w = (r, w1)"
    by (cases "ask_round P g request deadline [0..<length (gc_replicas g)] said w")
  have le: "gc_now g w \<le> gc_now g w1" using ask_round_clock [OF assms(1), of w] r by (metis snd_conv)
  show ?case
  proof (cases r)
    case (Inr answer)
    then show ?thesis using r by (cases answer) simp
  next
    case (Inl said1)
    let ?left = "deadline - gc_now g w1"
    let ?ms = "if ?left < gc_pause_ms g then ?left else gc_pause_ms g"
    show ?thesis
    proof (cases "?left \<le> 0")
      case True
      then show ?thesis using r Inl by simp
    next
      case False
      have "gc_now g w1 + ?ms \<le> gc_now g (gc_sleep g w1 ?ms)" "1 \<le> ?ms"
        using assms(1) False by (auto simp: clock_ok_def)
      then have "deadline - gc_now g (gc_sleep g w1 ?ms) < int fuel" "0 < fuel"
        using Suc.prems(1) False le by linarith+
      then have "ask_loop fuel P g request deadline said1 (gc_sleep g w1 ?ms) \<noteq> None" by (rule Suc.IH)
      then show ?thesis using r Inl False by (simp add: Let_def)
    qed
  qed
qed simp

text \<open>
  C38. Asking the group ends: with a clock that does not run back and sleeps that take as long as
  asked, whatever the replicas answer, the client returns, after at most as many rounds as
  there are milliseconds to wait, and one more.
\<close>

theorem ask_group_returns:
  assumes "clock_ok g" "0 \<le> gc_wait_ms g" "nat (gc_wait_ms g) < fuel"
  shows "\<exists>result. ask_group fuel P g request w = Some result"
proof -
  have "gc_now g w + gc_wait_ms g - gc_now g w < int fuel" using assms(2,3) by linarith
  from ask_loop_returns [OF assms(1) this] assms(3) show ?thesis by (auto simp: ask_group_def)
qed

text \<open>A client whose world is its clock, with one replica that answers as given.\<close>

definition sample_client :: "Delivery \<Rightarrow> int GroupClient" where
  "sample_client d =
     \<lparr>gc_replicas = [\<lparr>a_ip = ''127.0.0.1'', a_port = 7000\<rparr>], gc_wait_ms = 3, gc_pause_ms = 2, gc_preferred = 0,
      gc_exchange = (\<lambda>w a r. ((d, ''PONG''), w + 1)), gc_now = (\<lambda>w. w), gc_sleep = (\<lambda>w ms. w + ms)\<rparr>"

theorem ask_group_answer_witness:
  "\<not> starts_with ''REDIRECT '' ''PONG'' \<and>
   (\<exists>v t. gc_exchange (sample_client Ok) v t ''PING'' = ((Ok, ''PONG''), 1))"
proof -
  have "ask_group 5 sample_platform (sample_client Ok) ''PING'' 0 =
      Some ((True, ''PONG'', prefer_replica (sample_client Ok) \<lparr>a_ip = ''127.0.0.1'', a_port = 7000\<rparr>), 1)"
    by (simp add: ask_group_def sample_client_def starts_with_def eval_nat_numeral)
  from ask_group_answer [OF this] show ?thesis by (simp add: sample_client_def)
qed

theorem ask_group_returns_witness:
  "\<exists>result. ask_group 5 sample_platform (sample_client Refused) ''PING'' 0 = Some result"
  using ask_group_returns [of "sample_client Refused" 5 sample_platform "''PING''" 0]
  by (simp add: sample_client_def clock_ok_def)

end
