(* ===== verification/Net.thy ===== *)
theory Net
  imports Chunk
begin

text \<open>
  \<^verbatim>\<open>src/net.h\<close> and \<^verbatim>\<open>src/net.cpp\<close>: lines and bodies over a byte stream. What the operating system does
  is an argument: how many bytes each \<^verbatim>\<open>send\<close> and \<^verbatim>\<open>recv\<close> moves, which calls are interrupted, what
  \<^verbatim>\<open>poll\<close> and the clock say. A run of system calls that stops before the function returns has the
  result \<open>None\<close>. \<^verbatim>\<open>connect_to\<close> and \<^verbatim>\<open>listen_on\<close> are system calls alone: their outcome is an argument.
\<close>

section \<open>Sending\<close>

datatype Errno = E_NONE | EAGAIN | ECONNRESET | EPIPE | EMSGSIZE | ECONNREFUSED | EINPROGRESS | ETIMEDOUT | E_OTHER

text \<open>One call of \<^verbatim>\<open>send\<close>: interrupted, some bytes accepted, or an error.\<close>

datatype SendStep = SendIntr | Accepted nat | SendError Errno

text \<open>
  The loop over short writes: the bytes that left, and whether that is all of them; \<^verbatim>\<open>errno\<close> after a
  failure. The calls left over belong to the next send.
\<close>

fun send_all :: "string \<Rightarrow> SendStep list \<Rightarrow> ((Errno + unit) \<times> string \<times> SendStep list) option" where
  "send_all [] steps = Some (Inr (), [], steps)"
| "send_all (c # cs) [] = None"
| "send_all (c # cs) (SendIntr # steps) = send_all (c # cs) steps"
| "send_all (c # cs) (SendError e # steps) = Some (Inl e, [], steps)"
| "send_all (c # cs) (Accepted n # steps) =
     (if n = 0 \<or> n > length (c # cs) then None
      else map_option (\<lambda>(r, out, rest). (r, take n (c # cs) @ out, rest)) (send_all (drop n (c # cs)) steps))"

definition is_eol :: "char \<Rightarrow> bool" where
  "is_eol c \<longleftrightarrow> c = CHR 0x0A \<or> c = CHR 0x0D"

text \<open>What \<^verbatim>\<open>send_line\<close> puts on the wire: one line, whatever ends of line the caller left in it.\<close>

definition line_bytes :: "string \<Rightarrow> string" where
  "line_bytes line = map (\<lambda>c. if is_eol c then CHR '' '' else c) (rev (dropWhile is_eol (rev line))) @ [CHR 0x0A]"

definition send_line :: "string \<Rightarrow> SendStep list \<Rightarrow> ((Errno + unit) \<times> string \<times> SendStep list) option" where
  "send_line line steps = send_all (line_bytes line) steps"

section \<open>Receiving\<close>

text \<open>
  What arrives on a connection: the bytes, then the close or the error that ends them. Each call of
  \<^verbatim>\<open>recv\<close> takes at least one byte of what is there, is interrupted, or fails, as does the wait before
  it when there is a deadline.
\<close>

record Inbound =
  in_bytes :: string
  in_end :: Errno

datatype RecvStep = RecvFailed Errno | RecvIntr | Took nat

text \<open>\<^verbatim>\<open>wait_readable\<close>: times are nanoseconds; each turn reads the clock, then polls.\<close>

datatype PollResult = PollReady | PollTimeout | PollIntr | PollError Errno

definition wait_ms :: "int \<Rightarrow> int \<Rightarrow> int" where
  "wait_ms deadline now = (let ns = deadline - now + 999000 in if ns \<ge> 0 then ns div 1000000 else - (- ns div 1000000))"

fun wait_readable :: "int \<Rightarrow> (int \<times> PollResult) list \<Rightarrow> (Errno + unit) option" where
  "wait_readable deadline [] = None"
| "wait_readable deadline ((now, p) # turns) =
     (if wait_ms deadline now \<le> 0 then Some (Inl EAGAIN)
      else case p of
        PollIntr \<Rightarrow> wait_readable deadline turns
      | PollError e \<Rightarrow> Some (Inl e)
      | PollReady \<Rightarrow> Some (Inr ())
      | PollTimeout \<Rightarrow> wait_readable deadline turns)"

text \<open>\<^verbatim>\<open>recv_line_impl\<close>: one byte per call; \<open>sofar\<close> is the line as read so far.\<close>

fun recv_line_loop :: "string \<Rightarrow> RecvStep list \<Rightarrow> Inbound \<Rightarrow> ((Errno + string) \<times> Inbound \<times> RecvStep list) option" where
  "recv_line_loop sofar [] s = None"
| "recv_line_loop sofar (RecvFailed e # steps) s = Some (Inl e, s, steps)"
| "recv_line_loop sofar (RecvIntr # steps) s = recv_line_loop sofar steps s"
| "recv_line_loop sofar (Took n # steps) s =
     (case in_bytes s of
        [] \<Rightarrow> Some (Inl (in_end s), s, steps)
      | c # cs \<Rightarrow>
          let s = s\<lparr>in_bytes := cs\<rparr> in
          if c = CHR 0x0A
          then Some (Inr (if sofar \<noteq> [] \<and> last sofar = CHR 0x0D then butlast sofar else sofar), s, steps)
          else if length sofar = MAX_LINE then Some (Inl EMSGSIZE, s, steps)
          else recv_line_loop (sofar @ [c]) steps s)"

definition recv_line :: "RecvStep list \<Rightarrow> Inbound \<Rightarrow> ((Errno + string) \<times> Inbound \<times> RecvStep list) option" where
  "recv_line steps s = recv_line_loop [] steps s"

text \<open>\<^verbatim>\<open>recv_exact_impl\<close>, with the count still missing, and \<^verbatim>\<open>recv_discard_impl\<close>, through a buffer of 4096 bytes.\<close>

definition taken :: "nat \<Rightarrow> nat \<Rightarrow> string \<Rightarrow> nat" where
  "taken k n bytes = min (max k 1) (min n (length bytes))"

fun recv_exact_loop :: "string \<Rightarrow> nat \<Rightarrow> RecvStep list \<Rightarrow> Inbound \<Rightarrow> ((Errno + string) \<times> Inbound \<times> RecvStep list) option" where
  "recv_exact_loop got 0 steps s = Some (Inr got, s, steps)"
| "recv_exact_loop got (Suc n) [] s = None"
| "recv_exact_loop got (Suc n) (RecvFailed e # steps) s = Some (Inl e, s, steps)"
| "recv_exact_loop got (Suc n) (RecvIntr # steps) s = recv_exact_loop got (Suc n) steps s"
| "recv_exact_loop got (Suc n) (Took k # steps) s =
     (if in_bytes s = [] then Some (Inl (in_end s), s, steps)
      else let r = taken k (Suc n) (in_bytes s) in
        recv_exact_loop (got @ take r (in_bytes s)) (Suc n - r) steps (s\<lparr>in_bytes := drop r (in_bytes s)\<rparr>))"

definition recv_exact :: "nat \<Rightarrow> RecvStep list \<Rightarrow> Inbound \<Rightarrow> ((Errno + string) \<times> Inbound \<times> RecvStep list) option" where
  "recv_exact n steps s = recv_exact_loop [] n steps s"

fun recv_discard :: "nat \<Rightarrow> RecvStep list \<Rightarrow> Inbound \<Rightarrow> ((Errno + unit) \<times> Inbound \<times> RecvStep list) option" where
  "recv_discard 0 steps s = Some (Inr (), s, steps)"
| "recv_discard (Suc n) [] s = None"
| "recv_discard (Suc n) (RecvFailed e # steps) s = Some (Inl e, s, steps)"
| "recv_discard (Suc n) (RecvIntr # steps) s = recv_discard (Suc n) steps s"
| "recv_discard (Suc n) (Took k # steps) s =
     (if in_bytes s = [] then Some (Inl (in_end s), s, steps)
      else let r = taken k (min (Suc n) 4096) (in_bytes s) in
        recv_discard (Suc n - r) steps (s\<lparr>in_bytes := drop r (in_bytes s)\<rparr>))"

section \<open>Request ids and announced bodies\<close>

datatype RidPrefix = RidNone string | RidPresent string string | RidMalformed

definition split_request_id :: "string \<Rightarrow> RidPrefix" where
  "split_request_id line =
     (if \<not> starts_with ''RID '' line then RidNone line
      else if length line < 4 + 16 + 1 + 1 \<or> line ! (4 + 16) \<noteq> CHR '' '' then RidMalformed
      else if \<not> list_all is_lower_hex (take 16 (drop 4 line)) then RidMalformed
      else RidPresent (take 16 (drop 4 line)) (drop (4 + 16 + 1) line))"

definition valid_request_id :: "string \<Rightarrow> bool" where
  "valid_request_id i \<longleftrightarrow> length i = 16 \<and> list_all is_lower_hex i"

text \<open>\<open>current\<close>: the id of the request this thread works for, or the process's own, or empty.\<close>

definition with_request_id :: "string \<Rightarrow> string \<Rightarrow> string" where
  "with_request_id current line = (if current = [] then line else ''RID '' @ current @ '' '' @ line)"

definition MAX_BODY :: nat where
  "MAX_BODY = 512 * 1024"

datatype Body = BodyNone | BodyPresent nat | BodyMalformed | BodyTooLarge

definition last_word :: "string \<Rightarrow> string" where
  "last_word line = rev (takeWhile (\<lambda>c. c \<noteq> CHR '' '') (rev line))"

definition body_length :: "string \<Rightarrow> Body" where
  "body_length whole =
     (let line = (case split_request_id whole of RidPresent _ rest \<Rightarrow> rest | _ \<Rightarrow> whole);
          verb = takeWhile (\<lambda>c. c \<noteq> CHR '' '') line
      in if verb \<notin> {''PUT'', ''STORE'', ''CHUNK'', ''APPEND''} then BodyNone
         else if CHR '' '' \<notin> set line then BodyMalformed
         else let word = last_word line in
           if word = [] \<or> length word > 7 then BodyMalformed
           else if length word > 1 \<and> hd word = CHR ''0'' then BodyMalformed
           else case digits_from 0 word of
             None \<Rightarrow> BodyMalformed
           | Some v \<Rightarrow> if v > MAX_BODY then BodyTooLarge else BodyPresent v)"

section \<open>One exchange\<close>

definition classify_io_error :: "Errno \<Rightarrow> Delivery" where
  "classify_io_error e =
     (if e = EAGAIN then Timeout else if e = E_NONE \<or> e = ECONNRESET \<or> e = EPIPE then Closed else Failed)"

definition connect_failure :: "Errno \<Rightarrow> Delivery" where
  "connect_failure e =
     (if e = ECONNREFUSED then Refused else if e = EINPROGRESS \<or> e = EAGAIN \<or> e = ETIMEDOUT then Timeout else Failed)"

text \<open>What the network does during an exchange: the connect, the calls, and the peer's answer.\<close>

record Exchange =
  ex_connect :: "Errno option"
  ex_sends :: "SendStep list"
  ex_recvs :: "RecvStep list"
  ex_reply :: Inbound

text \<open>The request line and then its body, as the wire carries them.\<close>

definition send_frame :: "string \<Rightarrow> string \<Rightarrow> SendStep list \<Rightarrow> ((Errno + unit) \<times> string) option" where
  "send_frame line body steps =
     (case send_line line steps of
        None \<Rightarrow> None
      | Some (Inl e, out, _) \<Rightarrow> Some (Inl e, out)
      | Some (Inr _, out, steps) \<Rightarrow> map_option (\<lambda>(r, out', _). (r, out @ out')) (send_all body steps))"

text \<open>A reply line, and the body it announces.\<close>

definition recv_frame :: "RecvStep list \<Rightarrow> Inbound \<Rightarrow> (Delivery \<times> string \<times> string) option" where
  "recv_frame steps s =
     (case recv_line steps s of
        None \<Rightarrow> None
      | Some (Inl e, _) \<Rightarrow> Some (classify_io_error e, [], [])
      | Some (Inr reply, s, steps) \<Rightarrow>
          (case body_length reply of
             BodyMalformed \<Rightarrow> Some (Failed, [], [])
           | BodyTooLarge \<Rightarrow> Some (Failed, [], [])
           | BodyNone \<Rightarrow> Some (Ok, reply, [])
           | BodyPresent n \<Rightarrow>
               (case recv_exact n steps s of
                  None \<Rightarrow> None
                | Some (Inl e, _) \<Rightarrow> Some (classify_io_error e, [], [])
                | Some (Inr body, _) \<Rightarrow> Some (Ok, reply, body))))"

text \<open>The result, and the bytes that were sent.\<close>

definition exchange_frame :: "string \<Rightarrow> string \<Rightarrow> Exchange \<Rightarrow> ((Delivery \<times> string \<times> string) \<times> string) option" where
  "exchange_frame line body x =
     (if (case body_length line of BodyPresent n \<Rightarrow> n \<noteq> length body | BodyMalformed \<Rightarrow> True | BodyTooLarge \<Rightarrow> True | BodyNone \<Rightarrow> body \<noteq> [])
      then Some ((Failed, [], []), [])
      else case ex_connect x of
        Some e \<Rightarrow> Some ((connect_failure e, [], []), [])
      | None \<Rightarrow>
          (case send_frame line body (ex_sends x) of
             None \<Rightarrow> None
           | Some (Inl e, out) \<Rightarrow> Some ((classify_io_error e, [], []), out)
           | Some (Inr _, out) \<Rightarrow> map_option (\<lambda>r. (r, out)) (recv_frame (ex_recvs x) (ex_reply x))))"

definition exchange_line :: "string \<Rightarrow> Exchange \<Rightarrow> ((Delivery \<times> string) \<times> string) option" where
  "exchange_line request x =
     (case ex_connect x of
        Some e \<Rightarrow> Some ((connect_failure e, []), [])
      | None \<Rightarrow>
          (case send_line request (ex_sends x) of
             None \<Rightarrow> None
           | Some (Inl e, out, _) \<Rightarrow> Some ((classify_io_error e, []), out)
           | Some (Inr _, out, _) \<Rightarrow>
               (case recv_line (ex_recvs x) (ex_reply x) of
                  None \<Rightarrow> None
                | Some (Inl e, _) \<Rightarrow> Some ((classify_io_error e, []), out)
                | Some (Inr reply, _) \<Rightarrow> Some ((Ok, reply), out))))"

end
