(* ===== verification/Gc.thy ===== *)
theory Gc
  imports Collect_Props Group Net
begin

text \<open>
  The collector's program, \<^verbatim>\<open>src/gc_main.cpp\<close>: its command line, its key file, and the collection
  run over the tracker group, the ring and the node processes. The network's exchanges and the
  clock are arguments; the request id prefix, the log and the printed summary are left out.
\<close>

section \<open>The command line\<close>

fun parse_list_loop :: "platform \<Rightarrow> Peer list \<Rightarrow> string list \<Rightarrow> Peer list option" where
  "parse_list_loop P out [] = Some out"
| "parse_list_loop P out (item # items) =
     (case (if item = [] then Inl [] else parse_members P item) of
        Inr [one] \<Rightarrow> parse_list_loop P (out @ [one]) items
      | _ \<Rightarrow> None)"

text \<open>Items are added to those of an earlier list.\<close>

definition parse_list :: "platform \<Rightarrow> string \<Rightarrow> Peer list \<Rightarrow> Peer list option" where
  "parse_list P s out =
     (case parse_list_loop P out (getlines (CHR '','') s) of
        None \<Rightarrow> None
      | Some out \<Rightarrow> if out = [] then None else Some out)"

definition parse_seconds :: "string \<Rightarrow> nat option" where
  "parse_seconds s = (if s = [] \<or> length s > 7 then None else digits_from 0 s)"

text \<open>A key file's text, \<open>None\<close> if it cannot be opened.\<close>

definition read_key :: "string option \<Rightarrow> string option" where
  "read_key f =
     (case f of
        None \<Rightarrow> None
      | Some content \<Rightarrow>
          if content = [] then None
          else let line = takeWhile (\<lambda>c. c \<noteq> CHR 0x0A) content;
                   key = rev (dropWhile (\<lambda>c. c = CHR 0x0D \<or> c = CHR '' '') (rev line))
               in if valid_secret key then Some key else None)"

record GcArgs =
  ga_replicas :: "Address list"
  ga_have_tracker :: bool
  ga_wait_ms :: nat
  ga_seeds :: "Peer list"
  ga_key_file :: string
  ga_request_id :: string
  ga_log_path :: string
  ga_quiet :: bool
  ga_dry_run :: bool
  ga_deadline_s :: nat
  ga_upload_limit_s :: nat

definition gc_defaults :: GcArgs where
  "gc_defaults = \<lparr>ga_replicas = [], ga_have_tracker = False, ga_wait_ms = 10000, ga_seeds = [], ga_key_file = [], ga_request_id = [],
     ga_log_path = [], ga_quiet = False, ga_dry_run = False, ga_deadline_s = 1800, ga_upload_limit_s = 3600\<rparr>"

text \<open>An option that takes a value, with it.\<close>

definition gc_option :: "platform \<Rightarrow> string \<Rightarrow> string \<Rightarrow> GcArgs \<Rightarrow> GcArgs option" where
  "gc_option P a v g =
     (if a = ''--tracker'' then
        (case parse_address_list P v of Inl _ \<Rightarrow> None | Inr rs \<Rightarrow> Some (g\<lparr>ga_replicas := rs, ga_have_tracker := True\<rparr>))
      else if a = ''--ring'' then map_option (\<lambda>ps. g\<lparr>ga_seeds := ps\<rparr>) (parse_list P v (ga_seeds g))
      else if a = ''--gc-key'' then Some (g\<lparr>ga_key_file := v\<rparr>)
      else if a = ''--deadline'' then map_option (\<lambda>n. g\<lparr>ga_deadline_s := n\<rparr>) (parse_seconds v)
      else if a = ''--assume-upload-limit'' then map_option (\<lambda>n. g\<lparr>ga_upload_limit_s := n\<rparr>) (parse_seconds v)
      else if a = ''--tracker-wait'' then map_option (\<lambda>n. g\<lparr>ga_wait_ms := n\<rparr>) (parse_seconds v)
      else if a = ''--request-id'' then (if valid_request_id v then Some (g\<lparr>ga_request_id := v\<rparr>) else None)
      else if a = ''--log'' then Some (g\<lparr>ga_log_path := v\<rparr>)
      else None)"

fun gc_args :: "platform \<Rightarrow> string list \<Rightarrow> GcArgs \<Rightarrow> GcArgs option" where
  "gc_args P [] g = Some g"
| "gc_args P [a] g =
     (if a = ''--dry-run'' then Some (g\<lparr>ga_dry_run := True\<rparr>) else if a = ''--quiet'' then Some (g\<lparr>ga_quiet := True\<rparr>) else None)"
| "gc_args P (a # v # rest) g =
     (if a = ''--dry-run'' then gc_args P (v # rest) (g\<lparr>ga_dry_run := True\<rparr>)
      else if a = ''--quiet'' then gc_args P (v # rest) (g\<lparr>ga_quiet := True\<rparr>)
      else case gc_option P a v g of None \<Rightarrow> None | Some g \<Rightarrow> gc_args P rest g)"

definition gc_settings :: "(string \<Rightarrow> string option) \<Rightarrow> GcArgs \<Rightarrow> CollectSettings option" where
  "gc_settings files g =
     (if \<not> ga_have_tracker g \<or> ga_seeds g = [] \<or> ga_key_file g = [] then None
      else map_option (\<lambda>key. \<lparr>se_gc_key = key, se_dry_run = ga_dry_run g, se_deadline_s = real (ga_deadline_s g),
             se_upload_limit_s = real (ga_upload_limit_s g), se_tracker_wait_s = real (ga_wait_ms g) / 1000\<rparr>)
           (read_key (files (ga_key_file g))))"

section \<open>The real network\<close>

text \<open>
  The collection's world is the network's, with the replica the group client prefers beside it:
  nothing else of the client changes. \<open>fuel\<close> bounds the rounds of one request to the group.
\<close>

type_synonym 'w gc_world = "'w \<times> nat"

definition gc_entries ::
  "platform \<Rightarrow> nat \<Rightarrow> 'w GroupClient \<Rightarrow> 'w gc_world \<Rightarrow> string \<Rightarrow> (string + (string \<times> string) list) \<times> 'w gc_world"
where
  "gc_entries P fuel tracker wn after =
     (case wn of (w, preferred) \<Rightarrow>
      (case ask_group fuel P (tracker\<lparr>gc_preferred := preferred\<rparr>) (if after = [] then ''ENTRIES'' else ''ENTRIES '' @ after) w of
         None \<Rightarrow> (Inl [], (w, preferred))
       | Some ((ok, reply, g), w) \<Rightarrow>
           (if \<not> ok then Inl reply
            else case parse_entries_reply reply of
              None \<Rightarrow> Inl (''the tracker answered: '' @ take 100 reply)
            | Some pg \<Rightarrow> Inr pg, (w, gc_preferred g))))"

text \<open>The next seed only if a lookup could not start.\<close>

fun gc_get :: "platform \<Rightarrow> 'w transport \<Rightarrow> 'w frame_transport \<Rightarrow> Peer list \<Rightarrow> string \<Rightarrow> GetOutcome \<Rightarrow> 'w \<Rightarrow> GetOutcome \<times> 'w" where
  "gc_get P route frames [] key g w = (g, w)"
| "gc_get P route frames (seed # seeds) key g w =
     (case get_chunk P route frames seed key 2 w of
        (g, w) \<Rightarrow>
          if go_ok g \<or> \<not> starts_with ''lookup failed'' (go_message g) then (g, w)
          else gc_get P route frames seeds key g w)"

fun gc_nodes ::
  "platform \<Rightarrow> 'w transport \<Rightarrow> nat \<Rightarrow> Peer list \<Rightarrow> Peer list \<times> string option \<Rightarrow> 'w \<Rightarrow> (Peer list \<times> string option) \<times> 'w"
where
  "gc_nodes P route max_steps [] r w = (r, w)"
| "gc_nodes P route max_steps (seed # seeds) r w =
     (case walk_ring P seed route max_steps w of
        ((ps, None), w) \<Rightarrow> ((ps, None), w)
      | ((ps, Some why), w) \<Rightarrow> gc_nodes P route max_steps seeds (ps, Some why) w)"

definition no_chunk :: GetOutcome where
  "no_chunk = \<lparr>go_ok = False, go_body = [], go_message = [], go_served_by = empty_peer, go_tried = []\<rparr>"

definition gc_io ::
  "platform \<Rightarrow> nat \<Rightarrow> 'w GroupClient \<Rightarrow> 'w transport \<Rightarrow> 'w frame_transport \<Rightarrow> 'w transport \<Rightarrow> ('w \<Rightarrow> real \<times> 'w) \<Rightarrow> Peer list \<Rightarrow>
   'w gc_world CollectIO"
where
  "gc_io P fuel tracker route frames ask clock seeds =
     \<lparr>io_entries = gc_entries P fuel tracker,
      io_get = (\<lambda>(w, n) key. case gc_get P route frames seeds key no_chunk w of (out, w) \<Rightarrow> (out, (w, n))),
      io_nodes = (\<lambda>(w, n). case gc_nodes P route 100000 seeds ([], Some []) w of (r, w) \<Rightarrow> (r, (w, n))),
      io_ask = (\<lambda>(w, n) p line. case ask w p line of (r, w) \<Rightarrow> (r, (w, n))),
      io_now = (\<lambda>(w, n). case clock w of (t, w) \<Rightarrow> (t, (w, n)))\<rparr>"

text \<open>The exit status, and the world afterwards. \<open>tracker\<close> is the group client before the options are read.\<close>

definition gc_main ::
  "platform \<Rightarrow> nat \<Rightarrow> 'w GroupClient \<Rightarrow> 'w transport \<Rightarrow> 'w frame_transport \<Rightarrow> 'w transport \<Rightarrow> ('w \<Rightarrow> real \<times> 'w) \<Rightarrow> bool \<Rightarrow>
   (string \<Rightarrow> string option) \<Rightarrow> string list \<Rightarrow> 'w \<Rightarrow> (nat \<times> 'w) option"
where
  "gc_main P fuel tracker route frames ask clock log_opens files args w =
     (case gc_args P args gc_defaults of
        None \<Rightarrow> Some (2, w)
      | Some g \<Rightarrow>
          (case gc_settings files g of
             None \<Rightarrow> Some (2, w)
           | Some s \<Rightarrow>
               if ga_log_path g \<noteq> [] \<and> \<not> log_opens then Some (2, w)
               else let tracker = tracker\<lparr>gc_replicas := ga_replicas g, gc_wait_ms := int (ga_wait_ms g)\<rparr> in
                 map_option (\<lambda>(rep, w, _). (if cl_ok rep then 0 else 1, w))
                   (collect (gc_io P fuel tracker route frames ask clock (ga_seeds g)) s (w, gc_preferred tracker))))"

section \<open>The wiring keeps the collector's contract\<close>

context kept_by_routing
begin

lemma R_walk_steps: "walk_steps P route start max_steps n current ps w = (r, w') \<Longrightarrow> R w w'"
proof (induction n arbitrary: current ps w)
  case (Suc n)
  obtain d line w1 where c: "route w current ''NEIGHBOURS'' = ((d, line), w1)" by (metis surj_pair)
  have "w1 = w' \<or> R w1 w'"
    using Suc.prems c by (auto simp: Let_def split: if_splits option.splits dest: Suc.IH)
  then show ?case using R_routed [OF c] R_trans by blast
qed (simp add: R_refl)

lemma R_gc_nodes: "gc_nodes P route max_steps seeds r w = (r', w') \<Longrightarrow> R w w'"
proof (induction seeds arbitrary: r w)
  case (Cons seed seeds)
  obtain ps why w1 where s: "walk_ring P seed route max_steps w = ((ps, why), w1)" by (metis surj_pair)
  have "R w w1" using s unfolding walk_ring_def by (rule R_walk_steps)
  then show ?case using Cons s R_trans by (cases why) auto
qed (simp add: R_refl)

end

context kept_by_chunk_reads
begin

lemma R_gc_get: "gc_get P route send seeds key g w = (g', w') \<Longrightarrow> R w w'"
proof (induction seeds arbitrary: g w)
  case (Cons seed seeds)
  obtain g1 w1 where s: "get_chunk P route send seed key 2 w = (g1, w1)" by (metis surj_pair)
  then show ?case using Cons R_get_chunk [OF s] R_trans by (auto split: if_splits)
qed (simp add: R_refl)

end

text \<open>A group client whose exchanges and sleeps keep a relation keeps it when it asks.\<close>

locale kept_by_group =
  fixes R :: "'w \<Rightarrow> 'w \<Rightarrow> bool" and exchange :: "'w \<Rightarrow> Address \<Rightarrow> string \<Rightarrow> (Delivery \<times> string) \<times> 'w" and pause :: "'w \<Rightarrow> Millis \<Rightarrow> 'w"
  assumes R_refl: "R w w" and R_trans: "R w1 w2 \<Longrightarrow> R w2 w3 \<Longrightarrow> R w1 w3"
    and R_exchange: "R w (snd (exchange w a request))" and R_pause: "R w (pause w ms)"
begin

lemma R_follow: "gc_exchange g = exchange \<Longrightarrow> follow P g request h target nt w = (r, w') \<Longrightarrow> R w w'"
proof (induction h arbitrary: target nt w)
  case (Suc h)
  obtain d line w1 where c: "exchange w target request = ((d, line), w1)" by (metis surj_pair)
  have "w1 = w' \<or> R w1 w'"
    using Suc.prems c by (auto simp: Let_def split: if_splits sum.splits list.splits dest: Suc.IH [OF Suc.prems(1)])
  then show ?case using R_exchange [of w target request] c R_trans by auto
qed (simp add: R_refl)

lemma R_ask_round: "gc_exchange g = exchange \<Longrightarrow> ask_round P g request deadline ks said w = (r, w') \<Longrightarrow> R w w'"
proof (induction ks arbitrary: said w)
  case (Cons k ks)
  let ?target = "gc_replicas g ! ((gc_preferred g + k) mod length (gc_replicas g))"
  obtain f w1 where f: "follow P g request (Suc (length (gc_replicas g))) ?target [] w = (f, w1)" by (metis surj_pair)
  have "w1 = w' \<or> R w1 w'"
    using Cons.prems(2) f by (auto simp: Let_def split: if_splits sum.splits dest: Cons.IH [OF Cons.prems(1)] simp del: follow.simps)
  then show ?case using R_follow [OF Cons.prems(1) f] R_trans by blast
qed (simp add: R_refl)

lemma R_ask_loop:
  "gc_exchange g = exchange \<Longrightarrow> gc_sleep g = pause \<Longrightarrow> ask_loop fuel P g request deadline said w = Some (r, w') \<Longrightarrow> R w w'"
proof (induction fuel arbitrary: said w)
  case (Suc fuel)
  obtain f w1 where f: "ask_round P g request deadline [0..<length (gc_replicas g)] said w = (f, w1)" by (metis surj_pair)
  have R1: "R w w1" using R_ask_round [OF Suc.prems(1) f] .
  show ?case
  proof (cases f)
    case (Inl said')
    let ?left = "deadline - gc_now g w1"
    show ?thesis
    proof (cases "?left \<le> 0")
      case True
      then show ?thesis using Suc.prems(3) f Inl R1 by (simp add: Let_def)
    next
      case False
      then have "ask_loop fuel P g request deadline said' (gc_sleep g w1 (if ?left < gc_pause_ms g then ?left else gc_pause_ms g)) = Some (r, w')"
        using Suc.prems(3) f Inl by (simp add: Let_def)
      from Suc.IH [OF Suc.prems(1,2) this] show ?thesis using R1 R_pause R_trans Suc.prems(2) by metis
    qed
  next
    case (Inr answer)
    then show ?thesis using Suc.prems(3) f R1 by (cases answer) simp
  qed
qed simp

lemma R_gc_entries:
  assumes "gc_exchange tracker = exchange" "gc_sleep tracker = pause"
  shows "R (fst wn) (fst (snd (gc_entries P fuel tracker wn after)))"
proof -
  obtain w preferred where wn: "wn = (w, preferred)" by (cases wn)
  let ?line = "if after = [] then ''ENTRIES'' else ''ENTRIES '' @ after"
  show ?thesis
  proof (cases "ask_group fuel P (tracker\<lparr>gc_preferred := preferred\<rparr>) ?line w")
    case None
    then show ?thesis by (simp add: gc_entries_def wn R_refl)
  next
    case (Some a)
    obtain ok reply g w' where a: "a = ((ok, reply, g), w')" by (metis surj_pair)
    have "R w w'"
      by (rule R_ask_loop [OF _ _ Some [unfolded a ask_group_def]]) (simp_all add: assms)
    then show ?thesis using Some a by (simp add: gc_entries_def wn)
  qed
qed

end

text \<open>The collection as the program wires it reads only through calls that lose no chunk.\<close>

lemma gc_io_contract:
  assumes reads: "kept_by_chunk_reads (loses_nothing procs) route frames"
    and group: "kept_by_group (loses_nothing procs) (gc_exchange tracker) (gc_sleep tracker)"
    and clock: "\<And>w. loses_nothing procs w (snd (clock w))"
    and ask: "\<And>w p line. procs (snd (ask w p line)) = procs w \<or> (\<exists>ios body. procs (snd (ask w p line)) = snd (chunk_net P ios (procs w) p line body))"
  shows "asks_processes P (\<lambda>wn. procs (fst wn)) (gc_io P fuel tracker route frames ask clock seeds)"
    and "reads_only (\<lambda>wn. procs (fst wn)) (gc_io P fuel tracker route frames ask clock seeds)"
proof -
  show "asks_processes P (\<lambda>wn. procs (fst wn)) (gc_io P fuel tracker route frames ask clock seeds)"
    using ask by (simp add: asks_processes_def gc_io_def split_def)
  have "loses_nothing (\<lambda>wn. procs (fst wn)) wn (snd (gc_entries P fuel tracker wn after))" for wn after
    using kept_by_group.R_gc_entries [OF group refl refl] by (simp add: loses_nothing_def)
  moreover have "loses_nothing procs w (snd (gc_get P route frames seeds key g w))" for key g w
    using kept_by_chunk_reads.R_gc_get [OF reads] by (metis prod.collapse)
  moreover have "loses_nothing procs w (snd (gc_nodes P route n seeds r w))" for n r w
    using kept_by_routing.R_gc_nodes [OF kept_by_chunk_reads.axioms(1) [OF reads]] by (metis prod.collapse)
  ultimately show "reads_only (\<lambda>wn. procs (fst wn)) (gc_io P fuel tracker route frames ask clock seeds)"
    using clock by (simp add: reads_only_def gc_io_def split_def loses_nothing_def)
qed

section \<open>The whole system\<close>

text \<open>
  The tracker, the ring and the node processes in one world. A ring request goes to the member it
  is for, a frame to the process it is for, a tracker request to the tracker.
\<close>

type_synonym 't system_world = "'t \<times> ring_world node_world \<times> process_world"

abbreviation processes :: "'t system_world \<Rightarrow> process_world" where
  "processes s \<equiv> snd (snd s)"

definition on_ring :: "platform \<Rightarrow> Peer list \<Rightarrow> 't system_world transport" where
  "on_ring P ms = (\<lambda>(t, N, W) p line. case ring_net P ms N p line of (r, N) \<Rightarrow> (r, (t, N, W)))"

definition on_chunks :: "platform \<Rightarrow> (string \<times> nat \<Rightarrow> ChunkIo) \<Rightarrow> 't system_world frame_transport" where
  "on_chunks P ios = (\<lambda>(t, N, W) p line body. case chunk_net P ios W p line body of (r, W) \<Rightarrow> (r, (t, N, W)))"

definition chunk_line :: "platform \<Rightarrow> (string \<times> nat \<Rightarrow> ChunkIo) \<Rightarrow> 't system_world transport" where
  "chunk_line P ios w p line = (case on_chunks P ios w p line [] of ((d, ans), w) \<Rightarrow> ((d, fr_line ans), w))"

definition on_tracker ::
  "('t \<Rightarrow> Address \<Rightarrow> string \<Rightarrow> (Delivery \<times> string) \<times> 't) \<Rightarrow> 't system_world \<Rightarrow> Address \<Rightarrow> string \<Rightarrow> (Delivery \<times> string) \<times> 't system_world"
where
  "on_tracker serve = (\<lambda>(t, rest) a line. case serve t a line of (r, t) \<Rightarrow> (r, (t, rest)))"

lemma get_line_loses_nothing: "loses_nothing processes w (snd (on_chunks P ios w p (''GET '' @ key) []))"
proof -
  obtain t N W where w: "w = (t, N, W)" by (cases w) auto
  obtain d ans W' where net: "chunk_net P ios W p (''GET '' @ key) [] = ((d, ans), W')" by (metis surj_pair)
  have g: "CHR '' '' \<notin> set ''GET''" "''GET '' @ key = ''GET'' @ CHR '' '' # key" by simp_all
  then have "hd (split_single_spaces (''GET '' @ key)) = ''GET''" by (simp only: split_words_append [OF g(1)] list.sel)
  then have "world_holds k W \<subseteq> world_holds k W'" for k using net_removes [OF net] by fastforce
  then show ?thesis by (simp only: loses_nothing_def on_chunks_def w net prod.case fst_conv snd_conv) simp
qed

interpretation system: kept_by_chunk_reads "loses_nothing processes" "on_ring P ms" "on_chunks P ios" for P ms ios
proof
  show "loses_nothing processes w w" for w :: "'t system_world" by (rule loses_nothing_refl)
  show "loses_nothing processes w1 w2 \<Longrightarrow> loses_nothing processes w2 w3 \<Longrightarrow> loses_nothing processes w1 w3" for w1 w2 w3 :: "'t system_world"
    by (rule loses_nothing_trans)
  show "loses_nothing processes w (snd (on_ring P ms w p line))" for w :: "'t system_world" and p line
    by (cases w) (simp add: loses_nothing_def on_ring_def split_def)
  show "loses_nothing processes w (snd (on_chunks P ios w p (''GET '' @ key) []))" for w :: "'t system_world" and p key
    by (rule get_line_loses_nothing)
qed

interpretation system_group: kept_by_group "loses_nothing processes" "on_tracker serve" "\<lambda>w ms. w" for serve :: "'t \<Rightarrow> Address \<Rightarrow> string \<Rightarrow> (Delivery \<times> string) \<times> 't"
proof
  show "loses_nothing processes w1 w2 \<Longrightarrow> loses_nothing processes w2 w3 \<Longrightarrow> loses_nothing processes w1 w3" for w1 w2 w3 :: "'t system_world"
    by (rule loses_nothing_trans)
  show "loses_nothing processes w (snd (on_tracker serve w a request))" for w :: "'t system_world" and a request
    by (cases w) (simp add: loses_nothing_def on_tracker_def split_def)
qed simp_all

lemma read_key_no_space:
  assumes "read_key f = Some key"
  shows "CHR '' '' \<notin> set key"
proof -
  have "valid_secret key" using assms by (auto simp: read_key_def Let_def split: option.splits if_splits)
  then have "\<forall>c\<in>set key. is_lower_hex c" by (simp add: valid_secret_def list_all_iff)
  then show ?thesis using is_lower_hex_not_sep(1) by blast
qed

text \<open>
  C37. A collector run that does not succeed has dropped nothing: when the program ends with a status
  other than 0, because of its arguments, its key file, its log, the tracker or an unreadable tree,
  every process still holds every chunk it held.
\<close>

theorem failed_gc_drops_nothing:
  fixes serve :: "'t \<Rightarrow> Address \<Rightarrow> string \<Rightarrow> (Delivery \<times> string) \<times> 't"
  assumes "gc_exchange tracker = on_tracker serve" "gc_sleep tracker = (\<lambda>w ms. w)" "\<And>w. snd (clock w) = w"
    and "gc_main P fuel tracker (on_ring P ms) (on_chunks P ios) (chunk_line P ios) clock log_opens files args w = Some (status, w')"
    and "status \<noteq> 0"
  shows "loses_nothing processes w w'"
proof (cases "gc_args P args gc_defaults")
  case None
  then show ?thesis using assms(4) by (simp add: gc_main_def)
next
  case (Some g)
  show ?thesis
  proof (cases "gc_settings files g = None \<or> ga_log_path g \<noteq> [] \<and> \<not> log_opens")
    case True
    then show ?thesis using assms(4) Some by (auto simp: gc_main_def split: option.splits)
  next
    case False
    then obtain s where s: "gc_settings files g = Some s" by auto
    let ?tracker = "tracker\<lparr>gc_replicas := ga_replicas g, gc_wait_ms := int (ga_wait_ms g)\<rparr>"
    let ?io = "gc_io P fuel ?tracker (on_ring P ms) (on_chunks P ios) (chunk_line P ios) clock (ga_seeds g)"
    obtain rep n where c: "collect ?io s (w, gc_preferred ?tracker) = Some (rep, w', n)" and bad: "\<not> cl_ok rep"
      using assms(4,5) Some s False by (auto simp: gc_main_def Let_def split: if_splits)
    have key: "CHR '' '' \<notin> set (se_gc_key s)"
      using s read_key_no_space by (auto simp: gc_settings_def split: if_splits)
    have "processes (snd (chunk_line P ios v p line)) = snd (chunk_net P ios (processes v) p line [])" for v p line
      by (cases v) (simp add: chunk_line_def on_chunks_def split_def)
    then have asked: "processes (snd (chunk_line P ios v p line)) = processes v \<or>
        (\<exists>ios' body. processes (snd (chunk_line P ios v p line)) = snd (chunk_net P ios' (processes v) p line body))" for v p line by blast
    have group: "kept_by_group (loses_nothing processes) (gc_exchange ?tracker) (gc_sleep ?tracker)"
      using system_group.kept_by_group_axioms assms(1,2) by simp
    have clock: "loses_nothing processes v (snd (clock v))" for v using assms(3) by simp
    note contract = gc_io_contract [OF system.kept_by_chunk_reads_axioms group clock asked]
    from collect_keeps [OF contract key c] bad show ?thesis by (simp add: loses_nothing_def)
  qed
qed

definition silent_tracker :: "unit system_world GroupClient" where
  "silent_tracker = \<lparr>gc_replicas = [], gc_wait_ms = 10000, gc_pause_ms = 100, gc_preferred = 0,
     gc_exchange = on_tracker (\<lambda>t a line. ((Refused, []), t)), gc_now = (\<lambda>w. 0), gc_sleep = (\<lambda>w ms. w)\<rparr>"

text \<open>A run without a tracker address, beside a process that holds a chunk.\<close>

theorem failed_gc_drops_nothing_witness:
  "\<exists>w'. gc_main tail_platform 1 silent_tracker (on_ring tail_platform []) (on_chunks tail_platform (\<lambda>_. sample_io))
       (chunk_line tail_platform (\<lambda>_. sample_io)) (\<lambda>w. (0, w)) True (\<lambda>_. None) [''--dry-run''] ((), (Map.empty, node_init (sample_peer 3 9001) 8), piece_world) =
       Some (2, w') \<and>
     process (sample_peer 3 9001) \<in> world_holds sample_piece (processes w')"
proof -
  let ?w = "((), (Map.empty, node_init (sample_peer 3 9001) 8), piece_world)"
  have g: "gc_main tail_platform 1 silent_tracker (on_ring tail_platform []) (on_chunks tail_platform (\<lambda>_. sample_io))
       (chunk_line tail_platform (\<lambda>_. sample_io)) (\<lambda>w. (0, w)) True (\<lambda>_. None) [''--dry-run''] ?w = Some (2, ?w)"
    by (simp add: gc_main_def gc_defaults_def gc_settings_def)
  have "loses_nothing processes ?w ?w"
    by (rule failed_gc_drops_nothing [OF _ _ _ g]) (simp_all add: silent_tracker_def)
  moreover have "process (sample_peer 3 9001) \<in> world_holds sample_piece piece_world"
    by (simp add: world_holds_def piece_world_def piece_process_def node_holds_def store_has_def)
  ultimately show ?thesis using g by (auto simp: loses_nothing_def)
qed

end
