(* ===== verification/Net_Props.thy ===== *)
theory Net_Props
  imports Net
begin

text \<open>
  Framing: a line and its body arrive as they were sent, whatever the sizes of the pieces the system
  moves them in, and the bytes that follow them are left for the next read.
\<close>

section \<open>Sending\<close>

lemma send_all_spec:
  "send_all data steps = Some (r, out, rest) \<Longrightarrow> (\<exists>mid. data = out @ mid \<and> (r = Inr () \<longrightarrow> mid = []))"
proof (induction data steps arbitrary: r out rest rule: send_all.induct)
  case (5 c cs n steps)
  then obtain r' out' where s: "send_all (drop n (c # cs)) steps = Some (r, out', rest)" "out = take n (c # cs) @ out'" "\<not> (n = 0 \<or> n > length (c # cs))"
    by (auto split: if_splits)
  from "5.IH" [OF s(3,1)] obtain mid where m: "drop n (c # cs) = out' @ mid" "r = Inr () \<longrightarrow> mid = []" by blast
  have "c # cs = take n (c # cs) @ drop n (c # cs)" by simp
  then have "c # cs = out @ mid" unfolding m(1) s(2) by simp
  then show ?case using m(2) by blast
qed auto

lemma send_all_whole: "send_all data steps = Some (Inr (), out, rest) \<Longrightarrow> out = data"
  using send_all_spec by fastforce

definition clean :: "string \<Rightarrow> bool" where
  "clean line \<longleftrightarrow> list_all (\<lambda>c. \<not> is_eol c) line"

lemma line_bytes_clean: "clean line \<Longrightarrow> line_bytes line = line @ [CHR 0x0A]"
proof -
  assume c: "clean line"
  have "dropWhile is_eol (rev line) = rev line" using c by (cases "rev line") (auto simp: clean_def list_all_iff rev_eq_Cons_iff)
  moreover have "map (\<lambda>c. if is_eol c then CHR '' '' else c) line = line" using c by (induction line) (auto simp: clean_def)
  ultimately show ?thesis by (simp add: line_bytes_def)
qed

text \<open>What is sent is always one line: no end of line inside, one at the end.\<close>

lemma line_bytes_one_line: "\<exists>l. line_bytes line = l @ [CHR 0x0A] \<and> clean l \<and> length l \<le> length line"
proof -
  let ?l = "map (\<lambda>c. if is_eol c then CHR '' '' else c) (rev (dropWhile is_eol (rev line)))"
  have "clean ?l" by (auto simp: clean_def list_all_iff is_eol_def)
  moreover have "length ?l \<le> length line" using length_dropWhile_le [of is_eol "rev line"] by simp
  ultimately show ?thesis by (auto simp: line_bytes_def)
qed

section \<open>Receiving\<close>

definition calm_reads :: "RecvStep list \<Rightarrow> bool" where
  "calm_reads steps \<longleftrightarrow> list_all (\<lambda>s. case s of RecvFailed _ \<Rightarrow> False | _ \<Rightarrow> True) steps"

definition reads :: "RecvStep list \<Rightarrow> nat" where
  "reads steps = length (filter (\<lambda>s. case s of Took _ \<Rightarrow> True | _ \<Rightarrow> False) steps)"

lemma calm_simps [simp]:
  "calm_reads []" "calm_reads (RecvFailed e # steps) = False" "calm_reads (RecvIntr # steps) = calm_reads steps"
  "calm_reads (Took n # steps) = calm_reads steps"
  "reads [] = 0" "reads (RecvIntr # steps) = reads steps" "reads (Took n # steps) = Suc (reads steps)"
  by (simp_all add: calm_reads_def reads_def)

lemma recv_line_loop_arrives:
  assumes "calm_reads steps" "length line < reads steps" "clean line" "length sofar + length line \<le> MAX_LINE"
    and "in_bytes s = line @ CHR 0x0A # rest" "sofar = [] \<or> last sofar \<noteq> CHR 0x0D"
  shows "\<exists>steps'. recv_line_loop sofar steps s = Some (Inr (sofar @ line), s\<lparr>in_bytes := rest\<rparr>, steps') \<and> calm_reads steps' \<and>
    reads steps' + length line + 1 = reads steps"
  using assms
proof (induction sofar steps s arbitrary: line rule: recv_line_loop.induct)
  case (4 sofar n steps s)
  show ?case
  proof (cases line)
    case Nil
    then show ?thesis using "4.prems" by auto
  next
    case (Cons c cs)
    have c: "c \<noteq> CHR 0x0A" "c \<noteq> CHR 0x0D" "clean cs" using "4.prems"(3) Cons by (auto simp: clean_def is_eol_def)
    have "length sofar \<noteq> MAX_LINE" using "4.prems"(4) Cons by simp
    moreover have "\<exists>steps'. recv_line_loop (sofar @ [c]) steps (s\<lparr>in_bytes := cs @ CHR 0x0A # rest\<rparr>) =
        Some (Inr ((sofar @ [c]) @ cs), s\<lparr>in_bytes := rest\<rparr>, steps') \<and> calm_reads steps' \<and> reads steps' + length cs + 1 = reads steps"
      using "4.IH" [of c "cs @ CHR 0x0A # rest" "s\<lparr>in_bytes := cs @ CHR 0x0A # rest\<rparr>" cs] "4.prems" Cons c calculation by simp
    ultimately show ?thesis using "4.prems"(5) Cons c by auto
  qed
qed auto

lemmas recv_line_arrives = recv_line_loop_arrives [where sofar = "[]", folded recv_line_def, simplified]

lemma recv_exact_loop_arrives:
  assumes "calm_reads steps" "length body \<le> reads steps" "in_bytes s = body @ rest"
  shows "\<exists>steps'. recv_exact_loop got (length body) steps s = Some (Inr (got @ body), s\<lparr>in_bytes := rest\<rparr>, steps') \<and> calm_reads steps' \<and>
    reads steps \<le> reads steps' + length body"
  using assms
proof (induction got "length body" steps s arbitrary: body rule: recv_exact_loop.induct)
  case (4 got n steps s)
  then show ?case using recv_exact_loop.simps(4) [of got n steps s] by auto
next
  case (5 got n k steps s)
  let ?r = "taken k (Suc n) (in_bytes s)"
  have r: "1 \<le> ?r" "?r \<le> length body" "in_bytes s \<noteq> []" using "5.prems"(3) "5.hyps"(2) by (auto simp: taken_def)
  have len: "Suc n - ?r = length (drop ?r body)" using "5.hyps"(2) by simp
  have "take ?r (in_bytes s) = take ?r body" "drop ?r (in_bytes s) = drop ?r body @ rest" using "5.prems"(3) r(2) by simp_all
  then have "\<exists>steps'. recv_exact_loop (got @ take ?r (in_bytes s)) (length (drop ?r body)) steps (s\<lparr>in_bytes := drop ?r (in_bytes s)\<rparr>) =
      Some (Inr ((got @ take ?r body) @ drop ?r body), s\<lparr>in_bytes := rest\<rparr>, steps') \<and> calm_reads steps' \<and>
      reads steps \<le> reads steps' + length (drop ?r body)"
    using "5.hyps"(1) [OF r(3) refl len] "5.prems"(1,2) r(1) by simp
  then obtain steps' where rest: "recv_exact_loop (got @ take ?r (in_bytes s)) (Suc n - ?r) steps (s\<lparr>in_bytes := drop ?r (in_bytes s)\<rparr>) =
      Some (Inr (got @ body), s\<lparr>in_bytes := rest\<rparr>, steps')" "calm_reads steps'" "reads steps \<le> reads steps' + (Suc n - ?r)"
    unfolding len by auto
  have "recv_exact_loop got (Suc n) (Took k # steps) s = recv_exact_loop (got @ take ?r (in_bytes s)) (Suc n - ?r) steps (s\<lparr>in_bytes := drop ?r (in_bytes s)\<rparr>)"
    using r(3) by (simp add: Let_def)
  then have "recv_exact_loop got (Suc n) (Took k # steps) s = Some (Inr (got @ body), s\<lparr>in_bytes := rest\<rparr>, steps')" using rest(1) by simp
  moreover have "reads (Took k # steps) \<le> reads steps' + Suc n" using rest(3) r(1,2) "5.hyps"(2) by simp
  ultimately show ?case using rest(2) unfolding "5.hyps"(2) by blast
qed auto

lemmas recv_exact_arrives = recv_exact_loop_arrives [where got = "[]", folded recv_exact_def, simplified]

text \<open>The same for a body that is thrown away.\<close>

lemma recv_discard_arrives:
  assumes "calm_reads steps" "n \<le> reads steps" "n \<le> length (in_bytes s)"
  shows "\<exists>steps'. recv_discard n steps s = Some (Inr (), s\<lparr>in_bytes := drop n (in_bytes s)\<rparr>, steps') \<and> calm_reads steps' \<and> reads steps \<le> reads steps' + n"
  using assms
proof (induction n steps s rule: recv_discard.induct)
  case (5 n k steps s)
  let ?r = "taken k (min (Suc n) 4096) (in_bytes s)"
  have r: "1 \<le> ?r" "?r \<le> Suc n" "in_bytes s \<noteq> []" using "5.prems"(3) by (auto simp: taken_def)
  have fits: "Suc n - ?r \<le> reads steps" "Suc n - ?r \<le> length (in_bytes (s\<lparr>in_bytes := drop ?r (in_bytes s)\<rparr>))"
    using "5.prems"(2,3) r(1) by auto
  have "calm_reads steps" using "5.prems"(1) by simp
  from "5.IH" [OF r(3) refl this fits] obtain steps' where
    "recv_discard (Suc n - ?r) steps (s\<lparr>in_bytes := drop ?r (in_bytes s)\<rparr>) =
       Some (Inr (), s\<lparr>in_bytes := drop (Suc n - ?r) (drop ?r (in_bytes s))\<rparr>, steps')" "calm_reads steps'" "reads steps \<le> reads steps' + (Suc n - ?r)"
    by auto
  moreover have "drop (Suc n - ?r) (drop ?r (in_bytes s)) = drop (Suc n) (in_bytes s)" using r(2) by simp
  ultimately show ?case using r by (auto simp: Let_def)
qed auto

section \<open>Announced bodies\<close>

text \<open>A frame whose line announces exactly its body.\<close>

definition frame_ok :: "string \<Rightarrow> string \<Rightarrow> bool" where
  "frame_ok line body \<longleftrightarrow> (case body_length line of BodyPresent n \<Rightarrow> n = length body | BodyNone \<Rightarrow> body = [] | _ \<Rightarrow> False)"

lemma exchange_checks_frame:
  "(case body_length line of BodyPresent n \<Rightarrow> n \<noteq> length body | BodyMalformed \<Rightarrow> True | BodyTooLarge \<Rightarrow> True | BodyNone \<Rightarrow> body \<noteq> []) \<longleftrightarrow>
     \<not> frame_ok line body"
  by (simp add: frame_ok_def split: Body.split)

lemma last_word_append: "CHR '' '' \<notin> set w \<Longrightarrow> last_word (s @ CHR '' '' # w) = w"
  unfolding last_word_def by (simp add: takeWhile_append)

lemma takeWhile_space: "CHR '' '' \<notin> set v \<Longrightarrow> takeWhile (\<lambda>c. c \<noteq> CHR '' '') (v @ CHR '' '' # s) = v"
  by (subst takeWhile_append2) auto

text \<open>A verb that announces a body, anything, and the length last.\<close>

lemma body_length_announced:
  assumes "verb \<in> {''PUT'', ''STORE'', ''CHUNK'', ''APPEND''}" "n \<le> MAX_BODY" "middle = [] \<or> last middle = CHR '' ''"
  shows "body_length (verb @ '' '' @ middle @ to_string n) = BodyPresent n"
proof -
  have len: "length (to_string n) \<le> 7" using assms(2) to_string_length_le [of n 7] by (simp add: MAX_BODY_def)
  have "to_string 0 = ''0''" by code_simp
  then have canonical: "\<not> (length (to_string n) > 1 \<and> hd (to_string n) = CHR ''0'')" using to_string_hd_zero [of n] by auto
  let ?line = "verb @ '' '' @ middle @ to_string n"
  have v: "CHR '' '' \<notin> set verb" using assms(1) by auto
  have "split_request_id ?line = RidNone ?line" using assms(1) by (auto simp: split_request_id_def starts_with_def)
  moreover have "takeWhile (\<lambda>c. c \<noteq> CHR '' '') ?line = verb" using takeWhile_space [OF v] by simp
  moreover have "last_word ?line = to_string n"
  proof (cases "middle = []")
    case True
    then show ?thesis using last_word_append [of "to_string n" verb] by simp
  next
    case False
    then have "middle = butlast middle @ [CHR '' '']" using assms(3) by (metis append_butlast_last_id)
    then have eq: "?line = (verb @ '' '' @ butlast middle) @ CHR '' '' # to_string n" by (metis append.assoc append_Cons append_Nil)
    show ?thesis unfolding eq by (rule last_word_append) simp
  qed
  ultimately show ?thesis using assms(1,2) len canonical by (auto simp: body_length_def Let_def not_less)
qed

lemma sp_tail: "last (key @ '' '') = CHR '' ''" "last (key @ '' '' @ w @ '' '') = CHR '' ''"
  by simp_all

text \<open>The lines of the chunk plane announce their bodies.\<close>

lemma chunk_lines_announce:
  assumes "length body \<le> MAX_BODY"
  shows "body_length (store_line key body) = BodyPresent (length body)"
    and "body_length (put_line key w body) = BodyPresent (length body)"
    and "body_length (''CHUNK '' @ to_string (length body)) = BodyPresent (length body)"
  using body_length_announced [of "''STORE''" "length body" "key @ '' ''"] body_length_announced [of "''PUT''" "length body" "key @ '' '' @ to_string w @ '' ''"]
    body_length_announced [of "''CHUNK''" "length body" "[]"] assms
  by (simp_all add: store_line_def put_line_def)

section \<open>Request ids\<close>

lemma split_with_request_id:
  assumes "valid_request_id rid" "line \<noteq> []"
  shows "split_request_id (with_request_id rid line) = RidPresent rid line"
proof -
  have len: "length rid = 16" and hex: "list_all is_lower_hex rid" and ne: "rid \<noteq> []"
    using assms(1) by (auto simp: valid_request_id_def)
  let ?l = "''RID '' @ rid @ '' '' @ line"
  have "length ?l \<ge> 22" using len assms(2) by (cases line) auto
  moreover have "?l ! 20 = CHR '' ''"
  proof -
    have "?l = (''RID '' @ rid) @ '' '' @ line" "length (''RID '' @ rid) = 20" using len by simp_all
    then show ?thesis by (metis append_Cons nth_append_length)
  qed
  moreover have "take 16 (drop 4 ?l) = rid" "drop 21 ?l = line" using len by simp_all
  ultimately show ?thesis using hex ne by (simp add: split_request_id_def with_request_id_def starts_with_def)
qed

lemma body_length_with_request_id:
  assumes "valid_request_id rid" "line \<noteq> []" "\<not> starts_with ''RID '' line"
  shows "body_length (with_request_id rid line) = body_length line"
  using split_with_request_id [OF assms(1,2)] assms(3)
  by (simp add: body_length_def split_request_id_def [of line])

lemma frame_ok_with_request_id:
  "valid_request_id rid \<Longrightarrow> line \<noteq> [] \<Longrightarrow> \<not> starts_with ''RID '' line \<Longrightarrow> frame_ok (with_request_id rid line) body = frame_ok line body"
  by (simp add: frame_ok_def body_length_with_request_id)

section \<open>Frames arrive\<close>

lemma send_frame_whole:
  assumes "send_frame line body steps = Some (Inr (), out)"
  shows "out = line_bytes line @ body"
proof (cases "send_all (line_bytes line) steps")
  case None
  then show ?thesis using assms by (simp add: send_frame_def send_line_def)
next
  case (Some x)
  obtain r out1 rest where x: "x = (r, out1, rest)" by (cases x)
  show ?thesis
  proof (cases r)
    case (Inl e)
    then show ?thesis using assms Some x by (simp add: send_frame_def send_line_def)
  next
    case (Inr u)
    have 1: "out1 = line_bytes line" using send_all_whole Some x Inr by (metis (full_types) old.unit.exhaust)
    show ?thesis
    proof (cases "send_all body rest")
      case None
      then show ?thesis using assms Some x Inr by (simp add: send_frame_def send_line_def)
    next
      case (Some y)
      obtain r2 out2 rest2 where y: "y = (r2, out2, rest2)" by (cases y)
      have "r2 = Inr () \<and> out = out1 @ out2"
        using assms \<open>send_all (line_bytes line) steps = Some x\<close> x Inr Some y by (simp add: send_frame_def send_line_def)
      then show ?thesis using 1 send_all_whole Some y by blast
    qed
  qed
qed

text \<open>
  C35. A frame arrives as it was sent: whatever pieces the system sends a line and its body in, and
  whatever pieces it delivers them in, interrupted calls among them, a receiver that reads a line
  and then as many bytes as were announced gets exactly that line and that body, and the bytes that
  come after the frame are untouched.
\<close>

theorem frame_arrives:
  assumes "send_frame line body sends = Some (Inr (), out)" "clean line" "length line \<le> MAX_LINE"
    and "in_bytes s = out @ rest" "calm_reads steps" "length line + length body < reads steps"
  shows "\<exists>s1 steps1 steps2. recv_line steps s = Some (Inr line, s1, steps1) \<and>
    recv_exact (length body) steps1 s1 = Some (Inr body, s\<lparr>in_bytes := rest\<rparr>, steps2)"
proof -
  have "in_bytes s = line @ CHR 0x0A # body @ rest"
    using send_frame_whole [OF assms(1)] line_bytes_clean [OF assms(2)] assms(4) by simp
  then obtain steps1 where l: "recv_line steps s = Some (Inr line, s\<lparr>in_bytes := body @ rest\<rparr>, steps1)" "calm_reads steps1"
      "reads steps1 + length line + 1 = reads steps"
    using recv_line_arrives [of steps line s "body @ rest"] assms by auto
  with recv_exact_arrives [of steps1 body "s\<lparr>in_bytes := body @ rest\<rparr>" rest] assms(6) show ?thesis by auto
qed

theorem frame_arrives_witness:
  "\<exists>s1 steps1 steps2. recv_line (replicate 20 (Took 3)) \<lparr>in_bytes = ''STORE k 2'' @ [CHR 0x0A] @ ''hiPING'', in_end = E_NONE\<rparr> = Some (Inr ''STORE k 2'', s1, steps1) \<and>
     recv_exact 2 steps1 s1 = Some (Inr ''hi'', \<lparr>in_bytes = ''PING'', in_end = E_NONE\<rparr>, steps2)"
proof -
  have sends: "send_frame ''STORE k 2'' ''hi'' [Accepted 4, SendIntr, Accepted 6, Accepted 1, Accepted 1] =
      Some (Inr (), ''STORE k 2'' @ [CHR 0x0A] @ ''hi'')"
    by (simp add: send_frame_def send_line_def line_bytes_def is_eol_def)
  have "clean ''STORE k 2''" by (simp add: clean_def is_eol_def)
  moreover have "calm_reads (replicate 20 (Took 3))" "reads (replicate 20 (Took 3)) = 20" by (simp_all add: calm_reads_def reads_def list_all_iff)
  ultimately show ?thesis
    using frame_arrives [OF sends, of "\<lparr>in_bytes = ''STORE k 2'' @ [CHR 0x0A] @ ''hiPING'', in_end = E_NONE\<rparr>" "''PING''" "replicate 20 (Took 3)"]
    by (simp add: MAX_LINE_def numeral_2_eq_2)
qed

section \<open>What an exchange returns\<close>

definition strip_cr :: "string \<Rightarrow> string" where
  "strip_cr l = (if l \<noteq> [] \<and> last l = CHR 0x0D then butlast l else l)"

lemma recv_line_loop_sound:
  "recv_line_loop sofar steps s = Some (Inr l, s', steps') \<Longrightarrow>
     \<exists>mid. in_bytes s = mid @ CHR 0x0A # in_bytes s' \<and> l = strip_cr (sofar @ mid)"
proof (induction sofar steps s rule: recv_line_loop.induct)
  case (4 sofar n steps s)
  show ?case
  proof (cases "in_bytes s")
    case Nil
    then show ?thesis using "4.prems" by simp
  next
    case (Cons c cs)
    show ?thesis
    proof (cases "c = CHR 0x0A")
      case True
      then show ?thesis using "4.prems" Cons by (auto simp: strip_cr_def)
    next
      case False
      then have "length sofar \<noteq> MAX_LINE" "recv_line_loop (sofar @ [c]) steps (s\<lparr>in_bytes := cs\<rparr>) = Some (Inr l, s', steps')"
        using "4.prems" Cons by (auto simp: Let_def split: if_splits)
      from "4.IH" [OF Cons refl False this] obtain mid where "cs = mid @ CHR 0x0A # in_bytes s'" "l = strip_cr ((sofar @ [c]) @ mid)" by auto
      then show ?thesis using Cons by (intro exI [of _ "c # mid"]) simp
    qed
  qed
qed auto

lemma recv_exact_loop_sound:
  "recv_exact_loop got n steps s = Some (Inr b, s', steps') \<Longrightarrow>
     \<exists>mid. b = got @ mid \<and> length mid = n \<and> in_bytes s = mid @ in_bytes s'"
proof (induction got n steps s rule: recv_exact_loop.induct)
  case (5 got n k steps s)
  let ?r = "taken k (Suc n) (in_bytes s)"
  have ne: "in_bytes s \<noteq> []" using "5.prems" by (auto split: if_splits)
  then have r: "?r \<le> Suc n" "?r \<le> length (in_bytes s)" by (auto simp: taken_def)
  have "recv_exact_loop (got @ take ?r (in_bytes s)) (Suc n - ?r) steps (s\<lparr>in_bytes := drop ?r (in_bytes s)\<rparr>) = Some (Inr b, s', steps')"
    using "5.prems" ne by (simp add: Let_def)
  from "5.IH" [OF ne refl this] obtain mid where m: "b = got @ take ?r (in_bytes s) @ mid" "length mid = Suc n - ?r"
    "drop ?r (in_bytes s) = mid @ in_bytes s'" by auto
  then have "in_bytes s = (take ?r (in_bytes s) @ mid) @ in_bytes s'" by (metis append.assoc append_take_drop_id)
  then show ?case using m(1,2) r by (intro exI [of _ "take ?r (in_bytes s) @ mid"]) simp
qed auto

lemma failures_not_ok [simp]: "classify_io_error e \<noteq> Ok" "connect_failure e \<noteq> Ok"
  by (simp_all add: classify_io_error_def connect_failure_def)

lemma strip_cr_eol: "\<exists>eol \<in> {[CHR 0x0A], [CHR 0x0D, CHR 0x0A]}. mid @ CHR 0x0A # rest = strip_cr mid @ eol @ rest"
proof (cases "mid \<noteq> [] \<and> last mid = CHR 0x0D")
  case True
  then have "mid = butlast mid @ [CHR 0x0D]" by (metis append_butlast_last_id)
  then have "mid @ CHR 0x0A # rest = butlast mid @ [CHR 0x0D, CHR 0x0A] @ rest" by (metis append.assoc append_Cons append_Nil)
  then show ?thesis using True by (auto simp: strip_cr_def)
qed (auto simp: strip_cr_def)

lemma recv_frame_sound:
  assumes "recv_frame steps s = Some (d, reply, body)"
  shows "(d \<noteq> Ok \<longrightarrow> reply = [] \<and> body = []) \<and> (d = Ok \<longrightarrow> frame_ok reply body \<and>
    (\<exists>eol \<in> {[CHR 0x0A], [CHR 0x0D, CHR 0x0A]}. \<exists>rest. in_bytes s = reply @ eol @ body @ rest))"
proof (cases "recv_line steps s")
  case None
  then show ?thesis using assms by (simp add: recv_frame_def)
next
  case (Some x)
  obtain r s1 steps1 where x: "x = (r, s1, steps1)" by (cases x)
  show ?thesis
  proof (cases r)
    case (Inl e)
    then show ?thesis using assms Some x by (auto simp: recv_frame_def)
  next
    case (Inr line)
    obtain mid where "in_bytes s = mid @ CHR 0x0A # in_bytes s1" "line = strip_cr mid"
      using recv_line_loop_sound [of "[]" steps s line s1 steps1] Some x Inr by (auto simp: recv_line_def)
    then obtain eol where eol: "eol \<in> {[CHR 0x0A], [CHR 0x0D, CHR 0x0A]}" "in_bytes s = line @ eol @ in_bytes s1" using strip_cr_eol by metis
    show ?thesis
    proof (cases "\<exists>n. body_length line = BodyPresent n")
      case False
      then show ?thesis using assms Some x Inr eol by (auto simp: recv_frame_def frame_ok_def split: Body.splits)
    next
      case True
      then obtain n where n: "body_length line = BodyPresent n" by blast
      show ?thesis
      proof (cases "recv_exact n steps1 s1")
        case None
        then show ?thesis using assms \<open>recv_line steps s = Some x\<close> x Inr n by (simp add: recv_frame_def)
      next
        case (Some y)
        obtain rb s2 steps2 where y: "y = (rb, s2, steps2)" by (cases y)
        show ?thesis
        proof (cases rb)
          case (Inl e)
          then show ?thesis using assms \<open>recv_line steps s = Some x\<close> x Inr n Some y by (auto simp: recv_frame_def)
        next
          case b: (Inr b)
          have "length b = n" "in_bytes s1 = b @ in_bytes s2"
            using recv_exact_loop_sound [of "[]" n steps1 s1 b s2 steps2] Some y b by (auto simp: recv_exact_def)
          moreover have "d = Ok" "reply = line" "body = b"
            using assms \<open>recv_line steps s = Some x\<close> x Inr n Some y b by (simp_all add: recv_frame_def)
          ultimately show ?thesis using eol n by (auto simp: frame_ok_def)
        qed
      qed
    qed
  qed
qed

text \<open>
  An exchange is exact: a request that does not carry the body its line announces is never sent;
  when the exchange succeeds, the whole request left as one line and its body, and the reply is a
  line that came back followed by exactly the bytes it announces; when it does not, no part of a
  reply is passed on.
\<close>

theorem exchange_exact:
  assumes "exchange_frame line body x = Some ((d, reply, reply_body), out)"
  shows "(\<not> frame_ok line body \<longrightarrow> d = Failed \<and> out = []) \<and> (d \<noteq> Ok \<longrightarrow> reply = [] \<and> reply_body = []) \<and>
    (d = Ok \<longrightarrow> out = line_bytes line @ body \<and> frame_ok reply reply_body \<and>
      (\<exists>eol \<in> {[CHR 0x0A], [CHR 0x0D, CHR 0x0A]}. \<exists>rest. in_bytes (ex_reply x) = reply @ eol @ reply_body @ rest))"
proof (cases "frame_ok line body \<and> ex_connect x = None")
  case False
  then show ?thesis using assms by (auto simp: exchange_frame_def exchange_checks_frame split: option.splits if_splits)
next
  case True
  then obtain r sent where sent: "send_frame line body (ex_sends x) = Some (r, sent)"
    using assms by (cases "send_frame line body (ex_sends x)") (auto simp: exchange_frame_def exchange_checks_frame)
  show ?thesis
  proof (cases r)
    case (Inl e)
    then show ?thesis using assms True sent by (auto simp: exchange_frame_def exchange_checks_frame)
  next
    case (Inr u)
    then have "recv_frame (ex_recvs x) (ex_reply x) = Some (d, reply, reply_body)" "out = sent"
      using assms True sent by (auto simp: exchange_frame_def exchange_checks_frame)
    then show ?thesis using recv_frame_sound send_frame_whole sent Inr True by auto
  qed
qed

theorem exchange_exact_witness:
  "\<exists>out. exchange_frame ''DROP k'' [] \<lparr>ex_connect = None, ex_sends = [Accepted 2, Accepted 5], ex_recvs = [Took 1, RecvIntr, Took 1, Took 1],
       ex_reply = \<lparr>in_bytes = ''OK'' @ [CHR 0x0A], in_end = E_NONE\<rparr>\<rparr> = Some ((Ok, ''OK'', []), out) \<and>
     out = ''DROP k'' @ [CHR 0x0A]"
proof -
  let ?x = "\<lparr>ex_connect = None, ex_sends = [Accepted 2, Accepted 5], ex_recvs = [Took 1, RecvIntr, Took 1, Took 1],
    ex_reply = \<lparr>in_bytes = ''OK'' @ [CHR 0x0A], in_end = E_NONE\<rparr>\<rparr>"
  have "body_length ''DROP k'' = BodyNone" "body_length ''OK'' = BodyNone"
    by (simp_all add: body_length_def split_request_id_def starts_with_def)
  then have "\<exists>out. exchange_frame ''DROP k'' [] ?x = Some ((Ok, ''OK'', []), out)"
    by (simp add: exchange_frame_def send_frame_def send_line_def line_bytes_def is_eol_def recv_frame_def recv_line_def MAX_LINE_def)
  then obtain out where x: "exchange_frame ''DROP k'' [] ?x = Some ((Ok, ''OK'', []), out)" by blast
  have "out = line_bytes ''DROP k'' @ []" using exchange_exact [OF x] by blast
  then show ?thesis using x by (auto simp: line_bytes_def is_eol_def)
qed

end
