(* ===== verification/Framed.thy ===== *)
theory Framed
  imports Net_Props
begin

text \<open>
  A connection served request by request, as \<^verbatim>\<open>src/node.cpp\<close> and \<^verbatim>\<open>src/tracker.cpp\<close> both do: read a
  line, take its request id off, read the body it announces, answer, and go round again. The
  contract of one turn is a locale; under it the loop handles exactly the requests that were sent.
\<close>

section \<open>A connection\<close>

text \<open>What is still to come in, how the system will deliver it, and what has gone out. Servers add their own state.\<close>

record Conn =
  co_in :: Inbound
  co_recvs :: "RecvStep list"
  co_sends :: "SendStep list"
  co_out :: string
  co_errors :: "string list"

definition count_error :: "string \<Rightarrow> 'z Conn_scheme \<Rightarrow> 'z Conn_scheme" where
  "count_error which c = c\<lparr>co_errors := co_errors c @ [which]\<rparr>"

definition conn_bytes :: "string \<Rightarrow> 'z Conn_scheme \<Rightarrow> (bool \<times> 'z Conn_scheme) option" where
  "conn_bytes data c =
     (case send_all data (co_sends c) of
        None \<Rightarrow> None
      | Some (r, out, rest) \<Rightarrow> Some (r = Inr (), c\<lparr>co_sends := rest, co_out := co_out c @ out\<rparr>))"

definition conn_line :: "string \<Rightarrow> 'z Conn_scheme \<Rightarrow> (bool \<times> 'z Conn_scheme) option" where
  "conn_line line c = conn_bytes (line_bytes line) c"

text \<open>\<^verbatim>\<open>send_line(...) && send_all(...)\<close>.\<close>

definition conn_frame :: "string \<Rightarrow> string \<Rightarrow> 'z Conn_scheme \<Rightarrow> (bool \<times> 'z Conn_scheme) option" where
  "conn_frame line body c =
     (case conn_line line c of
        None \<Rightarrow> None
      | Some (went, c) \<Rightarrow> if went then conn_bytes body c else Some (False, c))"

definition refuse :: "string \<Rightarrow> string \<Rightarrow> 'z Conn_scheme \<Rightarrow> (bool \<times> 'z Conn_scheme) option" where
  "refuse which reply c = map_option (\<lambda>(_, c). (False, c)) (conn_line reply (count_error which c))"

text \<open>The loop of turns, one environment for each; \<open>None\<close> if they run out before the connection ends.\<close>

fun serve_loop :: "('e \<Rightarrow> 'c \<Rightarrow> (bool \<times> 'c) option) \<Rightarrow> 'e list \<Rightarrow> 'c \<Rightarrow> 'c option" where
  "serve_loop one [] c = None"
| "serve_loop one (env # envs) c =
     (case one env c of
        None \<Rightarrow> None
      | Some (False, c) \<Rightarrow> Some c
      | Some (True, c) \<Rightarrow> serve_loop one envs c)"

section \<open>Requests\<close>

text \<open>A request is a request id or none, a line and its body.\<close>

type_synonym Request = "string \<times> string \<times> string"

definition request_bytes :: "Request \<Rightarrow> string" where
  "request_bytes q = (case q of (rid, line, body) \<Rightarrow> with_request_id rid line @ CHR 0x0A # body)"

definition request_ok :: "Request \<Rightarrow> bool" where
  "request_ok q \<longleftrightarrow> (case q of (rid, line, body) \<Rightarrow>
     (rid = [] \<or> valid_request_id rid \<and> line \<noteq> []) \<and> \<not> starts_with ''RID '' line \<and> clean line \<and>
     length (with_request_id rid line) \<le> MAX_LINE \<and> frame_ok line body)"

fun answer_all :: "('e \<Rightarrow> Request \<Rightarrow> 'c \<Rightarrow> (bool \<times> 'c) option) \<Rightarrow> 'e list \<Rightarrow> Request list \<Rightarrow> 'c \<Rightarrow> 'c option" where
  "answer_all respond envs [] c = Some c"
| "answer_all respond [] (q # qs) c = None"
| "answer_all respond (env # envs) (q # qs) c =
     (case respond env q c of
        None \<Rightarrow> None
      | Some (False, c) \<Rightarrow> Some c
      | Some (True, c) \<Rightarrow> answer_all respond envs qs c)"

section \<open>What handlers leave alone\<close>

abbreviation set_in :: "Inbound \<Rightarrow> RecvStep list \<Rightarrow> 'z Conn_scheme \<Rightarrow> 'z Conn_scheme" where
  "set_in s steps c \<equiv> c\<lparr>co_in := s, co_recvs := steps\<rparr>"

definition on_conn :: "('z Conn_scheme \<Rightarrow> 'z Conn_scheme) \<Rightarrow> (bool \<times> 'z Conn_scheme) option \<Rightarrow> (bool \<times> 'z Conn_scheme) option" where
  "on_conn f r = map_option (\<lambda>(k, c). (k, f c)) r"

lemma conn_bytes_in: "conn_bytes data (set_in s steps c) = on_conn (set_in s steps) (conn_bytes data c)"
  by (simp add: conn_bytes_def on_conn_def split: option.split)

lemma conn_line_in: "conn_line line (set_in s steps c) = on_conn (set_in s steps) (conn_line line c)"
  by (simp add: conn_line_def conn_bytes_in)

lemma conn_frame_in: "conn_frame line body (set_in s steps c) = on_conn (set_in s steps) (conn_frame line body c)"
  unfolding conn_frame_def conn_line_in
  by (cases "conn_line line c") (auto simp: on_conn_def conn_bytes_in)

lemma count_error_in: "count_error which (set_in s steps c) = set_in s steps (count_error which c)"
  by (simp add: count_error_def)

section \<open>The line of a request\<close>

lemma clean_append [simp]: "clean (a @ b) \<longleftrightarrow> clean a \<and> clean b"
  by (simp add: clean_def)

lemma clean_request_id:
  assumes "rid = [] \<or> valid_request_id rid" "clean line"
  shows "clean (with_request_id rid line)"
proof (cases "rid = []")
  case False
  then have "\<forall>x\<in>set rid. is_lower_hex x" using assms(1) by (simp add: valid_request_id_def list_all_iff)
  moreover have "\<not> is_lower_hex (CHR 0x0A)" "\<not> is_lower_hex (CHR 0x0D)" by code_simp+
  ultimately have "clean rid" by (auto simp: clean_def list_all_iff is_eol_def)
  moreover have "clean ''RID ''" "clean '' ''" by (simp_all add: clean_def is_eol_def)
  ultimately show ?thesis using assms(2) False by (simp only: with_request_id_def clean_append if_False simp_thms)
qed (use assms(2) in \<open>simp add: with_request_id_def\<close>)

lemma request_line:
  assumes "request_ok (rid, line, body)"
  shows "split_request_id (with_request_id rid line) = (if rid = [] then RidNone line else RidPresent rid line)"
  using assms split_with_request_id [of rid line]
  by (auto simp: request_ok_def with_request_id_def split_request_id_def [of line])

text \<open>The stream after a request has been read off it.\<close>

definition read_off :: "string \<Rightarrow> nat \<Rightarrow> Inbound \<Rightarrow> RecvStep list \<Rightarrow> Inbound \<Rightarrow> RecvStep list \<Rightarrow> bool" where
  "read_off rest n s steps s' steps' \<longleftrightarrow> s' = s\<lparr>in_bytes := rest\<rparr> \<and> calm_reads steps' \<and> reads steps \<le> reads steps' + n"

text \<open>The first step of a turn: the request's line is read, and its body is next.\<close>

lemma request_line_read:
  assumes "request_ok (rid, line, body)" "in_bytes s = request_bytes (rid, line, body) @ rest" "calm_reads steps"
    "length (request_bytes (rid, line, body)) \<le> reads steps"
  obtains steps1 where "recv_line steps s = Some (Inr (with_request_id rid line), s\<lparr>in_bytes := body @ rest\<rparr>, steps1)"
    "calm_reads steps1" "reads steps1 + length (with_request_id rid line) + 1 = reads steps" "length body \<le> reads steps1"
proof -
  let ?raw = "with_request_id rid line"
  note ok = assms(1) [unfolded request_ok_def prod.case]
  have "in_bytes s = ?raw @ CHR 0x0A # body @ rest" using assms(2) by (simp add: request_bytes_def)
  then obtain steps1 where l: "recv_line steps s = Some (Inr ?raw, s\<lparr>in_bytes := body @ rest\<rparr>, steps1)"
      "calm_reads steps1" "reads steps1 + length ?raw + 1 = reads steps"
    using recv_line_arrives [of steps ?raw s "body @ rest"] clean_request_id ok assms(3,4) by (auto simp: request_bytes_def)
  moreover have "length body \<le> reads steps1" using l(3) assms(4) by (simp add: request_bytes_def)
  ultimately show thesis by (rule that)
qed

text \<open>Two connections that differ at most in what is left to read.\<close>

definition unread :: "'z Conn_scheme \<Rightarrow> 'z Conn_scheme" where
  "unread c = set_in \<lparr>in_bytes = [], in_end = E_NONE\<rparr> [] c"

lemma unread_set_in [simp]: "unread (set_in s steps c) = unread c"
  by (simp add: unread_def)

lemma recv_line_end:
  assumes "calm_reads steps" "0 < reads steps" "in_bytes s = []"
  shows "\<exists>s' steps'. recv_line steps s = Some (Inl (in_end s), s', steps')"
  unfolding recv_line_def using assms
proof (induction steps)
  case (Cons x steps)
  then show ?case by (cases x) auto
qed simp

section \<open>A server in step\<close>

text \<open>
  One turn of a server, \<open>one\<close>, and what it is meant to do with the request it reads, \<open>respond\<close>: the turn
  takes the request off the stream and answers it; answering does not depend on the stream; and
  the end of the stream ends the connection.
\<close>

locale framed_server =
  fixes one :: "'e \<Rightarrow> 'z Conn_scheme \<Rightarrow> (bool \<times> 'z Conn_scheme) option"
    and respond :: "'e \<Rightarrow> Request \<Rightarrow> 'z Conn_scheme \<Rightarrow> (bool \<times> 'z Conn_scheme) option"
  assumes one_reads: "request_ok q \<Longrightarrow> in_bytes (co_in c) = request_bytes q @ rest \<Longrightarrow> calm_reads (co_recvs c) \<Longrightarrow>
      length (request_bytes q) \<le> reads (co_recvs c) \<Longrightarrow>
      \<exists>s' steps'. read_off rest (length (request_bytes q)) (co_in c) (co_recvs c) s' steps' \<and>
        one env c = on_conn (set_in s' steps') (respond env q c)"
    and answer_in: "respond env q (set_in s steps c) = on_conn (set_in s steps) (respond env q c)"
    and one_ends: "recv_line (co_recvs c) (co_in c) = Some (Inl E_NONE, s, steps) \<Longrightarrow> one env c = Some (False, set_in s steps c)"
begin

lemma answer_all_unread: "map_option unread (answer_all respond envs qs (set_in s steps c)) = map_option unread (answer_all respond envs qs c)"
proof (induction respond' \<equiv> respond envs qs c rule: answer_all.induct)
  case (3 env envs q qs c)
  show ?case
  proof (cases "respond env q c")
    case None
    then show ?thesis by (simp add: answer_in on_conn_def)
  next
    case (Some kc)
    obtain k c' where kc: "kc = (k, c')" by (cases kc)
    show ?thesis using "3.hyps" Some kc by (cases k) (simp_all add: answer_in on_conn_def)
  qed
qed simp_all

theorem in_step:
  assumes "list_all request_ok qs" "in_bytes (co_in c) = concat (map request_bytes qs)" "in_end (co_in c) = E_NONE"
    and "calm_reads (co_recvs c)" "length (concat (map request_bytes qs)) < reads (co_recvs c)" "length qs < length envs"
  shows "map_option unread (serve_loop one envs c) = map_option unread (answer_all respond envs qs c)"
  using assms
proof (induction qs arbitrary: envs c)
  case Nil
  then obtain env envs' where e: "envs = env # envs'" by (cases envs) auto
  obtain s' steps' where "recv_line (co_recvs c) (co_in c) = Some (Inl E_NONE, s', steps')"
    using recv_line_end [of "co_recvs c" "co_in c"] Nil.prems by auto
  then show ?case by (simp add: e one_ends)
next
  case (Cons q qs)
  obtain env envs' where e: "envs = env # envs'" "length qs < length envs'" using Cons.prems(6) by (cases envs) auto
  let ?rest = "concat (map request_bytes qs)"
  obtain s' steps' where r: "read_off ?rest (length (request_bytes q)) (co_in c) (co_recvs c) s' steps'"
      "one env c = on_conn (set_in s' steps') (respond env q c)"
    using one_reads [of q c ?rest env] Cons.prems by auto
  show ?case
  proof (cases "respond env q c")
    case None
    then show ?thesis using r(2) e(1) by (simp add: on_conn_def)
  next
    case (Some kc)
    obtain k c' where kc: "kc = (k, c')" by (cases kc)
    have "map_option unread (serve_loop one envs' (set_in s' steps' c')) = map_option unread (answer_all respond envs' qs (set_in s' steps' c'))"
      using Cons.IH [of "set_in s' steps' c'" envs'] Cons.prems r(1) e(2) by (simp add: read_off_def)
    then show ?thesis using Some kc r(2) e(1) by (cases k) (simp_all add: on_conn_def answer_all_unread)
  qed
qed

end

end
