(* ===== verification/Node_Server.thy ===== *)
theory Node_Server
  imports Framed Chunk_Props
begin

text \<open>
  The connections of a node process, \<^verbatim>\<open>serve\<close> and \<^verbatim>\<open>serve_chunk\<close> of \<^verbatim>\<open>src/node.cpp\<close>: requests read from
  the stream one after the other, each answered by the chunk plane or by a ring member. The system
  calls on the connection, and what the disk and the scheduler do during each request, are
  arguments. Of the counters only the refused requests are kept; logging and timing are left out.
\<close>

section \<open>A node's connection\<close>

record 'w NodeConn = Conn +
  co_world :: 'w
  co_node :: ChunkNode

text \<open>What happens during one request, apart from the connection.\<close>

record RequestEnv =
  re_io :: ChunkIo
  re_sched :: Schedule

definition conn_release :: "'w NodeConn \<Rightarrow> 'w NodeConn" where
  "conn_release c = c\<lparr>co_node := slot_release (co_node c)\<rparr>"

section \<open>Chunk requests\<close>

text \<open>The request handled, its reply sent, and then what the handler left to do.\<close>

definition answer_chunk ::
  "platform \<Rightarrow> 'w frame_transport \<Rightarrow> RequestEnv \<Rightarrow> string \<Rightarrow> string \<Rightarrow> 'w NodeConn \<Rightarrow> (bool \<times> 'w NodeConn) option"
where
  "answer_chunk P send env line body c =
     (case handle_chunk_request P send (re_io env) (re_sched env) \<lparr>fr_line = line, fr_body = body\<rparr> (co_world c, co_node c) of
        None \<Rightarrow> None
      | Some (h, w, n) \<Rightarrow>
          (case conn_frame (ch_reply h) (ch_body h) (c\<lparr>co_world := w, co_node := n\<rparr>) of
             None \<Rightarrow> None
           | Some (went, c) \<Rightarrow>
               let c = (case ch_after h of
                          None \<Rightarrow> c
                        | Some a \<Rightarrow> (case coordinate_after send (sc_no_thread (re_sched env)) a (co_world c, co_node c) of
                            (w, n) \<Rightarrow> c\<lparr>co_world := w, co_node := n\<rparr>))
               in Some (went, if ch_hold h then conn_release c else c)))"

text \<open>A body slot is taken before the body is read; without one the body is read and thrown away.\<close>

definition serve_body ::
  "platform \<Rightarrow> 'w frame_transport \<Rightarrow> RequestEnv \<Rightarrow> string \<Rightarrow> nat \<Rightarrow> 'w NodeConn \<Rightarrow> (bool \<times> 'w NodeConn) option"
where
  "serve_body P send env line n c =
     (case hold_body (co_node c) of
        (False, nd) \<Rightarrow>
          (case recv_discard n (co_recvs c) (co_in c) of
             None \<Rightarrow> None
           | Some (r, s, steps) \<Rightarrow>
               let c = count_error ''busy'' (c\<lparr>co_node := nd, co_in := s, co_recvs := steps\<rparr>) in
               (case r of Inl _ \<Rightarrow> Some (False, c) | Inr _ \<Rightarrow> conn_line ''ERR busy'' c))
      | (True, nd) \<Rightarrow>
          (case recv_exact n (co_recvs c) (co_in c) of
             None \<Rightarrow> None
           | Some (r, s, steps) \<Rightarrow>
               let c = c\<lparr>co_node := nd, co_in := s, co_recvs := steps\<rparr> in
               (case r of
                  Inl e \<Rightarrow> Some (False, conn_release (count_error (if e = EAGAIN then ''deadline'' else ''closed_mid_body'') c))
                | Inr body \<Rightarrow> map_option (\<lambda>(k, c). (k, conn_release c)) (answer_chunk P send env line body c))))"

text \<open>The flag: whether the connection may go on.\<close>

definition serve_chunk ::
  "platform \<Rightarrow> 'w frame_transport \<Rightarrow> RequestEnv \<Rightarrow> string \<Rightarrow> 'w NodeConn \<Rightarrow> (bool \<times> 'w NodeConn) option"
where
  "serve_chunk P send env line c =
     (case body_length line of
        BodyMalformed \<Rightarrow> refuse ''malformed'' ''ERR malformed body length'' c
      | BodyTooLarge \<Rightarrow> refuse ''too_large'' (''ERR chunk larger than '' @ to_string MAX_BODY @ '' bytes'') c
      | BodyPresent n \<Rightarrow> serve_body P send env line n c
      | BodyNone \<Rightarrow> answer_chunk P send env line [] c)"

section \<open>Ring requests\<close>

fun member_index :: "Id \<Rightarrow> nat \<Rightarrow> NodeState list \<Rightarrow> nat option" where
  "member_index i k [] = None"
| "member_index i k (m # ms) = (if peer_id (nd_self m) = i then Some k else member_index i (Suc k) ms)"

text \<open>A member's answer, and the probe that may follow it. \<open>None\<close>: \<^verbatim>\<open>g_members.front()\<close> of no members.\<close>

definition answer_member ::
  "platform \<Rightarrow> 'w node_world transport \<Rightarrow> nat \<Rightarrow> string \<Rightarrow> 'w NodeConn \<Rightarrow> (bool \<times> 'w NodeConn) option"
where
  "answer_member P t k request c =
     (let ms = cn_members (co_node c) in
      if k \<ge> length ms then None
      else case handle_request P t request (co_world c, ms ! k) of
        ((reply, after), (w, s)) \<Rightarrow>
          (case conn_line reply c of
             None \<Rightarrow> None
           | Some (went, c) \<Rightarrow>
               (case (case after of None \<Rightarrow> (w, s) | Some (old, cand) \<Rightarrow> notify_after t old cand (w, s)) of
                  (w, s) \<Rightarrow> Some (went, c\<lparr>co_world := w, co_node := (co_node c)\<lparr>cn_members := ms[k := s]\<rparr>\<rparr>))))"

definition serve_ring :: "platform \<Rightarrow> 'w node_world transport \<Rightarrow> string \<Rightarrow> 'w NodeConn \<Rightarrow> (bool \<times> 'w NodeConn) option" where
  "serve_ring P t line c =
     (case split_target line of
        TargetMalformed \<Rightarrow> conn_line ''ERR malformed TO prefix'' (count_error ''malformed'' c)
      | TargetNone request \<Rightarrow> answer_member P t 0 request c
      | TargetMember i request \<Rightarrow>
          (case member_index i 0 (cn_members (co_node c)) of
             None \<Rightarrow> conn_line (''ERR no ring member '' @ id_to_hex i @ '' here'') c
           | Some k \<Rightarrow> answer_member P t k request c))"

section \<open>The loop\<close>

definition serve_line ::
  "platform \<Rightarrow> 'w frame_transport \<Rightarrow> 'w node_world transport \<Rightarrow> RequestEnv \<Rightarrow> string \<Rightarrow> 'w NodeConn \<Rightarrow> (bool \<times> 'w NodeConn) option"
where
  "serve_line P send t env line c =
     (if is_chunk_request line \<or> body_length line \<noteq> BodyNone then serve_chunk P send env line c else serve_ring P t line c)"

definition serve_one ::
  "platform \<Rightarrow> 'w frame_transport \<Rightarrow> 'w node_world transport \<Rightarrow> RequestEnv \<Rightarrow> 'w NodeConn \<Rightarrow> (bool \<times> 'w NodeConn) option"
where
  "serve_one P send t env c =
     (case recv_line (co_recvs c) (co_in c) of
        None \<Rightarrow> None
      | Some (r, s, steps) \<Rightarrow>
          let c = c\<lparr>co_in := s, co_recvs := steps\<rparr> in
          (case r of
             Inl e \<Rightarrow> Some (False, if e = EAGAIN then count_error ''deadline'' c else if e = EMSGSIZE then count_error ''line_too_long'' c else c)
           | Inr raw \<Rightarrow>
               (case split_request_id raw of
                  RidMalformed \<Rightarrow> refuse ''malformed'' ''ERR malformed request id'' c
                | RidNone line \<Rightarrow> serve_line P send t env line c
                | RidPresent _ line \<Rightarrow> serve_line P send t env line c)))"

text \<open>One connection, to its end; one \<^typ>\<open>RequestEnv\<close> for each turn of the loop.\<close>

definition serve ::
  "platform \<Rightarrow> 'w frame_transport \<Rightarrow> 'w node_world transport \<Rightarrow> RequestEnv list \<Rightarrow> 'w NodeConn \<Rightarrow> 'w NodeConn option"
where
  "serve P send t = serve_loop (serve_one P send t)"

section \<open>The server without the stream\<close>

text \<open>
  What the connection is meant to do: a list of requests, each a request id or none, a line and its
  body, answered in order by the handlers. The stream is not read.
\<close>

definition answer_request ::
  "platform \<Rightarrow> 'w frame_transport \<Rightarrow> 'w node_world transport \<Rightarrow> RequestEnv \<Rightarrow> Request \<Rightarrow> 'w NodeConn \<Rightarrow> (bool \<times> 'w NodeConn) option"
where
  "answer_request P send t env q c =
     (case q of (_, line, body) \<Rightarrow>
        if body_length line \<noteq> BodyNone
        then (case hold_body (co_node c) of
                (False, nd) \<Rightarrow> conn_line ''ERR busy'' (count_error ''busy'' (c\<lparr>co_node := nd\<rparr>))
              | (True, nd) \<Rightarrow> map_option (\<lambda>(k, c). (k, conn_release c)) (answer_chunk P send env line body (c\<lparr>co_node := nd\<rparr>)))
        else if is_chunk_request line then answer_chunk P send env line [] c
        else serve_ring P t line c)"

section \<open>The handlers do not touch the stream\<close>

lemma answer_chunk_in: "answer_chunk P send env line body (set_in s steps c) = on_conn (set_in s steps) (answer_chunk P send env line body c)"
proof (cases "handle_chunk_request P send (re_io env) (re_sched env) \<lparr>fr_line = line, fr_body = body\<rparr> (co_world c, co_node c)")
  case None
  then show ?thesis by (simp add: answer_chunk_def on_conn_def)
next
  case (Some x)
  obtain h w n where x: "x = (h, w, n)" by (cases x)
  have swap: "set_in s steps c\<lparr>co_world := w, co_node := n\<rparr> = set_in s steps (c\<lparr>co_world := w, co_node := n\<rparr>)" by simp
  show ?thesis
  proof (cases "conn_frame (ch_reply h) (ch_body h) (c\<lparr>co_world := w, co_node := n\<rparr>)")
    case None
    then show ?thesis using Some x by (simp add: answer_chunk_def on_conn_def conn_frame_in [unfolded on_conn_def] swap)
  next
    case (Some y)
    then show ?thesis using \<open>_ = Some x\<close> x
      by (cases y; cases "ch_after h") (simp_all add: answer_chunk_def on_conn_def conn_frame_in [unfolded on_conn_def] swap conn_release_def Let_def split_def)
  qed
qed

lemma answer_member_in: "answer_member P t k request (set_in s steps c) = on_conn (set_in s steps) (answer_member P t k request c)"
proof -
  obtain reply after w st where h: "handle_request P t request (co_world c, cn_members (co_node c) ! k) = ((reply, after), (w, st))" by (metis surj_pair)
  show ?thesis
    by (cases "conn_line reply c")
      (auto simp: answer_member_def Let_def h conn_line_in on_conn_def split: option.splits prod.splits)
qed

lemma serve_ring_in: "serve_ring P t line (set_in s steps c) = on_conn (set_in s steps) (serve_ring P t line c)"
proof -
  show ?thesis
    by (simp add: serve_ring_def answer_member_in conn_line_in count_error_in split: Target.split option.split)
qed

lemma answer_request_in: "answer_request P send t env q (set_in s steps c) = on_conn (set_in s steps) (answer_request P send t env q c)"
proof -
  obtain rid line body where q: "q = (rid, line, body)" by (cases q)
  obtain granted nd where h: "hold_body (co_node c) = (granted, nd)" by (cases "hold_body (co_node c)")
  have swap: "set_in s steps c\<lparr>co_node := nd\<rparr> = set_in s steps (c\<lparr>co_node := nd\<rparr>)" by simp
  have rel: "map_option (\<lambda>(k, c). (k, conn_release c)) (on_conn (set_in s steps) r) =
      on_conn (set_in s steps) (map_option (\<lambda>(k, c). (k, conn_release c)) r)" for r
    by (cases r) (auto simp: on_conn_def conn_release_def)
  have cn: "co_node (set_in s steps c) = co_node c" by simp
  show ?thesis
  proof (cases "body_length line \<noteq> BodyNone")
    case True
    then show ?thesis using q h by (cases granted) (simp_all only: cn answer_request_def prod.case bool.case if_True simp_thms swap count_error_in rel conn_line_in answer_chunk_in Conn.simps)
  next
    case False
    then show ?thesis using q by (simp add: answer_request_def answer_chunk_in serve_ring_in)
  qed
qed

lemma serve_body_reads:
  assumes "in_bytes (co_in c) = body @ rest" "calm_reads (co_recvs c)" "length body \<le> reads (co_recvs c)"
    and "body_length line = BodyPresent (length body)"
  shows "\<exists>s' steps'. read_off rest (length body) (co_in c) (co_recvs c) s' steps' \<and>
    serve_body P send env line (length body) c = on_conn (set_in s' steps') (answer_request P send t env (rid, line, body) c)"
proof -
  obtain granted nd where h: "hold_body (co_node c) = (granted, nd)" by (cases "hold_body (co_node c)")
  show ?thesis
  proof (cases granted)
    case True
    obtain steps' where r: "recv_exact (length body) (co_recvs c) (co_in c) = Some (Inr body, (co_in c)\<lparr>in_bytes := rest\<rparr>, steps')"
        "calm_reads steps'" "reads (co_recvs c) \<le> reads steps' + length body"
      using recv_exact_arrives [OF assms(2,3,1)] by blast
    let ?s = "(co_in c)\<lparr>in_bytes := rest\<rparr>"
    have "c\<lparr>co_node := nd, co_in := ?s, co_recvs := steps'\<rparr> = set_in ?s steps' (c\<lparr>co_node := nd\<rparr>)" by simp
    then have "serve_body P send env line (length body) c =
        map_option (\<lambda>(k, c). (k, conn_release c)) (on_conn (set_in ?s steps') (answer_chunk P send env line body (c\<lparr>co_node := nd\<rparr>)))"
      using h True r(1) by (simp add: serve_body_def Let_def answer_chunk_in)
    also have "\<dots> = on_conn (set_in ?s steps') (answer_request P send t env (rid, line, body) c)"
      using h True assms(4) by (cases "answer_chunk P send env line body (c\<lparr>co_node := nd\<rparr>)") (auto simp: answer_request_def on_conn_def conn_release_def)
    finally show ?thesis using r(2,3) unfolding read_off_def by blast
  next
    case False
    obtain steps' where r: "recv_discard (length body) (co_recvs c) (co_in c) = Some (Inr (), (co_in c)\<lparr>in_bytes := rest\<rparr>, steps')"
        "calm_reads steps'" "reads (co_recvs c) \<le> reads steps' + length body"
      using recv_discard_arrives [OF assms(2,3), of "co_in c"] assms(1) by auto
    let ?s = "(co_in c)\<lparr>in_bytes := rest\<rparr>"
    have "count_error ''busy'' (c\<lparr>co_node := nd, co_in := ?s, co_recvs := steps'\<rparr>) = set_in ?s steps' (count_error ''busy'' (c\<lparr>co_node := nd\<rparr>))"
      by (simp add: count_error_def)
    then have "serve_body P send env line (length body) c = on_conn (set_in ?s steps') (answer_request P send t env (rid, line, body) c)"
      using h False r(1) assms(4) by (simp add: serve_body_def Let_def answer_request_def conn_line_in)
    then show ?thesis using r(2,3) unfolding read_off_def by blast
  qed
qed

lemma serve_one_reads:
  assumes "request_ok q" "in_bytes (co_in c) = request_bytes q @ rest" "calm_reads (co_recvs c)" "length (request_bytes q) \<le> reads (co_recvs c)"
  shows "\<exists>s' steps'. read_off rest (length (request_bytes q)) (co_in c) (co_recvs c) s' steps' \<and>
    serve_one P send t env c = on_conn (set_in s' steps') (answer_request P send t env q c)"
proof -
  obtain rid line body where q: "q = (rid, line, body)" by (cases q)
  note ok = assms(1) [unfolded q request_ok_def prod.case]
  obtain steps1 where l: "recv_line (co_recvs c) (co_in c) = Some (Inr (with_request_id rid line), (co_in c)\<lparr>in_bytes := body @ rest\<rparr>, steps1)"
      "calm_reads steps1" "reads steps1 + length (with_request_id rid line) + 1 = reads (co_recvs c)" "length body \<le> reads steps1"
    using request_line_read [OF assms(1,2,3,4) [unfolded q]] by blast
  let ?s1 = "(co_in c)\<lparr>in_bytes := body @ rest\<rparr>"
  let ?c1 = "set_in ?s1 steps1 c"
  have one: "serve_one P send t env c = serve_line P send t env line ?c1"
    using l(1) request_line [OF assms(1) [unfolded q]] by (simp add: serve_one_def Let_def split: RidPrefix.split)
  have same: "on_conn (set_in s' steps') (answer_request P send t env q ?c1) = on_conn (set_in s' steps') (answer_request P send t env q c)" for s' steps'
    unfolding answer_request_in by (cases "answer_request P send t env q c") (auto simp: on_conn_def)
  show ?thesis
  proof (cases "body_length line = BodyNone")
    case True
    then have b: "body = []" using ok by (simp add: frame_ok_def)
    have "serve_one P send t env c = answer_request P send t env q ?c1"
      using one True b q by (simp add: serve_line_def serve_chunk_def answer_request_def)
    then have "serve_one P send t env c = on_conn (set_in ?s1 steps1) (answer_request P send t env q c)" by (simp only: answer_request_in)
    moreover have "read_off rest (length (request_bytes q)) (co_in c) (co_recvs c) ?s1 steps1"
      using l(2,3) b q by (simp add: read_off_def request_bytes_def)
    ultimately show ?thesis by blast
  next
    case False
    then have b: "body_length line = BodyPresent (length body)" using ok by (auto simp: frame_ok_def split: Body.splits)
    obtain s' steps' where r: "read_off rest (length body) ?s1 steps1 s' steps'"
        "serve_body P send env line (length body) ?c1 = on_conn (set_in s' steps') (answer_request P send t env q ?c1)"
      using serve_body_reads [of ?c1 body rest line P send env t rid] l(2,4) b q by auto
    have "serve_one P send t env c = on_conn (set_in s' steps') (answer_request P send t env q c)"
      using one b r(2) same by (simp add: serve_line_def serve_chunk_def)
    moreover have "read_off rest (length (request_bytes q)) (co_in c) (co_recvs c) s' steps'"
      using r(1) l(3) q by (auto simp: read_off_def request_bytes_def)
    ultimately show ?thesis by blast
  qed
qed

interpretation node: framed_server "serve_one P send t" "answer_request P send t" for P send t
proof
  show "serve_one P send t env c = Some (False, set_in s steps c)" if "recv_line (co_recvs c) (co_in c) = Some (Inl E_NONE, s, steps)" for env c s steps
    using that by (simp add: serve_one_def)
qed (rule serve_one_reads, assumption+, rule answer_request_in)

text \<open>
  C6. A connection stays in step: whatever requests a peer sends down one connection, with request ids
  and bodies, however the system cuts the bytes up, the server handles exactly those requests, in
  that order, as if each had been handed to its handler, and sends the handlers' replies. That
  holds when a body is thrown away for want of a slot, and up to the reply that cannot be sent.
\<close>

theorem connection_in_step:
  assumes "list_all request_ok qs" "in_bytes (co_in c) = concat (map request_bytes qs)" "in_end (co_in c) = E_NONE"
    and "calm_reads (co_recvs c)" "length (concat (map request_bytes qs)) < reads (co_recvs c)" "length qs < length envs"
  shows "map_option unread (serve P send t envs c) = map_option unread (answer_all (answer_request P send t) envs qs c)"
  unfolding serve_def by (rule node.in_step [OF assms])


definition two_requests :: "Request list" where
  "two_requests = [(''0123456789abcdef'', ''STORE k 2'', ''hi''), ([], ''PING'', [])]"

definition sample_conn :: "unit NodeConn" where
  "sample_conn = \<lparr>co_in = \<lparr>in_bytes = concat (map request_bytes two_requests), in_end = E_NONE\<rparr>,
     co_recvs = replicate 40 (Took 9), co_sends = replicate 100 (Accepted 1), co_out = [], co_errors = [],
     co_world = (), co_node = sample_process\<rparr>"

definition idle_request :: RequestEnv where
  "idle_request = \<lparr>re_io = sample_io, re_sched = no_schedule\<rparr>"

theorem connection_in_step_witness:
  "map_option unread (serve sample_platform no_send quiet [idle_request, idle_request, idle_request] sample_conn) =
     map_option unread (answer_all (answer_request sample_platform no_send quiet) [idle_request, idle_request, idle_request] two_requests sample_conn)"
proof (rule connection_in_step)
  have "to_string 2 = ''2''" by code_simp
  then have "body_length ''STORE k 2'' = BodyPresent 2"
    using chunk_lines_announce(1) [of "''hi''" "''k''"] by (simp add: store_line_def MAX_BODY_def numeral_2_eq_2)
  moreover have "body_length ''PING'' = BodyNone" by (simp add: body_length_def split_request_id_def starts_with_def)
  moreover have "valid_request_id ''0123456789abcdef''" by code_simp
  ultimately show "list_all request_ok two_requests"
    by (simp add: two_requests_def request_ok_def starts_with_def clean_def is_eol_def MAX_LINE_def with_request_id_def frame_ok_def)
  show "calm_reads (co_recvs sample_conn)" by (simp add: sample_conn_def calm_reads_def list_all_iff)
  show "length (concat (map request_bytes two_requests)) < reads (co_recvs sample_conn)"
    by (simp add: sample_conn_def reads_def two_requests_def request_bytes_def with_request_id_def)
qed (simp_all add: sample_conn_def two_requests_def)

end
