(* ===== verification/Replica.thy ===== *)
theory Replica
  imports Names Group Raft_Replica
begin

text \<open>
  \<^verbatim>\<open>src/replica.h\<close> and \<^verbatim>\<open>src/replica.cpp\<close>: one tracker replica, the Raft core and the namespace behind
  one lock. Every stretch of code that runs with the lock held is one function on the state; a
  client's request is split where it waits on the condition variable. A waiter is an object on
  a request thread's stack: here it has a number, and the state keeps its fields.
\<close>

section \<open>State\<close>

record 's ReplicaConfig =
  rc_group :: "Address list"
  rc_id :: nat
  rc_election :: Millis
  rc_spread :: "nat \<Rightarrow> Millis"
  rc_save :: "'s \<Rightarrow> Term \<Rightarrow> nat option \<Rightarrow> Index \<Rightarrow> Entry list \<Rightarrow> bool \<times> 's"

record WriteWaiter =
  ww_term :: Term
  ww_done :: bool
  ww_result :: string

record ReadWaiter =
  rw_done :: bool
  rw_ok :: bool

record 's Replica =
  rp_raft :: "'s Raft"
  rp_ns :: Namespace
  rp_writes :: "(Index \<times> nat) list"
  rp_write_waiters :: "nat \<rightharpoonup> WriteWaiter"
  rp_next_waiter :: nat
  rp_reads :: "nat list"
  rp_read_waiters :: "nat \<rightharpoonup> ReadWaiter"
  rp_next_read :: nat
  rp_slots :: "Outgoing option list"
  rp_stopping :: bool
  rp_fatal :: bool
  rp_shown_role :: Role
  rp_shown_term :: Term
  rp_known_leader :: "nat option"
  rp_mismatch_logged :: "bool list"
  rp_elections :: nat
  rp_leader_changes :: nat
  rp_calls_failed :: "nat list"

definition raft_config :: "'s ReplicaConfig \<Rightarrow> 's RaftConfig" where
  "raft_config cfg =
     \<lparr>cfg_id = rc_id cfg, cfg_size = length (rc_group cfg), cfg_election = rc_election cfg,
      cfg_max_append_bytes = 64 * 1024, cfg_spread = rc_spread cfg, cfg_save = rc_save cfg\<rparr>"

definition fingerprint :: "platform \<Rightarrow> 's ReplicaConfig \<Rightarrow> string" where
  "fingerprint P cfg = group_fingerprint P (map address_text (rc_group cfg))"

section \<open>Moving the core's outputs\<close>

definition UNKNOWN_OUTCOME :: string where
  "UNKNOWN_OUTCOME = ''UNAVAILABLE the request was not committed in time; its outcome is unknown, and retrying is safe''"

definition REPLACED :: string where
  "REPLACED = ''UNAVAILABLE a new leader replaced this request before it was committed; retrying is safe''"

definition on_apply :: "Index \<times> Entry \<Rightarrow> 's Replica \<Rightarrow> 's Replica" where
  "on_apply ie s =
     (let (index, entry) = ie;
          (result, ns) = apply_command (e_command entry) (rp_ns s);
          wake = (\<lambda>tok w. w\<lparr>ww_done := True,
                            ww_result := (if ww_term w = e_term entry then result else REPLACED)\<rparr>)
      in s\<lparr>rp_ns := ns,
           rp_write_waiters :=
             (\<lambda>tok. if (index, tok) \<in> set (rp_writes s) then map_option (wake tok) (rp_write_waiters s tok)
                    else rp_write_waiters s tok),
           rp_writes := filter (\<lambda>x. fst x \<noteq> index) (rp_writes s)\<rparr>)"

text \<open>The core after one of its methods: the entries it applied have gone through \<open>on_apply\<close>.\<close>

definition with_raft :: "'s Raft \<Rightarrow> 's Replica \<Rightarrow> 's Replica" where
  "with_raft raft s =
     fold on_apply (drop (length (rf_applies (rp_raft s))) (rf_applies raft)) (s\<lparr>rp_raft := raft\<rparr>)"

definition fill_slot :: "Outgoing \<Rightarrow> 's Replica \<Rightarrow> 's Replica" where
  "fill_slot out s = s\<lparr>rp_slots := (rp_slots s)[o_to out := Some out]\<rparr>"

definition wake_read :: "ReadResult \<Rightarrow> 's Replica \<Rightarrow> 's Replica" where
  "wake_read r s =
     (if rr_id r \<notin> set (rp_reads s) then s
      else s\<lparr>rp_read_waiters := (rp_read_waiters s)(rr_id r := map_option (\<lambda>w. w\<lparr>rw_done := True, rw_ok := rr_ok r\<rparr>)
                                                            (rp_read_waiters s (rr_id r))),
             rp_reads := filter (\<lambda>i. i \<noteq> rr_id r) (rp_reads s)\<rparr>)"

definition count_changes :: "'s Replica \<Rightarrow> 's Replica" where
  "count_changes s =
     (let raft = rp_raft s;
          s = (if rf_role raft \<noteq> rp_shown_role s \<or> rf_term raft \<noteq> rp_shown_term s
               then s\<lparr>rp_elections := rp_elections s + (if rf_role raft = Candidate then 1 else 0),
                      rp_shown_role := rf_role raft, rp_shown_term := rf_term raft\<rparr>
               else s)
      in if rf_leader raft \<noteq> None \<and> rf_leader raft \<noteq> rp_known_leader s
         then s\<lparr>rp_known_leader := rf_leader raft, rp_leader_changes := Suc (rp_leader_changes s)\<rparr> else s)"

definition dispatch :: "'s Replica \<Rightarrow> 's Replica" where
  "dispatch s =
     (let (out, raft) = take_outgoing (rp_raft s);
          s = fold fill_slot out (s\<lparr>rp_raft := raft\<rparr>);
          (results, raft) = take_reads (rp_raft s);
          s = fold wake_read results (s\<lparr>rp_raft := raft\<rparr>);
          s = (if rf_stopped (rp_raft s) then s\<lparr>rp_fatal := True\<rparr> else s)
      in count_changes s)"

text \<open>The constructor.\<close>

definition replica_init :: "'s ReplicaConfig \<Rightarrow> 's \<Rightarrow> Durable \<Rightarrow> Millis \<Rightarrow> 's Replica" where
  "replica_init cfg storage recovered now =
     (let n = length (rc_group cfg); c = raft_config cfg;
          s = \<lparr>rp_raft = raft_boot c storage recovered, rp_ns = [], rp_writes = [], rp_write_waiters = Map.empty,
               rp_next_waiter = 0, rp_reads = [], rp_read_waiters = Map.empty, rp_next_read = 0,
               rp_slots = replicate n None, rp_stopping = False, rp_fatal = False, rp_shown_role = Follower,
               rp_shown_term = 0, rp_known_leader = None, rp_mismatch_logged = replicate n False,
               rp_elections = 0, rp_leader_changes = 0, rp_calls_failed = replicate n 0\<rparr>
      in dispatch (with_raft (raft_init c storage recovered now) s))"

section \<open>Requests\<close>

definition not_leader :: "'s ReplicaConfig \<Rightarrow> 's Replica \<Rightarrow> string" where
  "not_leader cfg s =
     (case rf_leader (rp_raft s) of
        Some l \<Rightarrow> if l \<noteq> rc_id cfg then ''REDIRECT '' @ address_text (rc_group cfg ! l)
                  else ''UNAVAILABLE no leader is known; an election may be in progress''
      | None \<Rightarrow> ''UNAVAILABLE no leader is known; an election may be in progress'')"

definition status :: "'s ReplicaConfig \<Rightarrow> 's Replica \<Rightarrow> string" where
  "status cfg s =
     (let r = rp_raft s in
      ''STATUS '' @ to_string (rc_id cfg) @ '' '' @ role_name (rf_role r) @ '' '' @ to_string (rf_term r) @ '' '' @
      (case rf_leader r of None \<Rightarrow> ''-'' | Some l \<Rightarrow> to_string l) @ '' '' @ to_string (rf_commit r) @ '' '' @
      to_string (rf_applied r) @ '' '' @ to_string (last_index r))"

record View =
  vw_role :: Role
  vw_term :: Term
  vw_leader :: "nat option"
  vw_commit :: Index
  vw_applied :: Index
  vw_last :: Index
  vw_names :: nat

definition view :: "'s Replica \<Rightarrow> View" where
  "view s =
     (let r = rp_raft s in
      \<lparr>vw_role = rf_role r, vw_term = rf_term r, vw_leader = rf_leader r, vw_commit = rf_commit r,
       vw_applied = rf_applied r, vw_last = last_index r, vw_names = length (rp_ns s)\<rparr>)"

text \<open>A reply at once, or the waiter the request thread sleeps on.\<close>

datatype Reply = Now string | WaitWrite nat | WaitRead nat NamesRequest

definition client_request :: "platform \<Rightarrow> 's ReplicaConfig \<Rightarrow> string \<Rightarrow> Millis \<Rightarrow> 's Replica \<Rightarrow> Reply \<times> 's Replica" where
  "client_request P cfg line now s =
     (let r = parse_names_request line; c = raft_config cfg in
      if nr_kind r = KInvalid then (Now (nr_error r), s)
      else if nr_kind r = KPing then (Now ''PONG'', s)
      else if rf_role (rp_raft s) \<noteq> Leader then (Now (not_leader cfg s), s)
      else if nr_kind r = KRegister \<or> nr_kind r = KUnregister then
        let command = (if nr_kind r = KRegister then register_command (nr_name r) (nr_key r) (nr_owner r)
                       else unregister_command (nr_name r) (owner_hash P (nr_secret r)));
            tok = rp_next_waiter s;
            waiter = \<lparr>ww_term = rf_term (rp_raft s), ww_done = False, ww_result = []\<rparr>;
            s = s\<lparr>rp_next_waiter := Suc tok, rp_write_waiters := (rp_write_waiters s)(tok \<mapsto> waiter),
                  rp_writes := rp_writes s @ [(last_index (rp_raft s) + 1, tok)]\<rparr>;
            (proposed, raft) = propose c command now (rp_raft s);
            s = with_raft raft s
        in if proposed = None
           then let s = dispatch (s\<lparr>rp_writes := filter (\<lambda>x. snd x \<noteq> tok) (rp_writes s)\<rparr>)
                in (Now (not_leader cfg s), s)
           else (WaitWrite tok, dispatch s)
      else
        let i = Suc (rp_next_read s);
            s = s\<lparr>rp_next_read := i, rp_reads := rp_reads s @ [i],
                  rp_read_waiters := (rp_read_waiters s)(i \<mapsto> \<lparr>rw_done = False, rw_ok = False\<rparr>)\<rparr>;
            (started, raft) = read c i now (rp_raft s);
            s = with_raft raft s
        in if \<not> started
           then (Now (not_leader cfg s), s\<lparr>rp_reads := filter (\<lambda>j. j \<noteq> i) (rp_reads s)\<rparr>)
           else (WaitRead i r, dispatch s))"

text \<open>The request thread again, woken or past its deadline.\<close>

definition resume_write :: "nat \<Rightarrow> 's Replica \<Rightarrow> string \<times> 's Replica" where
  "resume_write tok s =
     (case rp_write_waiters s tok of
        Some w \<Rightarrow>
          if ww_done w then (ww_result w, s)
          else (UNKNOWN_OUTCOME, s\<lparr>rp_writes := filter (\<lambda>x. snd x \<noteq> tok) (rp_writes s)\<rparr>)
      | None \<Rightarrow> (UNKNOWN_OUTCOME, s))"

definition resume_read :: "'s ReplicaConfig \<Rightarrow> nat \<Rightarrow> NamesRequest \<Rightarrow> 's Replica \<Rightarrow> string \<times> 's Replica" where
  "resume_read cfg i r s =
     (case rp_read_waiters s i of
        Some w \<Rightarrow>
          if \<not> rw_done w
          then (''UNAVAILABLE the read could not be confirmed by a majority in time; retrying is safe'',
                s\<lparr>rp_reads := filter (\<lambda>j. j \<noteq> i) (rp_reads s)\<rparr>)
          else if \<not> rw_ok w then (not_leader cfg s, s)
          else (answer_read (rp_ns s) r, s)
      | None \<Rightarrow> (not_leader cfg s, s))"

definition STOPPING :: string where
  "STOPPING = ''UNAVAILABLE this replica is stopping''"

text \<open>A call from another replica, parsed: its group, its sender and what it asks the core.\<close>

datatype PeerCall = PeerVote VoteRequest | PeerAppend AppendRequest

definition parse_peer_call :: "string list \<Rightarrow> string \<Rightarrow> (string \<times> nat \<times> PeerCall) option" where
  "parse_peer_call w body =
     (if hd w = ''VOTE'' then map_option (\<lambda>(grp, req). (grp, vq_candidate req, PeerVote req)) (parse_vote w)
      else map_option (\<lambda>(grp, req). (grp, aq_leader req, PeerAppend req)) (parse_append w body valid_command))"

fun answer_peer :: "'s RaftConfig \<Rightarrow> Millis \<Rightarrow> PeerCall \<Rightarrow> 's Raft \<Rightarrow> string \<times> 's Raft" where
  "answer_peer c now (PeerVote req) raft =
     (let (reply, raft) = handle_vote c req now raft in (encode_vote_reply reply, raft))"
| "answer_peer c now (PeerAppend req) raft =
     (let (reply, raft) = handle_append c req now raft in (encode_append_reply reply, raft))"

definition handle ::
  "platform \<Rightarrow> 's ReplicaConfig \<Rightarrow> string \<Rightarrow> string \<Rightarrow> Millis \<Rightarrow> 's Replica \<Rightarrow> Reply \<times> 's Replica"
where
  "handle P cfg line body now s =
     (if line = [] then (Now ''ERR empty request'', s)
      else let w = split_single_spaces line; n = length (rc_group cfg) in
        if rp_fatal s \<or> rp_stopping s then (Now STOPPING, s)
        else if hd w = ''VOTE'' \<or> hd w = ''APPEND'' then
          (case parse_peer_call w body of
             None \<Rightarrow> (Now (''ERR malformed '' @ hd w), s)
           | Some (grp, from, call) \<Rightarrow>
               if grp \<noteq> fingerprint P cfg \<or> from \<ge> n \<or> from = rc_id cfg
               then (Now ''ERR group mismatch'',
                     if from < n then s\<lparr>rp_mismatch_logged := (rp_mismatch_logged s)[from := True]\<rparr> else s)
               else let (reply, raft) = answer_peer (raft_config cfg) now call (rp_raft s);
                        s = dispatch (with_raft raft s)
                    in (Now (if rp_fatal s then STOPPING else reply), s))
        else if hd w = ''STATUS'' \<and> length w = 1 then (Now (status cfg s), s)
        else client_request P cfg line now s)"

section \<open>Threads\<close>

definition ticker_step :: "'s ReplicaConfig \<Rightarrow> Millis \<Rightarrow> 's Replica \<Rightarrow> 's Replica" where
  "ticker_step cfg now s = dispatch (with_raft (tick (raft_config cfg) now (rp_raft s)) s)"

text \<open>A sender takes the call pending for its peer and encodes it; later it hands in the reply.\<close>

definition sender_take :: "nat \<Rightarrow> 's Replica \<Rightarrow> Outgoing option \<times> 's Replica" where
  "sender_take p s = (rp_slots s ! p, s\<lparr>rp_slots := (rp_slots s)[p := None]\<rparr>)"

fun sender_message :: "platform \<Rightarrow> 's ReplicaConfig \<Rightarrow> Outgoing \<Rightarrow> string \<times> string" where
  "sender_message P cfg (VoteCall to req) = (encode_vote (fingerprint P cfg) req, [])"
| "sender_message P cfg (AppendCall to req) = encode_append (fingerprint P cfg) req"

definition reply_input :: "nat \<Rightarrow> Outgoing \<Rightarrow> Delivery \<Rightarrow> string \<Rightarrow> Millis \<Rightarrow> Input" where
  "reply_input p sent d reply now =
     (case sent of
        VoteCall to req \<Rightarrow>
          (case if d = Ok then parse_vote_reply reply else None of
             Some vr \<Rightarrow> VoteReplied p req vr now
           | None \<Rightarrow> CallFailed p sent now)
      | AppendCall to req \<Rightarrow>
          (case if d = Ok then parse_append_reply reply else None of
             Some ar \<Rightarrow> AppendReplied p req ar now
           | None \<Rightarrow> CallFailed p sent now))"

definition sender_reply ::
  "'s ReplicaConfig \<Rightarrow> nat \<Rightarrow> Outgoing \<Rightarrow> Delivery \<Rightarrow> string \<Rightarrow> Millis \<Rightarrow> 's Replica \<Rightarrow> 's Replica"
where
  "sender_reply cfg p sent d reply now s =
     (if rp_stopping s then s
      else let i = reply_input p sent d reply now;
               s = with_raft (raft_step (raft_config cfg) i (rp_raft s)) s;
               s = (case i of
                      CallFailed _ _ _ \<Rightarrow> s\<lparr>rp_calls_failed := (rp_calls_failed s)[p := Suc (rp_calls_failed s ! p)]\<rparr>
                    | _ \<Rightarrow> s)
           in dispatch s)"

definition stop_replica :: "'s Replica \<Rightarrow> 's Replica" where
  "stop_replica s = s\<lparr>rp_stopping := True\<rparr>"

section \<open>Events\<close>

datatype ReplicaEvent =
  EHandle string string Millis
| ETick Millis
| ESend nat
| EReply nat Outgoing Delivery string Millis
| EResumeWrite nat
| EResumeRead nat NamesRequest
| EStop

fun replica_step :: "platform \<Rightarrow> 's ReplicaConfig \<Rightarrow> ReplicaEvent \<Rightarrow> 's Replica \<Rightarrow> 's Replica" where
  "replica_step P cfg (EHandle line body now) s = snd (handle P cfg line body now s)"
| "replica_step P cfg (ETick now) s = ticker_step cfg now s"
| "replica_step P cfg (ESend p) s = snd (sender_take p s)"
| "replica_step P cfg (EReply p sent d reply now) s = sender_reply cfg p sent d reply now s"
| "replica_step P cfg (EResumeWrite tok) s = snd (resume_write tok s)"
| "replica_step P cfg (EResumeRead i r) s = snd (resume_read cfg i r s)"
| "replica_step P cfg EStop s = stop_replica s"

section \<open>What the core's steps do to the applied entries and the log\<close>

lemma finish_applies: "\<exists>xs. rf_applies (finish c s) = rf_applies s @ xs"
  by (auto simp: finish_def Let_def apply_committed_def)

definition extends_applies :: "'s Raft \<Rightarrow> 's Raft \<Rightarrow> bool" where
  "extends_applies s s' \<longleftrightarrow> (\<exists>xs. rf_applies s' = rf_applies s @ xs)"

lemma extends_finish: "rf_applies s1 = rf_applies s \<Longrightarrow> extends_applies s (finish c s1)"
  using finish_applies [of c s1] by (simp add: extends_applies_def)

lemma extends_same: "rf_applies s' = rf_applies s \<Longrightarrow> extends_applies s s'"
  by (simp add: extends_applies_def)

lemma handle_append_extends: "extends_applies s (snd (handle_append c req now s))"
proof -
  define s1 where "s1 = reset_election_timer c now (become_follower c (aq_term req) (Some (aq_leader req)) now s)"
  define s2 where "s2 = append_entries (aq_prev_index req) (aq_entries req) s1"
  have "rf_applies s1 = rf_applies s" "rf_applies s2 = rf_applies s" by (simp_all add: s1_def s2_def)
  then show ?thesis
    unfolding handle_append_def Let_def s1_def [symmetric] s2_def [symmetric]
    by (auto intro!: extends_finish extends_same [of s s] extends_same [of s2] simp del: finish_simps)
qed

lemma raft_step_applies: "extends_applies s (raft_step c i s)"
proof (cases i)
  case (CallFailed to sent now)
  then show ?thesis by (auto simp: call_failed_def Let_def intro!: extends_same split: Outgoing.splits)
qed (auto simp: handle_append_extends tick_def handle_vote_def handle_vote_reply_def handle_append_reply_def propose_def
      read_def Let_def simp del: finish_simps intro!: extends_finish extends_same [of s s])

text \<open>The commands an input can bring into the log.\<close>

fun input_commands :: "(string \<Rightarrow> bool) \<Rightarrow> Input \<Rightarrow> bool" where
  "input_commands Q (Append req _) = (\<forall>e\<in>set (aq_entries req). Q (e_command e))"
| "input_commands Q (Propose command _) = Q command"
| "input_commands Q _ = True"

lemma append_entries_set: "set (rf_log (append_entries i es s)) \<subseteq> set (rf_log s) \<union> set es"
proof (induction es arbitrary: i s)
  case (Cons e es)
  let ?push = "\<lambda>s. changed_from (Suc i) (s\<lparr>rf_log := rf_log s @ [e]\<rparr>)"
  let ?cut = "changed_from (Suc i) (s\<lparr>rf_log := take i (rf_log s)\<rparr>)"
  have "set (take i (rf_log s)) \<subseteq> set (rf_log s)" by (rule set_take_subset)
  with Cons.IH [of "Suc i" s] Cons.IH [of "Suc i" "?push s"] Cons.IH [of "Suc i" "?push ?cut"] show ?case
    by (simp add: Let_def) blast
qed simp

lemma append_entries_commands:
  "\<forall>e\<in>set (rf_log s). Q (e_command e) \<Longrightarrow> \<forall>e\<in>set es. Q (e_command e) \<Longrightarrow>
     \<forall>e\<in>set (rf_log (append_entries i es s)). Q (e_command e)"
  using append_entries_set [of i es s] by blast

lemma raft_step_commands:
  assumes "\<forall>e\<in>set (rf_log s). Q (e_command e)" "Q ''NOOP''" "input_commands Q i"
  shows "\<forall>e\<in>set (rf_log (raft_step c i s)). Q (e_command e)"
proof (cases i)
  case (Append req now)
  let ?s = "reset_election_timer c now (become_follower c (aq_term req) (Some (aq_leader req)) now s)"
  have "\<forall>e\<in>set (rf_log (append_entries (aq_prev_index req) (aq_entries req) ?s)). Q (e_command e)"
    using assms Append by (intro append_entries_commands) auto
  then show ?thesis using assms by (auto simp: Append handle_append_def Let_def)
next
  case (CallFailed to sent now)
  then show ?thesis using assms by (auto simp: call_failed_def Let_def split: Outgoing.splits)
qed (use assms in \<open>auto simp: tick_def handle_vote_def handle_vote_reply_def handle_append_reply_def propose_def read_def
      noop_log_def Let_def\<close>)

section \<open>The replica's invariant\<close>

definition replica_inv :: "'s ReplicaConfig \<Rightarrow> 's Replica \<Rightarrow> bool" where
  "replica_inv cfg s \<longleftrightarrow>
     raft_ok (raft_config cfg) (rp_raft s) \<and> (\<forall>e\<in>set (rf_log (rp_raft s)). valid_command (e_command e)) \<and>
     rp_ns s = apply_all (map (e_command \<circ> snd) (rf_applies (rp_raft s))) [] \<and>
     length (rp_slots s) = length (rc_group cfg)"

lemma on_apply_simps [simp]:
  "rp_raft (on_apply ie s) = rp_raft s" "rp_slots (on_apply ie s) = rp_slots s"
  "rp_ns (on_apply ie s) = snd (apply_command (e_command (snd ie)) (rp_ns s))"
  by (simp_all add: on_apply_def Let_def split: prod.splits)

lemma fold_on_apply_simps [simp]:
  "rp_raft (fold on_apply xs s) = rp_raft s" "rp_slots (fold on_apply xs s) = rp_slots s"
  "rp_ns (fold on_apply xs s) = apply_all (map (e_command \<circ> snd) xs) (rp_ns s)"
  by (induction xs arbitrary: s) (simp_all add: apply_all_def)

lemma apply_all_append: "apply_all (xs @ ys) ns = apply_all ys (apply_all xs ns)"
  by (simp add: apply_all_def)

lemma with_raft_simps [simp]:
  "rp_raft (with_raft raft s) = raft" "rp_slots (with_raft raft s) = rp_slots s"
  by (simp_all add: with_raft_def)

lemma fill_slot_simps [simp]:
  "rp_raft (fold fill_slot out s) = rp_raft s" "rp_ns (fold fill_slot out s) = rp_ns s"
  "length (rp_slots (fold fill_slot out s)) = length (rp_slots s)"
  by (induction out arbitrary: s) (simp_all add: fill_slot_def)

lemma wake_read_simps [simp]:
  "rp_raft (fold wake_read rs s) = rp_raft s" "rp_ns (fold wake_read rs s) = rp_ns s"
  "rp_slots (fold wake_read rs s) = rp_slots s"
  by (induction rs arbitrary: s) (simp_all add: wake_read_def)

lemma count_changes_simps [simp]:
  "rp_raft (count_changes s) = rp_raft s" "rp_ns (count_changes s) = rp_ns s" "rp_slots (count_changes s) = rp_slots s"
  by (simp_all add: count_changes_def Let_def)

lemma dispatch_simps [simp]:
  "rp_raft (dispatch s) = (rp_raft s)\<lparr>rf_out := [], rf_read_results := []\<rparr>" "rp_ns (dispatch s) = rp_ns s"
  "length (rp_slots (dispatch s)) = length (rp_slots s)"
  by (simp_all add: dispatch_def Let_def take_outgoing_def take_reads_def)

lemma dispatch_inv: "replica_inv cfg s \<Longrightarrow> replica_inv cfg (dispatch s)"
  by (simp add: replica_inv_def raft_ok_simps)

lemma quiet_replica_inv:
  "replica_inv cfg s \<Longrightarrow> rp_raft s' = rp_raft s \<Longrightarrow> rp_ns s' = rp_ns s \<Longrightarrow> length (rp_slots s') = length (rp_slots s) \<Longrightarrow>
     replica_inv cfg s'"
  by (simp add: replica_inv_def)

lemma valid_noop: "valid_command ''NOOP''"
  by (simp add: valid_command_def)

lemma replica_ns_ok: "replica_inv cfg s \<Longrightarrow> ns_ok (rp_ns s)"
  using apply_all_ok [of "[]"] by (simp add: replica_inv_def ns_ok_def)

lemma with_raft_inv:
  assumes inv: "replica_inv cfg s" and ok: "input_ok i" "input_commands valid_command i"
    and s': "rp_raft s' = rp_raft s" "rp_ns s' = rp_ns s" "rp_slots s' = rp_slots s"
  shows "replica_inv cfg (with_raft (raft_step (raft_config cfg) i (rp_raft s)) s')"
proof -
  let ?raft = "raft_step (raft_config cfg) i (rp_raft s)"
  obtain xs where xs: "rf_applies ?raft = rf_applies (rp_raft s) @ xs"
    using raft_step_applies [of "rp_raft s"] unfolding extends_applies_def by blast
  have "raft_ok (raft_config cfg) ?raft" using inv ok(1) by (intro raft_step_ok) (auto simp: replica_inv_def)
  moreover have "\<forall>e\<in>set (rf_log ?raft). valid_command (e_command e)"
    using inv ok(2) valid_noop by (intro raft_step_commands) (auto simp: replica_inv_def)
  moreover have "rp_ns (with_raft ?raft s') = apply_all (map (e_command \<circ> snd) xs) (rp_ns s)"
    using s' xs by (simp add: with_raft_def)
  ultimately show ?thesis
    using inv s' xs by (auto simp: replica_inv_def apply_all_append)
qed

text \<open>The command a client's request puts in the log.\<close>

definition client_command :: "platform \<Rightarrow> NamesRequest \<Rightarrow> string" where
  "client_command P r =
     (if nr_kind r = KRegister then register_command (nr_name r) (nr_key r) (nr_owner r)
      else unregister_command (nr_name r) (owner_hash P (nr_secret r)))"

lemma client_command_valid:
  assumes "platform_ok P" "r = parse_names_request line" "nr_kind r = KRegister \<or> nr_kind r = KUnregister"
  shows "valid_command (client_command P r)"
proof -
  have "valid_key (owner_hash P (nr_secret r))" using assms(1) by (simp add: owner_hash_def valid_chunk_key)
  then show ?thesis
    using assms(2,3) parse_names_register [of line] parse_names_unregister [of line]
      command_text_valid [of "RegisterC (nr_name r) (nr_key r) (nr_owner r)"]
      command_text_valid [of "UnregisterC (nr_name r) (owner_hash P (nr_secret r))"]
    by (auto simp: client_command_def)
qed

lemma client_request_inv:
  assumes P: "platform_ok P" and inv: "replica_inv cfg s"
  shows "replica_inv cfg (snd (client_request P cfg line now s))"
proof -
  let ?r = "parse_names_request line"
  have propose: "replica_inv cfg (with_raft (snd (propose (raft_config cfg) (client_command P ?r) now (rp_raft s))) s')"
    if "nr_kind ?r = KRegister \<or> nr_kind ?r = KUnregister"
      "rp_raft s' = rp_raft s" "rp_ns s' = rp_ns s" "rp_slots s' = rp_slots s" for s'
    using with_raft_inv [OF inv, of "Propose (client_command P ?r) now" s'] client_command_valid [OF P refl that(1)] that(2-4)
    by simp
  have read: "replica_inv cfg (with_raft (snd (read (raft_config cfg) i now (rp_raft s))) s')"
    if "rp_raft s' = rp_raft s" "rp_ns s' = rp_ns s" "rp_slots s' = rp_slots s" for s' i
    using with_raft_inv [OF inv, of "Read i now" s'] that by simp
  have drop_w: "replica_inv cfg (x\<lparr>rp_writes := ws\<rparr>)" if "replica_inv cfg x" for x ws
    using that by (rule quiet_replica_inv) simp_all
  have drop_r: "replica_inv cfg (x\<lparr>rp_reads := rs\<rparr>)" if "replica_inv cfg x" for x rs
    using that by (rule quiet_replica_inv) simp_all
  show ?thesis
    unfolding client_request_def Let_def client_command_def [symmetric] case_prod_unfold
    using inv by (auto intro!: dispatch_inv drop_w drop_r propose read)
qed

lemma answer_peer_step:
  "\<exists>i. snd (answer_peer c now call raft) = raft_step c i raft \<and>
     (\<forall>req. call = PeerVote req \<longrightarrow> i = Vote req now) \<and> (\<forall>req. call = PeerAppend req \<longrightarrow> i = Append req now)"
  by (cases call) (auto simp: Let_def case_prod_unfold intro: exI [of _ "Vote _ _"] exI [of _ "Append _ _"])

lemma parse_peer_call_ok:
  "parse_peer_call w body = Some (grp, from, PeerAppend req) \<Longrightarrow>
     append_ok req \<and> (\<forall>e\<in>set (aq_entries req). valid_command (e_command e))"
  by (auto simp: parse_peer_call_def split: if_splits dest!: parse_append_facts)

lemma handle_inv:
  assumes P: "platform_ok P" and inv: "replica_inv cfg s"
  shows "replica_inv cfg (snd (handle P cfg line body now s))"
proof -
  have peer: "replica_inv cfg (with_raft (snd (answer_peer (raft_config cfg) now call (rp_raft s))) s)"
    if "parse_peer_call w body = Some (grp, from, call)" for w grp "from" call
  proof (cases call)
    case (PeerVote req)
    then show ?thesis using with_raft_inv [OF inv, of "Vote req now" s] by (simp add: Let_def case_prod_unfold)
  next
    case (PeerAppend req)
    then show ?thesis
      using with_raft_inv [OF inv, of "Append req now" s] parse_peer_call_ok [of w body grp "from" req] that
      by (simp add: Let_def case_prod_unfold)
  qed
  have logged: "replica_inv cfg (s\<lparr>rp_mismatch_logged := m\<rparr>)" for m
    using inv by (rule quiet_replica_inv) simp_all
  show ?thesis
    unfolding handle_def Let_def case_prod_unfold
    using inv peer logged client_request_inv [OF P inv]
    by (auto intro!: dispatch_inv simp: case_prod_unfold split: option.splits)
qed

lemma replica_step_inv:
  assumes P: "platform_ok P" and inv: "replica_inv cfg s"
  shows "replica_inv cfg (replica_step P cfg ev s)"
proof (cases ev)
  case (EHandle line body now)
  then show ?thesis using handle_inv [OF P inv] by simp
next
  case (ETick now)
  then show ?thesis using with_raft_inv [OF inv, of "Tick now" s] by (simp add: ticker_step_def dispatch_inv)
next
  case (ESend p)
  then show ?thesis using inv by (auto simp: sender_take_def intro: quiet_replica_inv)
next
  case (EReply p sent d reply now)
  let ?i = "reply_input p sent d reply now"
  let ?s = "with_raft (raft_step (raft_config cfg) ?i (rp_raft s)) s"
  have "replica_inv cfg ?s"
    by (rule with_raft_inv [OF inv]) (auto simp: reply_input_def split: Outgoing.splits option.splits)
  then have "replica_inv cfg (dispatch ?s)" "replica_inv cfg (dispatch (?s\<lparr>rp_calls_failed := f\<rparr>))" for f
    by (auto intro!: dispatch_inv intro: quiet_replica_inv)
  then show ?thesis using inv by (auto simp: EReply sender_reply_def Let_def split: Input.splits)
next
  case (EResumeWrite tok)
  then show ?thesis using inv by (auto simp: resume_write_def split: option.splits intro: quiet_replica_inv)
next
  case (EResumeRead i r)
  then show ?thesis using inv by (auto simp: resume_read_def split: option.splits intro: quiet_replica_inv)
next
  case EStop
  then show ?thesis using inv by (auto simp: stop_replica_def intro: quiet_replica_inv)
qed

lemma raft_init_log: "set (rf_log (raft_init c st d now)) \<subseteq> set (d_log d) \<union> {e. e_command e = ''NOOP''}"
  by (auto simp: raft_init_def raft_boot_def Let_def noop_log_def)

lemma replica_init_inv:
  assumes "rc_id cfg < length (rc_group cfg)" "log_sorted (d_log d) (d_term d)"
    "\<forall>e\<in>set (d_log d). valid_command (e_command e)"
  shows "replica_inv cfg (replica_init cfg st d now)"
proof -
  let ?c = "raft_config cfg"
  have "raft_ok ?c (raft_init ?c st d now)"
    using assms by (intro raft_init_ok) (simp_all add: raft_config_def)
  moreover have "\<forall>e\<in>set (rf_log (raft_init ?c st d now)). valid_command (e_command e)"
    using raft_init_log [of ?c st d now] assms(3) valid_noop by fastforce
  ultimately show ?thesis
    unfolding replica_init_def Let_def
    by (intro dispatch_inv) (simp add: replica_inv_def with_raft_def raft_boot_def Let_def)
qed

lemma replica_run_inv: "platform_ok P \<Longrightarrow> replica_inv cfg s \<Longrightarrow> replica_inv cfg (fold (replica_step P cfg) evs s)"
  by (induction evs arbitrary: s) (auto intro: replica_step_inv)

section \<open>What a replica promises\<close>


definition sample_replica_config :: "nat \<Rightarrow> FileStorage ReplicaConfig" where
  "sample_replica_config n =
     \<lparr>rc_group = map (\<lambda>i. \<lparr>a_ip = ''127.0.0.1'', a_port = 7000 + i\<rparr>) [0..<n], rc_id = 0, rc_election = 150,
      rc_spread = (\<lambda>_. 0), rc_save = file_save sample_platform\<rparr>"


text \<open>
  A call from outside the group changes nothing: a well-formed VOTE or APPEND with another
  group's fingerprint, from an id the group does not have, or from this replica's own id is
  refused and neither the core nor the namespace nor the pending requests change.
\<close>

theorem foreign_call_refused:
  assumes "parse_peer_call (split_single_spaces line) body = Some (grp, from, call)"
    and "hd (split_single_spaces line) = ''VOTE'' \<or> hd (split_single_spaces line) = ''APPEND''"
    and "grp \<noteq> fingerprint P cfg \<or> from \<ge> length (rc_group cfg) \<or> from = rc_id cfg"
    and "\<not> rp_fatal s" "\<not> rp_stopping s" "line \<noteq> []" "handle P cfg line body now s = (reply, s')"
  shows "reply = Now ''ERR group mismatch'' \<and> rp_raft s' = rp_raft s \<and> rp_ns s' = rp_ns s \<and>
    rp_writes s' = rp_writes s \<and> rp_slots s' = rp_slots s"
  using assms by (auto simp: handle_def Let_def split: if_splits)

lemma sample_foreign_vote:
  "parse_peer_call (split_single_spaces ''VOTE x 5 1 0 0'') [] = Some (''x'', 1, PeerVote (sample_vote 1 0))"
  by (simp add: parse_peer_call_def parse_vote_def parse_u64_def parse_id_def sample_vote_def is_digit_def digit_val_def)

lemma sample_first_word: "hd (split_single_spaces ''VOTE x 5 1 0 0'') = ''VOTE''"
  by simp

definition sample_replica :: "FileStorage Replica" where
  "sample_replica = (replica_init (sample_replica_config 3) fresh_file empty_durable 0)\<lparr>rp_fatal := False, rp_stopping := False\<rparr>"

theorem foreign_call_refused_witness:
  "fst (handle sample_platform (sample_replica_config 3) ''VOTE x 5 1 0 0'' [] 10 sample_replica) = Now ''ERR group mismatch''"
proof -
  have s: "\<not> rp_fatal sample_replica" "\<not> rp_stopping sample_replica" by (simp_all add: sample_replica_def)
  have "length (fingerprint sample_platform (sample_replica_config 3)) = 8"
    using sha1_length [OF sample_platform_ok] by (simp add: fingerprint_def group_fingerprint_def)
  moreover have "length ''x'' \<noteq> 8" by simp
  ultimately have x: "''x'' \<noteq> fingerprint sample_platform (sample_replica_config 3)" by metis
  have ne: "''VOTE x 5 1 0 0'' \<noteq> []" by simp
  obtain reply s' where h: "handle sample_platform (sample_replica_config 3) ''VOTE x 5 1 0 0'' [] 10 sample_replica = (reply, s')"
    by (cases "handle sample_platform (sample_replica_config 3) ''VOTE x 5 1 0 0'' [] 10 sample_replica")
  from foreign_call_refused [OF sample_foreign_vote disjI1 [OF sample_first_word] disjI1 [OF x] s ne h]
  show ?thesis unfolding h by simp
qed

text \<open>
  What a client's write puts in the log: a REGISTER or UNREGISTER accepted by the leader
  appends exactly one entry, with the leader's term and the command the request stands for;
  for a deletion that command carries the hash of the secret and not the secret. The request
  is then waiting at that entry's index and term, or already answered.
\<close>

theorem client_write_logged:
  assumes "r = parse_names_request line" "nr_kind r = KRegister \<or> nr_kind r = KUnregister"
    and "rf_role (rp_raft s) = Leader" "\<not> rf_stopped (rp_raft s)" "client_request P cfg line now s = (reply, s')"
  shows "rf_log (rp_raft s') =
      rf_log (rp_raft s) @ [\<lparr>e_term = rf_term (rp_raft s),
        e_command = (if nr_kind r = KRegister then register_command (nr_name r) (nr_key r) (nr_owner r)
                     else unregister_command (nr_name r) (owner_hash P (nr_secret r)))\<rparr>] \<and>
    rf_term (rp_raft s') = rf_term (rp_raft s) \<and>
    (reply = WaitWrite (rp_next_waiter s) \<or> rf_stopped (rp_raft s'))"
proof -
  let ?cmd = "client_command P r"
  let ?raft = "snd (propose (raft_config cfg) ?cmd now (rp_raft s))"
  have log: "rf_log ?raft = rf_log (rp_raft s) @ [\<lparr>e_term = rf_term (rp_raft s), e_command = ?cmd\<rparr>]"
    "rf_term ?raft = rf_term (rp_raft s)"
    "fst (propose (raft_config cfg) ?cmd now (rp_raft s)) = None \<longleftrightarrow> rf_stopped ?raft"
    using assms(3,4) by (simp_all add: propose_def Let_def)
  have "rp_raft s' = ?raft\<lparr>rf_out := [], rf_read_results := []\<rparr> \<and> (reply = WaitWrite (rp_next_waiter s) \<or> rf_stopped ?raft)"
    using assms(2,3,5) log(3)
    unfolding client_request_def Let_def assms(1) [symmetric] client_command_def [symmetric] case_prod_unfold
    by (auto split: if_splits)
  then show ?thesis using log(1,2) by (auto simp: client_command_def)
qed

definition sample_leader :: "FileStorage Replica" where
  "sample_leader = sample_replica\<lparr>rp_raft := (rp_raft sample_replica)\<lparr>rf_role := Leader, rf_stopped := False\<rparr>\<rparr>"

lemma sample_register:
  "parse_names_request (register_command ''a.txt'' sample_key []) =
     (invalid_request [])\<lparr>nr_kind := KRegister, nr_name := ''a.txt'', nr_key := sample_key\<rparr>"
proof -
  have "split_single_spaces (register_command ''a.txt'' sample_key []) = [''REGISTER'', ''a.txt'', sample_key]"
    using register_words [OF sample_name_valid sample_key_valid, of "[]"] by simp
  moreover have "register_command ''a.txt'' sample_key [] \<noteq> []" by (simp add: register_command_def)
  ultimately show ?thesis
    using sample_name_valid sample_key_valid
    by (simp add: parse_names_request_def parse_register_def invalid_request_def Let_def)
qed

theorem client_write_logged_witness:
  "\<exists>reply s'. client_request sample_platform (sample_replica_config 3) (register_command ''a.txt'' sample_key []) 5 sample_leader =
     (reply, s') \<and> e_command (last (rf_log (rp_raft s'))) = register_command ''a.txt'' sample_key []"
proof -
  let ?line = "register_command ''a.txt'' sample_key []"
  obtain reply s' where h: "client_request sample_platform (sample_replica_config 3) ?line 5 sample_leader = (reply, s')"
    by (cases "client_request sample_platform (sample_replica_config 3) ?line 5 sample_leader")
  have k: "nr_kind (parse_names_request ?line) = KRegister" by (simp add: sample_register)
  have l: "rf_role (rp_raft sample_leader) = Leader" "\<not> rf_stopped (rp_raft sample_leader)"
    by (simp_all add: sample_leader_def)
  from client_write_logged [OF refl disjI1 [OF k] l h] show ?thesis
    using h by (auto simp: sample_register invalid_request_def)
qed

end
