(* ===== verification/Log_Lines.thy ===== *)
theory Log_Lines
  imports Net
begin

text \<open>
  \<^verbatim>\<open>src/log.h\<close> and \<^verbatim>\<open>src/log.cpp\<close>: structured log lines and request ids. The clock's text, the random
  numbers and the results of the \<^verbatim>\<open>write\<close> calls are arguments; what the process has set once is a record.
\<close>

section \<open>Levels\<close>

datatype Level = Debug | Info | Warn | Error

fun level_name :: "Level \<Rightarrow> string" where
  "level_name Debug = ''debug''"
| "level_name Info = ''info''"
| "level_name Warn = ''warn''"
| "level_name Error = ''error''"

fun level_rank :: "Level \<Rightarrow> nat" where
  "level_rank Debug = 0"
| "level_rank Info = 1"
| "level_rank Warn = 2"
| "level_rank Error = 3"

definition parse_level :: "string \<Rightarrow> Level option" where
  "parse_level s = find (\<lambda>l. s = level_name l) [Debug, Info, Warn, Error]"

section \<open>The process\<close>

record LogState =
  lg_process :: string
  lg_threshold :: Level
  lg_fd :: int
  lg_process_request_id :: string

definition log_start :: LogState where
  "log_start = \<lparr>lg_process = ''?'', lg_threshold = Info, lg_fd = 2, lg_process_request_id = []\<rparr>"

definition log_setup :: "string \<Rightarrow> Level \<Rightarrow> int \<Rightarrow> LogState \<Rightarrow> LogState" where
  "log_setup process threshold fd g = g\<lparr>lg_process := process, lg_threshold := threshold, lg_fd := fd\<rparr>"

definition log_enabled :: "LogState \<Rightarrow> Level \<Rightarrow> bool" where
  "log_enabled g l \<longleftrightarrow> lg_fd g \<ge> 0 \<and> level_rank l \<ge> level_rank (lg_threshold g)"

section \<open>Lines\<close>

definition needs_quotes :: "string \<Rightarrow> bool" where
  "needs_quotes v \<longleftrightarrow>
     v = [] \<or> (\<exists>c\<in>set v. (of_char c :: nat) \<le> 0x20 \<or> c = CHR ''='' \<or> c = CHR 0x22 \<or> c = CHR 0x5C \<or> c = CHR 0x7F)"

definition escaped :: "char \<Rightarrow> string" where
  "escaped c =
     (if c = CHR 0x22 then [CHR 0x5C, CHR 0x22]
      else if c = CHR 0x5C then [CHR 0x5C, CHR 0x5C]
      else if c = CHR 0x0A then [CHR 0x5C, CHR ''n'']
      else if c = CHR 0x0D then [CHR 0x5C, CHR ''r'']
      else if c = CHR 0x09 then [CHR 0x5C, CHR ''t'']
      else if (of_char c :: nat) < 0x20 \<or> c = CHR 0x7F then [CHR 0x5C, CHR ''x''] @ hex_pad 2 (of_char c)
      else [c])"

definition logfmt_value :: "string \<Rightarrow> string" where
  "logfmt_value v = (if \<not> needs_quotes v then v else [CHR 0x22] @ concat (map escaped v) @ [CHR 0x22])"

definition field_text :: "string \<times> string \<Rightarrow> string" where
  "field_text f = '' '' @ fst f @ ''='' @ logfmt_value (snd f)"

definition format_log_line :: "string \<Rightarrow> Level \<Rightarrow> string \<Rightarrow> string \<Rightarrow> string \<Rightarrow> (string \<times> string) list \<Rightarrow> string" where
  "format_log_line timestamp level process request_id event fs =
     ''ts='' @ timestamp @ '' level='' @ level_name level @ '' proc='' @ logfmt_value process @
     (if request_id = [] then [] else '' req='' @ logfmt_value request_id) @
     '' event='' @ logfmt_value event @ concat (map field_text fs)"

definition MAX_LOG_LINE :: nat where
  "MAX_LOG_LINE = 4096"

definition cut_log_line :: "string \<Rightarrow> string" where
  "cut_log_line line = (if length line > MAX_LOG_LINE - 1 then take (MAX_LOG_LINE - 4) line @ ''...'' else line) @ [CHR 0x0A]"

text \<open>
  The results of successive \<^verbatim>\<open>write\<close> calls: bytes taken, an interrupted call, an error. The bytes that
  reached the file are returned; \<open>None\<close> is a loop that goes on after the calls listed.
\<close>

datatype LogWrite = LogWrote nat | LogInterrupted | LogFailed

fun write_log :: "string \<Rightarrow> LogWrite list \<Rightarrow> string option" where
  "write_log [] ws = Some []"
| "write_log line [] = None"
| "write_log line (LogInterrupted # ws) = write_log line ws"
| "write_log line (LogFailed # ws) = Some []"
| "write_log line (LogWrote n # ws) =
     (if n = 0 then Some [] else map_option ((@) (take n line)) (write_log (drop n line) ws))"

section \<open>Request ids\<close>

text \<open>\<open>a\<close> and \<open>b\<close>: two draws of the random source.\<close>

definition new_request_id :: "32 word \<Rightarrow> 32 word \<Rightarrow> string" where
  "new_request_id a b = id_to_hex (xor (push_bit 32 (ucast a)) (ucast b))"

definition set_process_request_id :: "string \<Rightarrow> LogState \<Rightarrow> LogState" where
  "set_process_request_id i g = g\<lparr>lg_process_request_id := i\<rparr>"

text \<open>\<open>t\<close>: the id of the request this thread handles, empty when it handles none.\<close>

definition current_request_id :: "LogState \<Rightarrow> string \<Rightarrow> string" where
  "current_request_id g t = (if t = [] then lg_process_request_id g else t)"

text \<open>A \<^verbatim>\<open>RequestScope\<close>: what runs inside it sees the id; the thread's own is back afterwards.\<close>

definition request_scope :: "string \<Rightarrow> (string \<Rightarrow> 'a \<times> string) \<Rightarrow> string \<Rightarrow> 'a \<times> string" where
  "request_scope i body t = (fst (body i), t)"

definition log_event ::
  "LogState \<Rightarrow> string \<Rightarrow> string \<Rightarrow> LogWrite list \<Rightarrow> Level \<Rightarrow> string \<Rightarrow> (string \<times> string) list \<Rightarrow> string option"
where
  "log_event g t timestamp writes level event fs =
     (if \<not> log_enabled g level then Some []
      else write_log (cut_log_line (format_log_line timestamp level (lg_process g) (current_request_id g t) event fs)) writes)"

section \<open>Reading a line back\<close>

text \<open>What a reader of the log does: a value in quotes up to the closing quote, any other up to the next space.\<close>

fun unescape :: "char \<Rightarrow> char option" where
  "unescape c =
     (if c = CHR ''n'' then Some (CHR 0x0A) else if c = CHR ''r'' then Some (CHR 0x0D) else if c = CHR ''t'' then Some (CHR 0x09)
      else if c = CHR 0x22 \<or> c = CHR 0x5C then Some c else None)"

fun read_quoted :: "string \<Rightarrow> (string \<times> string) option" where
  "read_quoted [] = None"
| "read_quoted (c # cs) =
     (if c = CHR 0x22 then Some ([], cs)
      else if c \<noteq> CHR 0x5C then map_option (map_prod ((#) c) id) (read_quoted cs)
      else case cs of
        x # h # l # rest \<Rightarrow>
          if x = CHR ''x'' then
            (case (hex_nibble h, hex_nibble l) of
               (Some a, Some b) \<Rightarrow> map_option (map_prod ((#) (char_of (16 * a + b))) id) (read_quoted rest)
             | _ \<Rightarrow> None)
          else (case unescape x of None \<Rightarrow> None | Some y \<Rightarrow> map_option (map_prod ((#) y) id) (read_quoted (h # l # rest)))
      | x # rest \<Rightarrow> (case unescape x of None \<Rightarrow> None | Some y \<Rightarrow> map_option (map_prod ((#) y) id) (read_quoted rest))
      | [] \<Rightarrow> None)"

definition logfmt_read :: "string \<Rightarrow> (string \<times> string) option" where
  "logfmt_read s =
     (if s \<noteq> [] \<and> hd s = CHR 0x22 then read_quoted (tl s) else Some (takeWhile (\<lambda>c. c \<noteq> CHR '' '') s, dropWhile (\<lambda>c. c \<noteq> CHR '' '') s))"

text \<open>At most \<open>n\<close> fields, each after a space.\<close>

fun read_fields :: "nat \<Rightarrow> string \<Rightarrow> (string \<times> string) list option" where
  "read_fields n [] = Some []"
| "read_fields 0 s = None"
| "read_fields (Suc n) (c # s) =
     (case logfmt_read (tl (dropWhile (\<lambda>c. c \<noteq> CHR ''='') s)) of
        None \<Rightarrow> None
      | Some (v, rest) \<Rightarrow> map_option ((#) (takeWhile (\<lambda>c. c \<noteq> CHR ''='') s, v)) (read_fields n rest))"

definition read_log_line :: "string \<Rightarrow> (string \<times> string) list option" where
  "read_log_line line = read_fields (length line) ('' '' @ line)"

lemma nibble_of_hex: "k < 16 \<Longrightarrow> hex_nibble (hex_char k) = Some k"
  by (auto simp: hex_nibble_def hex_char_def)

lemma read_escape:
  "unescape x = Some y \<Longrightarrow> read_quoted (CHR 0x5C # x # rest) = map_option (map_prod ((#) y) id) (read_quoted rest)"
  by (cases rest; cases "tl rest") (auto split: if_splits)

lemma read_hex: "n < 256 \<Longrightarrow> read_quoted ([CHR 0x5C, CHR ''x''] @ hex_pad 2 n @ rest) = map_option (map_prod ((#) (char_of n)) id) (read_quoted rest)"
  by (simp add: numeral_2_eq_2 nibble_of_hex del: unescape.simps)

lemma read_escaped: "read_quoted (escaped c @ rest) = map_option (map_prod ((#) c) id) (read_quoted rest)"
proof (cases "c \<in> {CHR 0x22, CHR 0x5C, CHR 0x0A, CHR 0x0D, CHR 0x09}")
  case True
  then have "\<exists>x. escaped c = [CHR 0x5C, x] \<and> unescape x = Some c" by (auto simp: escaped_def)
  then obtain x where "escaped c = [CHR 0x5C, x]" "unescape x = Some c" by blast
  then show ?thesis using read_escape [of x c rest] by (simp only: append.simps)
next
  case False
  show ?thesis
  proof (cases "(of_char c :: nat) < 0x20 \<or> c = CHR 0x7F")
    case True
    then have "escaped c = [CHR 0x5C, CHR ''x''] @ hex_pad 2 (of_char c)" using False by (auto simp: escaped_def)
    moreover have "(of_char c :: nat) < 256" by (rule nat_of_char_less_256)
    ultimately show ?thesis using read_hex [of "of_char c" rest] by (simp only: append_assoc char_of_char)
  next
    case False
    then have "escaped c = [c]" "c \<noteq> CHR 0x22" "c \<noteq> CHR 0x5C" using \<open>c \<notin> _\<close> by (simp_all add: escaped_def)
    then show ?thesis by simp
  qed
qed

lemma read_quoted_value: "read_quoted (concat (map escaped v) @ CHR 0x22 # rest) = Some (v, rest)"
  by (induction v) (simp_all add: read_escaped)

lemma plain_value:
  assumes "\<not> needs_quotes v"
  shows "CHR '' '' \<notin> set v \<and> v \<noteq> [] \<and> hd v \<noteq> CHR 0x22"
proof -
  have "\<not> (of_char (CHR '' '') :: nat) > 0x20" by simp
  then have "CHR '' '' \<notin> set v" "CHR 0x22 \<notin> set v" "v \<noteq> []" using assms unfolding needs_quotes_def not_le [symmetric] by blast+
  then show ?thesis using hd_in_set by fastforce
qed

lemma read_value:
  assumes "rest = [] \<or> hd rest = CHR '' ''"
  shows "logfmt_read (logfmt_value v @ rest) = Some (v, rest)"
proof (cases "needs_quotes v")
  case True
  then show ?thesis by (simp add: logfmt_value_def logfmt_read_def read_quoted_value)
next
  case False
  then have v: "\<forall>c\<in>set v. c \<noteq> CHR '' ''" "v \<noteq> []" "hd v \<noteq> CHR 0x22" using plain_value by metis+
  have "takeWhile (\<lambda>c. c \<noteq> CHR '' '') rest = []" "dropWhile (\<lambda>c. c \<noteq> CHR '' '') rest = rest" using assms by (cases rest; simp)+
  then show ?thesis using False v by (simp add: logfmt_value_def logfmt_read_def)
qed

lemma fields_start: "concat (map field_text fs) = [] \<or> hd (concat (map field_text fs)) = CHR '' ''"
  by (cases fs) (simp_all add: field_text_def)

lemma read_field_texts:
  "\<forall>f\<in>set fs. CHR ''='' \<notin> set (fst f) \<Longrightarrow> length fs \<le> n \<Longrightarrow> read_fields n (concat (map field_text fs)) = Some fs"
proof (induction fs arbitrary: n)
  case (Cons f fs)
  obtain m where n: "n = Suc m" using Cons.prems(2) by (cases n) auto
  let ?rest = "logfmt_value (snd f) @ concat (map field_text fs)"
  have "takeWhile (\<lambda>c. c \<noteq> CHR ''='') (fst f @ CHR ''='' # ?rest) = fst f" "dropWhile (\<lambda>c. c \<noteq> CHR ''='') (fst f @ CHR ''='' # ?rest) = CHR ''='' # ?rest"
    using Cons.prems(1) by (simp_all add: takeWhile_append dropWhile_append)
  moreover have "concat (map field_text (f # fs)) = CHR '' '' # fst f @ CHR ''='' # ?rest" by (simp add: field_text_def)
  ultimately show ?case using Cons n read_value [OF fields_start, of "snd f" fs] by simp
qed simp

text \<open>
  C0. A log line reads back as exactly what was logged: the time, the level, the process, the request if
  there is one, the event and every field with its value, whatever bytes the values have. No value can add
  a field or a line.
\<close>

theorem log_line_read_back:
  assumes "\<not> needs_quotes timestamp" "\<forall>f\<in>set fs. CHR ''='' \<notin> set (fst f)"
  shows "read_log_line (format_log_line timestamp level process request_id event fs) =
    Some ([(''ts'', timestamp), (''level'', level_name level), (''proc'', process)] @
          (if request_id = [] then [] else [(''req'', request_id)]) @ [(''event'', event)] @ fs)"
proof -
  let ?all = "[(''ts'', timestamp), (''level'', level_name level), (''proc'', process)] @
    (if request_id = [] then [] else [(''req'', request_id)]) @ [(''event'', event)] @ fs"
  let ?line = "format_log_line timestamp level process request_id event fs"
  have "\<not> needs_quotes (level_name level)" by (cases level) (simp_all add: needs_quotes_def)
  then have whole: "'' '' @ ?line = concat (map field_text ?all)"
    using assms(1) by (simp add: format_log_line_def field_text_def logfmt_value_def)
  have "2 * length gs \<le> length (concat (map field_text gs))" for gs by (induction gs) (simp_all add: field_text_def)
  from this [of ?all] have "2 * length ?all \<le> Suc (length ?line)" unfolding whole [symmetric] by simp
  then have "length ?all \<le> length ?line" by simp
  moreover have "\<forall>f\<in>set ?all. CHR ''='' \<notin> set (fst f)" using assms(2) by auto
  ultimately show ?thesis unfolding read_log_line_def whole by (rule read_field_texts [rotated])
qed

theorem log_line_read_back_witness:
  "read_log_line (format_log_line ''12:00Z'' Warn ''client'' [] ''client.note'' [(''msg'', [CHR 0x22, CHR 0x0A] @ '' level=error'')]) =
     Some [(''ts'', ''12:00Z''), (''level'', ''warn''), (''proc'', ''client''), (''event'', ''client.note''),
           (''msg'', [CHR 0x22, CHR 0x0A] @ '' level=error'')]"
  by (subst log_line_read_back) (simp_all add: needs_quotes_def)

section \<open>One line, one write\<close>

lemma hex_pad_digits: "c \<in> set (hex_pad k n) \<Longrightarrow> is_lower_hex c"
  by (induction k arbitrary: n) auto

lemma logfmt_no_newline: "CHR 0x0A \<notin> set (logfmt_value v)"
proof -
  have "\<not> is_lower_hex (CHR 0x0A)" by (simp add: is_lower_hex_def)
  then have "CHR 0x0A \<notin> set (hex_pad 2 n)" for n using hex_pad_digits by blast
  then have "CHR 0x0A \<notin> set (escaped c)" for c by (simp add: escaped_def)
  moreover have "(of_char (CHR 0x0A) :: nat) \<le> 0x20" by simp
  then have "CHR 0x0A \<notin> set v" if "\<not> needs_quotes v" using that unfolding needs_quotes_def by blast
  ultimately show ?thesis by (simp add: logfmt_value_def)
qed

lemma write_log_prefix: "write_log line ws = Some out \<Longrightarrow> \<exists>rest. line = out @ rest"
proof (induction line ws arbitrary: out rule: write_log.induct)
  case (5 v va n ws)
  show ?case
  proof (cases "n = 0")
    case False
    then obtain o' where o: "write_log (drop n (v # va)) ws = Some o'" "out = take n (v # va) @ o'" using 5(2) by auto
    from 5(1) [OF False o(1)] obtain rest where "drop n (v # va) = o' @ rest" by blast
    then have "v # va = out @ rest" using o(2) by (metis append_assoc append_take_drop_id)
    then show ?thesis by blast
  qed (use 5(2) in simp)
qed auto

text \<open>What an event adds to the log file: the start of one line of at most \<open>MAX_LOG_LINE\<close> bytes, its newline at the end.\<close>

lemma log_event_one_line:
  assumes "log_event g t timestamp ws level event fs = Some out" "CHR 0x0A \<notin> set timestamp" "\<forall>f\<in>set fs. CHR 0x0A \<notin> set (fst f)"
  shows "length out \<le> MAX_LOG_LINE \<and> CHR 0x0A \<notin> set (butlast out)"
proof (cases "log_enabled g level")
  case False
  then show ?thesis using assms(1) by (simp add: log_event_def)
next
  case True
  let ?line = "format_log_line timestamp level (lg_process g) (current_request_id g t) event fs"
  obtain rest where out: "cut_log_line ?line = out @ rest" using assms(1) True write_log_prefix by (fastforce simp: log_event_def)
  have "CHR 0x0A \<notin> set ?line"
    using assms(2,3) logfmt_no_newline by (cases level) (auto simp: format_log_line_def field_text_def)
  then have cut: "length (cut_log_line ?line) \<le> MAX_LOG_LINE" "CHR 0x0A \<notin> set (butlast (cut_log_line ?line))"
    by (auto simp: cut_log_line_def MAX_LOG_LINE_def dest: in_set_takeD)
  have "set (butlast out) \<subseteq> set (butlast (out @ rest))" by (cases rest) (auto simp: butlast_append dest: in_set_butlastD)
  then show ?thesis using cut unfolding out by auto
qed

end
