(* ===== verification/Tracker_Server.thy ===== *)
theory Tracker_Server
  imports Framed Replica Log_Lines
begin

text \<open>
  The tracker's program, \<^verbatim>\<open>src/tracker.cpp\<close>: its command line, the group it takes part in, and its
  connections, each request answered by the replica. While a write or a read waits for the group,
  the replica's other threads go on: what they do is an argument of the request. Metrics, logs and
  the listening socket are left out.
\<close>

section \<open>The command line\<close>

definition parse_int :: "string \<Rightarrow> nat \<Rightarrow> nat \<Rightarrow> nat option" where
  "parse_int s lo hi =
     (if s = [] \<or> length s > 7 then None
      else case digits_from 0 s of None \<Rightarrow> None | Some v \<Rightarrow> if v < lo \<or> v > hi then None else Some v)"

record TrackerArgs =
  ta_port :: nat
  ta_id :: int
  ta_election :: nat
  ta_metrics_port :: nat
  ta_level :: Level
  ta_dir :: string
  ta_ip :: string
  ta_group :: string
  ta_read_deadline :: nat

definition tracker_option :: "string \<Rightarrow> string \<Rightarrow> TrackerArgs \<Rightarrow> TrackerArgs option" where
  "tracker_option a v g =
     (if a = ''--dir'' then Some (g\<lparr>ta_dir := v\<rparr>)
      else if a = ''--ip'' then Some (g\<lparr>ta_ip := v\<rparr>)
      else if a = ''--read-deadline'' then map_option (\<lambda>n. g\<lparr>ta_read_deadline := n\<rparr>) (parse_int v 10 600000)
      else if a = ''--group'' then Some (g\<lparr>ta_group := v\<rparr>)
      else if a = ''--id'' then map_option (\<lambda>n. g\<lparr>ta_id := int n\<rparr>) (parse_int v 0 1000)
      else if a = ''--election'' then map_option (\<lambda>n. g\<lparr>ta_election := n\<rparr>) (parse_int v 20 600000)
      else if a = ''--metrics'' then map_option (\<lambda>n. g\<lparr>ta_metrics_port := n\<rparr>) (parse_int v 1 65535)
      else if a = ''--log-level'' then map_option (\<lambda>l. g\<lparr>ta_level := l\<rparr>) (parse_level v)
      else None)"

fun tracker_options :: "string list \<Rightarrow> TrackerArgs \<Rightarrow> TrackerArgs option" where
  "tracker_options [] g = Some g"
| "tracker_options [a] g = None"
| "tracker_options (a # v # rest) g = (case tracker_option a v g of None \<Rightarrow> None | Some g \<Rightarrow> tracker_options rest g)"

text \<open>The arguments after the program's name; \<open>None\<close> is a usage error.\<close>

definition tracker_args :: "string list \<Rightarrow> TrackerArgs option" where
  "tracker_args args =
     (case args of
        [] \<Rightarrow> None
      | p # rest \<Rightarrow>
          (case parse_int p 1 65535 of
             None \<Rightarrow> None
           | Some port \<Rightarrow> tracker_options rest
               \<lparr>ta_port = port, ta_id = - 1, ta_election = 150, ta_metrics_port = 0, ta_level = Info, ta_dir = ''.'',
                ta_ip = ''0.0.0.0'', ta_group = [], ta_read_deadline = 10000\<rparr>))"

text \<open>The group as given, or this replica alone; \<open>None\<close> is a usage error or a refused group.\<close>

definition tracker_group :: "platform \<Rightarrow> TrackerArgs \<Rightarrow> (Address list \<times> nat) option" where
  "tracker_group P g =
     (if ta_group g = [] then
        (if ta_id g > 0 then None
         else Some ([\<lparr>a_ip = if ta_ip g = ''0.0.0.0'' then ''127.0.0.1'' else ta_ip g, a_port = ta_port g\<rparr>], 0))
      else case parse_address_list P (ta_group g) of
        Inl _ \<Rightarrow> None
      | Inr grp \<Rightarrow>
          if ta_id g < 0 \<or> ta_id g \<ge> int (length grp) \<or> a_port (grp ! nat (ta_id g)) \<noteq> ta_port g then None
          else Some (grp, nat (ta_id g)))"

definition log_file_name :: "TrackerArgs \<Rightarrow> string" where
  "log_file_name g = ta_dir g @ ''/raft_'' @ to_string (ta_port g) @ ''.log''"

section \<open>Connections\<close>

record 's TrackerConn = Conn +
  co_replica :: "'s Replica"

record TrackerEnv =
  te_now :: Millis
  te_events :: "ReplicaEvent list"

text \<open>
  \<^verbatim>\<open>Replica::handle\<close> from call to return: the request thread may sleep while the other threads step,
  and is woken by them or by its deadline.
\<close>

definition replica_answer ::
  "platform \<Rightarrow> 's ReplicaConfig \<Rightarrow> TrackerEnv \<Rightarrow> string \<Rightarrow> string \<Rightarrow> 's Replica \<Rightarrow> string \<times> 's Replica"
where
  "replica_answer P cfg env line body s =
     (case handle P cfg line body (te_now env) s of
        (Now reply, s) \<Rightarrow> (reply, s)
      | (WaitWrite tok, s) \<Rightarrow> resume_write tok (fold (replica_step P cfg) (te_events env) s)
      | (WaitRead i r, s) \<Rightarrow> resume_read cfg i r (fold (replica_step P cfg) (te_events env) s))"

definition tracker_answer ::
  "platform \<Rightarrow> 's ReplicaConfig \<Rightarrow> TrackerEnv \<Rightarrow> string \<Rightarrow> string \<Rightarrow> 's TrackerConn \<Rightarrow> (bool \<times> 's TrackerConn) option"
where
  "tracker_answer P cfg env line body c =
     (case replica_answer P cfg env line body (co_replica c) of (reply, s) \<Rightarrow> conn_line reply (c\<lparr>co_replica := s\<rparr>))"

definition tracker_request ::
  "platform \<Rightarrow> 's ReplicaConfig \<Rightarrow> TrackerEnv \<Rightarrow> string \<Rightarrow> 's TrackerConn \<Rightarrow> (bool \<times> 's TrackerConn) option"
where
  "tracker_request P cfg env line c =
     (case body_length line of
        BodyMalformed \<Rightarrow> refuse ''malformed'' ''ERR malformed body length'' c
      | BodyTooLarge \<Rightarrow> refuse ''malformed'' ''ERR body too large'' c
      | BodyNone \<Rightarrow> tracker_answer P cfg env line [] c
      | BodyPresent n \<Rightarrow>
          (case recv_exact n (co_recvs c) (co_in c) of
             None \<Rightarrow> None
           | Some (r, s, steps) \<Rightarrow>
               let c = c\<lparr>co_in := s, co_recvs := steps\<rparr> in
               (case r of
                  Inl e \<Rightarrow> Some (False, count_error (if e = EAGAIN then ''deadline'' else ''closed_mid_body'') c)
                | Inr body \<Rightarrow> tracker_answer P cfg env line body c)))"

definition tracker_turn :: "platform \<Rightarrow> 's ReplicaConfig \<Rightarrow> TrackerEnv \<Rightarrow> 's TrackerConn \<Rightarrow> (bool \<times> 's TrackerConn) option" where
  "tracker_turn P cfg env c =
     (case recv_line (co_recvs c) (co_in c) of
        None \<Rightarrow> None
      | Some (r, s, steps) \<Rightarrow>
          let c = c\<lparr>co_in := s, co_recvs := steps\<rparr> in
          (case r of
             Inl e \<Rightarrow> Some (False, if e = EAGAIN then count_error ''deadline'' c else if e = EMSGSIZE then count_error ''line_too_long'' c else c)
           | Inr raw \<Rightarrow>
               (case split_request_id raw of
                  RidMalformed \<Rightarrow> refuse ''malformed'' ''ERR malformed request id'' c
                | RidNone line \<Rightarrow> tracker_request P cfg env line c
                | RidPresent _ line \<Rightarrow> tracker_request P cfg env line c)))"

definition tracker_serve :: "platform \<Rightarrow> 's ReplicaConfig \<Rightarrow> TrackerEnv list \<Rightarrow> 's TrackerConn \<Rightarrow> 's TrackerConn option" where
  "tracker_serve P cfg = serve_loop (tracker_turn P cfg)"

section \<open>The tracker in step with its connections\<close>

lemma tracker_answer_in: "tracker_answer P cfg env line body (set_in s steps c) = on_conn (set_in s steps) (tracker_answer P cfg env line body c)"
proof -
  obtain reply r where a: "replica_answer P cfg env line body (co_replica c) = (reply, r)" by (metis surj_pair)
  have swap: "set_in s steps c\<lparr>co_replica := r\<rparr> = set_in s steps (c\<lparr>co_replica := r\<rparr>)" "co_replica (set_in s steps c) = co_replica c" by simp_all
  show ?thesis by (simp only: tracker_answer_def swap a prod.case conn_line_in)
qed

lemma tracker_turn_reads:
  assumes "request_ok q" "in_bytes (co_in c) = request_bytes q @ rest" "calm_reads (co_recvs c)" "length (request_bytes q) \<le> reads (co_recvs c)"
  shows "\<exists>s' steps'. read_off rest (length (request_bytes q)) (co_in c) (co_recvs c) s' steps' \<and>
    tracker_turn P cfg env c = on_conn (set_in s' steps') (tracker_answer P cfg env (fst (snd q)) (snd (snd q)) c)"
proof -
  obtain rid line body where q: "q = (rid, line, body)" by (cases q)
  note ok = assms(1) [unfolded q request_ok_def prod.case]
  obtain steps1 where l: "recv_line (co_recvs c) (co_in c) = Some (Inr (with_request_id rid line), (co_in c)\<lparr>in_bytes := body @ rest\<rparr>, steps1)"
      "calm_reads steps1" "reads steps1 + length (with_request_id rid line) + 1 = reads (co_recvs c)" "length body \<le> reads steps1"
    using request_line_read [OF assms(1,2,3,4) [unfolded q]] by blast
  let ?s1 = "(co_in c)\<lparr>in_bytes := body @ rest\<rparr>"
  have turn: "tracker_turn P cfg env c = tracker_request P cfg env line (set_in ?s1 steps1 c)"
    using l(1) request_line [OF assms(1) [unfolded q]] by (simp add: tracker_turn_def Let_def split: RidPrefix.split)
  show ?thesis
  proof (cases "body_length line = BodyNone")
    case True
    then have b: "body = []" using ok by (simp add: frame_ok_def)
    have "tracker_turn P cfg env c = on_conn (set_in ?s1 steps1) (tracker_answer P cfg env line body c)"
      using turn True b by (simp add: tracker_request_def tracker_answer_in)
    moreover have "read_off rest (length (request_bytes q)) (co_in c) (co_recvs c) ?s1 steps1"
      using l(2,3) b q by (simp add: read_off_def request_bytes_def)
    ultimately show ?thesis using q by auto
  next
    case False
    then have b: "body_length line = BodyPresent (length body)" using ok by (auto simp: frame_ok_def split: Body.splits)
    obtain steps' where r: "recv_exact (length body) steps1 ?s1 = Some (Inr body, (co_in c)\<lparr>in_bytes := rest\<rparr>, steps')" "calm_reads steps'"
        "reads steps1 \<le> reads steps' + length body"
      using recv_exact_arrives [OF l(2,4), of ?s1 rest] by auto
    let ?s' = "(co_in c)\<lparr>in_bytes := rest\<rparr>"
    have "tracker_turn P cfg env c = tracker_answer P cfg env line body (set_in ?s' steps' c)"
      using turn b r(1) by (simp add: tracker_request_def Let_def)
    then have "tracker_turn P cfg env c = on_conn (set_in ?s' steps') (tracker_answer P cfg env line body c)" by (simp only: tracker_answer_in)
    moreover have "read_off rest (length (request_bytes q)) (co_in c) (co_recvs c) ?s' steps'"
      using r(2,3) l(3) q by (simp add: read_off_def request_bytes_def)
    ultimately show ?thesis using q by auto
  qed
qed

interpretation tracker: framed_server "tracker_turn P cfg" "\<lambda>env q. tracker_answer P cfg env (fst (snd q)) (snd (snd q))" for P cfg
proof
  show "tracker_turn P cfg env c = Some (False, set_in s steps c)" if "recv_line (co_recvs c) (co_in c) = Some (Inl E_NONE, s, steps)" for env c s steps
    using that by (simp add: tracker_turn_def)
qed (rule tracker_turn_reads, assumption+, rule tracker_answer_in)

text \<open>
  C36. The tracker's connections stay in step too: the requests a client or another replica sends down one
  connection reach the replica one by one, complete and in order, with the bodies of the APPENDs
  among them, and the replies go out in that order.
\<close>

theorem tracker_connection_in_step:
  assumes "list_all request_ok qs" "in_bytes (co_in c) = concat (map request_bytes qs)" "in_end (co_in c) = E_NONE"
    and "calm_reads (co_recvs c)" "length (concat (map request_bytes qs)) < reads (co_recvs c)" "length qs < length envs"
  shows "map_option unread (tracker_serve P cfg envs c) =
    map_option unread (answer_all (\<lambda>env (_, line, body). tracker_answer P cfg env line body) envs qs c)"
proof -
  have eq: "(\<lambda>env (_, line, body). tracker_answer P cfg env line body) = (\<lambda>env q. tracker_answer P cfg env (fst (snd q)) (snd (snd q)))"
    by (simp add: fun_eq_iff split_def)
  show ?thesis unfolding tracker_serve_def eq by (rule tracker.in_step [OF assms])
qed

definition ping_conn :: "FileStorage TrackerConn" where
  "ping_conn = \<lparr>co_in = \<lparr>in_bytes = ''PING'' @ [CHR 0x0A], in_end = E_NONE\<rparr>, co_recvs = replicate 10 (Took 1), co_sends = [Accepted 5],
     co_out = [], co_errors = [], co_replica = sample_replica\<rparr>"

theorem tracker_connection_in_step_witness:
  "map_option unread (tracker_serve sample_platform (sample_replica_config 3) (replicate 2 \<lparr>te_now = 10, te_events = []\<rparr>) ping_conn) =
     map_option unread (answer_all (\<lambda>env (_, line, body). tracker_answer sample_platform (sample_replica_config 3) env line body)
       (replicate 2 \<lparr>te_now = 10, te_events = []\<rparr>) [([], ''PING'', [])] ping_conn)"
proof (rule tracker_connection_in_step)
  have "body_length ''PING'' = BodyNone" by (simp add: body_length_def split_request_id_def starts_with_def)
  then show "list_all request_ok [([], ''PING'', [])]"
    by (simp add: request_ok_def starts_with_def clean_def is_eol_def MAX_LINE_def with_request_id_def frame_ok_def)
  show "calm_reads (co_recvs ping_conn)" by (simp add: ping_conn_def calm_reads_def list_all_iff)
qed (simp_all add: ping_conn_def request_bytes_def with_request_id_def reads_def)

end
