(* ===== verification/Repair.thy ===== *)
theory Repair
  imports Chunk
begin

text \<open>
  Re-replication, \<^verbatim>\<open>src/repair.h\<close> and \<^verbatim>\<open>src/repair.cpp\<close>: a round that offers every owned arc to the
  processes that should hold it, re-hashes the local chunks and hands over those that belong to
  another owner. The world holds the other processes; each key the round visits has its own
  outcome of the disk and the clock, by the number of the visit.
\<close>

section \<open>State\<close>

record ArcCheck =
  ac_pred :: Id
  ac_holders :: "string list"

record RepairState =
  rt_checked :: "Id \<rightharpoonup> ArcCheck"
  rt_round :: int

record RepairReport =
  rx_arcs_checked :: nat
  rx_chunks_sent :: nat
  rx_send_failures :: nat
  rx_handed_off :: nat
  rx_scrubbed :: nat
  rx_digests_sent :: nat
  rx_digests_matched :: nat
  rx_have_sent :: nat
  rx_restored :: nat
  rx_full_scan :: bool

definition empty_repair :: RepairReport where
  "empty_repair = \<lparr>rx_arcs_checked = 0, rx_chunks_sent = 0, rx_send_failures = 0, rx_handed_off = 0, rx_scrubbed = 0, rx_digests_sent = 0,
     rx_digests_matched = 0, rx_have_sent = 0, rx_restored = 0, rx_full_scan = False\<rparr>"

record RepairIo =
  ri_opens :: "nat \<Rightarrow> bool"
  ri_reads :: "nat \<Rightarrow> bool"
  ri_unlinks :: "nat \<Rightarrow> bool"
  ri_put :: "nat \<Rightarrow> PutIo"
  ri_now :: "nat \<Rightarrow> int"

text \<open>A round as it goes: the world, the local store, the report, and the number of keys visited.\<close>

record 'w RepairRun =
  rr_world :: 'w
  rr_store :: ChunkStore
  rr_report :: RepairReport
  rr_visit :: nat

text \<open>What does not change during a round: the platform, the calls, the member asked first, the disk.\<close>

record 'w RepairEnv =
  rv_platform :: platform
  rv_route :: "'w transport"
  rv_send :: "'w frame_transport"
  rv_start :: Peer
  rv_io :: RepairIo

definition note_report :: "(RepairReport \<Rightarrow> RepairReport) \<Rightarrow> 'w RepairRun \<Rightarrow> 'w RepairRun" where
  "note_report f r = r\<lparr>rr_report := f (rr_report r)\<rparr>"

section \<open>Replacing a corrupt copy\<close>

definition replace_corrupt :: "'w RepairEnv \<Rightarrow> string \<Rightarrow> 'w RepairRun \<Rightarrow> 'w RepairRun" where
  "replace_corrupt e key r =
     (let i = rr_visit r; io = rv_io e; P = rv_platform e;
          store = snd (store_remove (ri_unlinks io i) key (rr_store r));
          r = note_report (\<lambda>p. p\<lparr>rx_scrubbed := rx_scrubbed p + 1\<rparr>) (r\<lparr>rr_store := store\<rparr>)
      in case get_chunk P (rv_route e) (rv_send e) (rv_start e) key 2 (rr_world r) of
           (good, w) \<Rightarrow>
             let r = r\<lparr>rr_world := w\<rparr> in
             if \<not> go_ok good then r
             else case store_put P (ri_put io i) (ri_now io i) key (go_body good) store of
               (result, store) \<Rightarrow>
                 let r = r\<lparr>rr_store := store\<rparr> in
                 if result = Stored then note_report (\<lambda>p. p\<lparr>rx_restored := rx_restored p + 1\<rparr>) r else r)"

definition next_visit :: "'w RepairRun \<Rightarrow> 'w RepairRun" where
  "next_visit r = r\<lparr>rr_visit := Suc (rr_visit r)\<rparr>"

section \<open>Offering keys to a process\<close>

text \<open>One key of a batch, with the digit the process answered for it; the flag is false when it must be offered again.\<close>

definition offer_key :: "'w RepairEnv \<Rightarrow> Peer \<Rightarrow> bool \<Rightarrow> string \<Rightarrow> char \<Rightarrow> 'w RepairRun \<Rightarrow> bool \<times> 'w RepairRun" where
  "offer_key e to as_put key digit r =
     (if digit \<noteq> CHR ''0'' then (True, r)
      else case store_get (ri_opens (rv_io e) (rr_visit r)) (ri_reads (rv_io e) (rr_visit r)) (rr_store r) key of
        GFound body \<Rightarrow>
          if chunk_key (rv_platform e) body \<noteq> key then (False, replace_corrupt e key r)
          else (case rv_send e (rr_world r) to (if as_put then put_line key 1 body else store_line key body) body of
                  ((d, stored), w) \<Rightarrow>
                    let r = r\<lparr>rr_world := w\<rparr> in
                    if d = Ok \<and> (fr_line stored = ''OK'' \<or> starts_with ''OK '' (fr_line stored))
                    then (True, note_report (\<lambda>p. p\<lparr>rx_chunks_sent := rx_chunks_sent p + 1\<rparr>) r)
                    else (False, note_report (\<lambda>p. p\<lparr>rx_send_failures := rx_send_failures p + 1\<rparr>) r))
      | _ \<Rightarrow> (True, r))"

fun offer_keys :: "'w RepairEnv \<Rightarrow> Peer \<Rightarrow> bool \<Rightarrow> (string \<times> char) list \<Rightarrow> 'w RepairRun \<Rightarrow> bool \<times> 'w RepairRun" where
  "offer_keys e to as_put [] r = (True, r)"
| "offer_keys e to as_put ((key, digit) # rest) r =
     (case offer_key e to as_put key digit r of
        (ok, r) \<Rightarrow> (case offer_keys e to as_put rest (next_visit r) of (ok', r) \<Rightarrow> (ok \<and> ok', r)))"

definition have_line :: "string list \<Rightarrow> string" where
  "have_line keys = ''HAVE'' @ concat (map (\<lambda>k. '' '' @ k) keys)"

definition offer_batch :: "'w RepairEnv \<Rightarrow> Peer \<Rightarrow> bool \<Rightarrow> string list \<Rightarrow> 'w RepairRun \<Rightarrow> bool \<times> 'w RepairRun" where
  "offer_batch e to as_put keys r =
     (let r = note_report (\<lambda>p. p\<lparr>rx_have_sent := rx_have_sent p + 1\<rparr>) r in
      case rv_send e (rr_world r) to (have_line keys) [] of
        ((d, ans), w) \<Rightarrow>
          let r = r\<lparr>rr_world := w\<rparr> in
          if d \<noteq> Ok \<or> \<not> starts_with ''HAVE '' (fr_line ans) \<or> length (fr_line ans) \<noteq> 5 + length keys
          then (False, note_report (\<lambda>p. p\<lparr>rx_send_failures := rx_send_failures p + 1\<rparr>) r)
          else offer_keys e to as_put (zip keys (drop 5 (fr_line ans))) r)"

function offer_batches :: "'w RepairEnv \<Rightarrow> Peer \<Rightarrow> bool \<Rightarrow> string list \<Rightarrow> 'w RepairRun \<Rightarrow> bool \<times> 'w RepairRun" where
  "offer_batches e to as_put keys r =
     (if keys = [] then (True, r)
      else case offer_batch e to as_put (take MAX_HAVE_KEYS keys) r of
        (ok, r) \<Rightarrow> (case offer_batches e to as_put (drop MAX_HAVE_KEYS keys) r of (ok', r) \<Rightarrow> (ok \<and> ok', r)))"
  by auto
termination by (relation "measure (\<lambda>(_, _, _, keys, _). length keys)") (auto simp: MAX_HAVE_KEYS_def)

declare offer_batches.simps [simp del]

text \<open>With an arc, a matching digest of it settles the whole offer.\<close>

definition offer_digest :: "'w RepairEnv \<Rightarrow> Peer \<Rightarrow> Id \<times> Id \<Rightarrow> 'w RepairRun \<Rightarrow> bool \<times> 'w RepairRun" where
  "offer_digest e to arc r =
     (let held = store_keys_in_arc (rr_store r) (fst arc) (snd arc);
          r = note_report (\<lambda>p. p\<lparr>rx_digests_sent := rx_digests_sent p + 1\<rparr>) r
      in case rv_send e (rr_world r) to (''DIGEST '' @ id_to_hex (fst arc) @ '' '' @ id_to_hex (snd arc)) [] of
           ((d, ans), w) \<Rightarrow>
             let r = r\<lparr>rr_world := w\<rparr> in
             if d = Ok \<and> fr_line ans = ''DIGEST '' @ keys_digest (rv_platform e) held
             then (True, note_report (\<lambda>p. p\<lparr>rx_digests_matched := rx_digests_matched p + 1\<rparr>) r)
             else (False, r))"

definition offer :: "'w RepairEnv \<Rightarrow> Peer \<Rightarrow> string list \<Rightarrow> bool \<Rightarrow> (Id \<times> Id) option \<Rightarrow> 'w RepairRun \<Rightarrow> bool \<times> 'w RepairRun" where
  "offer e to keys as_put arc r =
     (case (case arc of None \<Rightarrow> (False, r) | Some a \<Rightarrow> offer_digest e to a r) of
        (True, r) \<Rightarrow> (True, r)
      | (False, r) \<Rightarrow> offer_batches e to as_put keys r)"

section \<open>The scrub and the hand-off\<close>

fun scrub_keys :: "'w RepairEnv \<Rightarrow> string list \<Rightarrow> 'w RepairRun \<Rightarrow> 'w RepairRun" where
  "scrub_keys e [] r = r"
| "scrub_keys e (key # keys) r =
     (let g = store_get (ri_opens (rv_io e) (rr_visit r)) (ri_reads (rv_io e) (rr_visit r)) (rr_store r) key;
          intact = (case g of GFound body \<Rightarrow> chunk_key (rv_platform e) body = key | _ \<Rightarrow> False)
      in scrub_keys e keys (next_visit (if intact then r else replace_corrupt e key r)))"

definition scrub :: "'w RepairEnv \<Rightarrow> 'w RepairRun \<Rightarrow> 'w RepairRun" where
  "scrub e r = scrub_keys e (store_keys (rr_store r)) r"

definition key_id :: "string \<Rightarrow> Id" where
  "key_id key = (case id_from_key key of None \<Rightarrow> 0 | Some k \<Rightarrow> k)"

definition foreign_keys :: "(Id \<times> Id) list \<Rightarrow> ChunkStore \<Rightarrow> string list" where
  "foreign_keys owned store = filter (\<lambda>key. \<not> list_ex (\<lambda>arc. in_range_oc (key_id key) (fst arc) (snd arc)) owned) (store_keys store)"

text \<open>The keys that are left; one lookup answers for those that follow in the owner's arc.\<close>

function hand_off_keys :: "'w RepairEnv \<Rightarrow> string list \<Rightarrow> 'w RepairRun \<Rightarrow> 'w RepairRun" where
  "hand_off_keys e [] r = r"
| "hand_off_keys e (key # keys) r =
     (case lookup (rv_platform e) (rv_route e) (rv_start e) (key_id key) (rr_world r) of
        (l, w) \<Rightarrow>
          let r = r\<lparr>rr_world := w\<rparr> in
          if \<not> lr_ok l then hand_off_keys e keys (note_report (\<lambda>p. p\<lparr>rx_send_failures := rx_send_failures p + 1\<rparr>) r)
          else let from = peer_id (last (lr_path l));
                   next_ones = takeWhile (\<lambda>k. in_range_oc (key_id k) from (peer_id (lr_owner l))) keys;
                   rest = drop (length next_ones) keys
               in if same_process (lr_owner l) (rv_start e) then hand_off_keys e rest r
                  else let before = rx_chunks_sent (rr_report r);
                           r = snd (offer e (lr_owner l) (key # next_ones) True (Some (from, peer_id (lr_owner l))) r)
                       in hand_off_keys e rest
                            (note_report (\<lambda>p. p\<lparr>rx_handed_off := rx_handed_off p + (rx_chunks_sent p - before)\<rparr>) r))"
  by pat_completeness auto
termination by (relation "measure (\<lambda>(_, keys, _). length keys)") (auto simp: le_imp_less_Suc)

definition hand_off :: "'w RepairEnv \<Rightarrow> (Id \<times> Id) list \<Rightarrow> 'w RepairRun \<Rightarrow> 'w RepairRun" where
  "hand_off e owned r = hand_off_keys e (foreign_keys owned (rr_store r)) r"

section \<open>A round\<close>

fun offer_holders :: "'w RepairEnv \<Rightarrow> string list \<Rightarrow> Id \<times> Id \<Rightarrow> Peer list \<Rightarrow> bool \<Rightarrow> 'w RepairRun \<Rightarrow> bool \<times> 'w RepairRun" where
  "offer_holders e keys arc [] ok r = (ok, r)"
| "offer_holders e keys arc (p # ps) ok r =
     (case offer e p keys False (Some arc) r of (ok', r) \<Rightarrow> offer_holders e keys arc ps (ok' \<and> ok) r)"

text \<open>The members in turn: the arcs owned so far, the checks, and the round as it goes.\<close>

definition check_member ::
  "'w RepairEnv \<Rightarrow> NodeState \<Rightarrow> (Id \<times> Id) list \<times> RepairState \<times> 'w RepairRun \<Rightarrow> (Id \<times> Id) list \<times> RepairState \<times> 'w RepairRun"
where
  "check_member e m x =
     (case x of (owned, st, r) \<Rightarrow>
      if \<not> nd_has_pred m \<or> nd_orphaned m then (owned, st, r)
      else let arc = (peer_id (nd_pred m), peer_id (nd_self m));
               holders = tl (replica_set RF m);
               now = \<lparr>ac_pred = fst arc, ac_holders = map peer_address holders\<rparr>;
               owned = owned @ [arc]
           in if rt_checked st (snd arc) = Some now \<and> \<not> rx_full_scan (rr_report r) then (owned, st, r)
              else case offer_holders e (store_keys_in_arc (rr_store r) (fst arc) (snd arc)) arc holders True r of
                (ok, r) \<Rightarrow>
                  (owned, st\<lparr>rt_checked := (rt_checked st)(snd arc := if ok then Some now else None)\<rparr>,
                   note_report (\<lambda>p. p\<lparr>rx_arcs_checked := rx_arcs_checked p + 1\<rparr>) r))"

definition repair_log :: "RepairReport \<Rightarrow> string list" where
  "repair_log p =
     (if rx_chunks_sent p \<noteq> 0 \<or> rx_send_failures p \<noteq> 0 \<or> rx_scrubbed p \<noteq> 0
      then [''repair: '' @ to_string (rx_arcs_checked p) @ '' arcs checked, '' @ to_string (rx_chunks_sent p) @ '' chunks sent ('' @
            to_string (rx_handed_off p) @ '' handed off), '' @ to_string (rx_send_failures p) @ '' failures, '' @
            to_string (rx_scrubbed p) @ '' scrubbed, '' @ to_string (rx_restored p) @ '' restored'' @
            (if rx_full_scan p then '', full scan'' else [])]
      else [])"

text \<open>\<^verbatim>\<open>st.round % scan_every\<close> of two positive numbers.\<close>

definition repair_round ::
  "platform \<Rightarrow> 'w transport \<Rightarrow> 'w frame_transport \<Rightarrow> RepairIo \<Rightarrow> int \<Rightarrow> RepairState \<Rightarrow> 'w \<times> ChunkNode \<Rightarrow>
   RepairReport \<times> RepairState \<times> 'w \<times> ChunkNode"
where
  "repair_round P route send io scan_every st wn =
     (case wn of (w, n) \<Rightarrow>
      (case (cn_store n, cn_members n) of
         (Some store, m # ms) \<Rightarrow>
           let e = \<lparr>rv_platform = P, rv_route = route, rv_send = send, rv_start = nd_self m, rv_io = io\<rparr>;
               st = st\<lparr>rt_round := rt_round st + 1\<rparr>;
               full = (scan_every > 0 \<and> rt_round st mod scan_every = 0);
               r = \<lparr>rr_world = w, rr_store = store, rr_report = empty_repair\<lparr>rx_full_scan := full\<rparr>, rr_visit = 0\<rparr>;
               r = (if full then scrub e r else r)
           in (case fold (check_member e) (m # ms) ([], st, r) of
                 (owned, st, r) \<Rightarrow>
                   let r = (if full then hand_off e owned r else r)
                   in (rr_report r, st, rr_world r,
                       n\<lparr>cn_store := Some (rr_store r), cn_log := cn_log n @ repair_log (rr_report r)\<rparr>))
       | _ \<Rightarrow> (empty_repair, st, w, n)))"

end
