(* ===== verification/Repair_Props.thy ===== *)
theory Repair_Props
  imports Repair Gc
begin

text \<open>
  What a repair round keeps: it sends no chunk that does not hash to its key, it makes no process
  lose a chunk, and it loses no intact local chunk that can be read.
\<close>

section \<open>Relations a round keeps\<close>

text \<open>One step of the hand-off: the keys it settles are behind it, and the round has gone on through \<open>f\<close>.\<close>

lemma hand_off_step:
  fixes keys :: "string list"
  assumes "lookup (rv_platform e) (rv_route e) (rv_start e) (key_id key) (rr_world r) = (l, w)"
  defines "from \<equiv> peer_id (last (lr_path l))"
  defines "next_ones \<equiv> takeWhile (\<lambda>k. in_range_oc (key_id k) from (peer_id (lr_owner l))) keys"
  shows "\<exists>f n. hand_off_keys e (key # keys) r = hand_off_keys e (drop n keys) (note_report f
    (if lr_ok l \<and> \<not> same_process (lr_owner l) (rv_start e)
     then snd (offer e (lr_owner l) (key # next_ones) True (Some (from, peer_id (lr_owner l))) (r\<lparr>rr_world := w\<rparr>)) else r\<lparr>rr_world := w\<rparr>))"
proof -
  have id: "note_report (\<lambda>p. p) r' = r'" for r' :: "'a RepairRun" by (simp add: note_report_def)
  show ?thesis
  proof (cases "lr_ok l")
    case False
    then have "hand_off_keys e (key # keys) r =
        hand_off_keys e (drop 0 keys) (note_report (\<lambda>p. p\<lparr>rx_send_failures := rx_send_failures p + 1\<rparr>) (r\<lparr>rr_world := w\<rparr>))"
      using assms(1) by (subst hand_off_keys.simps) (simp add: Let_def)
    moreover have "(if lr_ok l \<and> b then x else y) = y" for b and x y :: "'a RepairRun" using False by simp
    ultimately show ?thesis by (simp only:) blast
  next
    case ok: True
    show ?thesis
    proof (cases "same_process (lr_owner l) (rv_start e)")
      case True
      then have "hand_off_keys e (key # keys) r = hand_off_keys e (drop (length next_ones) keys) (note_report (\<lambda>p. p) (r\<lparr>rr_world := w\<rparr>))"
        using assms(1) ok unfolding id next_ones_def from_def by (subst hand_off_keys.simps) (simp add: Let_def)
      moreover have "(if b \<and> \<not> same_process (lr_owner l) (rv_start e) then x else y) = y" for b and x y :: "'a RepairRun" using True by simp
      ultimately show ?thesis by (simp only:) blast
    next
      case False
      then show ?thesis using assms(1) ok unfolding next_ones_def from_def by (subst hand_off_keys.simps) (auto simp: Let_def)
    qed
  qed
qed

locale repair_steps =
  fixes Q :: "'w RepairRun \<Rightarrow> 'w RepairRun \<Rightarrow> bool" and e :: "'w RepairEnv"
  assumes Q_refl: "Q r r" and Q_trans: "Q r1 r2 \<Longrightarrow> Q r2 r3 \<Longrightarrow> Q r1 r3"
    and Q_note: "Q r (note_report f r)" and Q_visit: "Q r (next_visit r)"
    and Q_lookup: "lookup (rv_platform e) (rv_route e) (rv_start e) k (rr_world r) = (l, w) \<Longrightarrow> Q r (r\<lparr>rr_world := w\<rparr>)"
    and Q_have: "rv_send e (rr_world r) to (have_line keys) [] = (x, w) \<Longrightarrow> Q r (r\<lparr>rr_world := w\<rparr>)"
    and Q_digest: "rv_send e (rr_world r) to (''DIGEST '' @ words) [] = (x, w) \<Longrightarrow> Q r (r\<lparr>rr_world := w\<rparr>)"
    and Q_store: "chunk_key (rv_platform e) body = key \<Longrightarrow> rv_send e (rr_world r) to (store_line key body) body = (x, w) \<Longrightarrow>
      Q r (r\<lparr>rr_world := w\<rparr>)"
    and Q_put: "chunk_key (rv_platform e) body = key \<Longrightarrow> rv_send e (rr_world r) to (put_line key 1 body) body = (x, w) \<Longrightarrow>
      Q r (r\<lparr>rr_world := w\<rparr>)"
    and Q_replace: "(\<And>body. store_get (ri_opens (rv_io e) (rr_visit r)) (ri_reads (rv_io e) (rr_visit r)) (rr_store r) key = GFound body \<Longrightarrow>
        chunk_key (rv_platform e) body \<noteq> key) \<Longrightarrow> Q r (replace_corrupt e key r)"
begin

lemma Q_noted: "Q r r' \<Longrightarrow> Q r (note_report f r')"
  using Q_note Q_trans by blast

lemma Q_offer_key:
  assumes "offer_key e to as_put key digit r = (ok, r')"
  shows "Q r r'"
proof (cases "store_get (ri_opens (rv_io e) (rr_visit r)) (ri_reads (rv_io e) (rr_visit r)) (rr_store r) key")
  case (GFound body)
  let ?line = "if as_put then put_line key 1 body else store_line key body"
  obtain d stored w where sent: "rv_send e (rr_world r) to ?line body = ((d, stored), w)" by (metis surj_pair)
  show ?thesis
  proof (cases "digit = CHR ''0'' \<and> chunk_key (rv_platform e) body = key")
    case True
    then have "Q r (r\<lparr>rr_world := w\<rparr>)" using sent Q_store Q_put by (cases as_put) auto
    moreover have "\<exists>f. r' = note_report f (r\<lparr>rr_world := w\<rparr>)"
      using assms GFound True sent by (auto simp: offer_key_def Let_def split: if_splits)
    ultimately show ?thesis using Q_noted by blast
  next
    case False
    then show ?thesis using assms GFound Q_refl Q_replace [of r key] by (auto simp: offer_key_def split: if_splits)
  qed
qed (use assms Q_refl in \<open>auto simp: offer_key_def split: if_splits\<close>)

lemma Q_offer_keys: "offer_keys e to as_put kds r = (ok, r') \<Longrightarrow> Q r r'"
proof (induction kds arbitrary: r ok r')
  case (Cons kd kds)
  obtain key digit where kd: "kd = (key, digit)" by (cases kd)
  obtain ok1 r1 where 1: "offer_key e to as_put key digit r = (ok1, r1)" by (metis surj_pair)
  obtain ok2 r2 where 2: "offer_keys e to as_put kds (next_visit r1) = (ok2, r2)" by (metis surj_pair)
  have "Q r r2" using Cons.IH [OF 2] Q_offer_key [OF 1] Q_visit Q_trans by blast
  then show ?case using Cons.prems kd 1 2 by simp
qed (simp add: Q_refl)

lemma Q_offer_batch:
  assumes "offer_batch e to as_put keys r = (ok, r')"
  shows "Q r r'"
proof -
  let ?r0 = "note_report (\<lambda>p. p\<lparr>rx_have_sent := rx_have_sent p + 1\<rparr>) r"
  obtain d ans w where h: "rv_send e (rr_world ?r0) to (have_line keys) [] = ((d, ans), w)" by (metis surj_pair)
  let ?r = "?r0\<lparr>rr_world := w\<rparr>"
  have 1: "Q r ?r" using Q_note Q_have [OF h] Q_trans by blast
  have "(\<exists>f. r' = note_report f ?r) \<or> offer_keys e to as_put (zip keys (drop 5 (fr_line ans))) ?r = (ok, r')"
    using assms h by (auto simp: offer_batch_def Let_def split: if_splits)
  then show ?thesis using 1 Q_noted Q_offer_keys Q_trans by blast
qed

lemma Q_offer_batches: "offer_batches e to as_put keys r = (ok, r') \<Longrightarrow> Q r r'"
proof (induction "length keys" arbitrary: keys r ok r' rule: less_induct)
  case less
  obtain ok1 r1 where 1: "offer_batch e to as_put (take MAX_HAVE_KEYS keys) r = (ok1, r1)" by (metis surj_pair)
  obtain ok2 r2 where 2: "offer_batches e to as_put (drop MAX_HAVE_KEYS keys) r1 = (ok2, r2)" by (metis surj_pair)
  show ?case
  proof (cases "keys = []")
    case True
    then show ?thesis using less.prems Q_refl by (simp add: offer_batches.simps)
  next
    case False
    then have "length (drop MAX_HAVE_KEYS keys) < length keys" by (auto simp: MAX_HAVE_KEYS_def)
    from less.hyps [OF this 2] Q_offer_batch [OF 1] have "Q r r2" using Q_trans by blast
    moreover have "r' = r2" using less.prems False 1 2 by (simp add: offer_batches.simps [of e to as_put keys])
    ultimately show ?thesis by simp
  qed
qed

lemma Q_offer_digest:
  assumes "offer_digest e to arc r = (ok, r')"
  shows "Q r r'"
proof -
  let ?r0 = "note_report (\<lambda>p. p\<lparr>rx_digests_sent := rx_digests_sent p + 1\<rparr>) r"
  let ?x = "rv_send e (rr_world ?r0) to (''DIGEST '' @ id_to_hex (fst arc) @ '' '' @ id_to_hex (snd arc)) []"
  obtain y w where "?x = (y, w)" by (cases ?x)
  then obtain d ans where h: "?x = ((d, ans), w)" by (cases y) (rule that, simp only:)
  have q: "Q r (?r0\<lparr>rr_world := w\<rparr>)" by (rule Q_trans [OF Q_note Q_digest [OF h]])
  have r: "offer_digest e to arc r =
      (if d = Ok \<and> fr_line ans = ''DIGEST '' @ keys_digest (rv_platform e) (store_keys_in_arc (rr_store r) (fst arc) (snd arc))
       then (True, note_report (\<lambda>p. p\<lparr>rx_digests_matched := rx_digests_matched p + 1\<rparr>) (?r0\<lparr>rr_world := w\<rparr>)) else (False, ?r0\<lparr>rr_world := w\<rparr>))"
    unfolding offer_digest_def Let_def h prod.case ..
  show ?thesis using assms q Q_noted [OF q] unfolding r by (cases "d = Ok \<and> fr_line ans = ''DIGEST '' @
      keys_digest (rv_platform e) (store_keys_in_arc (rr_store r) (fst arc) (snd arc))") (simp_all only: if_True if_False simp_thms prod.inject, blast+)
qed

lemma Q_offer:
  assumes "offer e to keys as_put arc r = (ok, r')"
  shows "Q r r'"
proof -
  obtain m r1 where d: "(case arc of None \<Rightarrow> (False, r) | Some a \<Rightarrow> offer_digest e to a r) = (m, r1)" by (metis surj_pair)
  have "Q r r1" using d Q_refl Q_offer_digest by (auto split: option.splits)
  moreover have "Q r1 r'" using assms d Q_refl Q_offer_batches by (cases m) (auto simp: offer_def)
  ultimately show ?thesis by (rule Q_trans)
qed

lemma Q_scrub: "Q r (scrub_keys e keys r)"
proof (induction keys arbitrary: r)
  case (Cons key keys)
  define intact where "intact = (case store_get (ri_opens (rv_io e) (rr_visit r)) (ri_reads (rv_io e) (rr_visit r)) (rr_store r) key of
      GFound body \<Rightarrow> chunk_key (rv_platform e) body = key | _ \<Rightarrow> False)"
  let ?r = "next_visit (if intact then r else replace_corrupt e key r)"
  have "scrub_keys e (key # keys) r = scrub_keys e keys ?r" by (simp add: Let_def intact_def)
  moreover have "Q r (replace_corrupt e key r)" if "\<not> intact" using that by (intro Q_replace) (auto simp: intact_def)
  then have "Q r ?r" using Q_refl Q_visit Q_trans by (cases intact) auto
  ultimately show ?case using Cons.IH [of ?r] Q_trans by metis
qed (simp add: Q_refl)

lemma Q_hand_off: "Q r (hand_off_keys e keys r)"
proof (induction "length keys" arbitrary: keys r rule: less_induct)
  case less
  show ?case
  proof (cases keys)
    case Nil
    then show ?thesis by (simp add: Q_refl)
  next
    case (Cons key ks)
    obtain l w where l: "lookup (rv_platform e) (rv_route e) (rv_start e) (key_id key) (rr_world r) = (l, w)" by (metis surj_pair)
    then have 1: "Q r (r\<lparr>rr_world := w\<rparr>)" by (rule Q_lookup)
    let ?from = "peer_id (last (lr_path l))"
    let ?next = "takeWhile (\<lambda>k. in_range_oc (key_id k) ?from (peer_id (lr_owner l))) ks"
    let ?r = "if lr_ok l \<and> \<not> same_process (lr_owner l) (rv_start e)
      then snd (offer e (lr_owner l) (key # ?next) True (Some (?from, peer_id (lr_owner l))) (r\<lparr>rr_world := w\<rparr>)) else r\<lparr>rr_world := w\<rparr>"
    obtain f n where h: "hand_off_keys e keys r = hand_off_keys e (drop n ks) (note_report f ?r)"
      using hand_off_step [OF l, of ks] Cons by blast
    have "Q (r\<lparr>rr_world := w\<rparr>) (snd (offer e p xs b arc (r\<lparr>rr_world := w\<rparr>)))" for p xs b arc using Q_offer by (metis prod.collapse)
    then have "Q (r\<lparr>rr_world := w\<rparr>) ?r" using Q_refl by simp
    then have 2: "Q r (note_report f ?r)" using 1 Q_trans Q_noted by blast
    have "length (drop n ks) < length keys" using Cons by simp
    from less.hyps [OF this] have "Q (note_report f ?r) (hand_off_keys e keys r)" unfolding h .
    then show ?thesis using 2 Q_trans by blast
  qed
qed

lemma Q_offer_holders: "offer_holders e keys arc ps ok r = (ok', r') \<Longrightarrow> Q r r'"
proof (induction ps arbitrary: ok r)
  case (Cons p ps)
  obtain ok1 r1 where o: "offer e p keys False (Some arc) r = (ok1, r1)" by (metis surj_pair)
  then have "offer_holders e keys arc ps (ok1 \<and> ok) r1 = (ok', r')" using Cons.prems by simp
  from Cons.IH [OF this] Q_offer [OF o] show ?case using Q_trans by blast
qed (simp add: Q_refl)

lemma Q_check_member:
  assumes "check_member e m (owned, st, r) = (owned', st', r')"
  shows "Q r r'"
proof -
  let ?keys = "store_keys_in_arc (rr_store r) (peer_id (nd_pred m)) (peer_id (nd_self m))"
  obtain ok r1 where o: "offer_holders e ?keys (peer_id (nd_pred m), peer_id (nd_self m)) (tl (replica_set RF m)) True r = (ok, r1)" by (metis surj_pair)
  have "r' = r \<or> (\<exists>f. r' = note_report f r1)" using assms o by (auto simp: check_member_def Let_def split: if_splits)
  then show ?thesis using Q_offer_holders [OF o] Q_refl Q_noted by blast
qed

lemma Q_check_members: "fold (check_member e) ms (owned, st, r) = (owned', st', r') \<Longrightarrow> Q r r'"
proof (induction ms arbitrary: owned st r)
  case (Cons m ms)
  obtain o1 st1 r1 where c: "check_member e m (owned, st, r) = (o1, st1, r1)" by (metis surj_pair)
  show ?case using Cons.IH [of o1 st1 r1] Cons.prems c Q_check_member [OF c] Q_trans by auto
qed (simp add: Q_refl)

lemma Q_round:
  assumes "fold (check_member e) ms ([], st, if full then scrub e r else r) = (owned, st', r')"
  shows "Q r (if full then hand_off e owned r' else r')"
proof -
  have "Q r (if full then scrub e r else r)" using Q_scrub Q_refl by (simp add: scrub_def)
  moreover note Q_check_members [OF assms]
  moreover have "Q r' (if full then hand_off e owned r' else r')" using Q_hand_off Q_refl by (simp add: hand_off_def)
  ultimately show ?thesis using Q_trans by blast
qed

end

text \<open>A round of a process with a store and members, taken apart.\<close>

lemma repair_round_run:
  assumes "repair_round P route send io scan_every st (w, n) = (rep, st', w', n')"
    and Q: "\<And>start. repair_steps Q \<lparr>rv_platform = P, rv_route = route, rv_send = send, rv_start = start, rv_io = io\<rparr>"
    and "cn_store n = Some store" "cn_members n \<noteq> []"
  shows "\<exists>r r'. Q r r' \<and> rr_world r = w \<and> rr_store r = store \<and> rr_world r' = w' \<and> cn_store n' = Some (rr_store r')"
proof -
  obtain m ms where n: "cn_members n = m # ms" using assms(4) by (cases "cn_members n") auto
  define e where "e = \<lparr>rv_platform = P, rv_route = route, rv_send = send, rv_start = nd_self m, rv_io = io\<rparr>"
  define st1 where "st1 = st\<lparr>rt_round := rt_round st + 1\<rparr>"
  define full where "full \<longleftrightarrow> scan_every > 0 \<and> rt_round st1 mod scan_every = 0"
  define r where "r = \<lparr>rr_world = w, rr_store = store, rr_report = empty_repair\<lparr>rx_full_scan := full\<rparr>, rr_visit = 0\<rparr>"
  obtain owned st2 r2 where f: "fold (check_member e) (m # ms) ([], st1, if full then scrub e r else r) = (owned, st2, r2)" by (metis surj_pair)
  define r' where "r' = (if full then hand_off e owned r2 else r2)"
  have "w' = rr_world r' \<and> cn_store n' = Some (rr_store r')"
    using assms(1,3) n f unfolding repair_round_def Let_def e_def r_def r'_def st1_def full_def by (auto simp del: fold.simps)
  moreover have "Q r r'" unfolding r'_def by (rule repair_steps.Q_round [OF _ f]) (unfold e_def, rule Q)
  ultimately show ?thesis by (intro exI [of _ r] exI [of _ r']) (simp add: r_def)
qed

section \<open>The other processes\<close>

text \<open>A relation between worlds that every kind of exchange of a round keeps.\<close>

locale kept_by_repair = kept_by_chunk_reads R route send
  for R :: "'w \<Rightarrow> 'w \<Rightarrow> bool" and route :: "'w transport" and send :: "'w frame_transport" +
  fixes P :: platform
  assumes R_have: "R w (snd (send w p (have_line keys) []))"
    and R_digest: "R w (snd (send w p (''DIGEST '' @ words) []))"
    and R_store: "chunk_key P body = key \<Longrightarrow> R w (snd (send w p (store_line key body) body))"
    and R_put: "chunk_key P body = key \<Longrightarrow> R w (snd (send w p (put_line key 1 body) body))"
begin

lemma R_replace_corrupt:
  "R (rr_world r) (rr_world (replace_corrupt \<lparr>rv_platform = P, rv_route = route, rv_send = send, rv_start = start, rv_io = io\<rparr> key r))"
proof -
  obtain good w where g: "get_chunk P route send start key 2 (rr_world r) = (good, w)" by (metis surj_pair)
  then have "rr_world (replace_corrupt \<lparr>rv_platform = P, rv_route = route, rv_send = send, rv_start = start, rv_io = io\<rparr> key r) = w"
    by (auto simp: replace_corrupt_def note_report_def Let_def split: prod.splits)
  then show ?thesis using R_get_chunk [OF g] by simp
qed

end

sublocale kept_by_repair \<subseteq> round: repair_steps "\<lambda>r r'. R (rr_world r) (rr_world r')"
  "\<lparr>rv_platform = P, rv_route = route, rv_send = send, rv_start = start, rv_io = io\<rparr>" for start io
proof
  let ?e = "\<lparr>rv_platform = P, rv_route = route, rv_send = send, rv_start = start, rv_io = io\<rparr>"
  fix r r1 r2 r3 :: "'w RepairRun" and x w to keys words body key k l f
  show "R (rr_world r) (rr_world r)" by (rule R_refl)
  show "R (rr_world r1) (rr_world r2) \<Longrightarrow> R (rr_world r2) (rr_world r3) \<Longrightarrow> R (rr_world r1) (rr_world r3)" by (rule R_trans)
  show "R (rr_world r) (rr_world (note_report f r))" "R (rr_world r) (rr_world (next_visit r))"
    by (simp_all add: note_report_def next_visit_def R_refl)
  show "lookup (rv_platform ?e) (rv_route ?e) (rv_start ?e) k (rr_world r) = (l, w) \<Longrightarrow> R (rr_world r) (rr_world (r\<lparr>rr_world := w\<rparr>))"
    using R_lookup by simp
  show "rv_send ?e (rr_world r) to (have_line keys) [] = (x, w) \<Longrightarrow> R (rr_world r) (rr_world (r\<lparr>rr_world := w\<rparr>))"
    using R_have [of "rr_world r" to keys] by simp
  show "rv_send ?e (rr_world r) to (''DIGEST '' @ words) [] = (x, w) \<Longrightarrow> R (rr_world r) (rr_world (r\<lparr>rr_world := w\<rparr>))"
    using R_digest [of "rr_world r" to words] by simp
  show "chunk_key (rv_platform ?e) body = key \<Longrightarrow> rv_send ?e (rr_world r) to (store_line key body) body = (x, w) \<Longrightarrow>
      R (rr_world r) (rr_world (r\<lparr>rr_world := w\<rparr>))"
    using R_store [of body key "rr_world r" to] by simp
  show "chunk_key (rv_platform ?e) body = key \<Longrightarrow> rv_send ?e (rr_world r) to (put_line key 1 body) body = (x, w) \<Longrightarrow>
      R (rr_world r) (rr_world (r\<lparr>rr_world := w\<rparr>))"
    using R_put [of body key "rr_world r" to] by simp
  show "R (rr_world r) (rr_world (replace_corrupt ?e key r))" by (rule R_replace_corrupt)
qed

text \<open>The system's processes lose nothing to a round.\<close>

lemma line_not_drop_loses_nothing:
  assumes "hd (split_single_spaces line) \<noteq> ''DROP''"
  shows "loses_nothing processes w (snd (on_chunks P ios w p line body))"
proof -
  obtain t N W where w: "w = (t, N, W)" by (cases w) auto
  obtain d ans W' where net: "chunk_net P ios W p line body = ((d, ans), W')" by (metis surj_pair)
  have "world_holds k W \<subseteq> world_holds k W'" for k using net_removes [OF net] assms by fastforce
  then show ?thesis by (simp add: loses_nothing_def on_chunks_def w net)
qed

lemma hd_words: "CHR '' '' \<notin> set v \<Longrightarrow> hd (split_single_spaces (v @ CHR '' '' # s)) = v"
  by simp

lemma repair_lines_not_drop:
  "hd (split_single_spaces (have_line keys)) \<noteq> ''DROP''" "hd (split_single_spaces (''DIGEST '' @ words)) \<noteq> ''DROP''"
  "hd (split_single_spaces (store_line key body)) \<noteq> ''DROP''" "hd (split_single_spaces (put_line key n body)) \<noteq> ''DROP''"
proof -
  show "hd (split_single_spaces (have_line keys)) \<noteq> ''DROP''"
  proof (cases keys)
    case (Cons k ks)
    have "have_line keys = ''HAVE'' @ CHR '' '' # k @ concat (map (\<lambda>k. '' '' @ k) ks)" by (simp add: have_line_def Cons)
    then show ?thesis using hd_words [of "''HAVE''"] by simp
  qed (simp add: have_line_def)
  show "hd (split_single_spaces (''DIGEST '' @ words)) \<noteq> ''DROP''" using hd_words [of "''DIGEST''" words] by simp
  show "hd (split_single_spaces (store_line key body)) \<noteq> ''DROP''" using hd_words [of "''STORE''"] by (simp add: store_line_def)
  show "hd (split_single_spaces (put_line key n body)) \<noteq> ''DROP''" using hd_words [of "''PUT''"] by (simp add: put_line_def)
qed

interpretation system_repair: kept_by_repair "loses_nothing processes" "on_ring P ms" "on_chunks P ios" P for P ms ios
  by unfold_locales (simp_all only: line_not_drop_loses_nothing repair_lines_not_drop not_False_eq_True)

section \<open>The frames a round sends\<close>

text \<open>The calls of a round with every frame that is sent written down.\<close>

type_synonym SentFrame = "Peer \<times> string \<times> string"

definition logged_route :: "'w transport \<Rightarrow> ('w \<times> SentFrame list) transport" where
  "logged_route route = (\<lambda>(w, trail) p line. case route w p line of (r, w) \<Rightarrow> (r, (w, trail)))"

definition logged_send :: "'w frame_transport \<Rightarrow> ('w \<times> SentFrame list) frame_transport" where
  "logged_send send = (\<lambda>(w, trail) p line body. case send w p line body of (r, w) \<Rightarrow> (r, (w, trail @ [(p, line, body)])))"

text \<open>A frame without a body, or a chunk under its own key with its own length.\<close>

definition safe_frame :: "platform \<Rightarrow> SentFrame \<Rightarrow> bool" where
  "safe_frame P f \<longleftrightarrow> (case f of (_, line, body) \<Rightarrow>
     body_length line = BodyNone \<and> body = [] \<or> line = store_line (chunk_key P body) body \<or> line = put_line (chunk_key P body) 1 body)"

definition log_grows :: "platform \<Rightarrow> 'w \<times> SentFrame list \<Rightarrow> 'w \<times> SentFrame list \<Rightarrow> bool" where
  "log_grows P w w' \<longleftrightarrow> (\<exists>fs. snd w' = snd w @ fs \<and> list_all (safe_frame P) fs)"

lemma logged_send_grows: "safe_frame P (p, line, body) \<Longrightarrow> log_grows P w (snd (logged_send send w p line body))"
  by (cases w) (auto simp: log_grows_def logged_send_def split_def)

lemma no_body_lines:
  "body_length (''GET '' @ key) = BodyNone" "body_length (''DIGEST '' @ words) = BodyNone" "body_length (have_line keys) = BodyNone"
proof -
  show "body_length (''GET '' @ key) = BodyNone" "body_length (''DIGEST '' @ words) = BodyNone"
    by (simp_all add: body_length_def split_request_id_def starts_with_def)
  show "body_length (have_line keys) = BodyNone"
    by (cases keys) (simp_all add: have_line_def body_length_def split_request_id_def starts_with_def)
qed

interpretation sent_frames: kept_by_repair "log_grows P" "logged_route route" "logged_send send" P for P and route :: "'w transport" and send :: "'w frame_transport"
proof
  fix w w1 w2 w3 :: "'w \<times> SentFrame list" and p line key keys words body
  show "log_grows P w w" by (simp add: log_grows_def)
  show "log_grows P w1 w2 \<Longrightarrow> log_grows P w2 w3 \<Longrightarrow> log_grows P w1 w3" by (auto simp: log_grows_def)
  show "log_grows P w (snd (logged_route route w p line))" by (cases w) (simp add: log_grows_def logged_route_def split_def)
  show "log_grows P w (snd (logged_send send w p (''GET '' @ key) []))" "log_grows P w (snd (logged_send send w p (have_line keys) []))"
    "log_grows P w (snd (logged_send send w p (''DIGEST '' @ words) []))"
    by (rule logged_send_grows, simp only: safe_frame_def prod.case no_body_lines simp_thms)+
  show "chunk_key P body = key \<Longrightarrow> log_grows P w (snd (logged_send send w p (store_line key body) body))"
    "chunk_key P body = key \<Longrightarrow> log_grows P w (snd (logged_send send w p (put_line key 1 body) body))"
    by (rule logged_send_grows, simp add: safe_frame_def)+
qed

text \<open>
  C24. Repair never spreads corruption: every frame a round sends, to whatever process and in whatever
  state the local files are, either carries no body or is a STORE or PUT of a chunk under the key
  its bytes hash to, announcing its true length.
\<close>

theorem repair_sends_intact_chunks:
  "case repair_round P (logged_route route) (logged_send send) io scan_every st ((w, []), n) of
     (rep, st', (w', trail), n') \<Rightarrow> list_all (safe_frame P) trail"
proof -
  obtain rep st' w' trail n' where
    round: "repair_round P (logged_route route) (logged_send send) io scan_every st ((w, []), n) = (rep, st', (w', trail), n')"
    by (metis surj_pair)
  have "list_all (safe_frame P) trail"
  proof (cases "\<exists>store. cn_store n = Some store \<and> cn_members n \<noteq> []")
    case False
    then show ?thesis using round by (auto simp: repair_round_def split: option.splits list.splits)
  next
    case True
    then obtain store where n: "cn_store n = Some store" "cn_members n \<noteq> []" by blast
    from repair_round_run [OF round sent_frames.round.repair_steps_axioms n]
    have "log_grows P (w, []) (w', trail)" by auto
    then show ?thesis by (simp add: log_grows_def)
  qed
  then show ?thesis using round by simp
qed

section \<open>The local chunks\<close>

text \<open>A key of the index whose file is whole.\<close>

definition intact :: "platform \<Rightarrow> ChunkStore \<Rightarrow> string \<Rightarrow> bool" where
  "intact P s key \<longleftrightarrow> key \<in> set (cs_keys s) \<and>
     (case cs_files s key of None \<Rightarrow> False | Some body \<Rightarrow> chunk_key P body = key \<and> length body \<le> MAX_CHUNK)"

lemma intact_remove: "key \<noteq> k \<Longrightarrow> intact P (snd (store_remove unlinks k s)) key = intact P s key"
  by (simp add: intact_def store_remove_def Let_def)

lemma intact_put:
  assumes "intact P s key"
  shows "intact P (snd (store_put P io now k body s)) key"
  using assms
  by (auto simp: intact_def store_put_def put_check_def put_file_def put_index_def Let_def split: option.splits prod.splits if_splits bool.splits)

lemma intact_found:
  assumes "platform_ok P" "intact P s key"
  obtains body where "store_get True True s key = GFound body" "chunk_key P body = key"
proof -
  obtain body where b: "cs_files s key = Some body" "chunk_key P body = key" "length body \<le> MAX_CHUNK"
    using assms(2) by (auto simp: intact_def split: option.splits)
  then have "valid_key key" using valid_chunk_key [OF assms(1), of body] by simp
  then show thesis using that [of body] b by (simp add: store_get_def)
qed

text \<open>While the disk can be read, a round keeps every intact chunk.\<close>

definition keeps_copies :: "'w RepairEnv \<Rightarrow> 'w RepairRun \<Rightarrow> 'w RepairRun \<Rightarrow> bool" where
  "keeps_copies e r r' \<longleftrightarrow>
     platform_ok (rv_platform e) \<and> (\<forall>i. ri_opens (rv_io e) i \<and> ri_reads (rv_io e) i) \<longrightarrow>
     (\<forall>key. intact (rv_platform e) (rr_store r) key \<longrightarrow> intact (rv_platform e) (rr_store r') key)"

lemma replace_corrupt_store:
  "\<exists>s. rr_store (replace_corrupt e key r) = s \<and>
     (s = snd (store_remove (ri_unlinks (rv_io e) (rr_visit r)) key (rr_store r)) \<or>
      (\<exists>io now body. s = snd (store_put (rv_platform e) io now key body (snd (store_remove (ri_unlinks (rv_io e) (rr_visit r)) key (rr_store r))))))"
proof -
  let ?s = "snd (store_remove (ri_unlinks (rv_io e) (rr_visit r)) key (rr_store r))"
  obtain good w where g: "get_chunk (rv_platform e) (rv_route e) (rv_send e) (rv_start e) key 2 (rr_world r) = (good, w)" by (metis surj_pair)
  obtain x s where p: "store_put (rv_platform e) (ri_put (rv_io e) (rr_visit r)) (ri_now (rv_io e) (rr_visit r)) key (go_body good) ?s = (x, s)"
    by (metis surj_pair)
  have "rr_store (replace_corrupt e key r) = (if go_ok good then s else ?s)" by (simp add: replace_corrupt_def note_report_def Let_def g p)
  then show ?thesis using p by (cases "go_ok good") (auto, metis snd_conv)
qed

lemma replace_corrupt_keeps:
  assumes "\<And>body. store_get (ri_opens (rv_io e) (rr_visit r)) (ri_reads (rv_io e) (rr_visit r)) (rr_store r) key = GFound body \<Longrightarrow>
    chunk_key (rv_platform e) body \<noteq> key"
  shows "keeps_copies e r (replace_corrupt e key r)"
  unfolding keeps_copies_def
proof (intro impI allI)
  fix k
  assume ok: "platform_ok (rv_platform e) \<and> (\<forall>i. ri_opens (rv_io e) i \<and> ri_reads (rv_io e) i)" and k: "intact (rv_platform e) (rr_store r) k"
  have "k \<noteq> key" using assms intact_found [of "rv_platform e" "rr_store r" k] ok k by fastforce
  then have "intact (rv_platform e) (snd (store_remove (ri_unlinks (rv_io e) (rr_visit r)) key (rr_store r))) k" using k intact_remove by blast
  then show "intact (rv_platform e) (rr_store (replace_corrupt e key r)) k"
    using replace_corrupt_store [of e key r] intact_put by fastforce
qed

interpretation copies: repair_steps "keeps_copies e" e for e
proof
  fix r :: "'a RepairRun" and key
  assume "\<And>body. store_get (ri_opens (rv_io e) (rr_visit r)) (ri_reads (rv_io e) (rr_visit r)) (rr_store r) key = GFound body \<Longrightarrow>
    chunk_key (rv_platform e) body \<noteq> key"
  then show "keeps_copies e r (replace_corrupt e key r)" by (rule replace_corrupt_keeps)
qed (auto simp: keeps_copies_def note_report_def next_visit_def)

text \<open>
  C23. Repair makes copies and never costs one. After a round, whatever the other processes answered,
  every process that held a chunk still holds it, and every local chunk that was whole is still
  there and whole, provided the local disk could be read. The last condition is needed:
  \<^verbatim>\<open>unread_chunk_scrubbed\<close>.
\<close>

theorem repair_keeps_copies:
  assumes "platform_ok P" and "\<forall>i. ri_opens io i \<and> ri_reads io i"
    and "repair_round P (on_ring P ms) (on_chunks P ios) io scan_every st (w, n) = (rep, st', w', n')"
    and "cn_store n = Some store" and "intact P store key"
  shows "(\<forall>k. world_holds k (processes w) \<subseteq> world_holds k (processes w')) \<and>
    (\<exists>store'. cn_store n' = Some store' \<and> intact P store' key)"
proof (cases "cn_members n = []")
  case True
  then show ?thesis using assms(3-5) by (auto simp: repair_round_def)
next
  case False
  note part = repair_round_run [OF assms(3) _ assms(4) False]
  have "loses_nothing processes w w'" using part [OF system_repair.round.repair_steps_axioms] by auto
  moreover have "\<exists>store'. cn_store n' = Some store' \<and> intact P store' key"
  proof -
    define Q :: "'a system_world RepairRun \<Rightarrow> 'a system_world RepairRun \<Rightarrow> bool" where
      "Q = (\<lambda>r r'. \<forall>key. intact P (rr_store r) key \<longrightarrow> intact P (rr_store r') key)"
    have "keeps_copies \<lparr>rv_platform = P, rv_route = on_ring P ms, rv_send = on_chunks P ios, rv_start = start, rv_io = io\<rparr> = Q" for start
      using assms(1,2) by (intro ext) (simp add: Q_def keeps_copies_def)
    then have "repair_steps Q \<lparr>rv_platform = P, rv_route = on_ring P ms, rv_send = on_chunks P ios, rv_start = start, rv_io = io\<rparr>" for start
      using copies.repair_steps_axioms by metis
    from part [OF this] show ?thesis using assms(5) unfolding Q_def by auto
  qed
  ultimately show ?thesis by (simp add: loses_nothing_def)
qed

lemma intact_sample: "intact sample_platform (snd (store_put sample_platform good_io 50 sample_key sample_chunk empty_store)) sample_key"
  using sample_key_valid sample_chunk_small
  by (simp add: store_put_def put_check_def put_file_def put_index_def good_io_def empty_store_def Let_def intact_def) (simp add: sample_key_def)

text \<open>A process that holds one chunk and has a member of a ring, with a disk that works.\<close>

definition kept_process :: ChunkNode where
  "kept_process = sample_process\<lparr>cn_store := Some (snd (store_put sample_platform good_io 50 sample_key sample_chunk empty_store))\<rparr>"

definition calm_disk :: RepairIo where
  "calm_disk = \<lparr>ri_opens = (\<lambda>_. True), ri_reads = (\<lambda>_. True), ri_unlinks = (\<lambda>_. True), ri_put = (\<lambda>_. good_io), ri_now = (\<lambda>_. 60)\<rparr>"

theorem repair_keeps_copies_witness:
  "\<exists>rep st' w' n'. repair_round sample_platform (on_ring sample_platform []) (on_chunks sample_platform (\<lambda>_. sample_io)) calm_disk 1
       \<lparr>rt_checked = Map.empty, rt_round = 0\<rparr> (((), (Map.empty, node_init (sample_peer 3 9001) 8), piece_world), kept_process) = (rep, st', w', n') \<and>
     process (sample_peer 3 9001) \<in> world_holds sample_piece (processes w') \<and>
     (\<exists>store'. cn_store n' = Some store' \<and> intact sample_platform store' sample_key)"
proof -
  let ?w = "((), (Map.empty, node_init (sample_peer 3 9001) 8), piece_world)"
  let ?store = "snd (store_put sample_platform good_io 50 sample_key sample_chunk empty_store)"
  obtain rep st' w' n' where r: "repair_round sample_platform (on_ring sample_platform []) (on_chunks sample_platform (\<lambda>_. sample_io)) calm_disk 1
       \<lparr>rt_checked = Map.empty, rt_round = 0\<rparr> (?w, kept_process) = (rep, st', w', n')" by (metis surj_pair)
  have "intact sample_platform ?store sample_key" by (simp add: intact_sample)
  moreover have "\<forall>i. ri_opens calm_disk i \<and> ri_reads calm_disk i" by (simp add: calm_disk_def)
  ultimately have "(\<forall>k. world_holds k (processes ?w) \<subseteq> world_holds k (processes w')) \<and>
      (\<exists>store'. cn_store n' = Some store' \<and> intact sample_platform store' sample_key)"
    by (intro repair_keeps_copies [OF sample_platform_ok _ r, of ?store]) (simp_all add: kept_process_def)
  moreover have "process (sample_peer 3 9001) \<in> world_holds sample_piece piece_world"
    by (simp add: world_holds_def piece_world_def piece_process_def node_holds_def store_has_def)
  ultimately show ?thesis using r by auto
qed

text \<open>
  A scrub cannot tell a file it failed to read from a corrupt one: when the read of a whole chunk fails
  and no other process gives the chunk back, the only copy is removed.
\<close>

lemma unread_chunk_scrubbed:
  assumes "cs_keys (rr_store r) = [key]" and "valid_key key"
    and "\<not> ri_reads (rv_io e) (rr_visit r)" and "ri_unlinks (rv_io e) (rr_visit r)"
    and "get_chunk (rv_platform e) (rv_route e) (rv_send e) (rv_start e) key 2 (rr_world r) = (gone, w)" and "\<not> go_ok gone"
  shows "cs_keys (rr_store (scrub e r)) = []" and "cs_files (rr_store (scrub e r)) key = None"
  using assms by (auto simp: scrub_def store_keys_def store_get_def replace_corrupt_def store_remove_def set_erase_def next_visit_def
      note_report_def Let_def split: option.splits)

end
