(* ===== verification/Spec2Isabelle.thy ===== *)
theory Spec2Isabelle
  imports Fixed_Ring Raft_Cluster Transfer_Sample Gc Node_Server Tracker_Server Repair_Props
begin

text \<open>
  The chord-dht-filesystem repository, verified: a file system over a ring of storage nodes.

  \<^bold>\<open>The system.\<close> A file is cut into chunks named by their SHA-1 digest; the chunks and the
  manifests that list them are stored on a Chord ring of nodes, each chunk on the process that owns
  its key and on the processes after it. A tracker, replicated by Raft, maps names to the key of the
  root manifest. A client stores the chunks first and the name last; a collector drops the chunks no
  name leads to; every node repairs its copies in rounds. All requests are lines of text, some
  followed by a body.

  \<^bold>\<open>Conventions.\<close> Structures are records and enums datatypes with the names of the source; 64-bit
  identifiers are \<open>64 word\<close>; strings and bodies are \<open>string\<close>. A function that changes state takes it and
  returns it; a failure is a value (\<open>option\<close>, a sum, or the outcome record of the source). Code under a
  lock is one step, and threads are sequences of such steps in any order. OpenSSL and the C library's
  addresses are a record \<open>platform\<close> with the hypothesis \<open>platform_ok\<close> (\<open>Platform\<close>); \<open>Sample_Platform\<close>
  shows that the hypothesis can hold. What the operating system does in one call (how many bytes a
  read moved, whether a rename succeeded, what the clock says, which thread runs) is an argument. Calls
  to other processes are transports: functions that take a world and return the answer with the next
  world.

  \<^bold>\<open>Theories and sources.\<close>
  \<^item> \<open>Prelude\<close>, \<open>Platform\<close>: numbers and words of text, the locales \<open>codec\<close> and \<open>strict_codec\<close> for wire
    formats, digests (\<^verbatim>\<open>sha1.h\<close>).
  \<^item> \<open>Chord\<close> (\<^verbatim>\<open>chord.cpp\<close>), \<open>Lookup\<close> (\<^verbatim>\<open>lookup.cpp\<close>), \<open>Fixed_Ring\<close> (the transport of \<^verbatim>\<open>sim_hops.cpp\<close>): arcs and
    fingers, the iterative lookup. The locale \<open>ring_router\<close> is what a lookup needs of a ring; both the
    fixed ring and the members of \<open>Stabilize\<close> interpret it. Shown: a lookup on correct tables ends at the
    owner, and any lookup is bounded and moves towards the key whatever it is answered.
  \<^item> \<open>Stabilize\<close>, \<open>Stabilize_Inv\<close>, \<open>Stabilize_Ring\<close> (\<^verbatim>\<open>stabilize.cpp\<close>): a member's tables, its requests, joining,
    stabilisation, finger repair, eviction. Shown: the invariant of the tables under every
    interleaving of the process's threads, no claim to own the ring it does not own, a correct ring
    stays correct.
  \<^item> \<open>Raft\<close>, \<open>Raft_Frames\<close>, \<open>Raft_Inv\<close> (\<^verbatim>\<open>raft.cpp\<close>), \<open>Raft_Wire\<close> (\<^verbatim>\<open>raft_wire.cpp\<close>), \<open>Raft_Storage\<close> (the interface
    \<^verbatim>\<open>Storage\<close> of \<^verbatim>\<open>raft.h\<close> as the locale \<open>durable_storage\<close>), \<open>Raft_Log\<close> (\<^verbatim>\<open>raft_log.cpp\<close>, which interprets it),
    \<open>Raft_Replica\<close>: the core of one replica with its file. Shown: what a replica answered from is on
    disk, a restart and a crash find it again, one vote per term, entries applied in order and once.
    \<open>Raft_Group\<close> puts replicas together over a network that loses, delays, repeats and reorders, with crashes:
    no two replicas ever lead in one term, even if requests are forged.
  \<^item> \<open>Raft_History\<close>, \<open>Raft_Views\<close>, \<open>Raft_Moves\<close>, \<open>Raft_Turns\<close>, \<open>Raft_Crash\<close>, \<open>Raft_Cluster\<close>: state machine safety of the
    group. A \<open>History\<close> has the votes, candidates, leaders with their logs, and acknowledgements so far; it is no
    part of the model, only of the invariant, which says that some history fits the replicas, their
    disks and the messages. \<open>Raft_History\<close> shows that in every history a later leader has what was committed
    before; the next theories show that every handler of \<^verbatim>\<open>raft.cpp\<close> extends the history, and \<open>Raft_Crash\<close> that
    a save torn by a crash leaves a state (\<open>recovers\<close>) that still fits. Shown: no two replicas ever apply
    different entries at one index.
  \<^item> \<open>Names\<close> (\<^verbatim>\<open>names.cpp\<close>), \<open>Paging\<close>, \<open>Group\<close> (\<^verbatim>\<open>group.cpp\<close>), \<open>Replica\<close> (\<^verbatim>\<open>replica.cpp\<close>), \<open>Tracker_Server\<close> (\<^verbatim>\<open>tracker.cpp\<close>):
    the namespace as a state machine and its abstract map, the client's loop over the replicas, the
    replica's request, ticker and sender threads, one connection of the tracker.
  \<^item> \<open>Store\<close> (\<^verbatim>\<open>store.cpp\<close>), \<open>Chunk\<close>, \<open>Chunk_Props\<close> (\<^verbatim>\<open>chunk.cpp\<close>): the content-addressed store, the coordinator
    of a write, verified reads, drops. Shown: the store's invariant, acknowledged writes have their
    copies, reads are verified, only an authorised drop of an old chunk removes anything.
  \<^item> \<open>Manifest\<close>, \<open>Manifest_Text\<close>, \<open>Manifest_Tree\<close>, \<open>Pool\<close>, \<open>File_Transfer\<close>, \<open>Transfer_Props\<close>, \<open>Round_Trip\<close>,
    \<open>Transfer_Sample\<close> (\<^verbatim>\<open>transfer.cpp\<close>): manifests and their trees, the worker pool under every schedule, whole
    uploads and downloads. Shown: one spelling per manifest, trees that tile their file, a download
    that succeeds is exact, one that fails leaves the files alone, what was uploaded downloads again.
  \<^item> \<open>Collect\<close>, \<open>Collect_Props\<close> (\<^verbatim>\<open>collect.cpp\<close>), \<open>Gc\<close> (\<^verbatim>\<open>gc_main.cpp\<close>), \<open>World_Order\<close>: the collection and its program. The
    locales \<open>kept_by_routing\<close>, \<open>kept_by_chunk_reads\<close>, \<open>kept_by_reads\<close> and \<open>kept_by_group\<close> carry a relation between
    worlds, such as \<open>no process lost a chunk\<close>, from single exchanges to whole operations.
  \<^item> \<open>Repair\<close>, \<open>Repair_Props\<close> (\<^verbatim>\<open>repair.cpp\<close>): the repair round. The locales \<open>repair_steps\<close> and \<open>kept_by_repair\<close>
    carry a relation through a round. Shown: only intact chunks are sent, no copy is lost.
  \<^item> \<open>Net\<close>, \<open>Net_Props\<close> (\<^verbatim>\<open>net.cpp\<close>, request ids of \<^verbatim>\<open>log.cpp\<close>), \<open>Framed\<close>, \<open>Node_Server\<close> (\<^verbatim>\<open>serve\<close> of \<^verbatim>\<open>node.cpp\<close>): lines and
    bodies over a byte stream, and servers that stay in step with it (locale \<open>framed_server\<close>).

  \<^bold>\<open>Loops and bounds.\<close> Loops over data are structural or have a measure. A lookup has the source's bound
  \<open>MAX_REQUESTS\<close>, and the proofs show it is enough. The client's loop over the replicas is bounded by
  its own clock (\<open>ask_group_returns\<close>). The loops of the collector that page through answers of other
  processes may run for ever; they are \<open>partial_function\<close>s into \<open>option\<close>. A loop over system calls
  takes the list of their outcomes, and \<open>None\<close> says the list ended first; \<open>frame_arrives\<close> and
  \<open>pool_finishes\<close> show how long a list is enough.

  \<^bold>\<open>Not modelled.\<close> Opening sockets, starting threads and the accept loops (system calls only); the text
  printed for people and the log lines; the metrics (\<^verbatim>\<open>metrics.cpp\<close>) and the listener that serves them
  (\<^verbatim>\<open>http.cpp\<close>); the command line of the node (\<^verbatim>\<open>main\<close> of \<^verbatim>\<open>node.cpp\<close>) and the programs \<^verbatim>\<open>client.cpp\<close>, \<^verbatim>\<open>chunk_main.cpp\<close>,
  \<^verbatim>\<open>lookup_main.cpp\<close>, \<^verbatim>\<open>sim_balance.cpp\<close> and the reporting half of \<^verbatim>\<open>sim_hops.cpp\<close>.
\<close>

end
